(* ===== verification/Dht_Prelude.thy ===== *)
theory Dht_Prelude
  imports Complex_Main "HOL-Library.Word" "HOL-Library.List_Lexorder" "HOL-Library.AList" "HOL-Library.Multiset"
begin

text \<open>
  Shared vocabulary of the development: bytes and byte arrays (\<open>QByteArray\<close>), ASCII literals,
  the decimal printer \<open>QByteArray::number\<close>, big-endian packing, hash tables (\<open>QHash\<close> and
  \<open>std::unordered_map\<close>) as association lists in iteration order, and the generic list lemmas the
  component theories rely on.

  A hash table is an association list with distinct keys. Its order stands for the iteration order
  of the container, which the program never fixes: the model adds a new key at the end and keeps the
  order of the others, and the theorems quantify over the stored list, so that they do not rest on a
  particular order (which of two equally old entries is evicted, say).
\<close>

unbundle bit_operations_syntax

named_theorems dht_simps \<open>unfolding rules shared by the components\<close>
named_theorems dht_inv \<open>invariant preservation facts\<close>

section \<open>Bytes\<close>

type_synonym byte = "8 word"
type_synonym bytes = "8 word list"

definition ascii :: "string \<Rightarrow> bytes" where
  "ascii s = map of_char s"

text \<open>\<open>QByteArray::number\<close> for non-negative and for signed values: decimal digits, most
  significant first, with a leading minus sign where needed.\<close>

fun digits10 :: "nat \<Rightarrow> bytes" where
  "digits10 n = (if n < 10 then [of_nat n + 48] else digits10 (n div 10) @ [of_nat (n mod 10) + 48])"

declare digits10.simps [simp del]

definition number10 :: "int \<Rightarrow> bytes" where
  "number10 i = (if i < 0 then 45 # digits10 (nat (- i)) else digits10 (nat i))"

definition isDigit :: "byte \<Rightarrow> bool" where
  "isDigit c \<longleftrightarrow> 48 \<le> c \<and> c \<le> 57"

definition digitVal :: "byte \<Rightarrow> nat" where
  "digitVal c = unat (c - 48)"

text \<open>Value of a run of digits, most significant first.\<close>

definition decVal :: "nat \<Rightarrow> bytes \<Rightarrow> nat" where
  "decVal acc ds = foldl (\<lambda>a d. a * 10 + digitVal d) acc ds"

lemma ascii_length [simp]: "length (ascii s) = length s"
  by (simp add: ascii_def)

lemma decVal_Nil [simp]: "decVal acc [] = acc"
  by (simp add: decVal_def)

lemma decVal_Cons [simp]: "decVal acc (d # ds) = decVal (acc * 10 + digitVal d) ds"
  by (simp add: decVal_def)

lemma decVal_append: "decVal acc (ds @ es) = decVal (decVal acc ds) es"
  by (simp add: decVal_def)

lemma digit_char_digit: "d < 10 \<Longrightarrow> isDigit (of_nat d + 48)"
  unfolding isDigit_def by (simp add: word_le_nat_alt unat_word_ariths unat_of_nat)

lemma digit_char_val: "d < 10 \<Longrightarrow> digitVal (of_nat d + 48) = d"
  by (simp add: digitVal_def unat_of_nat)

lemma digitVal_less: "isDigit c \<Longrightarrow> digitVal c < 10"
  unfolding isDigit_def digitVal_def by unat_arith

lemma digit_char_of_val: "isDigit c \<Longrightarrow> of_nat (digitVal c) + 48 = c"
  unfolding digitVal_def by simp

lemma digitVal_zero: "isDigit c \<Longrightarrow> digitVal c = 0 \<longleftrightarrow> c = 48"
  unfolding digitVal_def by (simp add: unat_eq_0)

lemma digits10_nonempty [simp]: "digits10 n \<noteq> []"
  by (subst digits10.simps) simp

lemma digits10_digits: "\<forall>c \<in> set (digits10 n). isDigit c"
proof (induction n rule: digits10.induct)
  case (1 n)
  show ?case
  proof (cases "n < 10")
    case True
    then show ?thesis using digit_char_digit [of n] by (simp add: digits10.simps [of n])
  next
    case False
    have "isDigit (of_nat (n mod 10) + 48)" using digit_char_digit [of "n mod 10"] by simp
    with False "1.IH" show ?thesis by (auto simp: digits10.simps [of n])
  qed
qed

lemma decVal_digits10: "decVal 0 (digits10 n) = n"
proof (induction n rule: digits10.induct)
  case (1 n)
  show ?case
  proof (cases "n < 10")
    case True
    then show ?thesis using digit_char_val [of n] by (simp add: digits10.simps [of n])
  next
    case False
    have "digitVal (of_nat (n mod 10) + 48) = n mod 10" using digit_char_val [of "n mod 10"] by simp
    with False "1.IH" show ?thesis by (simp add: digits10.simps [of n] decVal_append)
  qed
qed

lemma digits10_hd_zero: "hd (digits10 n) = 48 \<longleftrightarrow> n = 0"
proof (induction n rule: digits10.induct)
  case (1 n)
  show ?case
  proof (cases "n < 10")
    case True
    have "digitVal (of_nat n + 48) = n" using digit_char_val [OF True] .
    then have "of_nat n + 48 = (48::byte) \<longleftrightarrow> n = 0"
      by (auto simp: digitVal_def)
    with True show ?thesis by (simp add: digits10.simps [of n])
  next
    case False
    with "1.IH" show ?thesis by (simp add: digits10.simps [of n])
  qed
qed

text \<open>A run of digits without a superfluous leading zero is the decimal print of its value.\<close>

lemma decVal_pos: "ds \<noteq> [] \<Longrightarrow> \<forall>c \<in> set ds. isDigit c \<Longrightarrow> hd ds \<noteq> 48 \<Longrightarrow> 0 < decVal 0 ds"
proof (induction ds rule: rev_induct)
  case Nil
  then show ?case by simp
next
  case (snoc d ds)
  show ?case
  proof (cases "ds = []")
    case True
    with snoc.prems show ?thesis by (auto simp: digitVal_zero intro: Nat.gr0I)
  next
    case False
    with snoc show ?thesis by (simp add: decVal_append)
  qed
qed

lemma digits10_decVal:
  "ds \<noteq> [] \<Longrightarrow> \<forall>c \<in> set ds. isDigit c \<Longrightarrow> length ds = 1 \<or> hd ds \<noteq> 48 \<Longrightarrow> digits10 (decVal 0 ds) = ds"
proof (induction ds rule: rev_induct)
  case Nil
  then show ?case by simp
next
  case (snoc d ds)
  then have d: "digitVal d < 10" "of_nat (digitVal d) + 48 = d"
    by (simp_all add: digitVal_less digit_char_of_val)
  show ?case
  proof (cases "ds = []")
    case True
    with d show ?thesis by (simp add: digits10.simps)
  next
    case False
    with snoc.prems have hd: "hd ds \<noteq> 48" "\<forall>c \<in> set ds. isDigit c" by auto
    with False have pos: "0 < decVal 0 ds" by (intro decVal_pos)
    from False hd snoc.IH have "digits10 (decVal 0 ds) = ds" by blast
    with pos d show ?thesis by (simp add: decVal_append digits10.simps [of "decVal 0 ds * 10 + digitVal d"])
  qed
qed

section \<open>Big-endian packing\<close>

text \<open>\<open>qToBigEndian\<close> and \<open>qFromBigEndian\<close> for 16 and 32 bits.\<close>

definition be16 :: "16 word \<Rightarrow> bytes" where
  "be16 w = [ucast (drop_bit 8 w), ucast w]"

definition be32 :: "32 word \<Rightarrow> bytes" where
  "be32 w = [ucast (drop_bit 24 w), ucast (drop_bit 16 w), ucast (drop_bit 8 w), ucast w]"

fun from16 :: "bytes \<Rightarrow> 16 word" where
  "from16 [a, b] = push_bit 8 (ucast a) OR ucast b"
| "from16 _ = 0"

fun from32 :: "bytes \<Rightarrow> 32 word" where
  "from32 [a, b, c, d] =
     push_bit 24 (ucast a) OR push_bit 16 (ucast b) OR push_bit 8 (ucast c) OR ucast d"
| "from32 _ = 0"

lemma be16_length [simp]: "length (be16 w) = 2"
  by (simp add: be16_def)

lemma be32_length [simp]: "length (be32 w) = 4"
  by (simp add: be32_def)

lemma from16_be16 [simp]: "from16 (be16 w) = w"
  by (rule bit_word_eqI) (auto simp: be16_def bit_simps)

lemma from32_be32 [simp]: "from32 (be32 w) = w"
proof (rule bit_word_eqI)
  fix n assume "n < LENGTH(32)"
  then consider "n < 8" | "8 \<le> n" "n < 16" | "16 \<le> n" "n < 24" | "24 \<le> n" "n < 32" by force
  then show "bit (from32 (be32 w)) n = bit w n"
    by cases (auto simp: be32_def bit_simps)
qed

lemma byte_bit_high: "8 \<le> n \<Longrightarrow> \<not> bit (b :: byte) n"
  using bit_imp_le_length [of b n] by auto

lemma be16_from16: "length bs = 2 \<Longrightarrow> be16 (from16 bs) = bs"
  by (cases bs rule: from16.cases) (auto simp: be16_def bit_simps byte_bit_high intro!: bit_word_eqI)

lemma be32_from32: "length bs = 4 \<Longrightarrow> be32 (from32 bs) = bs"
  by (cases bs rule: from32.cases) (auto simp: be32_def bit_simps byte_bit_high intro!: bit_word_eqI)

section \<open>Ordering with a comparator\<close>

text \<open>
  \<open>std::lower_bound\<close> followed by \<open>insert\<close> puts an element before the first one it does not have
  to follow; \<open>std::sort\<close> and \<open>std::partial_sort\<close> order by repeated insertion (the standard leaves
  the order of equivalent elements open; the model keeps it).
\<close>

fun insert_sorted :: "('a \<Rightarrow> 'a \<Rightarrow> bool) \<Rightarrow> 'a \<Rightarrow> 'a list \<Rightarrow> 'a list" where
  "insert_sorted lt x [] = [x]"
| "insert_sorted lt x (y # ys) = (if lt y x then y # insert_sorted lt x ys else x # y # ys)"

definition sort_by :: "('a \<Rightarrow> 'a \<Rightarrow> bool) \<Rightarrow> 'a list \<Rightarrow> 'a list" where
  "sort_by lt xs = foldr (insert_sorted lt) xs []"

lemma set_insert_sorted [simp]: "set (insert_sorted lt x xs) = insert x (set xs)"
  by (induction xs) auto

lemma mset_insert_sorted [simp]: "mset (insert_sorted lt x xs) = add_mset x (mset xs)"
  by (induction xs) auto

lemma length_insert_sorted [simp]: "length (insert_sorted lt x xs) = Suc (length xs)"
  by (induction xs) auto

lemma filter_insert_sorted: "\<not> P x \<Longrightarrow> filter P (insert_sorted lt x xs) = filter P xs"
  by (induction xs) auto

lemma mset_sort_by [simp]: "mset (sort_by lt xs) = mset xs"
  by (induction xs) (simp_all add: sort_by_def)

lemma set_sort_by [simp]: "set (sort_by lt xs) = set xs"
  by (metis mset_sort_by set_mset_mset)

lemma length_sort_by [simp]: "length (sort_by lt xs) = length xs"
  by (metis mset_sort_by size_mset)

text \<open>What the standard algorithms ask of a comparator: a strict weak ordering on the elements
  that occur.\<close>

locale strict_weak_order =
  fixes ok :: "'a \<Rightarrow> bool"
    and lt :: "'a \<Rightarrow> 'a \<Rightarrow> bool"
  assumes lt_asym: "ok x \<Longrightarrow> ok y \<Longrightarrow> lt x y \<Longrightarrow> \<not> lt y x"
    and lt_negtrans: "ok x \<Longrightarrow> ok y \<Longrightarrow> ok z \<Longrightarrow> \<not> lt x y \<Longrightarrow> \<not> lt y z \<Longrightarrow> \<not> lt x z"
begin

lemma sorted_insert:
  assumes "\<forall>y \<in> set xs. ok y" "ok x" "sorted_wrt (\<lambda>a b. \<not> lt b a) xs"
  shows "sorted_wrt (\<lambda>a b. \<not> lt b a) (insert_sorted lt x xs)"
  using assms
proof (induction xs)
  case Nil
  then show ?case by simp
next
  case (Cons y ys)
  show ?case
  proof (cases "lt y x")
    case True
    with Cons show ?thesis by (auto dest: lt_asym)
  next
    case False
    with Cons.prems have "\<forall>z \<in> set ys. \<not> lt z x" using lt_negtrans [of _ y x] by auto
    with False Cons.prems show ?thesis by simp
  qed
qed

lemma sorted_sort: "\<forall>y \<in> set xs. ok y \<Longrightarrow> sorted_wrt (\<lambda>a b. \<not> lt b a) (sort_by lt xs)"
proof (induction xs)
  case Nil
  then show ?case by (simp add: sort_by_def)
next
  case (Cons x xs)
  then have "\<forall>y \<in> set (sort_by lt xs). ok y" "ok x" by auto
  with Cons show ?case using sorted_insert [of "sort_by lt xs" x] by (simp add: sort_by_def)
qed

text \<open>\<open>std::partial_sort\<close>: nothing left out precedes anything kept.\<close>

lemma take_sort_least:
  assumes "\<forall>y \<in> set xs. ok y" "a \<in> set (take n (sort_by lt xs))" "b \<in> set (drop n (sort_by lt xs))"
  shows "\<not> lt b a"
proof -
  have "sorted_wrt (\<lambda>a b. \<not> lt b a) (take n (sort_by lt xs) @ drop n (sort_by lt xs))"
    using sorted_sort [OF assms(1)] by simp
  with assms(2,3) show ?thesis unfolding sorted_wrt_append by blast
qed

end

text \<open>A comparator that only ties elements with the same key: sorting elements with distinct keys
  gives a strictly ordered list.\<close>

locale strict_key_order = strict_weak_order +
  fixes key :: "'a \<Rightarrow> 'k"
  assumes lt_total: "ok x \<Longrightarrow> ok y \<Longrightarrow> key x \<noteq> key y \<Longrightarrow> lt x y \<or> lt y x"
begin

lemma sorted_strict:
  "\<forall>y \<in> set xs. ok y \<Longrightarrow> distinct (map key xs) \<Longrightarrow> sorted_wrt (\<lambda>a b. \<not> lt b a) xs \<Longrightarrow> sorted_wrt lt xs"
proof (induction xs)
  case (Cons x xs)
  then have "lt x y" if "y \<in> set xs" for y
    using lt_total [of x y] that by (auto simp: image_iff)
  with Cons show ?case by simp
qed simp

lemma sort_strict:
  assumes "\<forall>y \<in> set xs. ok y" "distinct (map key xs)"
  shows "sorted_wrt lt (sort_by lt xs)"
proof (rule sorted_strict)
  show "distinct (map key (sort_by lt xs))" using assms(2) by (metis mset_eq_imp_distinct_iff mset_map mset_sort_by)
qed (use assms sorted_sort in auto)

lemma take_sort_strict:
  assumes "\<forall>y \<in> set xs. ok y" "distinct (map key xs)" "a \<in> set (take n (sort_by lt xs))"
    "b \<in> set xs" "b \<notin> set (take n (sort_by lt xs))"
  shows "lt a b"
proof -
  have "set xs = set (take n (sort_by lt xs)) \<union> set (drop n (sort_by lt xs))"
    by (metis append_take_drop_id set_append set_sort_by)
  with assms(4,5) have "b \<in> set (drop n (sort_by lt xs))" by blast
  moreover have "sorted_wrt lt (take n (sort_by lt xs) @ drop n (sort_by lt xs))"
    using sort_strict [OF assms(1,2)] by simp
  ultimately show ?thesis using assms(3) unfolding sorted_wrt_append by blast
qed

end

lemma disjoint_subset: "A \<subseteq> B \<Longrightarrow> B \<inter> C = {} \<Longrightarrow> A \<inter> C = {}"
  by blast

lemma subset_chain: "X \<subseteq> P \<union> B \<Longrightarrow> P \<subseteq> A \<union> E \<Longrightarrow> E \<subseteq> B \<Longrightarrow> X \<subseteq> A \<union> B"
  by blast

lemma distinct_concat_nth:
  assumes "\<And>i. i < length xss \<Longrightarrow> distinct (xss ! i)"
    and "\<And>i j. i < j \<Longrightarrow> j < length xss \<Longrightarrow> set (xss ! i) \<inter> set (xss ! j) = {}"
  shows "distinct (concat xss)"
  using assms
proof (induction xss)
  case (Cons xs xss)
  have "distinct (concat xss)"
    by (rule Cons.IH) (use Cons.prems(1) [of "Suc _"] Cons.prems(2) [of "Suc _" "Suc _"] in auto)
  moreover have "set xs \<inter> set ys = {}" if "ys \<in> set xss" for ys
    using that Cons.prems(2) [of 0 "Suc _"] by (auto simp: in_set_conv_nth)
  ultimately show ?case using Cons.prems(1) [of 0] by auto
qed simp

section \<open>Association lists\<close>

lemma length_update:
  "length (AList.update k v xs) = (if map_of xs k = None then Suc (length xs) else length xs)"
  by (induction xs) auto

lemma length_update_le: "length (AList.update k v xs) \<le> Suc (length xs)"
  by (induction xs) auto

lemma keys_update_old:
  "map_of xs k = Some v \<Longrightarrow> fst ` set (AList.update k w xs) = fst ` set xs"
  by (induction xs) (auto split: if_splits)

lemma keys_update: "fst ` set (AList.update k v xs) = insert k (fst ` set xs)"
  by (induction xs) auto

lemma keys_delete: "fst ` set (AList.delete k xs) = fst ` set xs - {k}"
  by (auto simp: AList.delete_eq image_iff)

lemma map_fst_update_new: "map_of xs k = None \<Longrightarrow> AList.update k v xs = xs @ [(k, v)]"
  by (induction xs) (auto split: if_splits)

lemma set_update_subset: "set (AList.update k v xs) \<subseteq> insert (k, v) (set xs)"
  by (induction xs) auto

lemma update_distinct_member:
  "distinct (map fst xs) \<Longrightarrow> (k', v') \<in> set (AList.update k v xs) \<Longrightarrow> (k' = k \<and> v' = v) \<or> (k' \<noteq> k \<and> (k', v') \<in> set xs)"
  by (induction xs) (auto split: if_splits simp: image_iff)

lemma map_of_filter_values: "distinct (map fst xs) \<Longrightarrow> map_of (filter (\<lambda>(k, v). P v) xs) k = (case map_of xs k of
    Some v \<Rightarrow> if P v then Some v else None | None \<Rightarrow> None)"
  by (induction xs) (auto simp: map_of_eq_None_iff image_iff split: option.splits)

lemma length_delete: "distinct (map fst xs) \<Longrightarrow> k \<in> fst ` set xs \<Longrightarrow> Suc (length (AList.delete k xs)) = length xs"
proof (induction xs)
  case (Cons x xs)
  show ?case
  proof (cases "fst x = k")
    case True
    with Cons.prems(1) have "AList.delete k xs = xs" by auto
    with True show ?thesis by simp
  next
    case False
    with Cons show ?thesis by auto
  qed
qed simp

lemma delete_append_new: "k \<notin> fst ` set xs \<Longrightarrow> AList.delete k (xs @ [(k, v)]) = xs"
  by (induction xs) auto

lemma set_delete_subset: "set (AList.delete k xs) \<subseteq> set xs"
  by (auto simp: AList.delete_eq)

text \<open>Sum of a measure over the values.\<close>

definition alist_total :: "('v \<Rightarrow> int) \<Rightarrow> ('k \<times> 'v) list \<Rightarrow> int" where
  "alist_total f xs = sum_list (map (\<lambda>p. f (snd p)) xs)"

lemma alist_total_simps [simp]:
  "alist_total f [] = 0" "alist_total f (x # xs) = f (snd x) + alist_total f xs"
  "alist_total f (xs @ ys) = alist_total f xs + alist_total f ys"
  by (simp_all add: alist_total_def)

lemma alist_total_update:
  "map_of xs k = Some v \<Longrightarrow> distinct (map fst xs) \<Longrightarrow> alist_total f (AList.update k w xs) = alist_total f xs - f v + f w"
  by (induction xs) (auto split: if_splits)

lemma alist_total_delete:
  "map_of xs k = Some v \<Longrightarrow> distinct (map fst xs) \<Longrightarrow> alist_total f (AList.delete k xs) = alist_total f xs - f v"
proof (induction xs)
  case (Cons x xs)
  then show ?case by (cases "fst x = k") (auto split: if_splits)
qed simp

section \<open>First match in a list\<close>

text \<open>\<open>std::find_if\<close>: the index of the first element that satisfies the predicate.\<close>

fun find_index :: "('a \<Rightarrow> bool) \<Rightarrow> 'a list \<Rightarrow> nat option" where
  "find_index P [] = None"
| "find_index P (x # xs) = (if P x then Some 0 else map_option Suc (find_index P xs))"

lemma find_index_None: "find_index P xs = None \<longleftrightarrow> (\<forall>x \<in> set xs. \<not> P x)"
  by (induction xs) auto

lemma find_index_SomeD: "find_index P xs = Some i \<Longrightarrow> i < length xs \<and> P (xs ! i) \<and> (\<forall>j < i. \<not> P (xs ! j))"
proof (induction xs arbitrary: i)
  case (Cons x xs)
  then show ?case by (auto simp: nth_Cons split: if_splits nat.splits)
qed simp

lemma find_index_Some_ex: "find_index P xs = Some i \<Longrightarrow> \<exists>x \<in> set xs. P x"
  by (meson find_index_SomeD nth_mem)

lemma find_index_ex: "x \<in> set xs \<Longrightarrow> P x \<Longrightarrow> \<exists>i. find_index P xs = Some i"
  by (metis find_index_None not_Some_eq)

text \<open>Removal of the element at an index (\<open>vector::erase\<close>).\<close>

definition remove_nth :: "nat \<Rightarrow> 'a list \<Rightarrow> 'a list" where
  "remove_nth i xs = take i xs @ drop (Suc i) xs"

lemma length_remove_nth [simp]: "i < length xs \<Longrightarrow> length (remove_nth i xs) = length xs - 1"
  by (simp add: remove_nth_def)

lemma remove_nth_split: "i < length xs \<Longrightarrow> xs = take i xs @ xs ! i # drop (Suc i) xs"
  by (rule id_take_nth_drop)

lemma set_remove_nth: "set (remove_nth i xs) \<subseteq> set xs"
  by (auto simp: remove_nth_def dest: in_set_takeD in_set_dropD)

lemma mset_remove_nth: "i < length xs \<Longrightarrow> add_mset (xs ! i) (mset (remove_nth i xs)) = mset xs"
  by (subst (3) remove_nth_split [of i]) (simp_all add: remove_nth_def)

lemma remove_nth_map: "map f (remove_nth i xs) = remove_nth i (map f xs)"
  by (simp add: remove_nth_def take_map drop_map)

lemma distinct_remove_nth: "distinct xs \<Longrightarrow> distinct (remove_nth i xs)"
  by (auto simp: remove_nth_def set_take_disj_set_drop_if_distinct)

lemma nth_notin_remove_nth:
  assumes "distinct xs" "i < length xs"
  shows "xs ! i \<notin> set (remove_nth i xs)"
proof
  assume "xs ! i \<in> set (remove_nth i xs)"
  moreover have "distinct (take i xs @ xs ! i # drop (Suc i) xs)"
    using assms by (metis id_take_nth_drop)
  ultimately show False by (auto simp: remove_nth_def)
qed

text \<open>\<open>std::min_element\<close> and \<open>std::max_element\<close> by an integer key: the first index of an extreme element.\<close>

fun extreme_from :: "(int \<Rightarrow> int \<Rightarrow> bool) \<Rightarrow> ('a \<Rightarrow> int) \<Rightarrow> nat \<Rightarrow> int \<Rightarrow> nat \<Rightarrow> 'a list \<Rightarrow> nat" where
  "extreme_from better key best bestKey i [] = best"
| "extreme_from better key best bestKey i (x # xs) =
     (if better (key x) bestKey then extreme_from better key i (key x) (Suc i) xs
      else extreme_from better key best bestKey (Suc i) xs)"

definition min_index :: "('a \<Rightarrow> int) \<Rightarrow> 'a list \<Rightarrow> nat" where
  "min_index key xs = extreme_from (<) key 0 (key (hd xs)) 1 (tl xs)"

definition max_index :: "('a \<Rightarrow> int) \<Rightarrow> 'a list \<Rightarrow> nat" where
  "max_index key xs = extreme_from (>) key 0 (key (hd xs)) 1 (tl xs)"

lemma extreme_from_bound:
  "best < i \<Longrightarrow> extreme_from better key best bestKey i xs < i + length xs"
proof (induction xs arbitrary: best bestKey i)
  case (Cons x xs)
  then show ?case using Cons.IH [of i "Suc i" "key x"] Cons.IH [of best "Suc i" bestKey] by auto
qed simp

lemma min_index_bound: "xs \<noteq> [] \<Longrightarrow> min_index key xs < length xs"
  using extreme_from_bound [of 0 1 "(<)" key "key (hd xs)" "tl xs"] by (simp add: min_index_def)

lemma max_index_bound: "xs \<noteq> [] \<Longrightarrow> max_index key xs < length xs"
  using extreme_from_bound [of 0 1 "(>)" key "key (hd xs)" "tl xs"] by (simp add: max_index_def)

lemma extreme_from_min:
  assumes "zs ! best = b" "best < i" "\<forall>j < i. key b \<le> key (zs ! j)" "drop i zs = xs" "i \<le> length zs"
  shows "\<forall>j < length zs. key (zs ! extreme_from (<) key best (key b) i xs) \<le> key (zs ! j)"
  using assms
proof (induction xs arbitrary: best b i)
  case (Cons x xs)
  then have x: "zs ! i = x" "i < length zs" "drop (Suc i) zs = xs"
    by (metis nth_via_drop, metis drop_eq_Nil list.distinct(1) not_le, metis drop_Suc list.sel(3) tl_drop)
  show ?case
  proof (cases "key x < key b")
    case True
    with Cons x have "\<forall>j < length zs. key (zs ! extreme_from (<) key i (key x) (Suc i) xs) \<le> key (zs ! j)"
      by (intro Cons.IH) (auto simp: less_Suc_eq)
    with True show ?thesis by simp
  next
    case False
    with Cons x have "\<forall>j < length zs. key (zs ! extreme_from (<) key best (key b) (Suc i) xs) \<le> key (zs ! j)"
      by (intro Cons.IH) (auto simp: less_Suc_eq)
    with False show ?thesis by simp
  qed
qed simp

lemma min_index_least:
  assumes "x \<in> set xs"
  shows "key (xs ! min_index key xs) \<le> key x"
proof -
  from assms obtain j where "j < length xs" "xs ! j = x" by (auto simp: in_set_conv_nth)
  moreover have "\<forall>j < length xs. key (xs ! extreme_from (<) key 0 (key (hd xs)) 1 (tl xs)) \<le> key (xs ! j)"
    by (rule extreme_from_min) (use assms in \<open>cases xs; auto simp: drop_Suc\<close>)+
  ultimately show ?thesis by (auto simp: min_index_def)
qed

end
