(* ===== verification/NodeId.thy ===== *)
theory NodeId
  imports Dht_Prelude
begin

text \<open>
  \<^verbatim>\<open>dhtcore/include/dhtcore/NodeId.h\<close>, \<^verbatim>\<open>dhtcore/src/NodeId.cpp\<close>: 160-bit Kademlia identifiers.

  The \<open>std::array<quint8, 20>\<close> of the class is a byte list; \<open>wf_id\<close> says it has its twenty bytes,
  and every operation keeps that. Loops over the array index are recursions over the lists. The
  bytes \<open>QRandomGenerator\<close> returns are an argument (\<open>rnd\<close>) of the operations that draw them.
\<close>

type_synonym node_id = bytes

definition id_Size :: nat where
  "id_Size = 20"

definition id_Bits :: nat where
  "id_Bits = id_Size * 8"

definition wf_id :: "node_id \<Rightarrow> bool" where
  "wf_id x \<longleftrightarrow> length x = id_Size"

lemmas id_consts = id_Size_def id_Bits_def

section \<open>Operations\<close>

text \<open>A default-constructed identifier: all bytes zero.\<close>

definition nullId :: node_id where
  "nullId = replicate id_Size 0"

definition fromBytes :: "bytes \<Rightarrow> node_id option" where
  "fromBytes bs = (if length bs \<noteq> id_Size then None else Some bs)"

definition toBytes :: "node_id \<Rightarrow> bytes" where
  "toBytes x = x"

definition xorId :: "node_id \<Rightarrow> node_id \<Rightarrow> node_id" where
  "xorId a b = map2 (XOR) a b"

text \<open>\<open>std::countl_zero\<close> on a byte.\<close>

definition countl_zero :: "byte \<Rightarrow> nat" where
  "countl_zero x = length (takeWhile (\<lambda>i. \<not> bit x i) [7, 6, 5, 4, 3, 2, 1, 0])"

text \<open>The loop of \<open>commonPrefixLength\<close> from byte \<open>i\<close> on.\<close>

fun prefixFrom :: "nat \<Rightarrow> node_id \<Rightarrow> node_id \<Rightarrow> nat" where
  "prefixFrom i (a # as) (b # bs) =
     (let x = a XOR b in if x \<noteq> 0 then i * 8 + countl_zero x else prefixFrom (Suc i) as bs)"
| "prefixFrom i _ _ = id_Bits"

definition commonPrefixLength :: "node_id \<Rightarrow> node_id \<Rightarrow> nat" where
  "commonPrefixLength a b = prefixFrom 0 a b"

fun closer :: "node_id \<Rightarrow> node_id \<Rightarrow> node_id \<Rightarrow> bool" where
  "closer (t # ts) (a # as) (b # bs) =
     (let da = a XOR t; db = b XOR t in if da \<noteq> db then da < db else closer ts as bs)"
| "closer _ _ _ = False"

text \<open>One bit of the copy loops of \<open>randomWithPrefix\<close>: the bit of \<open>id\<close> that \<open>mask\<close> selects is
  replaced by the one of \<open>src\<close>.\<close>

definition putBit :: "node_id \<Rightarrow> node_id \<Rightarrow> nat \<Rightarrow> node_id" where
  "putBit nid src k =
     (let n = k div 8; mask = drop_bit (k mod 8) (0x80 :: byte)
      in nid[n := (nid ! n AND NOT mask) OR (src ! n AND mask)])"

primrec copyPrefix :: "nat \<Rightarrow> node_id \<Rightarrow> node_id \<Rightarrow> node_id" where
  "copyPrefix 0 base nid = nid"
| "copyPrefix (Suc k) base nid = putBit (copyPrefix k base nid) base k"

definition randomWithPrefix :: "node_id \<Rightarrow> node_id \<Rightarrow> int \<Rightarrow> bool \<Rightarrow> node_id" where
  "randomWithPrefix rnd base prefixBits exact =
     (let p = nat (max 0 (min prefixBits (int id_Bits)));
          out = copyPrefix p base rnd
      in if exact \<and> p < id_Bits then putBit out (map NOT base) p else out)"

section \<open>Well-formedness\<close>

lemma wf_nullId [simp]: "wf_id nullId"
  by (simp add: wf_id_def nullId_def)

lemma wf_fromBytes: "fromBytes bs = Some x \<Longrightarrow> wf_id x"
  by (auto simp: fromBytes_def wf_id_def split: if_splits)

lemma fromBytes_toBytes [simp]: "wf_id x \<Longrightarrow> fromBytes (toBytes x) = Some x"
  by (simp add: fromBytes_def toBytes_def wf_id_def)

lemma fromBytes_eq_Some: "fromBytes bs = Some x \<longleftrightarrow> x = bs \<and> wf_id bs"
  by (auto simp: fromBytes_def wf_id_def split: if_splits)

lemma xorId_length [simp]: "length (xorId a b) = min (length a) (length b)"
  by (simp add: xorId_def)

lemma putBit_length [simp]: "length (putBit nid src k) = length nid"
  by (simp add: putBit_def Let_def)

lemma copyPrefix_length [simp]: "length (copyPrefix k base nid) = length nid"
  by (induction k) simp_all

lemma randomWithPrefix_length [simp]: "length (randomWithPrefix rnd base p e) = length rnd"
  by (simp add: randomWithPrefix_def Let_def)

section \<open>The bits of an identifier\<close>

text \<open>Bit \<open>k\<close> counted from the most significant end, as the prefix loops count.\<close>

definition idBit :: "node_id \<Rightarrow> nat \<Rightarrow> bool" where
  "idBit x k = bit (x ! (k div 8)) (7 - k mod 8)"

lemma countl_zero_le: "countl_zero x \<le> 8"
  unfolding countl_zero_def by (rule order_trans [OF length_takeWhile_le]) simp

lemma byte_eq_iff: "(x :: byte) = y \<longleftrightarrow> (\<forall>i < 8. bit x (7 - i) = bit y (7 - i))"
proof
  assume *: "\<forall>i < 8. bit x (7 - i) = bit y (7 - i)"
  show "x = y"
  proof (rule bit_word_eqI)
    fix n assume "n < LENGTH(8)"
    then show "bit x n = bit y n" using spec [OF *, of "7 - n"] by simp
  qed
qed simp

lemma countl_zero_spec:
  assumes "x \<noteq> 0"
  shows "countl_zero x < 8" "bit x (7 - countl_zero x)" "i < countl_zero x \<Longrightarrow> \<not> bit x (7 - i)"
proof -
  have up: "[7, 6, 5, 4, 3, 2, 1, 0] = map (\<lambda>i. 7 - i) [0..<8]" by (simp add: upt_rec)
  have cz: "countl_zero x = length (takeWhile (\<lambda>i. \<not> bit x (7 - i)) [0..<8])"
    unfolding countl_zero_def up takeWhile_map by (simp add: o_def)
  from assms obtain k where k: "k < 8" "bit x (7 - k)" using byte_eq_iff [of x 0] by auto
  then have "\<not> (\<forall>i \<in> set [0..<8]. \<not> bit x (7 - i))" by auto
  then have "takeWhile (\<lambda>i. \<not> bit x (7 - i)) [0..<8] \<noteq> [0..<8]"
    by (simp only: takeWhile_eq_all_conv not_False_eq_True)
  then have lt: "length (takeWhile (\<lambda>i. \<not> bit x (7 - i)) [0..<8]) < length [0..<8]"
    by (metis length_takeWhile_le linorder_less_linear not_less take_all takeWhile_eq_take order_refl)
  then show "countl_zero x < 8" by (simp add: cz)
  from nth_length_takeWhile [OF lt] lt show "bit x (7 - countl_zero x)" by (simp add: cz)
  assume i: "i < countl_zero x"
  then have "takeWhile (\<lambda>i. \<not> bit x (7 - i)) [0..<8] ! i \<in> set (takeWhile (\<lambda>i. \<not> bit x (7 - i)) [0..<8])"
    by (simp add: cz)
  moreover have "takeWhile (\<lambda>i. \<not> bit x (7 - i)) [0..<8] ! i = i"
    using i lt by (simp add: cz takeWhile_nth)
  ultimately show "\<not> bit x (7 - i)" by (metis set_takeWhileD)
qed

text \<open>A byte whose first set bit comes later is the smaller one.\<close>

lemma byte_split_bit:
  assumes "c < 8" "\<forall>i < c. \<not> bit (x :: byte) (7 - i)"
  shows "unat x < 2 ^ (8 - c)"
proof -
  have "take_bit (8 - c) x = x"
  proof (rule bit_word_eqI)
    fix n assume n: "n < LENGTH(8)"
    show "bit (take_bit (8 - c) x) n = bit x n"
    proof (cases "n < 8 - c")
      case True
      then show ?thesis by (simp add: bit_take_bit_iff)
    next
      case False
      with n assms have "\<not> bit x (7 - (7 - n))" using spec [OF assms(2), of "7 - n"] by simp
      with n False show ?thesis by (simp add: bit_take_bit_iff)
    qed
  qed
  then have "unat x = take_bit (8 - c) (unat x)" by (metis unsigned_take_bit_eq)
  then show ?thesis by (metis take_bit_nat_less_exp)
qed

lemma countl_zero_less:
  assumes "x \<noteq> 0" "y \<noteq> 0" "countl_zero y < countl_zero x"
  shows "x < y"
proof -
  let ?c = "countl_zero y"
  from countl_zero_spec [OF assms(1)] assms(3) have "unat x < 2 ^ (8 - Suc ?c)"
    by (intro byte_split_bit) auto
  moreover have "2 ^ (7 - ?c) \<le> unat y"
  proof -
    have "bit (unat y) (7 - ?c)" using countl_zero_spec(2) [OF assms(2)] by (simp add: bit_unsigned_iff)
    then show ?thesis by (metis bit_iff_odd div_less even_zero not_less)
  qed
  ultimately show ?thesis by (simp add: word_less_nat_alt)
qed

lemma idBit_Cons:
  "idBit (a # as) k = (if k < 8 then bit a (7 - k) else idBit as (k - 8))"
proof (cases "k < 8")
  case False
  then obtain j where "k = j + 8" by (metis le_add_diff_inverse2 not_less)
  then show ?thesis by (simp add: idBit_def)
qed (simp add: idBit_def)

lemma byte_xor_zero: "(a :: byte) XOR b = 0 \<longleftrightarrow> a = b"
  by (metis bit.xor_self bit.xor_left_self xor.right_neutral)

lemma prefixFrom_spec:
  assumes "length a = length b"
  shows "(a = b \<and> prefixFrom i a b = id_Bits) \<or>
    (\<exists>k < 8 * length a. prefixFrom i a b = i * 8 + k \<and>
       (\<forall>j < k. idBit a j = idBit b j) \<and> idBit a k \<noteq> idBit b k)"
  using assms
proof (induction i a b rule: prefixFrom.induct)
  case (1 i a as b bs)
  show ?case
  proof (cases "a = b")
    case True
    with 1 consider "as = bs" "prefixFrom i (a # as) (b # bs) = id_Bits"
      | k where "k < 8 * length as" "prefixFrom i (a # as) (b # bs) = i * 8 + (k + 8)"
        "\<forall>j < k. idBit as j = idBit bs j" "idBit as k \<noteq> idBit bs k"
      by (auto simp: algebra_simps)
    then show ?thesis
    proof cases
      case 1
      with True show ?thesis by simp
    next
      case (2 k)
      then have "\<forall>j < k + 8. idBit (a # as) j = idBit (b # bs) j" using True by (auto simp: idBit_Cons)
      with 2 show ?thesis by (intro disjI2 exI [of _ "k + 8"]) (simp add: idBit_Cons)
    qed
  next
    case False
    let ?z = "countl_zero (a XOR b)"
    from False have nz: "a XOR b \<noteq> 0" by (simp add: byte_xor_zero)
    from countl_zero_spec [OF nz] have z: "?z < 8" "bit a (7 - ?z) \<noteq> bit b (7 - ?z)"
      "\<forall>j < ?z. bit a (7 - j) = bit b (7 - j)"
      by (auto simp: bit_simps)
    then have "\<forall>j < ?z. idBit (a # as) j = idBit (b # bs) j" "idBit (a # as) ?z \<noteq> idBit (b # bs) ?z"
      by (auto simp: idBit_Cons)
    with z nz show ?thesis by (intro disjI2 exI [of _ ?z]) simp
  qed
qed simp_all

text \<open>The number of leading bits two identifiers share, by their bits.\<close>

lemma commonPrefixLength_cases [consumes 2, case_names same differ]:
  assumes "wf_id a" "wf_id b"
  obtains "a = b" "commonPrefixLength a b = id_Bits"
  | "a \<noteq> b" "commonPrefixLength a b < id_Bits"
    "\<forall>j < commonPrefixLength a b. idBit a j = idBit b j"
    "idBit a (commonPrefixLength a b) \<noteq> idBit b (commonPrefixLength a b)"
  using prefixFrom_spec [of a b 0] assms
  by (auto simp: commonPrefixLength_def wf_id_def id_Bits_def mult.commute)

lemma commonPrefixLength_le: "wf_id a \<Longrightarrow> wf_id b \<Longrightarrow> commonPrefixLength a b \<le> id_Bits"
  by (erule (1) commonPrefixLength_cases) auto

lemma commonPrefixLength_Bits_iff:
  "wf_id a \<Longrightarrow> wf_id b \<Longrightarrow> commonPrefixLength a b = id_Bits \<longleftrightarrow> a = b"
  by (erule (1) commonPrefixLength_cases) auto

lemma commonPrefixLength_ge_iff:
  assumes "wf_id a" "wf_id b" "k \<le> id_Bits"
  shows "k \<le> commonPrefixLength a b \<longleftrightarrow> (\<forall>j < k. idBit a j = idBit b j)"
  using assms(1,2)
proof (cases rule: commonPrefixLength_cases)
  case differ
  then show ?thesis by (meson leI less_le_trans)
qed (use assms in simp)

lemma prefixFrom_sym: "prefixFrom i a b = prefixFrom i b a"
  by (induction i a b rule: prefixFrom.induct) (simp_all add: xor.commute Let_def)

lemma commonPrefixLength_sym: "commonPrefixLength a b = commonPrefixLength b a"
  unfolding commonPrefixLength_def by (rule prefixFrom_sym)

lemma commonPrefixLength_ultrametric:
  assumes "wf_id a" "wf_id b" "wf_id c"
  shows "min (commonPrefixLength a b) (commonPrefixLength b c) \<le> commonPrefixLength a c"
  (is "?m \<le> _")
proof -
  have m: "?m \<le> id_Bits" using commonPrefixLength_le [OF assms(1,2)] by simp
  then have "\<forall>j < ?m. idBit a j = idBit b j" "\<forall>j < ?m. idBit b j = idBit c j"
    using commonPrefixLength_ge_iff [OF assms(1,2) m] commonPrefixLength_ge_iff [OF assms(2,3) m]
    by auto
  then show ?thesis using commonPrefixLength_ge_iff [OF assms(1,3) m] by simp
qed

section \<open>Writing bits\<close>

lemma bit_0x80: "bit (0x80 :: byte) n \<longleftrightarrow> n = 7"
  using bit_exp_iff [of 7 n, where 'a = "8 word"] by auto

lemma mask_bit: "k < 8 \<Longrightarrow> i < 8 \<Longrightarrow> bit (drop_bit k (0x80 :: byte)) i \<longleftrightarrow> i = 7 - k"
  unfolding bit_drop_bit_eq o_def bit_0x80 by linarith

lemma idBit_putBit:
  assumes "length src = length nid" "k < 8 * length nid" "j < 8 * length nid"
  shows "idBit (putBit nid src k) j = (if j = k then idBit src k else idBit nid j)"
proof -
  have kb: "k div 8 < length nid" and jb: "j div 8 < length nid" using assms by auto
  have jk: "j div 8 = k div 8 \<Longrightarrow> 7 - j mod 8 = 7 - k mod 8 \<longleftrightarrow> j = k"
  proof -
    assume d: "j div 8 = k div 8"
    have "j mod 8 < 8" "k mod 8 < 8" by simp_all
    moreover have "j = k \<longleftrightarrow> j mod 8 = k mod 8" using d by (metis div_mult_mod_eq)
    ultimately show ?thesis by linarith
  qed
  show ?thesis
  proof (cases "j div 8 = k div 8")
    case True
    have "bit (drop_bit (k mod 8) (0x80 :: byte)) (7 - j mod 8) \<longleftrightarrow> j = k"
      using mask_bit [of "k mod 8" "7 - j mod 8"] jk [OF True] by simp
    with True kb show ?thesis
      by (auto simp: idBit_def putBit_def Let_def bit_and_iff bit_or_iff bit_not_iff)
  next
    case False
    then show ?thesis by (auto simp: idBit_def putBit_def Let_def)
  qed
qed

lemma idBit_copyPrefix:
  assumes "length base = length nid" "k \<le> 8 * length nid" "j < 8 * length nid"
  shows "idBit (copyPrefix k base nid) j = (if j < k then idBit base j else idBit nid j)"
  using assms by (induction k) (auto simp: idBit_putBit less_Suc_eq)

lemma idBit_map_NOT: "k < 8 * length x \<Longrightarrow> idBit (map NOT x) k \<longleftrightarrow> \<not> idBit x k"
  by (simp add: idBit_def bit_not_iff less_Suc_eq_le [of _ 7, simplified])

lemma idBit_randomWithPrefix:
  fixes p :: int
  defines "n \<equiv> nat (max 0 (min p (int id_Bits)))"
  assumes "wf_id rnd" "wf_id base" "j < id_Bits"
  shows "idBit (randomWithPrefix rnd base p exact) j =
    (if j < n then idBit base j else if exact \<and> j = n then \<not> idBit base j else idBit rnd j)"
proof -
  have n: "n \<le> id_Bits" by (simp add: n_def id_consts)
  have l: "8 * length rnd = id_Bits" "length base = length rnd" using assms(2,3) by (simp_all add: wf_id_def id_Bits_def)
  have c: "idBit (copyPrefix n base rnd) i = (if i < n then idBit base i else idBit rnd i)" if "i < id_Bits" for i
    using idBit_copyPrefix [of base rnd n i] n l that by simp
  have e: "idBit (putBit (copyPrefix n base rnd) (map NOT base) n) j =
      (if j = n then idBit (map NOT base) n else idBit (copyPrefix n base rnd) j)" if "n < id_Bits"
    using idBit_putBit [of "map NOT base" "copyPrefix n base rnd" n j] l that assms(4) by simp
  have nb: "n < id_Bits \<Longrightarrow> idBit (map NOT base) n \<longleftrightarrow> \<not> idBit base n"
    using idBit_map_NOT [of n base] l by simp
  show ?thesis using assms(4) c [OF assms(4)] e nb unfolding randomWithPrefix_def n_def [symmetric] Let_def
    by auto
qed

section \<open>The XOR metric\<close>

lemma closer_iff_xor_less:
  "length a = length t \<Longrightarrow> length b = length t \<Longrightarrow> closer t a b \<longleftrightarrow> xorId a t < xorId b t"
  by (induction t a b rule: closer.induct) (auto simp: xorId_def Let_def)

lemma xorId_inject: "length a = length t \<Longrightarrow> length b = length t \<Longrightarrow> xorId a t = xorId b t \<Longrightarrow> a = b"
proof (induction t arbitrary: a b)
  case (Cons t ts)
  from Cons.prems(1,2) obtain x xs y ys where [simp]: "a = x # xs" "b = y # ys" by (cases a; cases b) auto
  from Cons.prems(3) have e: "x XOR t = y XOR t" "xorId xs ts = xorId ys ts" by (simp_all add: xorId_def)
  have "x = (x XOR t) XOR t" by (simp add: xor.assoc)
  also have "\<dots> = (y XOR t) XOR t" by (simp only: e(1))
  also have "\<dots> = y" by (simp add: xor.assoc)
  finally have "x = y" .
  moreover have "xs = ys" using Cons.IH [OF _ _ e(2)] Cons.prems(1,2) by simp
  ultimately show ?case by simp
qed simp

text \<open>An identifier as a 160-bit number, most significant byte first.\<close>

definition idVal :: "node_id \<Rightarrow> nat" where
  "idVal x = foldl (\<lambda>v b. v * 256 + unat b) 0 x"

lemma idVal_foldl: "foldl (\<lambda>v b. v * 256 + unat (b :: byte)) acc x = acc * 256 ^ length x + idVal x"
  unfolding idVal_def
proof (induction x arbitrary: acc)
  case (Cons b x)
  show ?case using Cons [of "acc * 256 + unat b"] Cons [of "unat b"] by (simp add: algebra_simps)
qed simp

lemma idVal_Cons: "idVal (b # x) = unat b * 256 ^ length x + idVal x"
  using idVal_foldl [of "unat b" x] by (simp add: idVal_def)

lemma byte_less_256: "unat (b :: byte) < 256"
  using unsigned_less [of b] by simp

lemma idVal_bound: "idVal x < 256 ^ length x"
proof (induction x)
  case (Cons b x)
  have "unat b * 256 ^ length x \<le> 255 * 256 ^ length x"
    using byte_less_256 [of b] by (intro mult_le_mono1) simp
  with Cons have "unat b * 256 ^ length x + idVal x < 255 * 256 ^ length x + 256 ^ length x" by linarith
  then show ?case by (simp add: idVal_Cons)
qed (simp add: idVal_def)

lemma idVal_less_iff: "length a = length b \<Longrightarrow> idVal a < idVal b \<longleftrightarrow> a < b"
proof (induction a arbitrary: b)
  case Nil
  then show ?case by simp
next
  case (Cons x xs)
  then obtain y ys where b: "b = y # ys" "length xs = length ys" by (metis length_Suc_conv)
  let ?m = "256 ^ length ys :: nat"
  have bnd: "idVal xs < ?m" "idVal ys < ?m" using idVal_bound [of xs] idVal_bound [of ys] b by auto
  consider "x = y" | "unat x < unat y" | "unat y < unat x" by (metis linorder_neqE word_unat_eq_iff)
  then show ?case
  proof cases
    case 1
    with Cons b show ?thesis by (simp add: idVal_Cons)
  next
    case 2
    then have "Suc (unat x) * ?m \<le> unat y * ?m" by (intro mult_le_mono1) simp
    with 2 bnd b show ?thesis by (simp add: idVal_Cons word_less_nat_alt)
  next
    case 3
    then have "Suc (unat y) * ?m \<le> unat x * ?m" by (intro mult_le_mono1) simp
    with 3 bnd b show ?thesis by (auto simp: idVal_Cons word_less_nat_alt)
  qed
qed

text \<open>\<open>closer\<close> is a comparator the standard algorithms accept: for every target it is a strict weak
  (indeed total) order.\<close>

interpretation nearer: strict_weak_order "\<lambda>x. length x = length t" "closer t" for t
  by unfold_locales (auto simp: closer_iff_xor_less)

lemma closer_total:
  "length a = length t \<Longrightarrow> length b = length t \<Longrightarrow> a \<noteq> b \<Longrightarrow> closer t a b \<or> closer t b a"
  using xorId_inject [of a t b] linorder_less_linear [of "xorId a t" "xorId b t"]
  by (auto simp: closer_iff_xor_less)

lemma closer_irrefl [simp]: "\<not> closer t a a"
proof (induction t arbitrary: a)
  case (Cons t ts)
  then show ?case by (cases a) simp_all
qed simp

lemma xorId_self: "xorId a a = replicate (length a) 0"
  by (induction a) (simp_all add: xorId_def)

lemma idBit_xorId:
  "length a = length b \<Longrightarrow> k < 8 * length a \<Longrightarrow> idBit (xorId a b) k \<longleftrightarrow> idBit a k \<noteq> idBit b k"
  by (auto simp: idBit_def xorId_def bit_xor_iff)

lemma prefixFrom_lower:
  assumes "length a = length b" "i * 8 + 8 * length a \<le> id_Bits"
  shows "i * 8 \<le> prefixFrom i a b"
  using prefixFrom_spec [OF assms(1), of i] assms(2) by linarith

lemma prefixFrom_closer:
  "length a = length t \<Longrightarrow> length b = length t \<Longrightarrow> i * 8 + 8 * length t \<le> id_Bits \<Longrightarrow>
   prefixFrom i t b < prefixFrom i t a \<Longrightarrow> closer t a b"
proof (induction t arbitrary: i a b)
  case (Cons t ts)
  from Cons.prems(1,2) obtain x xs y ys where
    [simp]: "a = x # xs" "b = y # ys" "length xs = length ts" "length ys = length ts"
    by (cases a; cases b) auto
  consider "t = x" "t = y" | "t = x" "t \<noteq> y" | "t \<noteq> x" "t = y" | "t \<noteq> x" "t \<noteq> y" by blast
  then show ?case
  proof cases
    case 1
    with Cons show ?thesis using Cons.IH [of xs ys "Suc i"] by (simp add: algebra_simps)
  next
    case 2
    then have "x XOR t < y XOR t" by (metis bit.xor_self byte_xor_zero word_gt_0 xor.commute)
    then show ?thesis by auto
  next
    case 3
    let ?z = "countl_zero (t XOR x)"
    from 3 have "?z < 8" by (intro countl_zero_spec) (simp add: byte_xor_zero)
    then have "prefixFrom i (t # ts) a \<le> i * 8 + 7" using 3 by (simp add: byte_xor_zero)
    moreover have "Suc i * 8 \<le> prefixFrom i (t # ts) b"
      using 3 prefixFrom_lower [of ts ys "Suc i"] Cons.prems(3) by simp
    ultimately show ?thesis using Cons.prems(4) by simp
  next
    case 4
    then have lt: "countl_zero (t XOR y) < countl_zero (t XOR x)"
      using Cons.prems(4) by (simp add: byte_xor_zero)
    have "x XOR t < y XOR t"
      using 4 lt countl_zero_less by (simp add: byte_xor_zero xor.commute)
    then show ?thesis by auto
  qed
qed simp


lemma wf_randomWithPrefix: "wf_id rnd \<Longrightarrow> wf_id (randomWithPrefix rnd base p exact)"
  by (simp add: randomWithPrefix_def Let_def wf_id_def)

lemma commonPrefixLength_randomWithPrefix:
  assumes "wf_id rnd" "wf_id base" "p \<le> id_Bits"
  shows "p \<le> commonPrefixLength base (randomWithPrefix rnd base (int p) exact)"
    "exact \<Longrightarrow> commonPrefixLength base (randomWithPrefix rnd base (int p) exact) = p"
proof -
  let ?r = "randomWithPrefix rnd base (int p) exact"
  have wf: "wf_id ?r" using assms by (simp add: wf_randomWithPrefix)
  have n: "nat (max 0 (min (int p) (int id_Bits))) = p" using assms(3) by simp
  have bits: "idBit ?r j = (if j < p then idBit base j else if exact \<and> j = p then \<not> idBit base j else idBit rnd j)"
    if "j < id_Bits" for j
    using idBit_randomWithPrefix [OF assms(1,2) that, of "int p" exact] unfolding n .
  show ge: "p \<le> commonPrefixLength base ?r"
    using assms(3) bits by (subst commonPrefixLength_ge_iff [OF assms(2) wf assms(3)]) auto
  show "commonPrefixLength base ?r = p" if exact
  proof (rule ccontr)
    assume "commonPrefixLength base ?r \<noteq> p"
    with ge have lt: "Suc p \<le> commonPrefixLength base ?r" by simp
    with commonPrefixLength_le [OF assms(2) wf] have "Suc p \<le> id_Bits" by simp
    with lt bits [of p] \<open>exact\<close> show False
      by (subst (asm) commonPrefixLength_ge_iff [OF assms(2) wf]) auto
  qed
qed

section \<open>Properties\<close>

text \<open>\<open>closer\<close> compares the XOR distances to the target as 160-bit big-endian numbers, and of two
  different identifiers one is closer.\<close>

theorem closer_is_xor_metric:
  assumes "wf_id t" "wf_id a" "wf_id b"
  shows "(closer t a b \<longleftrightarrow> idVal (xorId a t) < idVal (xorId b t)) \<and>
    (a = b \<or> closer t a b \<or> closer t b a) \<and> \<not> (closer t a b \<and> closer t b a)"
proof -
  have l: "length a = length t" "length b = length t" "length (xorId a t) = length (xorId b t)"
    using assms by (simp_all add: wf_id_def xorId_def)
  show ?thesis
    using closer_iff_xor_less [OF l(1,2)] idVal_less_iff [OF l(3)] closer_total [OF l(1,2)] nearer.lt_asym [OF l(1,2)]
    by blast
qed

theorem closer_is_xor_metric_witness:
  "closer nullId (replicate 19 0 @ [1]) (replicate 19 0 @ [2]) \<longleftrightarrow>
     idVal (xorId (replicate 19 0 @ [1]) nullId) < idVal (xorId (replicate 19 0 @ [2]) nullId)"
  using closer_is_xor_metric [OF wf_nullId, of "replicate 19 0 @ [1]" "replicate 19 0 @ [2]"]
  by (simp add: wf_id_def id_Size_def)

text \<open>An identifier that shares a longer prefix with the target is closer to it, so buckets by shared
  prefix are ordered by distance.\<close>

theorem longer_prefix_is_closer:
  assumes "wf_id t" "wf_id a" "wf_id b" "commonPrefixLength t b < commonPrefixLength t a"
  shows "closer t a b"
  using prefixFrom_closer [of a t b 0] assms by (simp add: wf_id_def commonPrefixLength_def id_Bits_def)

theorem longer_prefix_is_closer_witness:
  "closer nullId nullId (replicate 20 255)"
proof -
  have wf: "wf_id (replicate 20 255)" by (simp add: wf_id_def id_Size_def)
  have "nullId \<noteq> replicate 20 255" by (simp add: nullId_def id_Size_def)
  then have "commonPrefixLength nullId (replicate 20 255) < commonPrefixLength nullId nullId"
    using commonPrefixLength_Bits_iff [OF wf_nullId wf] commonPrefixLength_Bits_iff [OF wf_nullId wf_nullId]
      commonPrefixLength_le [OF wf_nullId wf] by simp
  then show ?thesis by (rule longer_prefix_is_closer [OF wf_nullId wf_nullId wf])
qed

text \<open>A random identifier made with a prefix shares at least that many leading bits with the base, and
  exactly that many when asked to.\<close>

theorem randomWithPrefix_shares_prefix:
  assumes "wf_id rnd" "wf_id base" "p \<le> id_Bits"
  shows "wf_id (randomWithPrefix rnd base (int p) exact) \<and>
    p \<le> commonPrefixLength base (randomWithPrefix rnd base (int p) exact) \<and>
    (commonPrefixLength base (randomWithPrefix rnd base (int p) True) = p)"
  using commonPrefixLength_randomWithPrefix [OF assms] commonPrefixLength_randomWithPrefix(2) [OF assms, of True]
    assms by (simp add: wf_randomWithPrefix)

theorem randomWithPrefix_shares_prefix_witness:
  "commonPrefixLength nullId (randomWithPrefix nullId nullId (int 3) True) = 3"
  using randomWithPrefix_shares_prefix [of nullId nullId 3 True] by (simp add: id_Bits_def id_Size_def)

end
