(* ===== verification/Endpoint.thy ===== *)
theory Endpoint
  imports NodeId
begin

text \<open>
  \<^verbatim>\<open>dhtcore/include/dhtcore/Endpoint.h\<close>, \<^verbatim>\<open>dhtcore/src/Endpoint.cpp\<close>: host addresses and
  UDP endpoints, their compact encoding, and which of them may be contacted.

  A \<open>QHostAddress\<close> is null, an IPv4 address, or an IPv6 address with a scope id. The questions the
  program asks Qt about an address (is it a loopback address, does an IPv6 address stand for an
  IPv4 one, \dots) are answered by code outside the repository; they are the fields of the record
  \<open>qt_net\<close>, an argument of every definition that asks.
\<close>

datatype Family = IPv4 | IPv6

datatype host_address = NullAddress | V4 "32 word" | V6 bytes string

record qt_net =
  qt_toIPv4 :: "bytes \<Rightarrow> 32 word option"  \<comment> \<open>\<open>toIPv4Address(&ok)\<close> of an IPv6 address\<close>
  qt_nullIPv6 :: bytes                     \<comment> \<open>\<open>toIPv6Address()\<close> of the null address\<close>
  qt_isLoopback :: "host_address \<Rightarrow> bool"
  qt_isLinkLocal :: "host_address \<Rightarrow> bool"
  qt_isMulticast :: "host_address \<Rightarrow> bool"
  qt_isBroadcast :: "host_address \<Rightarrow> bool"
  qt_isUniqueLocalUnicast :: "host_address \<Rightarrow> bool"
  qt_addressText :: "host_address \<Rightarrow> string"  \<comment> \<open>\<open>QHostAddress::toString()\<close>\<close>

definition isIPv4Protocol :: "host_address \<Rightarrow> bool" where
  "isIPv4Protocol a = (case a of V4 _ \<Rightarrow> True | _ \<Rightarrow> False)"

definition isIPv6Protocol :: "host_address \<Rightarrow> bool" where
  "isIPv6Protocol a = (case a of V6 _ _ \<Rightarrow> True | _ \<Rightarrow> False)"

definition toIPv4Address :: "host_address \<Rightarrow> 32 word" where
  "toIPv4Address a = (case a of V4 w \<Rightarrow> w | _ \<Rightarrow> 0)"

text \<open>\<open>QHostAddress::toIPv6Address()\<close> for the addresses the program applies it to: those that are
  not IPv4.\<close>

definition toIPv6Address :: "qt_net \<Rightarrow> host_address \<Rightarrow> bytes" where
  "toIPv6Address Q a = (case a of V6 b _ \<Rightarrow> b | _ \<Rightarrow> qt_nullIPv6 Q)"

definition familyName :: "Family \<Rightarrow> string" where
  "familyName f = (if f = IPv4 then ''IPv4'' else ''IPv6'')"

definition normalizeAddress :: "qt_net \<Rightarrow> host_address \<Rightarrow> host_address" where
  "normalizeAddress Q a =
     (case a of
        V6 b scope \<Rightarrow>
          (case qt_toIPv4 Q b of
             Some v4 \<Rightarrow> V4 v4
           | None \<Rightarrow> if scope \<noteq> [] then V6 b [] else a)
      | _ \<Rightarrow> a)"

definition familyOf :: "qt_net \<Rightarrow> host_address \<Rightarrow> Family" where
  "familyOf Q a = (if isIPv6Protocol (normalizeAddress Q a) then IPv6 else IPv4)"

text \<open>\<open>isInSubnet\<close> for an IPv4 prefix of \<open>n\<close> bits.\<close>

definition inSubnet :: "32 word \<Rightarrow> 32 word \<times> nat \<Rightarrow> bool" where
  "inSubnet a s = (drop_bit (32 - snd s) a = drop_bit (32 - snd s) (fst s))"

definition ip4 :: "nat \<Rightarrow> nat \<Rightarrow> nat \<Rightarrow> nat \<Rightarrow> 32 word" where
  "ip4 a b c d = of_nat (((a * 256 + b) * 256 + c) * 256 + d)"

definition localSubnets :: "(32 word \<times> nat) list" where
  "localSubnets = [(ip4 10 0 0 0, 8), (ip4 172 16 0 0, 12), (ip4 192 168 0 0, 16),
     (ip4 169 254 0 0, 16), (ip4 127 0 0 0, 8)]"

definition isLocalAddress :: "qt_net \<Rightarrow> host_address \<Rightarrow> bool" where
  "isLocalAddress Q raw =
     (let a = normalizeAddress Q raw
      in if qt_isLoopback Q a \<or> qt_isLinkLocal Q a then True
         else if isIPv4Protocol a then list_ex (inSubnet (toIPv4Address a)) localSubnets
         else qt_isUniqueLocalUnicast Q a)"

section \<open>Endpoints\<close>

record endpoint =
  address :: host_address
  port :: "16 word"

text \<open>The two constructors: the default one, and the one that normalises the address.\<close>

definition nullEndpoint :: endpoint where
  "nullEndpoint = \<lparr>address = NullAddress, port = 0\<rparr>"

definition mkEndpoint :: "qt_net \<Rightarrow> host_address \<Rightarrow> 16 word \<Rightarrow> endpoint" where
  "mkEndpoint Q a p = \<lparr>address = normalizeAddress Q a, port = p\<rparr>"

definition isValid :: "endpoint \<Rightarrow> bool" where
  "isValid e \<longleftrightarrow> address e \<noteq> NullAddress \<and> port e \<noteq> 0"

definition family :: "qt_net \<Rightarrow> endpoint \<Rightarrow> Family" where
  "family Q e = familyOf Q (address e)"

definition decText :: "nat \<Rightarrow> string" where
  "decText n = map (\<lambda>b. char_of (unat b)) (digits10 n)"

definition endpointText :: "qt_net \<Rightarrow> endpoint \<Rightarrow> string" where
  "endpointText Q e =
     (if isIPv6Protocol (address e)
      then ''['' @ qt_addressText Q (address e) @ '']:'' @ decText (unat (port e))
      else qt_addressText Q (address e) @ '':'' @ decText (unat (port e)))"

definition toCompact :: "qt_net \<Rightarrow> endpoint \<Rightarrow> bytes" where
  "toCompact Q e =
     (if isIPv4Protocol (address e)
      then be32 (toIPv4Address (address e)) @ be16 (port e)
      else toIPv6Address Q (address e) @ be16 (port e))"

definition fromCompact :: "qt_net \<Rightarrow> bytes \<Rightarrow> endpoint option" where
  "fromCompact Q bs =
     (if length bs = 6 then
        Some (mkEndpoint Q (V4 (from32 (take 4 bs))) (from16 (drop 4 bs)))
      else if length bs = 18 then
        Some (mkEndpoint Q (V6 (take 16 bs) []) (from16 (drop 16 bs)))
      else None)"

section \<open>Addresses that cannot be contacted\<close>

datatype AddressProblem = NoProblem | ZeroPort | Unspecified | Local | Multicast | Reserved

definition addressProblemName :: "AddressProblem \<Rightarrow> string" where
  "addressProblemName p =
     (case p of
        NoProblem \<Rightarrow> ''None'' | ZeroPort \<Rightarrow> ''Port 0'' | Unspecified \<Rightarrow> ''Unspecified''
      | Local \<Rightarrow> ''Private or local'' | Multicast \<Rightarrow> ''Multicast or broadcast''
      | Reserved \<Rightarrow> ''Reserved'')"

definition AnyIPv4 :: host_address where
  "AnyIPv4 = V4 0"

definition AnyIPv6 :: host_address where
  "AnyIPv6 = V6 (replicate 16 0) []"

definition reservedSubnets :: "(32 word \<times> nat) list" where
  "reservedSubnets = [(ip4 100 64 0 0, 10), (ip4 192 0 0 0, 24), (ip4 192 0 2 0, 24),
     (ip4 198 18 0 0, 15), (ip4 198 51 100 0, 24), (ip4 203 0 113 0, 24), (ip4 240 0 0 0, 4)]"

text \<open>The test on an address outside the local ranges: reserved IPv4 prefixes, or IPv6 outside
  \<open>2000::/3\<close> or in the documentation prefix.\<close>

definition isReserved :: "qt_net \<Rightarrow> host_address \<Rightarrow> bool" where
  "isReserved Q a =
     (if isIPv4Protocol a then list_ex (inSubnet (toIPv4Address a)) reservedSubnets
      else let b = toIPv6Address Q a;
               global = ((b ! 0 AND 0xe0) = 0x20);
               documentation = (b ! 0 = 0x20 \<and> b ! 1 = 0x01 \<and> b ! 2 = 0x0d \<and> b ! 3 = 0xb8)
           in \<not> global \<or> documentation)"

definition addressProblem :: "qt_net \<Rightarrow> endpoint \<Rightarrow> bool \<Rightarrow> AddressProblem" where
  "addressProblem Q e allowLocal =
     (let a = address e
      in if a = NullAddress \<or> a = AnyIPv4 \<or> a = AnyIPv6 then Unspecified
         else if isIPv4Protocol a \<and> drop_bit 24 (toIPv4Address a) = 0 then Unspecified
         else if qt_isMulticast Q a \<or> qt_isBroadcast Q a then Multicast
         else if isLocalAddress Q a \<and> \<not> allowLocal then Local
         else if \<not> isLocalAddress Q a \<and> isReserved Q a then Reserved
         else if port e = 0 then ZeroPort
         else NoProblem)"

definition isUsableRemote :: "qt_net \<Rightarrow> endpoint \<Rightarrow> bool \<Rightarrow> bool" where
  "isUsableRemote Q e allowLocal \<longleftrightarrow> addressProblem Q e allowLocal = NoProblem"

section \<open>Well-formed endpoints\<close>

text \<open>What the normalising constructor gives: an IPv6 address has sixteen bytes, no scope, and does
  not stand for an IPv4 address.\<close>

definition wf_address :: "qt_net \<Rightarrow> host_address \<Rightarrow> bool" where
  "wf_address Q a =
     (case a of V6 b scope \<Rightarrow> length b = 16 \<and> scope = [] \<and> qt_toIPv4 Q b = None | _ \<Rightarrow> True)"

definition wf_endpoint :: "qt_net \<Rightarrow> endpoint \<Rightarrow> bool" where
  "wf_endpoint Q e \<longleftrightarrow> wf_address Q (address e)"

text \<open>Qt's answers as its documentation states them, for evaluating concrete inputs.\<close>

definition qt_doc :: qt_net where
  "qt_doc = \<lparr>
     qt_toIPv4 = (\<lambda>b. if take 12 b = [0, 0, 0, 0, 0, 0, 0, 0, 0, 0, 0xff, 0xff]
                      then Some (from32 (drop 12 b)) else None),
     qt_nullIPv6 = replicate 16 0,
     qt_isLoopback = (\<lambda>a. case a of V4 w \<Rightarrow> drop_bit 24 w = 127
                        | V6 b _ \<Rightarrow> b = replicate 15 0 @ [1] | NullAddress \<Rightarrow> False),
     qt_isLinkLocal = (\<lambda>a. case a of V4 w \<Rightarrow> drop_bit 16 w = 0xa9fe
                        | V6 b _ \<Rightarrow> b ! 0 = 0xfe \<and> (b ! 1 AND 0xc0) = 0x80 | NullAddress \<Rightarrow> False),
     qt_isMulticast = (\<lambda>a. case a of V4 w \<Rightarrow> drop_bit 28 w = 14 | V6 b _ \<Rightarrow> b ! 0 = 0xff
                        | NullAddress \<Rightarrow> False),
     qt_isBroadcast = (\<lambda>a. a = V4 0xffffffff),
     qt_isUniqueLocalUnicast = (\<lambda>a. case a of V6 b _ \<Rightarrow> (b ! 0 AND 0xfe) = 0xfc | _ \<Rightarrow> False),
     qt_addressText = (\<lambda>_. [])\<rparr>"

lemmas protocol_simps = isIPv4Protocol_def isIPv6Protocol_def

lemma normalize_V4 [simp]: "normalizeAddress Q (V4 w) = V4 w"
  by (simp add: normalizeAddress_def)

lemma normalize_Null [simp]: "normalizeAddress Q NullAddress = NullAddress"
  by (simp add: normalizeAddress_def)

lemma normalize_id: "wf_address Q a \<Longrightarrow> normalizeAddress Q a = a"
  by (auto simp: wf_address_def normalizeAddress_def split: host_address.splits option.splits)

lemma normalize_idem [simp]: "normalizeAddress Q (normalizeAddress Q a) = normalizeAddress Q a"
  by (auto simp: normalizeAddress_def split: host_address.splits option.splits)

lemma wf_mkEndpoint:
  "(case a of V6 b _ \<Rightarrow> length b = 16 | _ \<Rightarrow> True) \<Longrightarrow> wf_endpoint Q (mkEndpoint Q a p)"
  by (auto simp: wf_endpoint_def wf_address_def mkEndpoint_def normalizeAddress_def
      split: host_address.splits option.splits)

lemma family_wf: "wf_endpoint Q e \<Longrightarrow> family Q e = (if isIPv6Protocol (address e) then IPv6 else IPv4)"
  by (simp add: family_def familyOf_def wf_endpoint_def normalize_id)

lemma toCompact_length:
  "wf_endpoint Q e \<Longrightarrow> address e \<noteq> NullAddress \<Longrightarrow>
   length (toCompact Q e) = (if family Q e = IPv4 then 6 else 18)"
  by (auto simp: toCompact_def protocol_simps family_wf toIPv6Address_def wf_endpoint_def wf_address_def
      split: host_address.splits)

lemma fromCompact_wf: "fromCompact Q bs = Some e \<Longrightarrow> wf_endpoint Q e"
  by (auto simp: fromCompact_def intro!: wf_mkEndpoint split: if_splits)

lemma fromCompact_not_null: "fromCompact Q bs = Some e \<Longrightarrow> address e \<noteq> NullAddress"
  by (auto simp: fromCompact_def mkEndpoint_def normalizeAddress_def split: if_splits option.splits)

lemma fromCompact_toCompact:
  assumes "wf_endpoint Q e" "address e \<noteq> NullAddress"
  shows "fromCompact Q (toCompact Q e) = Some e"
proof (cases "address e")
  case (V4 w)
  then show ?thesis
    by (simp add: fromCompact_def toCompact_def protocol_simps toIPv4Address_def mkEndpoint_def)
next
  case (V6 b s)
  with assms(1) have "length b = 16" "s = []" "qt_toIPv4 Q b = None"
    by (auto simp: wf_endpoint_def wf_address_def)
  with V6 show ?thesis
    by (simp add: fromCompact_def toCompact_def protocol_simps toIPv6Address_def mkEndpoint_def
        normalizeAddress_def)
qed (use assms in simp)

lemma toCompact_fromCompact:
  assumes "fromCompact Q bs = Some e" "length bs = 6 \<or> qt_toIPv4 Q (take 16 bs) = None"
  shows "toCompact Q e = bs"
proof (cases "length bs = 6")
  case True
  with assms(1) have e: "e = mkEndpoint Q (V4 (from32 (take 4 bs))) (from16 (drop 4 bs))"
    by (simp add: fromCompact_def)
  show ?thesis using True
    by (simp add: e mkEndpoint_def toCompact_def protocol_simps toIPv4Address_def be32_from32 be16_from16)
next
  case False
  with assms have e: "e = mkEndpoint Q (V6 (take 16 bs) []) (from16 (drop 16 bs))"
    and l: "length bs = 18" and n: "qt_toIPv4 Q (take 16 bs) = None"
    by (auto simp: fromCompact_def split: if_splits)
  show ?thesis using l n
    by (simp add: e mkEndpoint_def toCompact_def protocol_simps toIPv6Address_def be16_from16 normalizeAddress_def)
qed

end
