(* ===== verification/RoutingTable.thy ===== *)
theory RoutingTable
  imports NodeId Endpoint
begin

text \<open>
  \<^verbatim>\<open>dhtcore/include/dhtcore/RoutingTable.h\<close>, \<^verbatim>\<open>dhtcore/src/RoutingTable.cpp\<close>: the Kademlia routing
  table. Its state is a list of buckets; a node is addressed by the pair of its bucket index and its
  index in the bucket where the code holds a pointer. Times are integers (milliseconds).
  \<open>std::sort\<close> leaves the order of equal elements open; the model keeps their order, which only
  \<open>nodesNeedingPing\<close> can observe, since node identifiers are distinct.
\<close>

datatype node_state = Good | Questionable | Bad

record routing_node =
  rn_id :: node_id
  rn_endpoint :: endpoint
  rn_version :: bytes
  firstSeen :: int
  lastResponse :: int
  lastQuery :: int
  lastPingSent :: int
  failCount :: int
  rttMs :: int

definition K :: nat where "K = 8"
definition GoodWindowMs :: int where "GoodWindowMs = 15 * 60 * 1000"
definition BadFailCount :: int where "BadFailCount = 2"
definition RemoveFailCount :: int where "RemoveFailCount = 5"

datatype InsertResult = Added | Updated | Replaced | Cached | Rejected

record bucket =
  nodes :: "routing_node list"
  replacements :: "routing_node list"
  lastChanged :: int

definition emptyBucket :: bucket where
  "emptyBucket = \<lparr>nodes = [], replacements = [], lastChanged = 0\<rparr>"

record routing_table =
  m_self :: node_id
  m_restrictOnePerIp :: bool
  m_buckets :: "bucket list"

definition newTable :: "node_id \<Rightarrow> bool \<Rightarrow> routing_table" where
  "newTable self restrict =
     \<lparr>m_self = self, m_restrictOnePerIp = restrict, m_buckets = [emptyBucket]\<rparr>"

definition stateOf :: "routing_node \<Rightarrow> int \<Rightarrow> node_state" where
  "stateOf n now =
     (if failCount n \<ge> BadFailCount then Bad
      else if failCount n = 0 \<and> lastResponse n > 0 \<and> now - lastResponse n < GoodWindowMs then Good
      else if failCount n = 0 \<and> lastResponse n > 0 \<and> lastQuery n > 0 \<and> now - lastQuery n < GoodWindowMs then Good
      else Questionable)"

definition bucketIndexFor :: "routing_table \<Rightarrow> node_id \<Rightarrow> nat" where
  "bucketIndexFor rt nid = min (commonPrefixLength (m_self rt) nid) (length (m_buckets rt) - 1)"

definition modifyBucket :: "nat \<Rightarrow> (bucket \<Rightarrow> bucket) \<Rightarrow> routing_table \<Rightarrow> routing_table" where
  "modifyBucket i f rt = rt\<lparr>m_buckets := (m_buckets rt)[i := f (m_buckets rt ! i)]\<rparr>"

definition modifyNode :: "nat \<Rightarrow> (routing_node \<Rightarrow> routing_node) \<Rightarrow> bucket \<Rightarrow> bucket" where
  "modifyNode j f b = b\<lparr>nodes := (nodes b)[j := f (nodes b ! j)]\<rparr>"

text \<open>The pointer \<open>locate\<close> returns, as the bucket index and the index in the bucket.\<close>

fun locateFrom :: "endpoint \<Rightarrow> nat \<Rightarrow> bucket list \<Rightarrow> (nat \<times> nat) option" where
  "locateFrom ep i [] = None"
| "locateFrom ep i (b # bs) =
     (case find_index (\<lambda>n. rn_endpoint n = ep) (nodes b) of
        Some j \<Rightarrow> Some (i, j)
      | None \<Rightarrow> locateFrom ep (Suc i) bs)"

definition locate :: "routing_table \<Rightarrow> endpoint \<Rightarrow> (nat \<times> nat) option" where
  "locate rt ep = locateFrom ep 0 (m_buckets rt)"

definition nodeAt :: "routing_table \<Rightarrow> nat \<times> nat \<Rightarrow> routing_node" where
  "nodeAt rt p = nodes (m_buckets rt ! fst p) ! snd p"

definition rt_find :: "routing_table \<Rightarrow> endpoint \<Rightarrow> routing_node option" where
  "rt_find rt ep = map_option (nodeAt rt) (locate rt ep)"

definition rt_contains :: "routing_table \<Rightarrow> endpoint \<Rightarrow> bool" where
  "rt_contains rt ep \<longleftrightarrow> rt_find rt ep \<noteq> None"

definition ipInUse :: "routing_table \<Rightarrow> host_address \<Rightarrow> bool" where
  "ipInUse rt a \<longleftrightarrow> list_ex (\<lambda>b. list_ex (\<lambda>n. address (rn_endpoint n) = a) (nodes b)) (m_buckets rt)"

definition canSplit :: "routing_table \<Rightarrow> nat \<Rightarrow> bool" where
  "canSplit rt index \<longleftrightarrow> index = length (m_buckets rt) - 1 \<and> length (m_buckets rt) < id_Bits"

definition rt_split :: "routing_table \<Rightarrow> routing_table" where
  "rt_split rt =
     (let last = length (m_buckets rt) - 1;
          old = m_buckets rt ! last;
          movesOut = (\<lambda>n. commonPrefixLength (m_self rt) (rn_id n) > last);
          fresh = \<lparr>nodes = filter movesOut (nodes old), replacements = filter movesOut (replacements old),
                   lastChanged = lastChanged old\<rparr>;
          kept = old\<lparr>nodes := filter (\<lambda>n. \<not> movesOut n) (nodes old),
                     replacements := filter (\<lambda>n. \<not> movesOut n) (replacements old)\<rparr>
      in rt\<lparr>m_buckets := (m_buckets rt)[last := kept] @ [fresh]\<rparr>)"

definition cacheNode :: "routing_node \<Rightarrow> bucket \<Rightarrow> bucket" where
  "cacheNode node b =
     (let cache = replacements b @ [node]
      in b\<lparr>replacements := if length cache > K then remove_nth (min_index lastResponse cache) cache else cache\<rparr>)"

function insertLoop :: "routing_node \<Rightarrow> int \<Rightarrow> routing_table \<Rightarrow> InsertResult \<times> routing_table" where
  "insertLoop node now rt =
     (let index = bucketIndexFor rt (rn_id node);
          b = m_buckets rt ! index
      in if length (nodes b) < K then
           (Added, modifyBucket index (\<lambda>b. b\<lparr>nodes := nodes b @ [node], lastChanged := now\<rparr>) rt)
         else if canSplit rt index then insertLoop node now (rt_split rt)
         else case find_index (\<lambda>n. stateOf n now = Bad) (nodes b) of
                Some j \<Rightarrow> (Replaced, modifyBucket index (\<lambda>b. (modifyNode j (\<lambda>_. node) b)\<lparr>lastChanged := now\<rparr>) rt)
              | None \<Rightarrow> (Cached, modifyBucket index (cacheNode node) rt))"
  by pat_completeness auto
termination
  by (relation "measure (\<lambda>(node, now, rt). id_Bits - length (m_buckets rt))")
    (auto simp: canSplit_def rt_split_def Let_def)

declare insertLoop.simps [simp del]

definition rt_insert :: "qt_net \<Rightarrow> routing_node \<Rightarrow> int \<Rightarrow> routing_table \<Rightarrow> InsertResult \<times> routing_table" where
  "rt_insert Q node now rt =
     (if rn_id node = m_self rt then (Rejected, rt)
      else if m_restrictOnePerIp rt \<and> \<not> isLocalAddress Q (address (rn_endpoint node))
              \<and> ipInUse rt (address (rn_endpoint node)) then (Rejected, rt)
      else insertLoop node now rt)"

definition refreshed :: "bytes \<Rightarrow> int \<Rightarrow> int \<Rightarrow> routing_node \<Rightarrow> routing_node" where
  "refreshed version rtt now n =
     n\<lparr>lastResponse := now, failCount := 0,
       rn_version := (if version \<noteq> [] then version else rn_version n),
       rttMs := (if rtt \<ge> 0 then (if rttMs n < 0 then rtt else (rttMs n * 3 + rtt) div 4) else rttMs n)\<rparr>"

definition dropReplacements :: "(routing_node \<Rightarrow> bool) \<Rightarrow> routing_table \<Rightarrow> routing_table" where
  "dropReplacements P rt =
     rt\<lparr>m_buckets := map (\<lambda>b. b\<lparr>replacements := filter (\<lambda>n. \<not> P n) (replacements b)\<rparr>) (m_buckets rt)\<rparr>"

definition eraseEndpoint :: "endpoint \<Rightarrow> bucket \<Rightarrow> bucket" where
  "eraseEndpoint ep b = b\<lparr>nodes := filter (\<lambda>n. rn_endpoint n \<noteq> ep) (nodes b)\<rparr>"

definition freshNode :: "node_id \<Rightarrow> endpoint \<Rightarrow> bytes \<Rightarrow> int \<Rightarrow> int \<Rightarrow> routing_node" where
  "freshNode nid ep version rtt now =
     \<lparr>rn_id = nid, rn_endpoint = ep, rn_version = version, firstSeen = now, lastResponse = now,
      lastQuery = 0, lastPingSent = 0, failCount = 0, rttMs = rtt\<rparr>"

text \<open>The part of \<open>heardFrom\<close> after the entry at this endpoint, if any, has been dealt with.\<close>

definition heardNew :: "qt_net \<Rightarrow> node_id \<Rightarrow> endpoint \<Rightarrow> bytes \<Rightarrow> int \<Rightarrow> int \<Rightarrow> routing_table
    \<Rightarrow> InsertResult \<times> routing_table" where
  "heardNew Q nid ep version rtt now rt =
     (let index = bucketIndexFor rt nid;
          b = m_buckets rt ! index
      in case find_index (\<lambda>n. rn_id n = nid) (nodes b) of
           Some j \<Rightarrow>
             if stateOf (nodes b ! j) now \<noteq> Bad then (Rejected, rt)
             else (Updated, modifyBucket index (\<lambda>b. (modifyNode j (\<lambda>n. n\<lparr>rn_endpoint := ep, lastResponse := now,
                     failCount := 0, rttMs := rtt, rn_version := version\<rparr>) b)\<lparr>lastChanged := now\<rparr>) rt)
         | None \<Rightarrow>
             rt_insert Q (freshNode nid ep version rtt now) now
               (dropReplacements (\<lambda>n. rn_endpoint n = ep \<or> rn_id n = nid) rt))"

definition heardFrom :: "qt_net \<Rightarrow> node_id \<Rightarrow> endpoint \<Rightarrow> bytes \<Rightarrow> int \<Rightarrow> int \<Rightarrow> routing_table
    \<Rightarrow> InsertResult \<times> routing_table" where
  "heardFrom Q nid ep version rtt now rt =
     (if nid = m_self rt \<or> \<not> isValid ep then (Rejected, rt)
      else case locate rt ep of
             Some (i, j) \<Rightarrow>
               if rn_id (nodeAt rt (i, j)) = nid then
                 (Updated, modifyBucket i (\<lambda>b. (modifyNode j (refreshed version rtt now) b)\<lparr>lastChanged := now\<rparr>) rt)
               else heardNew Q nid ep version rtt now (modifyBucket i (eraseEndpoint ep) rt)
           | None \<Rightarrow> heardNew Q nid ep version rtt now rt)"

definition queriedBy :: "node_id \<Rightarrow> endpoint \<Rightarrow> int \<Rightarrow> routing_table \<Rightarrow> bool \<times> routing_table" where
  "queriedBy nid ep now rt =
     (case locate rt ep of
        None \<Rightarrow> (False, rt)
      | Some (i, j) \<Rightarrow>
          if rn_id (nodeAt rt (i, j)) \<noteq> nid then (False, rt)
          else (True, modifyBucket i (modifyNode j (\<lambda>n. n\<lparr>lastQuery := now\<rparr>)) rt))"

definition promote :: "nat \<Rightarrow> int \<Rightarrow> bucket \<Rightarrow> bucket" where
  "promote j now b =
     (let best = max_index lastResponse (replacements b)
      in (modifyNode j (\<lambda>_. replacements b ! best) b)
           \<lparr>replacements := remove_nth best (replacements b), lastChanged := now\<rparr>)"

definition rt_failed :: "endpoint \<Rightarrow> int \<Rightarrow> routing_table \<Rightarrow> routing_table" where
  "rt_failed ep now rt =
     (case locate rt ep of
        None \<Rightarrow> dropReplacements (\<lambda>n. rn_endpoint n = ep) rt
      | Some (i, j) \<Rightarrow>
          (let rt1 = modifyBucket i (modifyNode j (\<lambda>n. n\<lparr>failCount := failCount n + 1\<rparr>)) rt;
               n = nodeAt rt1 (i, j)
           in if stateOf n now \<noteq> Bad then rt1
              else if replacements (m_buckets rt1 ! i) \<noteq> [] then modifyBucket i (promote j now) rt1
              else if failCount n \<ge> RemoveFailCount then modifyBucket i (eraseEndpoint ep) rt1
              else rt1))"

definition markPinged :: "endpoint \<Rightarrow> int \<Rightarrow> routing_table \<Rightarrow> routing_table" where
  "markPinged ep now rt =
     (case locate rt ep of
        None \<Rightarrow> rt
      | Some (i, j) \<Rightarrow> modifyBucket i (modifyNode j (\<lambda>n. n\<lparr>lastPingSent := now\<rparr>)) rt)"

definition allNodes :: "routing_table \<Rightarrow> routing_node list" where
  "allNodes rt = concat (map nodes (m_buckets rt))"

definition rt_size :: "routing_table \<Rightarrow> nat" where
  "rt_size rt = sum_list (map (\<lambda>b. length (nodes b)) (m_buckets rt))"

definition closest :: "routing_table \<Rightarrow> node_id \<Rightarrow> nat \<Rightarrow> bool \<Rightarrow> routing_node list" where
  "closest rt target n includeBad =
     take n (sort_by (\<lambda>a b. closer target (rn_id a) (rn_id b))
       (filter (\<lambda>n. includeBad \<or> stateOf n 0 \<noteq> Bad) (allNodes rt)))"

definition nodesNeedingPing :: "routing_table \<Rightarrow> int \<Rightarrow> nat \<Rightarrow> int \<Rightarrow> routing_node list" where
  "nodesNeedingPing rt now maxCount minPingIntervalMs =
     take maxCount (sort_by (\<lambda>a b. max (lastResponse a) (lastQuery a) < max (lastResponse b) (lastQuery b))
       (filter (\<lambda>n. stateOf n now = Questionable \<and> \<not> (lastPingSent n > 0 \<and> now - lastPingSent n < minPingIntervalMs))
         (allNodes rt)))"

text \<open>The loop of \<open>staleBucket\<close>: the best index so far with the time of its last change.\<close>

fun staleFrom :: "int \<Rightarrow> int \<Rightarrow> (nat \<times> int) option \<Rightarrow> nat \<Rightarrow> bucket list \<Rightarrow> (nat \<times> int) option" where
  "staleFrom now staleMs best i [] = best"
| "staleFrom now staleMs best i (b # bs) =
     (if now - lastChanged b < staleMs then staleFrom now staleMs best (Suc i) bs
      else if (case best of None \<Rightarrow> True | Some (_, c) \<Rightarrow> lastChanged b < c)
        then staleFrom now staleMs (Some (i, lastChanged b)) (Suc i) bs
        else staleFrom now staleMs best (Suc i) bs)"

definition staleBucket :: "routing_table \<Rightarrow> int \<Rightarrow> int \<Rightarrow> nat option" where
  "staleBucket rt now staleMs = map_option fst (staleFrom now staleMs None 0 (m_buckets rt))"

definition touchBucket :: "int \<Rightarrow> int \<Rightarrow> routing_table \<Rightarrow> routing_table" where
  "touchBucket index now rt =
     (if index \<ge> 0 \<and> index < int (length (m_buckets rt))
      then modifyBucket (nat index) (\<lambda>b. b\<lparr>lastChanged := now\<rparr>) rt else rt)"

definition randomIdInBucket :: "node_id \<Rightarrow> routing_table \<Rightarrow> int \<Rightarrow> node_id" where
  "randomIdInBucket rnd rt index =
     randomWithPrefix rnd (m_self rt) index (index \<noteq> int (length (m_buckets rt)) - 1)"

definition wouldAccept :: "routing_table \<Rightarrow> node_id \<Rightarrow> bool" where
  "wouldAccept rt nid =
     (if nid = m_self rt then False
      else let index = bucketIndexFor rt nid; b = m_buckets rt ! index
           in if list_ex (\<lambda>n. rn_id n = nid) (nodes b) then False
              else if length (nodes b) < K \<or> canSplit rt index then True
              else list_ex (\<lambda>n. failCount n \<ge> BadFailCount) (nodes b))"

definition rebuild :: "qt_net \<Rightarrow> node_id \<Rightarrow> int \<Rightarrow> routing_table \<Rightarrow> routing_table" where
  "rebuild Q newSelf now rt =
     (let ns = concat (map nodes (m_buckets rt));
          cached = concat (map replacements (m_buckets rt));
          rt0 = rt\<lparr>m_self := newSelf, m_buckets := [emptyBucket\<lparr>lastChanged := now\<rparr>]\<rparr>
      in fold (\<lambda>n t. snd (rt_insert Q n now t)) cached
           (fold (\<lambda>n t. snd (rt_insert Q n now t)) ns rt0))"


section \<open>Invariant\<close>

definition entries :: "bucket \<Rightarrow> routing_node list" where
  "entries b = nodes b @ replacements b"

text \<open>A bucket holds at most eight nodes and eight replacements, with distinct identifiers, none of
  them our own, and all of them in the bucket their shared prefix selects.\<close>

definition wf_bucket :: "node_id \<Rightarrow> nat \<Rightarrow> nat \<Rightarrow> bucket \<Rightarrow> bool" where
  "wf_bucket self nb i b \<longleftrightarrow>
     length (nodes b) \<le> K \<and> length (replacements b) \<le> K \<and> distinct (map rn_id (entries b)) \<and>
     (\<forall>n \<in> set (entries b). wf_id (rn_id n) \<and> rn_id n \<noteq> self \<and>
        min (commonPrefixLength self (rn_id n)) (nb - 1) = i)"

definition wf_table :: "routing_table \<Rightarrow> bool" where
  "wf_table rt \<longleftrightarrow> wf_id (m_self rt) \<and> 1 \<le> length (m_buckets rt) \<and> length (m_buckets rt) \<le> id_Bits \<and>
     (\<forall>i < length (m_buckets rt). wf_bucket (m_self rt) (length (m_buckets rt)) i (m_buckets rt ! i))"

definition allEntries :: "routing_table \<Rightarrow> routing_node set" where
  "allEntries rt = (\<Union>b \<in> set (m_buckets rt). set (entries b))"

lemmas table_defs = modifyBucket_def modifyNode_def entries_def

lemma wf_newTable: "wf_id self \<Longrightarrow> wf_table (newTable self restrict)"
  by (simp add: wf_table_def newTable_def wf_bucket_def entries_def emptyBucket_def id_Bits_def id_Size_def)

lemma bucketIndexFor_less: "wf_table rt \<Longrightarrow> bucketIndexFor rt nid < length (m_buckets rt)"
  by (auto simp: wf_table_def bucketIndexFor_def)

lemma modifyBucket_simps [simp]:
  "m_self (modifyBucket i f rt) = m_self rt" "length (m_buckets (modifyBucket i f rt)) = length (m_buckets rt)"
  "m_restrictOnePerIp (modifyBucket i f rt) = m_restrictOnePerIp rt"
  by (simp_all add: modifyBucket_def)

lemma wf_modifyBucket:
  assumes "wf_table rt" "i < length (m_buckets rt)"
    and "wf_bucket (m_self rt) (length (m_buckets rt)) i (m_buckets rt ! i) \<Longrightarrow>
         wf_bucket (m_self rt) (length (m_buckets rt)) i (f (m_buckets rt ! i))"
  shows "wf_table (modifyBucket i f rt)"
  using assms by (auto simp: wf_table_def modifyBucket_def nth_list_update)

text \<open>A bucket whose entries are a part of the old ones, up to fields other than the identifier.\<close>

lemma wf_bucket_mono:
  assumes "wf_bucket self nb i b" "length (nodes b') \<le> K" "length (replacements b') \<le> K"
    "distinct (map rn_id (entries b'))" "rn_id ` set (entries b') \<subseteq> rn_id ` set (entries b)"
  shows "wf_bucket self nb i b'"
  unfolding wf_bucket_def
proof (intro conjI ballI)
  fix n assume "n \<in> set (entries b')"
  from subsetD [OF assms(5) imageI [OF this]] obtain n' where "n' \<in> set (entries b)" "rn_id n' = rn_id n" by auto
  with assms(1) show "wf_id (rn_id n)" "rn_id n \<noteq> self" "min (commonPrefixLength self (rn_id n)) (nb - 1) = i"
    by (auto simp: wf_bucket_def)
qed (use assms in auto)

lemma wf_bucket_same_ids:
  assumes "wf_bucket self nb i b" "map rn_id (nodes b') = map rn_id (nodes b)" "replacements b' = replacements b"
  shows "wf_bucket self nb i b'"
proof -
  have ids: "map rn_id (entries b') = map rn_id (entries b)" by (simp add: entries_def assms)
  then have "rn_id ` set (entries b') = rn_id ` set (entries b)" by (metis set_map)
  moreover have "length (nodes b') = length (nodes b)" using assms(2) by (metis length_map)
  ultimately show ?thesis using assms ids by (intro wf_bucket_mono [OF assms(1)]) (auto simp: wf_bucket_def)
qed

lemma wf_bucket_filter:
  assumes "wf_bucket self nb i b" "nodes b' = filter P (nodes b)" "replacements b' = filter R (replacements b)"
  shows "wf_bucket self nb i b'"
proof (rule wf_bucket_mono [OF assms(1)])
  show "length (nodes b') \<le> K" "length (replacements b') \<le> K"
    using assms by (auto simp: wf_bucket_def intro: le_trans [OF length_filter_le])
qed (use assms in \<open>auto simp: wf_bucket_def entries_def distinct_map_filter\<close>)

lemma modifyNode_same_ids:
  "(\<And>n. rn_id (f n) = rn_id n) \<Longrightarrow> map rn_id (nodes (modifyNode j f b)) = map rn_id (nodes b)"
  by (cases "j < length (nodes b)") (auto simp: modifyNode_def map_update list_update_same_conv list_update_beyond)

lemma wf_dropReplacements: "wf_table rt \<Longrightarrow> wf_table (dropReplacements P rt)"
  unfolding wf_table_def
proof (elim conjE, intro conjI allI impI)
  fix i
  assume "\<forall>i < length (m_buckets rt). wf_bucket (m_self rt) (length (m_buckets rt)) i (m_buckets rt ! i)"
    and i: "i < length (m_buckets (dropReplacements P rt))"
  then have "wf_bucket (m_self rt) (length (m_buckets rt)) i (m_buckets rt ! i)" by (simp add: dropReplacements_def)
  then show "wf_bucket (m_self (dropReplacements P rt)) (length (m_buckets (dropReplacements P rt))) i
      (m_buckets (dropReplacements P rt) ! i)"
    using i wf_bucket_filter [of "m_self rt" "length (m_buckets rt)" i "m_buckets rt ! i"
        "(m_buckets rt ! i)\<lparr>replacements := filter (\<lambda>n. \<not> P n) (replacements (m_buckets rt ! i))\<rparr>"
        "\<lambda>_. True" "\<lambda>n. \<not> P n"]
    by (simp add: dropReplacements_def)
qed (simp_all add: dropReplacements_def)

lemma dropReplacements_simps [simp]:
  "m_self (dropReplacements P rt) = m_self rt" "length (m_buckets (dropReplacements P rt)) = length (m_buckets rt)"
  "m_restrictOnePerIp (dropReplacements P rt) = m_restrictOnePerIp rt"
  by (simp_all add: dropReplacements_def)

lemma wf_eraseEndpoint:
  "wf_table rt \<Longrightarrow> i < length (m_buckets rt) \<Longrightarrow> wf_table (modifyBucket i (eraseEndpoint ep) rt)"
  by (erule (1) wf_modifyBucket)
    (erule wf_bucket_filter [where P = "\<lambda>n. rn_endpoint n \<noteq> ep" and R = "\<lambda>_. True"], simp_all add: eraseEndpoint_def)

lemma locateFrom_SomeD:
  "locateFrom ep k bs = Some (i, j) \<Longrightarrow>
   k \<le> i \<and> i - k < length bs \<and> j < length (nodes (bs ! (i - k))) \<and> rn_endpoint (nodes (bs ! (i - k)) ! j) = ep"
proof (induction bs arbitrary: k)
  case (Cons b bs)
  show ?case
  proof (cases "find_index (\<lambda>n. rn_endpoint n = ep) (nodes b)")
    case None
    with Cons.prems have "locateFrom ep (Suc k) bs = Some (i, j)" by simp
    note IH = Cons.IH [OF this]
    then obtain d where "i = Suc (k + d)" by (auto dest: le_Suc_ex)
    with IH show ?thesis by (simp add: Suc_diff_le)
  next
    case (Some a)
    with Cons.prems find_index_SomeD [OF Some] show ?thesis by simp
  qed
qed simp

lemma locate_SomeD:
  assumes "locate rt ep = Some (i, j)"
  shows "i < length (m_buckets rt)" "j < length (nodes (m_buckets rt ! i))" "rn_endpoint (nodeAt rt (i, j)) = ep"
  using locateFrom_SomeD [of ep 0 "m_buckets rt" i j] assms by (simp_all add: locate_def nodeAt_def)

lemma locateFrom_None: "locateFrom ep k bs = None \<longleftrightarrow> (\<forall>b \<in> set bs. \<forall>n \<in> set (nodes b). rn_endpoint n \<noteq> ep)"
proof (induction bs arbitrary: k)
  case (Cons b bs)
  then show ?case by (cases "find_index (\<lambda>n. rn_endpoint n = ep) (nodes b)") (auto dest: find_index_None [THEN iffD1] find_index_Some_ex)
qed simp

lemma locate_None: "locate rt ep = None \<longleftrightarrow> (\<forall>n \<in> set (allNodes rt). rn_endpoint n \<noteq> ep)"
  by (auto simp: locate_def allNodes_def locateFrom_None)


section \<open>Splitting and inserting\<close>

lemma rt_split_simps [simp]:
  "m_self (rt_split rt) = m_self rt" "length (m_buckets (rt_split rt)) = Suc (length (m_buckets rt))"
  "m_restrictOnePerIp (rt_split rt) = m_restrictOnePerIp rt"
  by (simp_all add: rt_split_def Let_def)

lemma rt_split_bucket:
  assumes "m_buckets rt \<noteq> []"
  defines "tb \<equiv> length (m_buckets rt) - 1"
  shows "i < tb \<Longrightarrow> m_buckets (rt_split rt) ! i = m_buckets rt ! i"
    "nodes (m_buckets (rt_split rt) ! tb)
       = filter (\<lambda>n. \<not> commonPrefixLength (m_self rt) (rn_id n) > tb) (nodes (m_buckets rt ! tb))"
    "replacements (m_buckets (rt_split rt) ! tb)
       = filter (\<lambda>n. \<not> commonPrefixLength (m_self rt) (rn_id n) > tb) (replacements (m_buckets rt ! tb))"
    "nodes (m_buckets (rt_split rt) ! Suc tb)
       = filter (\<lambda>n. commonPrefixLength (m_self rt) (rn_id n) > tb) (nodes (m_buckets rt ! tb))"
    "replacements (m_buckets (rt_split rt) ! Suc tb)
       = filter (\<lambda>n. commonPrefixLength (m_self rt) (rn_id n) > tb) (replacements (m_buckets rt ! tb))"
  using assms(1) by (auto simp: rt_split_def Let_def tb_def nth_append)

lemma wf_bucket_index:
  "wf_bucket self nb i b \<Longrightarrow> (\<And>n. n \<in> set (entries b) \<Longrightarrow> min (commonPrefixLength self (rn_id n)) (nb' - 1) = i')
    \<Longrightarrow> wf_bucket self nb' i' b"
  by (auto simp: wf_bucket_def)

lemma wf_split:
  assumes wf: "wf_table rt" and lt: "length (m_buckets rt) < id_Bits"
  shows "wf_table (rt_split rt)"
proof -
  define tb where "tb = length (m_buckets rt) - 1"
  have len: "length (m_buckets rt) = Suc tb" and ne: "m_buckets rt \<noteq> []"
    using wf by (auto simp: wf_table_def tb_def)
  note split = rt_split_bucket [OF ne, folded tb_def]
  have old: "wf_bucket (m_self rt) (Suc tb) i (m_buckets rt ! i)" if "i < Suc tb" for i
    using wf that len by (simp add: wf_table_def)
  have "wf_bucket (m_self rt) (Suc (Suc tb)) i (m_buckets (rt_split rt) ! i)" if bound: "i < Suc (Suc tb)" for i
  proof -
    consider "i < tb" | "i = tb" | "i = Suc tb" using bound by linarith
    then show ?thesis
    proof cases
      case 1
      with old [of i] have wf: "wf_bucket (m_self rt) (Suc tb) i (m_buckets rt ! i)" by simp
      show ?thesis unfolding split(1) [OF 1]
        by (rule wf_bucket_index [OF wf]) (use wf 1 in \<open>auto simp: wf_bucket_def min_def split: if_splits\<close>)
    next
      case 2
      have "wf_bucket (m_self rt) (Suc tb) tb (m_buckets (rt_split rt) ! tb)"
        by (rule wf_bucket_filter [OF old split(2,3)]) simp
      then show ?thesis unfolding 2
        by (rule wf_bucket_index)
          (use old [of tb] in \<open>auto simp: entries_def split wf_bucket_def min_def split: if_splits\<close>)
    next
      case 3
      have "wf_bucket (m_self rt) (Suc tb) tb (m_buckets (rt_split rt) ! Suc tb)"
        by (rule wf_bucket_filter [OF old split(4,5)]) simp
      then show ?thesis unfolding 3
        by (rule wf_bucket_index) (auto simp: entries_def split min_def)
    qed
  qed
  with wf lt len show ?thesis by (simp add: wf_table_def)
qed

lemma list_update_last: "xs \<noteq> [] \<Longrightarrow> xs[length xs - 1 := x] = butlast xs @ [x]"
  by (cases xs rule: rev_cases) simp_all

lemma rt_split_buckets:
  assumes "m_buckets rt \<noteq> []"
  shows "\<exists>kept fresh. m_buckets (rt_split rt) = butlast (m_buckets rt) @ [kept, fresh]
    \<and> mset (nodes kept) + mset (nodes fresh) = mset (nodes (last (m_buckets rt)))
    \<and> mset (replacements kept) + mset (replacements fresh) = mset (replacements (last (m_buckets rt)))"
proof -
  note list_update_last [OF assms]
  with assms show ?thesis
    by (auto simp: rt_split_def Let_def last_conv_nth add.commute)
qed

text \<open>Splitting a bucket moves nodes and loses none.\<close>

lemma mset_allNodes_split: "m_buckets rt \<noteq> [] \<Longrightarrow> mset (allNodes (rt_split rt)) = mset (allNodes rt)"
proof -
  assume ne: "m_buckets rt \<noteq> []"
  have "mset (allNodes rt) = mset (concat (map nodes (butlast (m_buckets rt) @ [last (m_buckets rt)])))"
    by (simp add: ne allNodes_def)
  with rt_split_buckets [OF ne] show ?thesis by (auto simp: allNodes_def add.assoc)
qed

lemma allEntries_split: "m_buckets rt \<noteq> [] \<Longrightarrow> allEntries (rt_split rt) = allEntries rt"
proof -
  assume ne: "m_buckets rt \<noteq> []"
  then obtain kept fresh where *: "m_buckets (rt_split rt) = butlast (m_buckets rt) @ [kept, fresh]"
    "mset (nodes kept) + mset (nodes fresh) = mset (nodes (last (m_buckets rt)))"
    "mset (replacements kept) + mset (replacements fresh) = mset (replacements (last (m_buckets rt)))"
    using rt_split_buckets by blast
  have "set (entries kept) \<union> set (entries fresh) = set (entries (last (m_buckets rt)))"
    using *(2,3) [THEN arg_cong [where f = set_mset]] by (auto simp: entries_def)
  moreover have "set (m_buckets rt) = insert (last (m_buckets rt)) (set (butlast (m_buckets rt)))"
    by (subst append_butlast_last_id [OF ne, symmetric]) simp
  ultimately show ?thesis by (auto simp: allEntries_def *(1))
qed


definition wf_entry :: "routing_table \<Rightarrow> routing_node \<Rightarrow> bool" where
  "wf_entry rt n \<longleftrightarrow> wf_id (rn_id n) \<and> rn_id n \<noteq> m_self rt \<and> rn_id n \<notin> rn_id ` allEntries rt"

lemma wf_entry_split: "m_buckets rt \<noteq> [] \<Longrightarrow> wf_entry (rt_split rt) n = wf_entry rt n"
  by (simp add: wf_entry_def allEntries_split)

lemma wf_entry_fresh:
  assumes "wf_entry rt n" "i < length (m_buckets rt)"
  shows "rn_id n \<notin> rn_id ` set (entries (m_buckets rt ! i))"
proof -
  have "set (entries (m_buckets rt ! i)) \<subseteq> allEntries rt" using nth_mem [OF assms(2)] unfolding allEntries_def by blast
  with assms(1) show ?thesis by (auto simp: wf_entry_def image_iff)
qed

lemma wf_bucket_new:
  assumes "wf_bucket self nb i b" "wf_id (rn_id n)" "rn_id n \<noteq> self"
    "min (commonPrefixLength self (rn_id n)) (nb - 1) = i"
    and "length (nodes b') \<le> K" "length (replacements b') \<le> K" "distinct (map rn_id (entries b'))"
    "rn_id ` set (entries b') \<subseteq> insert (rn_id n) (rn_id ` set (entries b))"
  shows "wf_bucket self nb i b'"
  unfolding wf_bucket_def
proof (intro conjI ballI)
  fix m assume "m \<in> set (entries b')"
  with assms(8) have "rn_id m = rn_id n \<or> (\<exists>m' \<in> set (entries b). rn_id m = rn_id m')" by auto
  with assms(1-4) show "wf_id (rn_id m)" "rn_id m \<noteq> self" "min (commonPrefixLength self (rn_id m)) (nb - 1) = i"
    by (auto simp: wf_bucket_def)
qed (use assms in auto)

lemma wf_bucket_add_node:
  assumes "wf_bucket self nb i b" "wf_id (rn_id n)" "rn_id n \<noteq> self"
    "min (commonPrefixLength self (rn_id n)) (nb - 1) = i" "rn_id n \<notin> rn_id ` set (entries b)" "length (nodes b) < K"
  shows "wf_bucket self nb i (b\<lparr>nodes := nodes b @ [n], lastChanged := now\<rparr>)"
  by (rule wf_bucket_new [OF assms(1-4)]) (use assms in \<open>auto simp: wf_bucket_def entries_def\<close>)

lemma wf_bucket_put_node:
  assumes "wf_bucket self nb i b" "wf_id (rn_id n)" "rn_id n \<noteq> self"
    "min (commonPrefixLength self (rn_id n)) (nb - 1) = i" "rn_id n \<notin> rn_id ` set (entries b)"
  shows "wf_bucket self nb i ((modifyNode j (\<lambda>_. n) b)\<lparr>lastChanged := now\<rparr>)"
proof (rule wf_bucket_new [OF assms(1-4)])
  have ids: "map rn_id (nodes ((modifyNode j (\<lambda>_. n) b)\<lparr>lastChanged := now\<rparr>)) = (map rn_id (nodes b))[j := rn_id n]"
    by (simp add: modifyNode_def map_update)
  have sub: "set ((map rn_id (nodes b))[j := rn_id n]) \<subseteq> insert (rn_id n) (rn_id ` set (nodes b))"
    by (metis list.set_map set_update_subset_insert)
  have "distinct ((map rn_id (nodes b))[j := rn_id n])"
    by (rule distinct_list_update) (use assms in \<open>auto simp: wf_bucket_def entries_def\<close>)
  moreover have "distinct (map rn_id (replacements b))"
    "insert (rn_id n) (rn_id ` set (nodes b)) \<inter> rn_id ` set (replacements b) = {}"
    using assms(1,5) by (simp_all add: wf_bucket_def entries_def image_Un)
  moreover have "replacements ((modifyNode j (\<lambda>_. n) b)\<lparr>lastChanged := now\<rparr>) = replacements b"
    by (simp add: modifyNode_def)
  ultimately show "distinct (map rn_id (entries ((modifyNode j (\<lambda>_. n) b)\<lparr>lastChanged := now\<rparr>)))"
    unfolding entries_def map_append ids distinct_append
    by (metis disjoint_subset [OF sub] list.set_map)
  show "rn_id ` set (entries ((modifyNode j (\<lambda>_. n) b)\<lparr>lastChanged := now\<rparr>)) \<subseteq> insert (rn_id n) (rn_id ` set (entries b))"
    using sub unfolding entries_def set_append image_Un list.set_map [symmetric] ids
    by (auto simp: modifyNode_def)
qed (use assms in \<open>auto simp: wf_bucket_def modifyNode_def\<close>)

lemma wf_bucket_cacheNode:
  assumes "wf_bucket self nb i b" "wf_id (rn_id n)" "rn_id n \<noteq> self"
    "min (commonPrefixLength self (rn_id n)) (nb - 1) = i" "rn_id n \<notin> rn_id ` set (entries b)"
  shows "wf_bucket self nb i (cacheNode n b)"
proof (rule wf_bucket_new [OF assms(1-4)])
  let ?c = "replacements b @ [n]"
  let ?k = "min_index lastResponse ?c"
  have k: "?k < length ?c" by (rule min_index_bound) simp
  have d: "distinct (map rn_id ?c)" "rn_id ` set (nodes b) \<inter> rn_id ` set ?c = {}" "distinct (map rn_id (nodes b))"
    using assms by (auto simp: wf_bucket_def entries_def)
  have sub: "rn_id ` set (replacements (cacheNode n b)) \<subseteq> rn_id ` set ?c"
    using set_remove_nth [of ?k ?c] by (auto simp: cacheNode_def Let_def)
  have "distinct (map rn_id (replacements (cacheNode n b)))"
    using d(1) distinct_remove_nth [OF d(1), of ?k] by (simp add: cacheNode_def Let_def remove_nth_map)
  moreover have "rn_id ` set (nodes b) \<inter> rn_id ` set (replacements (cacheNode n b)) = {}"
    using disjoint_subset [OF sub] d(2) by (metis Int_commute)
  moreover have "nodes (cacheNode n b) = nodes b" by (simp add: cacheNode_def Let_def)
  ultimately show "distinct (map rn_id (entries (cacheNode n b)))"
    using d(3) by (simp add: entries_def)
  show "rn_id ` set (entries (cacheNode n b)) \<subseteq> insert (rn_id n) (rn_id ` set (entries b))"
  proof -
    have "rn_id ` set (entries (cacheNode n b)) = rn_id ` set (nodes b) \<union> rn_id ` set (replacements (cacheNode n b))"
      by (simp add: entries_def cacheNode_def Let_def image_Un)
    also have "\<dots> \<subseteq> rn_id ` set (nodes b) \<union> rn_id ` set ?c" using sub by blast
    finally show ?thesis by (auto simp: entries_def)
  qed
  show "length (replacements (cacheNode n b)) \<le> K"
    using assms(1) length_remove_nth [OF k] by (simp add: cacheNode_def Let_def wf_bucket_def)
qed (use assms in \<open>simp add: wf_bucket_def cacheNode_def Let_def\<close>)


lemma allEntries_modifyBucket:
  assumes "i < length (m_buckets rt)" "rn_id ` set (entries (f (m_buckets rt ! i))) \<subseteq> A \<union> rn_id ` set (entries (m_buckets rt ! i))"
  shows "rn_id ` allEntries (modifyBucket i f rt) \<subseteq> A \<union> rn_id ` allEntries rt"
proof -
  have "allEntries (modifyBucket i f rt) \<subseteq> set (entries (f (m_buckets rt ! i))) \<union> allEntries rt"
    unfolding allEntries_def modifyBucket_def
    using set_update_subset_insert [of "m_buckets rt" i "f (m_buckets rt ! i)"] by auto
  then have new: "rn_id ` allEntries (modifyBucket i f rt)
      \<subseteq> rn_id ` set (entries (f (m_buckets rt ! i))) \<union> rn_id ` allEntries rt"
    by (metis image_Un image_mono)
  have "rn_id ` set (entries (m_buckets rt ! i)) \<subseteq> rn_id ` allEntries rt"
    using nth_mem [OF assms(1)] unfolding allEntries_def by (intro image_mono) blast
  then show ?thesis by (rule subset_chain [OF new assms(2)])
qed

lemma cacheNode_entries: "set (entries (cacheNode n b)) \<subseteq> insert n (set (entries b))"
  using set_remove_nth [of "min_index lastResponse (replacements b @ [n])" "replacements b @ [n]"]
  by (auto simp: cacheNode_def Let_def entries_def)

lemma modifyNode_entries: "set (entries (modifyNode j (\<lambda>_. n) b)) \<subseteq> insert n (set (entries b))"
  using set_update_subset_insert [of "nodes b" j n] by (auto simp: modifyNode_def entries_def)

lemma entries_lastChanged [simp]: "entries (b\<lparr>lastChanged := t\<rparr>) = entries b"
  by (simp add: entries_def)

text \<open>What one pass of the insertion loop does, for proofs about its result.\<close>

lemma insertLoop_cases:
  fixes rt :: routing_table and node :: routing_node
  defines "i \<equiv> bucketIndexFor rt (rn_id node)"
  obtains
    (add) "length (nodes (m_buckets rt ! i)) < K"
      "insertLoop node now rt = (Added, modifyBucket i (\<lambda>b. b\<lparr>nodes := nodes b @ [node], lastChanged := now\<rparr>) rt)"
  | (split) "length (nodes (m_buckets rt ! i)) \<ge> K" "canSplit rt i"
      "insertLoop node now rt = insertLoop node now (rt_split rt)"
  | (replace) j where "length (nodes (m_buckets rt ! i)) \<ge> K" "\<not> canSplit rt i"
      "find_index (\<lambda>n. stateOf n now = Bad) (nodes (m_buckets rt ! i)) = Some j"
      "insertLoop node now rt = (Replaced, modifyBucket i (\<lambda>b. (modifyNode j (\<lambda>_. node) b)\<lparr>lastChanged := now\<rparr>) rt)"
  | (cache) "length (nodes (m_buckets rt ! i)) \<ge> K" "\<not> canSplit rt i"
      "find_index (\<lambda>n. stateOf n now = Bad) (nodes (m_buckets rt ! i)) = None"
      "insertLoop node now rt = (Cached, modifyBucket i (cacheNode node) rt)"
  using insertLoop.simps [of node now rt]
  by (cases "find_index (\<lambda>n. stateOf n now = Bad) (nodes (m_buckets rt ! i))";
      cases "length (nodes (m_buckets rt ! i)) < K"; cases "canSplit rt i")
    (auto simp: Let_def i_def)

lemma insertLoop_wf:
  "wf_table rt \<Longrightarrow> wf_entry rt node \<Longrightarrow>
   wf_table (snd (insertLoop node now rt)) \<and> m_self (snd (insertLoop node now rt)) = m_self rt \<and>
   rn_id ` allEntries (snd (insertLoop node now rt)) \<subseteq> {rn_id node} \<union> rn_id ` allEntries rt"
proof (induction node now rt rule: insertLoop.induct)
  case (1 node now rt)
  let ?i = "bucketIndexFor rt (rn_id node)"
  let ?b = "m_buckets rt ! ?i"
  have i: "?i < length (m_buckets rt)" by (rule bucketIndexFor_less [OF "1.prems"(1)])
  have ne: "m_buckets rt \<noteq> []" using i by auto
  have node: "wf_id (rn_id node)" "rn_id node \<noteq> m_self rt"
    "min (commonPrefixLength (m_self rt) (rn_id node)) (length (m_buckets rt) - 1) = ?i"
    "rn_id node \<notin> rn_id ` set (entries ?b)"
    using "1.prems"(2) wf_entry_fresh [OF "1.prems"(2) i] by (auto simp: wf_entry_def bucketIndexFor_def)
  show ?case
  proof (cases rule: insertLoop_cases [of rt node now])
    case add
    have "wf_table (snd (insertLoop node now rt))" unfolding add(2) snd_conv
      by (rule wf_modifyBucket [OF "1.prems"(1) i]) (rule wf_bucket_add_node [OF _ node(1-4) add(1)])
    moreover have "rn_id ` allEntries (snd (insertLoop node now rt)) \<subseteq> {rn_id node} \<union> rn_id ` allEntries rt"
      unfolding add(2) snd_conv by (rule allEntries_modifyBucket [OF i]) (auto simp: entries_def)
    ultimately show ?thesis by (simp add: add(2))
  next
    case split
    have "wf_table (rt_split rt)" by (rule wf_split [OF "1.prems"(1)]) (use split in \<open>simp add: canSplit_def\<close>)
    with "1.IH" [OF refl refl _ split(2)] split(1) "1.prems"(2) show ?thesis
      unfolding split(3) by (simp add: wf_entry_split [OF ne] allEntries_split [OF ne])
  next
    case (replace j)
    have "wf_table (snd (insertLoop node now rt))" unfolding replace(4) snd_conv
      by (rule wf_modifyBucket [OF "1.prems"(1) i]) (rule wf_bucket_put_node [OF _ node(1-4)])
    moreover have "rn_id ` allEntries (snd (insertLoop node now rt)) \<subseteq> {rn_id node} \<union> rn_id ` allEntries rt"
      unfolding replace(4) snd_conv
      by (rule allEntries_modifyBucket [OF i]) (use modifyNode_entries [of j node ?b] in auto)
    ultimately show ?thesis by (simp add: replace(4))
  next
    case cache
    have "wf_table (snd (insertLoop node now rt))" unfolding cache(4) snd_conv
      by (rule wf_modifyBucket [OF "1.prems"(1) i]) (rule wf_bucket_cacheNode [OF _ node(1-4)])
    moreover have "rn_id ` allEntries (snd (insertLoop node now rt)) \<subseteq> {rn_id node} \<union> rn_id ` allEntries rt"
      unfolding cache(4) snd_conv
      by (rule allEntries_modifyBucket [OF i]) (use cacheNode_entries [of node ?b] in auto)
    ultimately show ?thesis by (simp add: cache(4))
  qed
qed

lemma rt_insert_wf:
  assumes "wf_table rt" "wf_id (rn_id node)" "rn_id node \<notin> rn_id ` allEntries rt"
  shows "wf_table (snd (rt_insert Q node now rt)) \<and> m_self (snd (rt_insert Q node now rt)) = m_self rt \<and>
    rn_id ` allEntries (snd (rt_insert Q node now rt)) \<subseteq> {rn_id node} \<union> rn_id ` allEntries rt"
  using assms insertLoop_wf [of rt node now] by (auto simp: rt_insert_def wf_entry_def)


section \<open>Every operation keeps the invariant\<close>

lemma wf_modify_same_ids:
  assumes "wf_table rt" "i < length (m_buckets rt)" "\<And>n. rn_id (f n) = rn_id n"
  shows "wf_table (modifyBucket i (modifyNode j f) rt)"
    "wf_table (modifyBucket i (\<lambda>b. (modifyNode j f b)\<lparr>lastChanged := now\<rparr>) rt)"
proof -
  have ids: "map rn_id (nodes (modifyNode j f b)) = map rn_id (nodes b)" for b
    using assms(3) by (rule modifyNode_same_ids)
  show "wf_table (modifyBucket i (modifyNode j f) rt)"
    by (rule wf_modifyBucket [OF assms(1,2)], erule wf_bucket_same_ids [OF _ ids]) (simp add: modifyNode_def)
  show "wf_table (modifyBucket i (\<lambda>b. (modifyNode j f b)\<lparr>lastChanged := now\<rparr>) rt)"
    by (rule wf_modifyBucket [OF assms(1,2)], erule wf_bucket_same_ids) (simp_all add: ids, simp add: modifyNode_def)
qed

lemma entries_dropReplacements: "n \<in> allEntries (dropReplacements P rt) \<Longrightarrow>
    n \<in> allEntries rt \<and> (\<not> P n \<or> (\<exists>b \<in> set (m_buckets rt). n \<in> set (nodes b)))"
  by (auto simp: allEntries_def dropReplacements_def entries_def)

text \<open>Equal identifiers are only in the bucket their prefix selects.\<close>

lemma wf_table_bucket_of:
  assumes "wf_table rt" "b \<in> set (m_buckets rt)" "n \<in> set (entries b)"
  shows "b = m_buckets rt ! bucketIndexFor rt (rn_id n)"
proof -
  from assms(2) obtain i where i: "i < length (m_buckets rt)" "b = m_buckets rt ! i" by (auto simp: in_set_conv_nth)
  with assms(1,3) have "min (commonPrefixLength (m_self rt) (rn_id n)) (length (m_buckets rt) - 1) = i"
    by (auto simp: wf_table_def wf_bucket_def)
  with i show ?thesis by (simp add: bucketIndexFor_def)
qed

lemma heardNew_wf:
  assumes wf: "wf_table rt" and nid: "wf_id nid"
  shows "wf_table (snd (heardNew Q nid ep version rtt now rt))"
proof -
  let ?i = "bucketIndexFor rt nid"
  let ?drop = "dropReplacements (\<lambda>n. rn_endpoint n = ep \<or> rn_id n = nid) rt"
  have i: "?i < length (m_buckets rt)" by (rule bucketIndexFor_less [OF wf])
  show ?thesis
  proof (cases "find_index (\<lambda>n. rn_id n = nid) (nodes (m_buckets rt ! ?i))")
    case None
    have "nid \<notin> rn_id ` allEntries ?drop"
    proof
      assume "nid \<in> rn_id ` allEntries ?drop"
      then obtain n where n: "n \<in> allEntries ?drop" "rn_id n = nid" by auto
      from entries_dropReplacements [OF n(1)] n(2) obtain b where b: "b \<in> set (m_buckets rt)" "n \<in> set (nodes b)" by auto
      with wf n(2) have "b = m_buckets rt ! ?i" by (metis wf_table_bucket_of Un_iff entries_def set_append)
      with b(2) n(2) None show False by (auto simp: find_index_None)
    qed
    then show ?thesis
      using None rt_insert_wf [OF wf_dropReplacements [OF wf], of "freshNode nid ep version rtt now"] nid
      by (simp add: heardNew_def Let_def freshNode_def)
  next
    case (Some j)
    then show ?thesis
      using wf wf_modify_same_ids(2) [OF wf i, of "\<lambda>n. n\<lparr>rn_endpoint := ep, lastResponse := now,
        failCount := 0, rttMs := rtt, rn_version := version\<rparr>"]
      by (simp add: heardNew_def Let_def)
  qed
qed

lemma heardFrom_wf:
  assumes wf: "wf_table rt" and nid: "wf_id nid"
  shows "wf_table (snd (heardFrom Q nid ep version rtt now rt))"
proof (cases "locate rt ep")
  case None
  with wf heardNew_wf [OF wf nid] show ?thesis by (simp add: heardFrom_def)
next
  case (Some p)
  obtain i j where p: "p = (i, j)" by (cases p)
  with Some have i: "i < length (m_buckets rt)" by (auto dest: locate_SomeD)
  have "wf_table (modifyBucket i (\<lambda>b. (modifyNode j (refreshed version rtt now) b)\<lparr>lastChanged := now\<rparr>) rt)"
    by (rule wf_modify_same_ids(2) [OF wf i]) (simp add: refreshed_def)
  with Some p wf heardNew_wf [OF wf_eraseEndpoint [OF wf i] nid] show ?thesis by (simp add: heardFrom_def)
qed

lemma queriedBy_wf: "wf_table rt \<Longrightarrow> wf_table (snd (queriedBy nid ep now rt))"
  using wf_modify_same_ids(1) [of rt] by (auto simp: queriedBy_def split: option.splits dest: locate_SomeD)

lemma markPinged_wf: "wf_table rt \<Longrightarrow> wf_table (markPinged ep now rt)"
  using wf_modify_same_ids(1) [of rt] by (auto simp: markPinged_def split: option.splits dest: locate_SomeD)

lemma touchBucket_wf: "wf_table rt \<Longrightarrow> wf_table (touchBucket index now rt)"
  by (auto simp: touchBucket_def entries_def wf_bucket_def intro!: wf_modifyBucket)


lemma promote_wf:
  assumes wf: "wf_bucket self nb i b" and "replacements b \<noteq> []"
  shows "wf_bucket self nb i (promote j now b)"
proof (rule wf_bucket_mono [OF wf])
  let ?k = "max_index lastResponse (replacements b)"
  let ?r = "replacements b ! ?k"
  have k: "?k < length (replacements b)" by (rule max_index_bound [OF assms(2)])
  have nodes': "map rn_id (nodes (promote j now b)) = (map rn_id (nodes b))[j := rn_id ?r]"
    and repl': "map rn_id (replacements (promote j now b)) = remove_nth ?k (map rn_id (replacements b))"
    by (simp_all add: promote_def Let_def modifyNode_def map_update remove_nth_map)
  have d: "distinct (map rn_id (nodes b))" "distinct (map rn_id (replacements b))"
    "set (map rn_id (nodes b)) \<inter> set (map rn_id (replacements b)) = {}"
    using wf by (simp_all add: wf_bucket_def entries_def)
  have r: "rn_id ?r \<in> set (map rn_id (replacements b))" using k by simp
  have sub: "set ((map rn_id (nodes b))[j := rn_id ?r]) \<subseteq> insert (rn_id ?r) (set (map rn_id (nodes b)))"
    by (rule set_update_subset_insert)
  have rem: "rn_id ?r \<notin> set (remove_nth ?k (map rn_id (replacements b)))"
    using nth_notin_remove_nth [OF d(2)] k by simp
  have "distinct ((map rn_id (nodes b))[j := rn_id ?r])"
    by (rule distinct_list_update [OF d(1)]) (use d(3) r in auto)
  moreover have "set ((map rn_id (nodes b))[j := rn_id ?r]) \<inter> set (remove_nth ?k (map rn_id (replacements b))) = {}"
    by (rule disjoint_subset [OF sub]) (use rem d(3) set_remove_nth [of ?k "map rn_id (replacements b)"] in auto)
  ultimately show "distinct (map rn_id (entries (promote j now b)))"
    unfolding entries_def map_append nodes' repl' using distinct_remove_nth [OF d(2)] by simp
  have "set (map rn_id (entries (promote j now b))) \<subseteq> set (map rn_id (entries b))"
    unfolding entries_def map_append nodes' repl' set_append
    using sub r set_remove_nth [of ?k "map rn_id (replacements b)"] by blast
  then show "rn_id ` set (entries (promote j now b)) \<subseteq> rn_id ` set (entries b)" by simp
  show "length (nodes (promote j now b)) \<le> K" "length (replacements (promote j now b)) \<le> K"
    using wf k by (auto simp: promote_def Let_def modifyNode_def wf_bucket_def)
qed

lemma rt_failed_wf:
  assumes wf: "wf_table rt"
  shows "wf_table (rt_failed ep now rt)"
proof (cases "locate rt ep")
  case None
  then show ?thesis by (simp add: rt_failed_def wf_dropReplacements [OF wf])
next
  case (Some p)
  obtain i j where p: "p = (i, j)" by (cases p)
  let ?rt1 = "modifyBucket i (modifyNode j (\<lambda>n. n\<lparr>failCount := failCount n + 1\<rparr>)) rt"
  from Some p have i: "i < length (m_buckets rt)" by (auto dest: locate_SomeD)
  have wf1: "wf_table ?rt1" by (rule wf_modify_same_ids(1) [OF wf i]) simp
  have "replacements (m_buckets ?rt1 ! i) \<noteq> [] \<Longrightarrow> wf_table (modifyBucket i (promote j now) ?rt1)"
    by (rule wf_modifyBucket [OF wf1]) (use i in \<open>auto intro: promote_wf\<close>)
  moreover have "wf_table (modifyBucket i (eraseEndpoint ep) ?rt1)"
    by (rule wf_eraseEndpoint [OF wf1]) (simp add: i)
  ultimately show ?thesis using Some p wf1 by (simp add: rt_failed_def Let_def)
qed

section \<open>Identifiers are distinct\<close>

lemma mset_entries:
  "mset (concat (map nodes bs) @ concat (map replacements bs)) = mset (concat (map entries bs))"
  by (induction bs) (simp_all add: entries_def)

lemma wf_entry_index:
  "wf_table rt \<Longrightarrow> i < length (m_buckets rt) \<Longrightarrow> n \<in> set (entries (m_buckets rt ! i)) \<Longrightarrow> bucketIndexFor rt (rn_id n) = i"
  by (auto simp: wf_table_def wf_bucket_def bucketIndexFor_def)

lemma distinct_entry_ids:
  assumes "wf_table rt"
  shows "distinct (map rn_id (concat (map nodes (m_buckets rt)) @ concat (map replacements (m_buckets rt))))"
proof -
  let ?bs = "m_buckets rt"
  have "distinct (concat (map (\<lambda>b. map rn_id (entries b)) ?bs))"
  proof (rule distinct_concat_nth)
    fix i assume "i < length (map (\<lambda>b. map rn_id (entries b)) ?bs)"
    then show "distinct (map (\<lambda>b. map rn_id (entries b)) ?bs ! i)"
      using assms by (simp add: wf_table_def wf_bucket_def)
  next
    fix i j assume "i < j" "j < length (map (\<lambda>b. map rn_id (entries b)) ?bs)"
    then show "set (map (\<lambda>b. map rn_id (entries b)) ?bs ! i) \<inter> set (map (\<lambda>b. map rn_id (entries b)) ?bs ! j) = {}"
      using wf_entry_index [OF assms, of i] wf_entry_index [OF assms, of j] by (auto, metis less_trans nat_neq_iff)
  qed
  then have "distinct (map rn_id (concat (map entries ?bs)))" by (simp add: map_concat comp_def)
  moreover have "mset (map rn_id (concat (map nodes ?bs) @ concat (map replacements ?bs))) = mset (map rn_id (concat (map entries ?bs)))"
    using mset_entries [of ?bs] by (metis mset_map)
  ultimately show ?thesis by (metis mset_eq_imp_distinct_iff)
qed

lemma wf_ids: "wf_table rt \<Longrightarrow> n \<in> allEntries rt \<Longrightarrow> wf_id (rn_id n) \<and> rn_id n \<noteq> m_self rt"
  unfolding allEntries_def
proof (elim UN_E)
  fix b assume "wf_table rt" "b \<in> set (m_buckets rt)" "n \<in> set (entries b)"
  then show ?thesis by (auto simp: wf_table_def wf_bucket_def in_set_conv_nth [of b])
qed

lemma insert_all_wf:
  assumes "wf_table rt" "\<forall>n \<in> set ns. wf_id (rn_id n)" "distinct (map rn_id ns)" "rn_id ` set ns \<inter> rn_id ` allEntries rt = {}"
  shows "wf_table (fold (\<lambda>n t. snd (rt_insert Q n now t)) ns rt) \<and>
    rn_id ` allEntries (fold (\<lambda>n t. snd (rt_insert Q n now t)) ns rt) \<subseteq> rn_id ` set ns \<union> rn_id ` allEntries rt"
  using assms
proof (induction ns arbitrary: rt)
  case (Cons n ns)
  let ?t = "snd (rt_insert Q n now rt)"
  have ins: "wf_table ?t" "rn_id ` allEntries ?t \<subseteq> {rn_id n} \<union> rn_id ` allEntries rt"
    using rt_insert_wf [OF Cons.prems(1), of n] Cons.prems(2,4) by auto
  have "rn_id ` set ns \<inter> rn_id ` allEntries ?t = {}"
  proof -
    have "rn_id ` set ns \<inter> ({rn_id n} \<union> rn_id ` allEntries rt) = {}" using Cons.prems(3,4) by auto
    with ins(2) show ?thesis by blast
  qed
  with Cons.IH [OF ins(1)] Cons.prems(2,3)
  have "wf_table (fold (\<lambda>n t. snd (rt_insert Q n now t)) ns ?t)"
    "rn_id ` allEntries (fold (\<lambda>n t. snd (rt_insert Q n now t)) ns ?t) \<subseteq> rn_id ` set ns \<union> rn_id ` allEntries ?t"
    by auto
  with ins(2) show ?case by (simp add: image_Un) blast
qed simp

lemma rebuild_wf:
  assumes wf: "wf_table rt" and self: "wf_id newSelf"
  shows "wf_table (rebuild Q newSelf now rt)"
proof -
  let ?ns = "concat (map nodes (m_buckets rt))" and ?cs = "concat (map replacements (m_buckets rt))"
  let ?rt0 = "rt\<lparr>m_self := newSelf, m_buckets := [emptyBucket\<lparr>lastChanged := now\<rparr>]\<rparr>"
  have rt0: "wf_table ?rt0" "allEntries ?rt0 = {}"
    using self by (simp_all add: wf_table_def wf_bucket_def entries_def emptyBucket_def allEntries_def id_Bits_def id_Size_def)
  have ids: "\<forall>n \<in> set ?ns \<union> set ?cs. wf_id (rn_id n)"
    using wf_ids [OF wf] by (auto simp: allEntries_def entries_def)
  have "wf_table (fold (\<lambda>n t. snd (rt_insert Q n now t)) (?ns @ ?cs) ?rt0)"
    using insert_all_wf [OF rt0(1), of "?ns @ ?cs"] ids distinct_entry_ids [OF wf] rt0(2)
    by (simp only: set_append Int_empty_right image_empty)
  then show ?thesis by (simp add: rebuild_def)
qed


section \<open>Reachable tables\<close>

inductive routing_step :: "qt_net \<Rightarrow> routing_table \<Rightarrow> routing_table \<Rightarrow> bool" for Q where
  heard: "wf_id nid \<Longrightarrow> routing_step Q rt (snd (heardFrom Q nid ep version rtt now rt))"
| queried: "routing_step Q rt (snd (queriedBy nid ep now rt))"
| failure: "routing_step Q rt (rt_failed ep now rt)"
| pinged: "routing_step Q rt (markPinged ep now rt)"
| touched: "routing_step Q rt (touchBucket index now rt)"
| rekeyed: "wf_id newSelf \<Longrightarrow> routing_step Q rt (rebuild Q newSelf now rt)"

inductive_cases routing_stepE: "routing_step Q rt rt'"

inductive routing_reachable :: "qt_net \<Rightarrow> routing_table \<Rightarrow> bool" for Q where
  start: "wf_id self \<Longrightarrow> routing_reachable Q (newTable self restrict)"
| step: "routing_reachable Q rt \<Longrightarrow> routing_step Q rt rt' \<Longrightarrow> routing_reachable Q rt'"

lemma routing_step_wf: "routing_step Q rt rt' \<Longrightarrow> wf_table rt \<Longrightarrow> wf_table rt'"
  by (erule routing_stepE)
    (simp_all add: heardFrom_wf queriedBy_wf rt_failed_wf markPinged_wf touchBucket_wf rebuild_wf)

lemma reachable_wf: "routing_reachable Q rt \<Longrightarrow> wf_table rt"
  by (induction rule: routing_reachable.induct) (simp_all add: wf_newTable routing_step_wf)


section \<open>Live nodes stay\<close>

lemma in_set_list_update: "x \<in> set xs \<Longrightarrow> x \<noteq> xs ! j \<Longrightarrow> x \<in> set (xs[j := y])"
  by (metis in_set_conv_nth length_list_update nth_list_update_neq)

lemma allNodes_modifyBucket:
  assumes "n \<in> set (allNodes rt)"
    "i < length (m_buckets rt) \<Longrightarrow> n \<in> set (nodes (m_buckets rt ! i)) \<Longrightarrow> n \<in> set (nodes (f (m_buckets rt ! i)))"
  shows "n \<in> set (allNodes (modifyBucket i f rt))"
proof -
  from assms(1) obtain k where k: "k < length (m_buckets rt)" "n \<in> set (nodes (m_buckets rt ! k))"
    by (auto simp: allNodes_def in_set_conv_nth [of _ "m_buckets rt"])
  then have "n \<in> set (nodes (m_buckets (modifyBucket i f rt) ! k))"
    using assms(2) by (cases "k = i") (simp_all add: modifyBucket_def)
  with k(1) show ?thesis by (auto simp: allNodes_def set_conv_nth [of "m_buckets _"])
qed

lemma allNodes_dropReplacements [simp]: "allNodes (dropReplacements P rt) = allNodes rt"
  by (simp add: allNodes_def dropReplacements_def comp_def)

lemma set_allNodes_split: "m_buckets rt \<noteq> [] \<Longrightarrow> set (allNodes (rt_split rt)) = set (allNodes rt)"
  using mset_allNodes_split [of rt] by (metis mset_eq_setD)

lemma insertLoop_keeps:
  "wf_table rt \<Longrightarrow> n \<in> set (allNodes rt) \<Longrightarrow> stateOf n now \<noteq> Bad \<Longrightarrow>
   n \<in> set (allNodes (snd (insertLoop node now rt)))"
proof (induction node now rt rule: insertLoop.induct)
  case (1 node now rt)
  let ?i = "bucketIndexFor rt (rn_id node)"
  have ne: "m_buckets rt \<noteq> []" using "1.prems"(1) by (auto simp: wf_table_def)
  show ?case
  proof (cases rule: insertLoop_cases [of rt node now])
    case add
    show ?thesis unfolding add(2) snd_conv by (rule allNodes_modifyBucket [OF "1.prems"(2)]) simp
  next
    case split
    have "wf_table (rt_split rt)" by (rule wf_split [OF "1.prems"(1)]) (use split in \<open>simp add: canSplit_def\<close>)
    with "1.IH" [OF refl refl _ split(2)] split(1) "1.prems"(2,3) show ?thesis
      unfolding split(3) by (simp add: set_allNodes_split [OF ne])
  next
    case (replace j)
    have "n \<noteq> nodes (m_buckets rt ! ?i) ! j" using find_index_SomeD [OF replace(3)] "1.prems"(3) by auto
    then show ?thesis unfolding replace(4) snd_conv
      by (intro allNodes_modifyBucket [OF "1.prems"(2)]) (simp add: modifyNode_def in_set_list_update)
  next
    case cache
    show ?thesis unfolding cache(4) snd_conv
      by (rule allNodes_modifyBucket [OF "1.prems"(2)]) (simp add: cacheNode_def Let_def)
  qed
qed

lemma heardNew_keeps:
  assumes "wf_table rt" "n \<in> set (allNodes rt)" "stateOf n now \<noteq> Bad"
  shows "n \<in> set (allNodes (snd (heardNew Q nid ep version rtt now rt)))"
proof (cases "find_index (\<lambda>n. rn_id n = nid) (nodes (m_buckets rt ! bucketIndexFor rt nid))")
  case None
  with assms insertLoop_keeps [OF wf_dropReplacements [OF assms(1)]] show ?thesis
    by (simp add: heardNew_def Let_def rt_insert_def)
next
  case (Some j)
  have "stateOf (nodes (m_buckets rt ! bucketIndexFor rt nid) ! j) now = Bad \<Longrightarrow>
    n \<noteq> nodes (m_buckets rt ! bucketIndexFor rt nid) ! j" using assms(3) by auto
  with Some assms show ?thesis
    by (auto simp: heardNew_def Let_def modifyNode_def in_set_list_update intro!: allNodes_modifyBucket)
qed

lemma heardFrom_keeps:
  assumes wf: "wf_table rt" and n: "n \<in> set (allNodes rt)" "stateOf n now \<noteq> Bad" "rn_endpoint n \<noteq> ep"
  shows "n \<in> set (allNodes (snd (heardFrom Q nid ep version rtt now rt)))"
proof (cases "locate rt ep")
  case None
  with n heardNew_keeps [OF wf] show ?thesis by (simp add: heardFrom_def)
next
  case (Some p)
  obtain i j where p: "p = (i, j)" by (cases p)
  with Some have loc: "i < length (m_buckets rt)" "rn_endpoint (nodes (m_buckets rt ! i) ! j) = ep"
    by (auto dest: locate_SomeD simp: nodeAt_def)
  then have "n \<noteq> nodes (m_buckets rt ! i) ! j" using n(3) by auto
  then have 1: "n \<in> set (allNodes (modifyBucket i (\<lambda>b. (modifyNode j (refreshed version rtt now) b)\<lparr>lastChanged := now\<rparr>) rt))"
    by (intro allNodes_modifyBucket [OF n(1)]) (simp add: modifyNode_def in_set_list_update)
  have "n \<in> set (allNodes (modifyBucket i (eraseEndpoint ep) rt))"
    by (rule allNodes_modifyBucket [OF n(1)]) (simp add: eraseEndpoint_def n(3))
  from heardNew_keeps [OF wf_eraseEndpoint [OF wf loc(1)] this n(2)] 1 Some p n(1) show ?thesis
    by (simp add: heardFrom_def)
qed


section \<open>Nearest nodes\<close>

interpretation nearest: strict_key_order "\<lambda>n. length (rn_id n) = length t"
  "\<lambda>a b. closer t (rn_id a) (rn_id b)" rn_id for t
  using nearer.lt_asym nearer.lt_negtrans closer_total by unfold_locales blast+

interpretation longestSilent: strict_weak_order "\<lambda>_. True"
  "\<lambda>a b. max (lastResponse a) (lastQuery a) < max (lastResponse b) (lastQuery b)"
  by unfold_locales auto

lemma distinct_allNodes: "wf_table rt \<Longrightarrow> distinct (map rn_id (allNodes rt))"
  using distinct_entry_ids [of rt] by (simp add: allNodes_def)

lemma allNodes_entries: "n \<in> set (allNodes rt) \<Longrightarrow> n \<in> allEntries rt"
  by (auto simp: allNodes_def allEntries_def entries_def)

definition candidates :: "routing_table \<Rightarrow> bool \<Rightarrow> routing_node list" where
  "candidates rt includeBad = filter (\<lambda>n. includeBad \<or> stateOf n 0 \<noteq> Bad) (allNodes rt)"

lemma candidate_facts:
  assumes "wf_table rt" "wf_id target"
  shows "\<forall>n \<in> set (candidates rt bad). length (rn_id n) = length target" "distinct (map rn_id (candidates rt bad))"
  using wf_ids [OF assms(1)] allNodes_entries [of _ rt] assms(2) distinct_allNodes [OF assms(1)]
  by (auto simp: candidates_def wf_id_def distinct_map_filter)

text \<open>C19: \<open>closest\<close> returns the nearest nodes: as many as asked for or all there are, taken from the table,
  strictly ordered by distance, and every other candidate is farther than each of them.\<close>

theorem closest_correct:
  assumes "wf_table rt" "wf_id target"
  shows "length (closest rt target k bad) = min k (length (candidates rt bad)) \<and>
    set (closest rt target k bad) \<subseteq> set (candidates rt bad) \<and>
    sorted_wrt (\<lambda>a b. closer target (rn_id a) (rn_id b)) (closest rt target k bad) \<and>
    (\<forall>c \<in> set (candidates rt bad) - set (closest rt target k bad). \<forall>n \<in> set (closest rt target k bad).
       closer target (rn_id n) (rn_id c))"
proof -
  note facts = candidate_facts [OF assms, of bad]
  have c: "closest rt target k bad = take k (sort_by (\<lambda>a b. closer target (rn_id a) (rn_id b)) (candidates rt bad))"
    by (simp add: closest_def candidates_def)
  have "set (closest rt target k bad) \<subseteq> set (candidates rt bad)"
    unfolding c by (rule subset_trans [OF set_take_subset]) simp
  moreover have "sorted_wrt (\<lambda>a b. closer target (rn_id a) (rn_id b)) (closest rt target k bad)"
    unfolding c by (rule sorted_wrt_take [OF nearest.sort_strict [OF facts]])
  moreover have "closer target (rn_id n) (rn_id x)"
    if "x \<in> set (candidates rt bad) - set (closest rt target k bad)" "n \<in> set (closest rt target k bad)" for x n
    using nearest.take_sort_strict [OF facts, of n k x] that unfolding c by simp
  moreover have "length (closest rt target k bad) = min k (length (candidates rt bad))"
    unfolding c by (simp add: min.commute)
  ultimately show ?thesis by blast
qed

theorem closest_correct_witness:
  "sorted_wrt (\<lambda>a b. closer nullId (rn_id a) (rn_id b)) (closest (newTable nullId True) nullId 8 False)"
  using closest_correct [OF wf_newTable [OF wf_nullId] wf_nullId] by blast

text \<open>C17: in every table reachable by the operations there are between 1 and 160 buckets with at most eight
  nodes and eight replacements each, no identifier occurs twice, our own identifier never occurs, and every
  entry is in the bucket that its shared prefix with our identifier selects.\<close>

theorem routing_table_invariant:
  assumes "routing_reachable Q rt"
  shows "1 \<le> length (m_buckets rt) \<and> length (m_buckets rt) \<le> 160 \<and>
    (\<forall>b \<in> set (m_buckets rt). length (nodes b) \<le> 8 \<and> length (replacements b) \<le> 8) \<and>
    distinct (map rn_id (concat (map nodes (m_buckets rt)) @ concat (map replacements (m_buckets rt)))) \<and>
    (\<forall>i < length (m_buckets rt). \<forall>n \<in> set (entries (m_buckets rt ! i)).
       rn_id n \<noteq> m_self rt \<and> bucketIndexFor rt (rn_id n) = i)"
proof -
  from assms have wf: "wf_table rt" by (rule reachable_wf)
  then have "\<forall>b \<in> set (m_buckets rt). length (nodes b) \<le> 8 \<and> length (replacements b) \<le> 8"
    by (auto simp: wf_table_def wf_bucket_def K_def in_set_conv_nth)
  moreover have "\<forall>i < length (m_buckets rt). \<forall>n \<in> set (entries (m_buckets rt ! i)).
       rn_id n \<noteq> m_self rt \<and> bucketIndexFor rt (rn_id n) = i"
    using wf wf_entry_index [OF wf] by (auto simp: wf_table_def wf_bucket_def)
  ultimately show ?thesis
    using distinct_entry_ids [OF wf] wf by (simp add: wf_table_def id_Bits_def id_Size_def)
qed

theorem routing_table_invariant_witness:
  "length (m_buckets (snd (heardFrom qt_doc (replicate 20 1) (mkEndpoint qt_doc (V4 0x01020304) 6881) [] 10 1000
     (newTable nullId True)))) \<le> 160"
  using routing_table_invariant [OF routing_reachable.step [OF routing_reachable.start [OF wf_nullId]
      routing_step.heard [of "replicate 20 1" qt_doc _ "mkEndpoint qt_doc (V4 0x01020304) 6881" "[]" 10 1000]], of True]
  by (simp add: wf_id_def id_Size_def)

text \<open>C18: hearing from a node never displaces another node that has not failed: every node that is not bad
  and does not sit at the sender's endpoint is in the table afterwards, unchanged.\<close>

theorem heardFrom_keeps_live_nodes:
  assumes "wf_table rt" "n \<in> set (allNodes rt)" "stateOf n now \<noteq> Bad" "rn_endpoint n \<noteq> ep"
  shows "n \<in> set (allNodes (snd (heardFrom Q nid ep version rtt now rt)))"
  by (rule heardFrom_keeps [OF assms])


theorem heardFrom_keeps_live_nodes_witness:
  "freshNode (replicate 20 1) (mkEndpoint qt_doc (V4 0x01020304) 6881) [] 10 1000 \<in>
     set (allNodes (snd (heardFrom qt_doc (replicate 20 2) (mkEndpoint qt_doc (V4 0x05060708) 6881) [] 10 2000
       (snd (heardFrom qt_doc (replicate 20 1) (mkEndpoint qt_doc (V4 0x01020304) 6881) [] 10 1000 (newTable nullId True))))))"
proof (rule heardFrom_keeps_live_nodes)
  show "wf_table (snd (heardFrom qt_doc (replicate 20 1) (mkEndpoint qt_doc (V4 0x01020304) 6881) [] 10 1000 (newTable nullId True)))"
    by (rule heardFrom_wf [OF wf_newTable [OF wf_nullId]]) (simp add: wf_id_def id_Size_def)
  show "freshNode (replicate 20 1) (mkEndpoint qt_doc (V4 0x01020304) 6881) [] 10 1000 \<in>
      set (allNodes (snd (heardFrom qt_doc (replicate 20 1) (mkEndpoint qt_doc (V4 0x01020304) 6881) [] 10 1000 (newTable nullId True))))"
    by (simp add: heardFrom_def newTable_def nullId_def id_Size_def isValid_def mkEndpoint_def locate_def emptyBucket_def
        heardNew_def bucketIndexFor_def Let_def dropReplacements_def rt_insert_def freshNode_def ipInUse_def
        insertLoop.simps K_def modifyBucket_def allNodes_def)
qed (simp_all add: stateOf_def freshNode_def BadFailCount_def GoodWindowMs_def mkEndpoint_def)

section \<open>What the result of an insertion means\<close>

lemma allNodes_modifyBucket_mem:
  "i < length (m_buckets rt) \<Longrightarrow> n \<in> set (nodes (f (m_buckets rt ! i))) \<Longrightarrow> n \<in> set (allNodes (modifyBucket i f rt))"
  by (auto simp: allNodes_def modifyBucket_def set_update_memI intro!: bexI [of _ "f (m_buckets rt ! i)"])

lemma insertLoop_result:
  "wf_table rt \<Longrightarrow>
   (fst (insertLoop node now rt) \<in> {Added, Replaced} \<and> node \<in> set (allNodes (snd (insertLoop node now rt)))) \<or>
   (fst (insertLoop node now rt) = Cached \<and> set (allNodes (snd (insertLoop node now rt))) = set (allNodes rt))"
proof (induction node now rt rule: insertLoop.induct)
  case (1 node now rt)
  let ?i = "bucketIndexFor rt (rn_id node)"
  have i: "?i < length (m_buckets rt)" by (rule bucketIndexFor_less [OF "1.prems"])
  then have ne: "m_buckets rt \<noteq> []" by auto
  show ?case
  proof (cases rule: insertLoop_cases [of rt node now])
    case add
    then show ?thesis using allNodes_modifyBucket_mem [OF i, of node] by simp
  next
    case split
    have "wf_table (rt_split rt)" by (rule wf_split [OF "1.prems"(1)]) (use split in \<open>simp add: canSplit_def\<close>)
    with "1.IH" [OF refl refl _ split(2)] split(1) show ?thesis
      unfolding split(3) by (simp add: set_allNodes_split [OF ne])
  next
    case (replace j)
    have "j < length (nodes (m_buckets rt ! ?i))" using find_index_SomeD [OF replace(3)] by simp
    then show ?thesis using allNodes_modifyBucket_mem [OF i, of node "\<lambda>b. (modifyNode j (\<lambda>_. node) b)\<lparr>lastChanged := now\<rparr>"]
      by (simp add: replace(4) modifyNode_def set_update_memI)
  next
    case cache
    have "map nodes ((m_buckets rt)[?i := cacheNode node (m_buckets rt ! ?i)]) = map nodes (m_buckets rt)"
      using i by (simp add: map_update cacheNode_def Let_def list_update_same_conv)
    then show ?thesis by (simp add: cache(4) allNodes_def modifyBucket_def)
  qed
qed

lemma rt_insert_cases: "rt_insert Q n now rt = (Rejected, rt) \<or> rt_insert Q n now rt = insertLoop n now rt"
  by (simp add: rt_insert_def)

definition holds :: "routing_table \<Rightarrow> node_id \<Rightarrow> endpoint \<Rightarrow> int \<Rightarrow> bool" where
  "holds rt nid ep now \<longleftrightarrow>
     (\<exists>n \<in> set (allNodes rt). rn_id n = nid \<and> rn_endpoint n = ep \<and> lastResponse n = now \<and> failCount n = 0)"

lemma heardNew_result:
  assumes wf: "wf_table rt" and "fst (heardNew Q nid ep version rtt now rt) \<in> {Added, Updated, Replaced}"
  shows "holds (snd (heardNew Q nid ep version rtt now rt)) nid ep now"
proof (cases "find_index (\<lambda>n. rn_id n = nid) (nodes (m_buckets rt ! bucketIndexFor rt nid))")
  case None
  let ?n = "freshNode nid ep version rtt now"
  let ?rt = "dropReplacements (\<lambda>n. rn_endpoint n = ep \<or> rn_id n = nid) rt"
  have "heardNew Q nid ep version rtt now rt = rt_insert Q ?n now ?rt" using None by (simp add: heardNew_def Let_def)
  moreover have "?n \<in> set (allNodes (snd (rt_insert Q ?n now ?rt)))"
    if res: "fst (rt_insert Q ?n now ?rt) \<in> {Added, Updated, Replaced}"
  proof -
    from res rt_insert_cases [of Q ?n now ?rt] have "rt_insert Q ?n now ?rt = insertLoop ?n now ?rt" by (elim disjE) simp_all
    with res insertLoop_result [OF wf_dropReplacements [OF wf], of ?n now "\<lambda>n. rn_endpoint n = ep \<or> rn_id n = nid"]
    show ?thesis by (elim disjE) simp_all
  qed
  ultimately have "?n \<in> set (allNodes (snd (heardNew Q nid ep version rtt now rt)))" using assms(2) by simp
  then show ?thesis unfolding holds_def by (rule bexI [rotated]) (simp add: freshNode_def)
next
  case (Some j)
  let ?i = "bucketIndexFor rt nid"
  let ?f = "\<lambda>n. n\<lparr>rn_endpoint := ep, lastResponse := now, failCount := 0, rttMs := rtt, rn_version := version\<rparr>"
  let ?g = "\<lambda>b. (modifyNode j ?f b)\<lparr>lastChanged := now\<rparr>"
  have j: "j < length (nodes (m_buckets rt ! ?i))" "rn_id (nodes (m_buckets rt ! ?i) ! j) = nid"
    using find_index_SomeD [OF Some] by simp_all
  have r: "heardNew Q nid ep version rtt now rt = (Updated, modifyBucket ?i ?g rt)"
    using Some assms(2) by (auto simp: heardNew_def Let_def split: if_splits)
  have "?f (nodes (m_buckets rt ! ?i) ! j) \<in> set (allNodes (modifyBucket ?i ?g rt))"
    by (rule allNodes_modifyBucket_mem [OF bucketIndexFor_less [OF wf]]) (simp add: modifyNode_def set_update_memI j)
  then show ?thesis unfolding r holds_def snd_conv by (rule bexI [rotated]) (simp add: j)
qed

lemma heardFrom_result:
  assumes wf: "wf_table rt" and res: "fst (heardFrom Q nid ep version rtt now rt) \<in> {Added, Updated, Replaced}"
  shows "holds (snd (heardFrom Q nid ep version rtt now rt)) nid ep now"
proof (cases "locate rt ep")
  case None
  with heardNew_result [OF wf] res show ?thesis by (auto simp: heardFrom_def split: if_splits)
next
  case (Some p)
  obtain i j where p: "p = (i, j)" by (cases p)
  note loc = locate_SomeD [OF Some [unfolded p]]
  let ?g = "\<lambda>b. (modifyNode j (refreshed version rtt now) b)\<lparr>lastChanged := now\<rparr>"
  show ?thesis
  proof (cases "rn_id (nodeAt rt (i, j)) = nid")
    case True
    then have r: "heardFrom Q nid ep version rtt now rt = (Updated, modifyBucket i ?g rt)"
      using Some p res by (auto simp: heardFrom_def split: if_splits)
    have "refreshed version rtt now (nodeAt rt (i, j)) \<in> set (allNodes (modifyBucket i ?g rt))"
      by (rule allNodes_modifyBucket_mem [OF loc(1)]) (simp add: modifyNode_def set_update_memI loc(2) nodeAt_def)
    then show ?thesis unfolding r holds_def snd_conv
      by (rule bexI [rotated]) (use True loc(3) in \<open>simp add: refreshed_def\<close>)
  next
    case False
    with heardNew_result [OF wf_eraseEndpoint [OF wf loc(1)]] Some p res show ?thesis
      by (auto simp: heardFrom_def split: if_splits)
  qed
qed


text \<open>When \<open>heardFrom\<close> reports a node added, updated or put in place of another, the table holds the
  node with that identifier and endpoint, heard from just now and with no failures.\<close>

theorem heardFrom_holds:
  assumes "wf_table rt" "fst (heardFrom Q nid ep version rtt now rt) \<in> {Added, Updated, Replaced}"
  shows "\<exists>n \<in> set (allNodes (snd (heardFrom Q nid ep version rtt now rt))).
    rn_id n = nid \<and> rn_endpoint n = ep \<and> lastResponse n = now \<and> failCount n = 0"
  using heardFrom_result [OF assms] by (simp add: holds_def)

lemma first_heard:
  "heardFrom qt_doc (replicate 20 1) (mkEndpoint qt_doc (V4 0x01020304) 6881) [] 10 1000 (newTable nullId True) =
   (Added, \<lparr>m_self = nullId, m_restrictOnePerIp = True, m_buckets = [\<lparr>nodes = [freshNode (replicate 20 1)
      (mkEndpoint qt_doc (V4 0x01020304) 6881) [] 10 1000], replacements = [], lastChanged = 1000\<rparr>]\<rparr>)"
  by (simp add: heardFrom_def newTable_def nullId_def id_Size_def isValid_def mkEndpoint_def locate_def emptyBucket_def
        heardNew_def bucketIndexFor_def Let_def dropReplacements_def rt_insert_def freshNode_def ipInUse_def
        insertLoop.simps K_def modifyBucket_def)

theorem heardFrom_holds_witness:
  "\<exists>n \<in> set (allNodes (snd (heardFrom qt_doc (replicate 20 1) (mkEndpoint qt_doc (V4 0x01020304) 6881) [] 10 1000 (newTable nullId True)))).
    rn_id n = replicate 20 1 \<and> rn_endpoint n = mkEndpoint qt_doc (V4 0x01020304) 6881 \<and> lastResponse n = 1000 \<and> failCount n = 0"
  by (rule heardFrom_holds [OF wf_newTable [OF wf_nullId]]) (simp add: first_heard)

lemma canSplit_drop: "canSplit (dropReplacements P rt) i = canSplit rt i"
  by (simp add: canSplit_def)

text \<open>When \<open>wouldAccept\<close> says no to an identifier that is not in the table, hearing from it at a new
  endpoint leaves the nodes of the table as they are: it is rejected or kept as a replacement.\<close>

theorem wouldAccept_no:
  assumes "wf_table rt" "\<not> wouldAccept rt nid" "nid \<notin> rn_id ` set (allNodes rt)" "locate rt ep = None"
  shows "fst (heardFrom Q nid ep version rtt now rt) \<in> {Rejected, Cached} \<and>
    set (allNodes (snd (heardFrom Q nid ep version rtt now rt))) = set (allNodes rt)"
proof (cases "nid = m_self rt \<or> \<not> isValid ep")
  case True
  then show ?thesis by (auto simp: heardFrom_def)
next
  case False
  let ?i = "bucketIndexFor rt nid" and ?n = "freshNode nid ep version rtt now"
  let ?rt = "dropReplacements (\<lambda>n. rn_endpoint n = ep \<or> rn_id n = nid) rt"
  have i: "?i < length (m_buckets rt)" by (rule bucketIndexFor_less [OF assms(1)])
  then have sub: "set (nodes (m_buckets rt ! ?i)) \<subseteq> set (allNodes rt)"
    unfolding allNodes_def by (auto intro!: bexI [OF _ nth_mem])
  have none: "find_index (\<lambda>n. rn_id n = nid) (nodes (m_buckets rt ! ?i)) = None"
    using sub assms(3) by (auto simp: find_index_None)
  have b: "bucketIndexFor ?rt (rn_id ?n) = ?i" "nodes (m_buckets ?rt ! ?i) = nodes (m_buckets rt ! ?i)"
    using i by (simp_all add: bucketIndexFor_def freshNode_def dropReplacements_def)
  have no: "length (nodes (m_buckets rt ! ?i)) \<ge> K" "\<not> canSplit rt ?i"
    "find_index (\<lambda>n. stateOf n now = Bad) (nodes (m_buckets rt ! ?i)) = None"
    using assms(2,3) False sub
    by (auto simp: wouldAccept_def Let_def list_ex_iff find_index_None stateOf_def split: if_splits)
  have "insertLoop ?n now ?rt = (Cached, modifyBucket ?i (cacheNode ?n) ?rt)"
    using no b canSplit_drop [of _ rt] by (subst insertLoop.simps) (simp add: Let_def)
  with insertLoop_result [OF wf_dropReplacements [OF assms(1)], of ?n now "\<lambda>n. rn_endpoint n = ep \<or> rn_id n = nid"]
  have "fst (rt_insert Q ?n now ?rt) \<in> {Rejected, Cached} \<and> set (allNodes (snd (rt_insert Q ?n now ?rt))) = set (allNodes rt)"
    by (auto simp: rt_insert_def)
  then show ?thesis using False assms(4) none by (simp add: heardFrom_def heardNew_def Let_def)
qed

theorem wouldAccept_no_witness:
  "fst (heardFrom qt_doc nullId (mkEndpoint qt_doc (V4 0x01020304) 6881) [] 10 1000 (newTable nullId True)) \<in> {Rejected, Cached}"
  using wouldAccept_no [OF wf_newTable [OF wf_nullId], of True nullId "mkEndpoint qt_doc (V4 0x01020304) 6881"]
  by (simp add: wouldAccept_def newTable_def allNodes_def emptyBucket_def locate_def)

text \<open>The random target that refreshes a bucket falls into that bucket.\<close>

theorem randomIdInBucket_in_bucket:
  assumes "wf_table rt" "wf_id rnd" "i < length (m_buckets rt)"
  shows "bucketIndexFor rt (randomIdInBucket rnd rt (int i)) = i"
proof -
  have self: "wf_id (m_self rt)" "i \<le> id_Bits" using assms by (auto simp: wf_table_def)
  note p = commonPrefixLength_randomWithPrefix [OF assms(2) self]
  have "i < length (m_buckets rt) - 1 \<Longrightarrow> commonPrefixLength (m_self rt) (randomWithPrefix rnd (m_self rt) (int i) True) = i"
    using p(2) [of True] by simp
  moreover have "(int i \<noteq> int (length (m_buckets rt)) - 1) \<longleftrightarrow> i < length (m_buckets rt) - 1" using assms(3) by linarith
  ultimately show ?thesis
    using p(1) [of False] assms(3) by (cases "i < length (m_buckets rt) - 1") (auto simp: randomIdInBucket_def bucketIndexFor_def)
qed

theorem randomIdInBucket_in_bucket_witness:
  "bucketIndexFor (newTable nullId True) (randomIdInBucket nullId (newTable nullId True) (int 0)) = 0"
  by (rule randomIdInBucket_in_bucket [OF wf_newTable [OF wf_nullId] wf_nullId]) (simp add: newTable_def)


section \<open>One node per address\<close>

text \<open>The nodes and addresses of the run below.\<close>

definition twinA :: endpoint where "twinA = \<lparr>address = V4 0x01020304, port = 6881\<rparr>"
definition twinB :: endpoint where "twinB = \<lparr>address = V4 0x05060708, port = 6881\<rparr>"
definition twinC :: endpoint where "twinC = \<lparr>address = V4 0x01020304, port = 6882\<rparr>"

definition twinRun :: routing_table where
  "twinRun =
     snd (heardFrom qt_doc (replicate 20 2) twinC [] 10 3000
      (rt_failed twinB 2000 (rt_failed twinB 2000
       (snd (heardFrom qt_doc (replicate 20 2) twinB [] 10 1000
        (snd (heardFrom qt_doc (replicate 20 1) twinA [] 10 1000 (newTable nullId True))))))))"

lemmas run_simps = heardFrom_def newTable_def nullId_def id_Size_def isValid_def locate_def emptyBucket_def
        heardNew_def bucketIndexFor_def Let_def dropReplacements_def rt_insert_def freshNode_def ipInUse_def
        insertLoop.simps K_def modifyBucket_def rt_failed_def modifyNode_def nodeAt_def stateOf_def BadFailCount_def
        GoodWindowMs_def RemoveFailCount_def

lemma twinRun_eval: "map (\<lambda>n. (rn_id n, rn_endpoint n)) (allNodes twinRun) = [(replicate 20 1, twinA), (replicate 20 2, twinC)]"
proof -
  have 1: "snd (heardFrom qt_doc (replicate 20 1) twinA [] 10 1000 (newTable nullId True)) =
    \<lparr>m_self = nullId, m_restrictOnePerIp = True, m_buckets = [\<lparr>nodes = [freshNode (replicate 20 1) twinA [] 10 1000],
      replacements = [], lastChanged = 1000\<rparr>]\<rparr>" (is "_ = ?t1")
    by (simp add: run_simps twinA_def)
  have 2: "snd (heardFrom qt_doc (replicate 20 2) twinB [] 10 1000 ?t1) =
    \<lparr>m_self = nullId, m_restrictOnePerIp = True, m_buckets = [\<lparr>nodes = [freshNode (replicate 20 1) twinA [] 10 1000,
      freshNode (replicate 20 2) twinB [] 10 1000], replacements = [], lastChanged = 1000\<rparr>]\<rparr>" (is "_ = ?t2")
    by (simp add: run_simps twinA_def twinB_def)
  have 3: "rt_failed twinB 2000 (rt_failed twinB 2000 ?t2) =
    \<lparr>m_self = nullId, m_restrictOnePerIp = True, m_buckets = [\<lparr>nodes = [freshNode (replicate 20 1) twinA [] 10 1000,
      (freshNode (replicate 20 2) twinB [] 10 1000)\<lparr>failCount := 2\<rparr>], replacements = [], lastChanged = 1000\<rparr>]\<rparr>" (is "_ = ?t3")
    by (simp add: run_simps twinA_def twinB_def)
  show ?thesis unfolding twinRun_def 1 2 3
    by (simp add: run_simps twinA_def twinB_def twinC_def allNodes_def)
qed

lemma restrict_unchanged [simp]:
  "m_restrictOnePerIp (snd (insertLoop node now rt)) = m_restrictOnePerIp rt"
  "m_restrictOnePerIp (snd (heardFrom Q nid ep version rtt now rt)) = m_restrictOnePerIp rt"
  "m_restrictOnePerIp (rt_failed ep now rt) = m_restrictOnePerIp rt"
proof -
  show loop: "m_restrictOnePerIp (snd (insertLoop node now rt)) = m_restrictOnePerIp rt" for node now rt
  proof (induction node now rt rule: insertLoop.induct)
    case (1 node now rt)
    show ?case by (cases rule: insertLoop_cases [of rt node now]) (use "1.IH" in \<open>simp_all add: Let_def\<close>)
  qed
  have new: "m_restrictOnePerIp (snd (heardNew Q nid ep version rtt now rt)) = m_restrictOnePerIp rt" for rt
    by (simp add: heardNew_def Let_def rt_insert_def loop split: option.splits)
  show "m_restrictOnePerIp (snd (heardFrom Q nid ep version rtt now rt)) = m_restrictOnePerIp rt"
    by (simp add: heardFrom_def new split: option.splits prod.splits)
  show "m_restrictOnePerIp (rt_failed ep now rt) = m_restrictOnePerIp rt"
    by (simp add: rt_failed_def Let_def split: option.splits prod.splits)
qed

lemma twinRun_restrict: "m_restrictOnePerIp twinRun"
  by (simp add: twinRun_def newTable_def)

lemma twinRun_reachable: "routing_reachable qt_doc twinRun"
  unfolding twinRun_def
  by (intro routing_reachable.step [OF _ routing_step.heard] routing_reachable.step [OF _ routing_step.failure]
      routing_reachable.start) (simp_all add: wf_id_def id_Size_def nullId_def)

text \<open>the restriction to one node per public address is not an invariant of the table: from an empty
  table with the restriction on, a node that failed twice and is heard from again at an address already in
  the table is moved there, so that two nodes share one public address.\<close>

theorem one_node_per_ip_not_invariant:
  "\<exists>rt a b. routing_reachable qt_doc rt \<and> m_restrictOnePerIp rt \<and> a \<in> set (allNodes rt) \<and> b \<in> set (allNodes rt) \<and>
     rn_id a \<noteq> rn_id b \<and> address (rn_endpoint a) = address (rn_endpoint b) \<and>
     \<not> isLocalAddress qt_doc (address (rn_endpoint a))"
proof -
  from twinRun_eval obtain a b where ab: "allNodes twinRun = [a, b]" "rn_id a = replicate 20 1" "rn_id b = replicate 20 2"
    "rn_endpoint a = twinA" "rn_endpoint b = twinC" by (auto simp: map_eq_Cons_conv)
  moreover have "m_restrictOnePerIp twinRun" using twinRun_restrict by simp
  moreover have "\<not> isLocalAddress qt_doc (V4 0x01020304)"
    by (simp add: isLocalAddress_def qt_doc_def localSubnets_def inSubnet_def ip4_def protocol_simps toIPv4Address_def Let_def)
  ultimately show ?thesis using twinRun_reachable
    by (intro exI [of _ twinRun] exI [of _ a] exI [of _ b]) (simp add: twinA_def twinC_def)
qed

end
