(* ===== verification/Bencode.thy ===== *)
theory Bencode
  imports Dht_Prelude
begin

text \<open>
  \<^verbatim>\<open>dhtcore/include/dhtcore/Bencode.h\<close>, \<^verbatim>\<open>dhtcore/src/Bencode.cpp\<close>: bencoded values, the
  observing decoder that reports non-canonical input as warnings, and the canonical encoder.

  A value carries the span of the input it was decoded from (\<open>m_rawStart\<close>, \<open>m_rawLength\<close>; \<open>None\<close> for
  values built in code). A dictionary (\<open>std::map\<close>) is an association list sorted by key. The decoder's
  view of its input is the part of the data not consumed yet, \<open>m_rest\<close>, with the position \<open>m_pos\<close> of
  its first byte. The recursion of \<open>parseValue\<close>, \<open>parseList\<close> and \<open>parseDict\<close> spends fuel; \<open>bdecode\<close>
  starts with two units per byte and one more, which \<open>bdecode_never_out_of_fuel\<close> shows is enough for
  every input.
\<close>

type_synonym span = "(nat \<times> nat) option"

datatype bvalue =
    BInvalid
  | BInteger span int
  | BString span bytes
  | BList span "bvalue list"
  | BDict span "(bytes \<times> bvalue) list"
  | BPreEncoded span bytes

type_synonym bdict = "(bytes \<times> bvalue) list"

section \<open>Values\<close>

definition preEncoded :: "bytes \<Rightarrow> bvalue" where
  "preEncoded bs = BPreEncoded None bs"

text \<open>The implicit constructors from an integer, a byte string, a list and a dictionary.\<close>

abbreviation mkInt :: "int \<Rightarrow> bvalue" where
  "mkInt \<equiv> BInteger None"

abbreviation mkString :: "bytes \<Rightarrow> bvalue" where
  "mkString \<equiv> BString None"

abbreviation mkList :: "bvalue list \<Rightarrow> bvalue" where
  "mkList \<equiv> BList None"

abbreviation mkDict :: "bdict \<Rightarrow> bvalue" where
  "mkDict \<equiv> BDict None"

fun spanOf :: "bvalue \<Rightarrow> span" where
  "spanOf BInvalid = None"
| "spanOf (BInteger s _) = s"
| "spanOf (BString s _) = s"
| "spanOf (BList s _) = s"
| "spanOf (BDict s _) = s"
| "spanOf (BPreEncoded s _) = s"

fun setRawSpan :: "bvalue \<Rightarrow> nat \<Rightarrow> nat \<Rightarrow> bvalue" where
  "setRawSpan BInvalid st n = BInvalid"
| "setRawSpan (BInteger _ i) st n = BInteger (Some (st, n)) i"
| "setRawSpan (BString _ b) st n = BString (Some (st, n)) b"
| "setRawSpan (BList _ xs) st n = BList (Some (st, n)) xs"
| "setRawSpan (BDict _ d) st n = BDict (Some (st, n)) d"
| "setRawSpan (BPreEncoded _ b) st n = BPreEncoded (Some (st, n)) b"

definition rawSpan :: "bvalue \<Rightarrow> bytes \<Rightarrow> bytes" where
  "rawSpan v source =
     (case spanOf v of
        None \<Rightarrow> []
      | Some (st, n) \<Rightarrow> if n = 0 \<or> length source < st + n then [] else take n (drop st source))"

definition isDict :: "bvalue \<Rightarrow> bool" where
  "isDict v = (case v of BDict _ _ \<Rightarrow> True | _ \<Rightarrow> False)"

definition toInteger :: "bvalue \<Rightarrow> int \<Rightarrow> int" where
  "toInteger v fallback = (case v of BInteger _ i \<Rightarrow> i | _ \<Rightarrow> fallback)"

definition toPreEncodedBytes :: "bvalue \<Rightarrow> bytes" where
  "toPreEncodedBytes v = (case v of BPreEncoded _ b \<Rightarrow> b | _ \<Rightarrow> [])"

definition toString :: "bvalue \<Rightarrow> bytes" where
  "toString v = (case v of BString _ b \<Rightarrow> b | _ \<Rightarrow> [])"

definition toList :: "bvalue \<Rightarrow> bvalue list" where
  "toList v = (case v of BList _ xs \<Rightarrow> xs | _ \<Rightarrow> [])"

definition toDict :: "bvalue \<Rightarrow> bdict" where
  "toDict v = (case v of BDict _ d \<Rightarrow> d | _ \<Rightarrow> [])"

definition find_key :: "bvalue \<Rightarrow> bytes \<Rightarrow> bvalue option" where
  "find_key v k = (case v of BDict _ d \<Rightarrow> map_of d k | _ \<Rightarrow> None)"

definition stringAt :: "bvalue \<Rightarrow> bytes \<Rightarrow> bytes option" where
  "stringAt v k = (case find_key v k of Some (BString _ b) \<Rightarrow> Some b | _ \<Rightarrow> None)"

definition integerAt :: "bvalue \<Rightarrow> bytes \<Rightarrow> int option" where
  "integerAt v k = (case find_key v k of Some (BInteger _ i) \<Rightarrow> Some i | _ \<Rightarrow> None)"

definition listAt :: "bvalue \<Rightarrow> bytes \<Rightarrow> bvalue option" where
  "listAt v k = (case find_key v k of Some (BList s xs) \<Rightarrow> Some (BList s xs) | _ \<Rightarrow> None)"

definition dictAt :: "bvalue \<Rightarrow> bytes \<Rightarrow> bvalue option" where
  "dictAt v k = (case find_key v k of Some (BDict s d) \<Rightarrow> Some (BDict s d) | _ \<Rightarrow> None)"

text \<open>\<open>std::map\<close>: \<open>emplace\<close> keeps an entry that is there, \<open>insert_or_assign\<close> replaces it.\<close>

fun emplace :: "bytes \<Rightarrow> 'v \<Rightarrow> (bytes \<times> 'v) list \<Rightarrow> (bytes \<times> 'v) list" where
  "emplace k v [] = [(k, v)]"
| "emplace k v ((k', v') # d) =
     (if k < k' then (k, v) # (k', v') # d
      else if k = k' then (k', v') # d
      else (k', v') # emplace k v d)"

fun insert_or_assign :: "bytes \<Rightarrow> 'v \<Rightarrow> (bytes \<times> 'v) list \<Rightarrow> (bytes \<times> 'v) list" where
  "insert_or_assign k v [] = [(k, v)]"
| "insert_or_assign k v ((k', v') # d) =
     (if k < k' then (k, v) # (k', v') # d
      else if k = k' then (k, v) # d
      else (k', v') # insert_or_assign k v d)"

abbreviation sorted_keys :: "(bytes \<times> 'v) list \<Rightarrow> bool" where
  "sorted_keys d \<equiv> sorted_wrt (<) (map fst d)"

section \<open>Decoder\<close>

datatype bproblem =
    UnexpectedEnd | UnexpectedByte byte | NestingTooDeep | IntegerOutOfRange
  | UnterminatedInteger nat | InvalidIntegerCharacter | IntegerNoDigits
  | LengthPrefixTooLong | UnterminatedStringLength | ExpectedColon | StringTooLong nat nat
  | UnterminatedList nat | UnterminatedDict nat | KeyNotString | OutOfFuel

datatype bwarning =
    TrailingBytes nat | IntegerLeadingZeros | NegativeZero | StringLengthLeadingZeros
  | DuplicateKey bytes | KeysNotSorted

record berror =
  err_offset :: nat
  err_problem :: bproblem

record decoder =
  m_rest :: bytes
  m_pos :: nat
  m_warnings :: "(nat \<times> bwarning) list"

type_synonym 'a presult = "(berror \<times> (nat \<times> bwarning) list) + ('a \<times> decoder)"

definition fail :: "decoder \<Rightarrow> bproblem \<Rightarrow> 'a presult" where
  "fail d p = Inl (\<lparr>err_offset = m_pos d, err_problem = p\<rparr>, m_warnings d)"

definition warn :: "bwarning \<Rightarrow> decoder \<Rightarrow> decoder" where
  "warn w d = d\<lparr>m_warnings := m_warnings d @ [(m_pos d, w)]\<rparr>"

definition warnIf :: "bool \<Rightarrow> bwarning \<Rightarrow> decoder \<Rightarrow> decoder" where
  "warnIf b w d = (if b then warn w d else d)"

text \<open>Consume \<open>n\<close> bytes.\<close>

definition advance :: "nat \<Rightarrow> decoder \<Rightarrow> decoder" where
  "advance n d = d\<lparr>m_rest := drop n (m_rest d), m_pos := m_pos d + n\<rparr>"

text \<open>The digit loop of \<open>parseInteger\<close>: \<open>Inl n\<close> when the magnitude would leave 64 bits after \<open>n\<close>
  digits, otherwise the magnitude and the number of digits.\<close>

fun integerDigits :: "nat \<Rightarrow> nat \<Rightarrow> bytes \<Rightarrow> nat + (nat \<times> nat)" where
  "integerDigits magnitude n [] = Inr (magnitude, n)"
| "integerDigits magnitude n (c # cs) =
     (if isDigit c then
        if magnitude > (2 ^ 64 - 1 - digitVal c) div 10 then Inl n
        else integerDigits (magnitude * 10 + digitVal c) (Suc n) cs
      else Inr (magnitude, n))"

definition parseInteger :: "decoder \<Rightarrow> bvalue presult" where
  "parseInteger d0 =
     (let start = m_pos d0;
          d1 = advance 1 d0;
          negative = (m_rest d1 \<noteq> [] \<and> hd (m_rest d1) = 45);
          d2 = (if negative then advance 1 d1 else d1)
      in case integerDigits 0 0 (m_rest d2) of
           Inl n \<Rightarrow> fail (advance n d2) IntegerOutOfRange
         | Inr (magnitude, digitCount) \<Rightarrow>
             let d3 = advance digitCount d2;
                 limit = (if negative then 2 ^ 63 else 2 ^ 63 - 1)
             in if m_rest d3 = [] then fail d3 (UnterminatedInteger start)
                else if hd (m_rest d3) \<noteq> 101 then fail d3 InvalidIntegerCharacter
                else if digitCount = 0 then fail d3 IntegerNoDigits
                else if magnitude > limit then fail d3 IntegerOutOfRange
                else
                  let d4 = warnIf (digitCount > 1 \<and> hd (m_rest d2) = 48) IntegerLeadingZeros d3;
                      d5 = warnIf (negative \<and> magnitude = 0) NegativeZero d4
                  in Inr (mkInt (if negative then - int magnitude else int magnitude), advance 1 d5))"

text \<open>The digit loop of \<open>parseString\<close>: at most ten digits.\<close>

fun lengthDigits :: "nat \<Rightarrow> nat \<Rightarrow> bytes \<Rightarrow> nat + (nat \<times> nat)" where
  "lengthDigits len n [] = Inr (len, n)"
| "lengthDigits len n (c # cs) =
     (if isDigit c then
        if n \<ge> 10 then Inl n else lengthDigits (len * 10 + digitVal c) (Suc n) cs
      else Inr (len, n))"

definition parseString :: "decoder \<Rightarrow> bytes presult" where
  "parseString d0 =
     (case lengthDigits 0 0 (m_rest d0) of
        Inl n \<Rightarrow> fail (advance n d0) LengthPrefixTooLong
      | Inr (len, n) \<Rightarrow>
          let d1 = advance n d0
          in if m_rest d1 = [] then fail d1 UnterminatedStringLength
             else if hd (m_rest d1) \<noteq> 58 then fail d1 ExpectedColon
             else
               let d2 = warnIf (n > 1 \<and> hd (m_rest d0) = 48) StringLengthLeadingZeros d1;
                   d3 = advance 1 d2;
                   remaining = length (m_rest d3)
               in if len > remaining then fail d3 (StringTooLong len remaining)
                  else Inr (take len (m_rest d3), advance len d3))"

text \<open>\<open>parseValue\<close> records the span of what \<open>parseValueInner\<close> consumed.\<close>

definition spanned :: "decoder \<Rightarrow> bvalue presult \<Rightarrow> bvalue presult" where
  "spanned d r = (case r of Inl e \<Rightarrow> Inl e
     | Inr (v, d') \<Rightarrow> Inr (setRawSpan v (m_pos d) (m_pos d' - m_pos d), d'))"

text \<open>The checks \<open>parseDict\<close> makes on a key: duplicates are reported, else keys out of order.\<close>

definition keyWarnings :: "bdict \<Rightarrow> bytes option \<Rightarrow> bytes \<Rightarrow> decoder \<Rightarrow> decoder" where
  "keyWarnings dict previousKey key d =
     (if map_of dict key \<noteq> None then warn (DuplicateKey key) d
      else warnIf (case previousKey of None \<Rightarrow> False | Some p \<Rightarrow> key < p) KeysNotSorted d)"

function parseValue :: "nat \<Rightarrow> nat \<Rightarrow> nat \<Rightarrow> decoder \<Rightarrow> bvalue presult"
  and parseList :: "nat \<Rightarrow> nat \<Rightarrow> nat \<Rightarrow> nat \<Rightarrow> bvalue list \<Rightarrow> decoder \<Rightarrow> bvalue presult"
  and parseDict :: "nat \<Rightarrow> nat \<Rightarrow> nat \<Rightarrow> nat \<Rightarrow> bdict \<Rightarrow> bytes option \<Rightarrow> decoder \<Rightarrow> bvalue presult"
where
  "parseValue 0 maxDepth depth d = fail d OutOfFuel"
| "parseValue (Suc f) maxDepth depth d = spanned d
     (if m_rest d = [] then fail d UnexpectedEnd
      else let c = hd (m_rest d) in
        if c = 105 then parseInteger d
        else if isDigit c then
          (case parseString d of Inl e \<Rightarrow> Inl e | Inr (s, d') \<Rightarrow> Inr (mkString s, d'))
        else if c = 108 \<or> c = 100 then
          if depth \<ge> maxDepth then fail d NestingTooDeep
          else if c = 108 then parseList f maxDepth depth (m_pos d) [] (advance 1 d)
          else parseDict f maxDepth depth (m_pos d) [] None (advance 1 d)
        else fail d (UnexpectedByte c))"
| "parseList 0 maxDepth depth start items d = fail d OutOfFuel"
| "parseList (Suc f) maxDepth depth start items d =
     (if m_rest d = [] then fail d (UnterminatedList start)
      else if hd (m_rest d) = 101 then Inr (mkList items, advance 1 d)
      else case parseValue f maxDepth (Suc depth) d of
             Inl e \<Rightarrow> Inl e
           | Inr (item, d') \<Rightarrow> parseList f maxDepth depth start (items @ [item]) d')"
| "parseDict 0 maxDepth depth start dict previousKey d = fail d OutOfFuel"
| "parseDict (Suc f) maxDepth depth start dict previousKey d =
     (if m_rest d = [] then fail d (UnterminatedDict start)
      else if hd (m_rest d) = 101 then Inr (mkDict dict, advance 1 d)
      else if \<not> isDigit (hd (m_rest d)) then fail d KeyNotString
      else case parseString d of
             Inl e \<Rightarrow> Inl e
           | Inr (key, d1) \<Rightarrow>
               (case parseValue f maxDepth (Suc depth) (keyWarnings dict previousKey key d1) of
                  Inl e \<Rightarrow> Inl e
                | Inr (value, d3) \<Rightarrow>
                    parseDict f maxDepth depth start
                      (if map_of dict key \<noteq> None then dict else emplace key value dict) (Some key) d3))"
  by pat_completeness simp_all
termination
  by (relation "measure (\<lambda>x. case x of Inl (f, _) \<Rightarrow> f | Inr (Inl (f, _)) \<Rightarrow> f | Inr (Inr (f, _)) \<Rightarrow> f)") simp_all

record bdecode_result =
  res_value :: bvalue
  res_error :: "berror option"
  res_warnings :: "(nat \<times> bwarning) list"

definition res_ok :: "bdecode_result \<Rightarrow> bool" where
  "res_ok r \<longleftrightarrow> res_error r = None"

definition bdecode :: "bytes \<Rightarrow> nat \<Rightarrow> bdecode_result" where
  "bdecode data maxDepth =
     (case parseValue (2 * length data + 1) maxDepth 0 \<lparr>m_rest = data, m_pos = 0, m_warnings = []\<rparr> of
        Inl (e, ws) \<Rightarrow> \<lparr>res_value = BInvalid, res_error = Some e, res_warnings = ws\<rparr>
      | Inr (v, d) \<Rightarrow>
          let d' = warnIf (m_rest d \<noteq> []) (TrailingBytes (length (m_rest d))) d
          in \<lparr>res_value = v, res_error = None, res_warnings = m_warnings d'\<rparr>)"

definition defaultMaxDepth :: nat where
  "defaultMaxDepth = 32"

section \<open>Encoder\<close>

definition encodeString :: "bytes \<Rightarrow> bytes" where
  "encodeString s = digits10 (length s) @ [58] @ s"

fun bencode :: "bvalue \<Rightarrow> bytes" where
  "bencode BInvalid = []"
| "bencode (BInteger _ i) = [105] @ number10 i @ [101]"
| "bencode (BPreEncoded _ b) = b"
| "bencode (BString _ s) = encodeString s"
| "bencode (BList _ xs) = [108] @ concat (map bencode xs) @ [101]"
| "bencode (BDict _ d) = [100] @ concat (map (\<lambda>(k, v). encodeString k @ bencode v) d) @ [101]"

section \<open>Decoder state lemmas\<close>

lemma advance_simps [simp]:
  "m_rest (advance n d) = drop n (m_rest d)"
  "m_pos (advance n d) = m_pos d + n"
  "m_warnings (advance n d) = m_warnings d"
  by (simp_all add: advance_def)

lemma warnIf_simps [simp]:
  "m_rest (warnIf b w d) = m_rest d"
  "m_pos (warnIf b w d) = m_pos d"
  "m_warnings (warnIf b w d) = m_warnings d @ (if b then [(m_pos d, w)] else [])"
  by (simp_all add: warnIf_def warn_def)

lemma warn_simps [simp]:
  "m_rest (warn w d) = m_rest d"
  "m_pos (warn w d) = m_pos d"
  "m_warnings (warn w d) = m_warnings d @ [(m_pos d, w)]"
  by (simp_all add: warn_def)

lemma fail_not_Inr [simp]: "fail d p \<noteq> Inr r" "Inr r \<noteq> fail d p"
  by (simp_all add: fail_def)

lemma decoder_eqI:
  "m_rest d = m_rest e \<Longrightarrow> m_pos d = m_pos e \<Longrightarrow> m_warnings d = m_warnings e \<Longrightarrow> d = (e :: decoder)"
  by simp

lemma setRawSpan_span: "v \<noteq> BInvalid \<Longrightarrow> spanOf (setRawSpan v st n) = Some (st, n)"
  by (cases v) simp_all

lemma bencode_setRawSpan [simp]: "bencode (setRawSpan v st n) = bencode v"
  by (cases v) simp_all

section \<open>The digit loops\<close>

lemma integerDigits_Inr:
  "integerDigits m n cs = Inr (m', n') \<Longrightarrow>
   \<exists>ds rest. cs = ds @ rest \<and> (\<forall>c \<in> set ds. isDigit c) \<and> m' = decVal m ds \<and> n' = n + length ds"
proof (induction m n cs rule: integerDigits.induct)
  case (2 m n c cs)
  show ?case
  proof (cases "isDigit c")
    case True
    with 2 obtain ds rest where "cs = ds @ rest" "\<forall>c \<in> set ds. isDigit c" "m' = decVal (m * 10 + digitVal c) ds"
      "n' = Suc n + length ds"
      by (auto split: if_splits)
    with True show ?thesis by (intro exI [of _ "c # ds"] exI [of _ rest]) simp
  next
    case False
    with 2 show ?thesis by (intro exI [of _ "[]"] exI [of _ "c # cs"]) simp
  qed
qed simp

lemma lengthDigits_Inr:
  "lengthDigits m n cs = Inr (m', n') \<Longrightarrow>
   \<exists>ds rest. cs = ds @ rest \<and> (\<forall>c \<in> set ds. isDigit c) \<and> m' = decVal m ds \<and> n' = n + length ds
     \<and> (rest = [] \<or> \<not> isDigit (hd rest))"
proof (induction m n cs rule: lengthDigits.induct)
  case (2 m n c cs)
  show ?case
  proof (cases "isDigit c")
    case True
    with 2 obtain ds rest where "cs = ds @ rest" "\<forall>c \<in> set ds. isDigit c" "m' = decVal (m * 10 + digitVal c) ds"
      "n' = Suc n + length ds" "rest = [] \<or> \<not> isDigit (hd rest)"
      by (auto split: if_splits)
    with True show ?thesis by (intro exI [of _ "c # ds"] exI [of _ rest]) simp
  next
    case False
    with 2 show ?thesis by (intro exI [of _ "[]"] exI [of _ "c # cs"]) simp
  qed
qed simp

lemma decVal_ge: "acc \<le> decVal acc ds"
proof (induction ds arbitrary: acc)
  case (Cons d ds)
  have "acc \<le> acc * 10 + digitVal d" by simp
  also have "\<dots> \<le> decVal acc (d # ds)" using Cons [of "acc * 10 + digitVal d"] by simp
  finally show ?case .
qed simp

lemma integerDigits_digits:
  assumes "\<forall>c \<in> set ds. isDigit c" "rest = [] \<or> \<not> isDigit (hd rest)" "decVal m ds < 2 ^ 64"
  shows "integerDigits m n (ds @ rest) = Inr (decVal m ds, n + length ds)"
  using assms
proof (induction ds arbitrary: m n)
  case Nil
  then show ?case by (cases rest) auto
next
  case (Cons d ds)
  from Cons.prems have "m * 10 + digitVal d < 2 ^ 64"
    using decVal_ge [of "m * 10 + digitVal d" ds] by simp
  then have "m \<le> (2 ^ 64 - 1 - digitVal d) div 10" by simp
  with Cons show ?case by simp
qed

lemma lengthDigits_digits:
  assumes "\<forall>c \<in> set ds. isDigit c" "rest = [] \<or> \<not> isDigit (hd rest)" "n + length ds \<le> 10"
  shows "lengthDigits m n (ds @ rest) = Inr (decVal m ds, n + length ds)"
  using assms
proof (induction ds arbitrary: m n)
  case Nil
  then show ?case by (cases rest) auto
qed simp

lemma digits10_length_le: "0 < k \<Longrightarrow> n < 10 ^ k \<Longrightarrow> length (digits10 n) \<le> k"
proof (induction n arbitrary: k rule: digits10.induct)
  case (1 n)
  show ?case
  proof (cases "n < 10")
    case False
    with 1 obtain j where k: "k = Suc j" "0 < j" by (cases k; cases "k - 1") auto
    with 1 have "n div 10 < 10 ^ j" by (simp add: less_mult_imp_div_less mult.commute)
    with 1 False k have "length (digits10 (n div 10)) \<le> j" by simp
    with False k show ?thesis by (simp add: digits10.simps [of n])
  qed (use 1 in \<open>simp add: digits10.simps [of n]\<close>)
qed

section \<open>What the parsers consume\<close>

text \<open>\<open>used\<close> are the bytes between two decoder states; warnings are only ever appended.\<close>

definition consumes :: "decoder \<Rightarrow> bytes \<Rightarrow> decoder \<Rightarrow> bool" where
  "consumes d used d' \<longleftrightarrow> m_rest d = used @ m_rest d' \<and> m_pos d' = m_pos d + length used
     \<and> (\<exists>ws. m_warnings d' = m_warnings d @ ws)"

lemma consumes_refl: "consumes d [] d"
  by (simp add: consumes_def)

lemma consumes_trans: "consumes d u d' \<Longrightarrow> consumes d' w d'' \<Longrightarrow> consumes d (u @ w) d''"
  by (auto simp: consumes_def)

lemma consumes_advance: "n \<le> length (m_rest d) \<Longrightarrow> consumes d (take n (m_rest d)) (advance n d)"
  by (simp add: consumes_def)

lemma consumes_silent: "consumes d u d' \<Longrightarrow> m_warnings d' = [] \<Longrightarrow> m_warnings d = []"
  by (auto simp: consumes_def)

lemma parseString_Inr:
  assumes "parseString d = Inr (s, d')"
  obtains ds where "\<forall>c \<in> set ds. isDigit c" "length s = decVal 0 ds"
    "m_rest d = ds @ [58] @ s @ m_rest d'" "m_pos d' = m_pos d + length ds + 1 + length s"
    "m_warnings d' = m_warnings d @
       (if length ds > 1 \<and> hd (m_rest d) = 48 then [(m_pos d + length ds, StringLengthLeadingZeros)] else [])"
proof -
  from assms obtain len n where ld: "lengthDigits 0 0 (m_rest d) = Inr (len, n)"
    by (auto simp: parseString_def split: sum.splits)
  from lengthDigits_Inr [OF this] obtain ds rest where
    ds: "m_rest d = ds @ rest" "\<forall>c \<in> set ds. isDigit c" "len = decVal 0 ds" "n = length ds" by auto
  from assms ld ds obtain r where r: "rest = 58 # r" "len \<le> length r" "s = take len r"
    "d' = advance len (advance 1 (warnIf (n > 1 \<and> hd (m_rest d) = 48) StringLengthLeadingZeros (advance n d)))"
    by (cases rest) (auto simp: parseString_def Let_def split: if_splits)
  show thesis
    by (rule that [of ds]) (use ds r in \<open>simp_all\<close>)
qed

lemma parseString_consumes:
  assumes "parseString d = Inr (s, d')"
  shows "\<exists>u. u \<noteq> [] \<and> consumes d u d'"
proof -
  from assms obtain ds where "m_rest d = ds @ [58] @ s @ m_rest d'" "m_pos d' = m_pos d + length ds + 1 + length s"
    "\<exists>ws. m_warnings d' = m_warnings d @ ws"
    by (rule parseString_Inr) blast
  then show ?thesis by (intro exI [of _ "ds @ [58] @ s"]) (simp add: consumes_def)
qed

lemma parseString_canonical:
  assumes "parseString d = Inr (s, d')" "isDigit (hd (m_rest d))" "m_warnings d' = []"
  shows "m_rest d = encodeString s @ m_rest d'"
  using assms(1)
proof (rule parseString_Inr)
  fix ds assume ds: "\<forall>c \<in> set ds. isDigit c" "length s = decVal 0 ds" "m_rest d = ds @ [58] @ s @ m_rest d'"
    "m_warnings d' = m_warnings d @
       (if length ds > 1 \<and> hd (m_rest d) = 48 then [(m_pos d + length ds, StringLengthLeadingZeros)] else [])"
  have "\<not> isDigit 58" by (simp add: isDigit_def)
  with assms(2) ds(3) have ne: "ds \<noteq> []" by (cases ds) auto
  with assms(3) ds have "length ds = 1 \<or> hd ds \<noteq> 48" by (cases ds) (auto split: if_splits)
  with ne ds have "digits10 (length s) = ds" by (simp add: digits10_decVal)
  with ds(3) show ?thesis by (simp add: encodeString_def)
qed

lemma parseInteger_Inr:
  assumes "parseInteger d = Inr (v, d')" "m_rest d \<noteq> []"
  obtains neg ds i where "v = mkInt i" "i = (if neg then - int (decVal 0 ds) else int (decVal 0 ds))"
    "m_rest d = [hd (m_rest d)] @ (if neg then [45] else []) @ ds @ [101] @ m_rest d'"
    "m_pos d' = m_pos d + length ds + (if neg then 3 else 2)"
    "\<forall>c \<in> set ds. isDigit c" "ds \<noteq> []" "\<exists>ws. m_warnings d' = m_warnings d @ ws"
    "m_warnings d' = [] \<Longrightarrow> \<not> (length ds > 1 \<and> hd ds = 48) \<and> \<not> (neg \<and> decVal 0 ds = 0)"
    "- (2 ^ 63) \<le> i" "i < 2 ^ 63"
proof -
  define neg where "neg = (tl (m_rest d) \<noteq> [] \<and> hd (tl (m_rest d)) = 45)"
  define d2 where "d2 = (if neg then advance 1 (advance 1 d) else advance 1 d)"
  have adv: "m_rest (advance 1 d) = tl (m_rest d)" by (simp add: drop_Suc)
  have rest2: "m_rest d = [hd (m_rest d)] @ (if neg then [45] else []) @ m_rest d2"
    using assms(2) by (cases "m_rest d"; cases "tl (m_rest d)") (auto simp: d2_def neg_def)
  have pi: "parseInteger d = (case integerDigits 0 0 (m_rest d2) of
           Inl n \<Rightarrow> fail (advance n d2) IntegerOutOfRange
         | Inr (magnitude, digitCount) \<Rightarrow>
             let d3 = advance digitCount d2;
                 limit = (if neg then 2 ^ 63 else 2 ^ 63 - 1)
             in if m_rest d3 = [] then fail d3 (UnterminatedInteger (m_pos d))
                else if hd (m_rest d3) \<noteq> 101 then fail d3 InvalidIntegerCharacter
                else if digitCount = 0 then fail d3 IntegerNoDigits
                else if magnitude > limit then fail d3 IntegerOutOfRange
                else
                  let d4 = warnIf (digitCount > 1 \<and> hd (m_rest d2) = 48) IntegerLeadingZeros d3;
                      d5 = warnIf (neg \<and> magnitude = 0) NegativeZero d4
                  in Inr (mkInt (if neg then - int magnitude else int magnitude), advance 1 d5))"
    unfolding parseInteger_def Let_def adv d2_def neg_def ..
  from assms(1) pi obtain m n where dg: "integerDigits 0 0 (m_rest d2) = Inr (m, n)"
    by (auto split: sum.splits)
  from integerDigits_Inr [OF this] obtain ds rest where
    ds: "m_rest d2 = ds @ rest" "\<forall>c \<in> set ds. isDigit c" "m = decVal 0 ds" "n = length ds" by auto
  let ?d4 = "warnIf (n > 1 \<and> hd (m_rest d2) = 48) IntegerLeadingZeros (advance n d2)"
  from assms(1) pi dg ds obtain r where r: "rest = 101 # r" "n \<noteq> 0" "m \<le> (if neg then 2 ^ 63 else 2 ^ 63 - 1)"
    "d' = advance 1 (warnIf (neg \<and> m = 0) NegativeZero ?d4)" "v = mkInt (if neg then - int m else int m)"
    by (cases rest) (auto simp: Let_def split: if_splits)
  have w2: "m_warnings d2 = m_warnings d" "m_pos d2 = m_pos d + (if neg then 2 else 1)" by (simp_all add: d2_def)
  have "int m \<le> (if neg then 2 ^ 63 else 2 ^ 63 - 1)"
    using r(3) by (cases neg) (simp_all add: nat_le_iff flip: of_nat_le_iff)
  then have range: "- (2 ^ 63) \<le> (if neg then - int m else int m)" "(if neg then - int m else int m) < 2 ^ 63"
    by (auto split: if_splits)
  show thesis
    by (rule that [of "if neg then - int m else int m" neg ds]) (use rest2 ds r w2 range in \<open>auto split: if_splits\<close>)
qed

lemma parseInteger_consumes:
  assumes "parseInteger d = Inr (v, d')" "m_rest d \<noteq> []"
  shows "\<exists>u. u \<noteq> [] \<and> consumes d u d'"
  using assms
proof (rule parseInteger_Inr)
  fix neg ds
  assume "m_rest d = [hd (m_rest d)] @ (if neg then [45] else []) @ ds @ [101] @ m_rest d'"
    "m_pos d' = m_pos d + length ds + (if neg then 3 else 2)" "\<exists>ws. m_warnings d' = m_warnings d @ ws"
  then show ?thesis
    by (intro exI [of _ "[hd (m_rest d)] @ (if neg then [45] else []) @ ds @ [101]"]) (auto simp: consumes_def)
qed

lemma parseInteger_canonical:
  assumes "parseInteger d = Inr (v, d')" "m_rest d \<noteq> []" "hd (m_rest d) = 105" "m_warnings d' = []"
  shows "m_rest d = bencode v @ m_rest d'"
  using assms(1,2)
proof (rule parseInteger_Inr)
  fix neg ds i
  assume v: "v = mkInt i" "i = (if neg then - int (decVal 0 ds) else int (decVal 0 ds))"
    and rest: "m_rest d = [hd (m_rest d)] @ (if neg then [45] else []) @ ds @ [101] @ m_rest d'"
    and ds: "\<forall>c \<in> set ds. isDigit c" "ds \<noteq> []"
    and w: "m_warnings d' = [] \<Longrightarrow> \<not> (length ds > 1 \<and> hd ds = 48) \<and> \<not> (neg \<and> decVal 0 ds = 0)"
  from ds(2) have "length ds = 1 \<or> length ds > 1" by (cases ds; cases "tl ds") auto
  with w assms(4) have "length ds = 1 \<or> hd ds \<noteq> 48" "neg \<Longrightarrow> 0 < decVal 0 ds" by auto
  with ds have "digits10 (decVal 0 ds) = ds" "neg \<Longrightarrow> 0 < decVal 0 ds" by (simp_all add: digits10_decVal)
  then have "bencode v = [105] @ (if neg then [45] else []) @ ds @ [101]"
    by (simp add: v number10_def)
  with rest assms(3) show ?thesis by simp
qed

lemma spanned_Inr: "spanned d r = Inr (v, d') \<longleftrightarrow> (\<exists>w. r = Inr (w, d') \<and> v = setRawSpan w (m_pos d) (m_pos d' - m_pos d))"
  by (auto simp: spanned_def split: sum.splits)

lemma spanned_Inl: "spanned d r = Inl e \<longleftrightarrow> r = Inl e"
  by (auto simp: spanned_def split: sum.splits)

text \<open>The shape of a successful \<open>parseValue\<close>, one case per kind of value.\<close>

lemma parseValue_Inr:
  assumes "parseValue (Suc f) m depth d = Inr (v, d')"
  obtains w where "v = setRawSpan w (m_pos d) (m_pos d' - m_pos d)" "m_rest d \<noteq> []" "hd (m_rest d) = 105"
    "parseInteger d = Inr (w, d')"
  | s where "v = BString (Some (m_pos d, m_pos d' - m_pos d)) s" "m_rest d \<noteq> []" "isDigit (hd (m_rest d))"
    "parseString d = Inr (s, d')"
  | w where "v = setRawSpan w (m_pos d) (m_pos d' - m_pos d)" "m_rest d \<noteq> []" "hd (m_rest d) = 108"
    "depth < m" "parseList f m depth (m_pos d) [] (advance 1 d) = Inr (w, d')"
  | w where "v = setRawSpan w (m_pos d) (m_pos d' - m_pos d)" "m_rest d \<noteq> []" "hd (m_rest d) = 100"
    "depth < m" "parseDict f m depth (m_pos d) [] None (advance 1 d) = Inr (w, d')"
  using assms
  by (auto simp: spanned_Inr Let_def split: if_splits sum.splits)

lemma parseList_Inr:
  assumes "parseList (Suc f) m depth st xs d = Inr (v, d')"
  obtains "m_rest d \<noteq> []" "hd (m_rest d) = 101" "v = mkList xs" "d' = advance 1 d"
  | item d1 where "m_rest d \<noteq> []" "parseValue f m (Suc depth) d = Inr (item, d1)"
    "parseList f m depth st (xs @ [item]) d1 = Inr (v, d')"
  using assms by (auto split: if_splits sum.splits)

lemma parseDict_Inr:
  assumes "parseDict (Suc f) m depth st dict prev d = Inr (v, d')"
  obtains "m_rest d \<noteq> []" "hd (m_rest d) = 101" "v = mkDict dict" "d' = advance 1 d"
  | key d1 val d3 where "m_rest d \<noteq> []" "isDigit (hd (m_rest d))" "parseString d = Inr (key, d1)"
    "parseValue f m (Suc depth) (keyWarnings dict prev key d1) = Inr (val, d3)"
    "parseDict f m depth st (if map_of dict key \<noteq> None then dict else emplace key val dict) (Some key) d3 = Inr (v, d')"
  using assms by (auto split: if_splits sum.splits)

lemma keyWarnings_simps [simp]:
  "m_rest (keyWarnings dict prev key d) = m_rest d"
  "m_pos (keyWarnings dict prev key d) = m_pos d"
  by (simp_all add: keyWarnings_def)

lemma keyWarnings_consumes: "consumes d [] (keyWarnings dict prev key d)"
  by (auto simp: consumes_def keyWarnings_def)

lemma keyWarnings_silent:
  "m_warnings (keyWarnings dict prev key d) = [] \<longleftrightarrow>
   m_warnings d = [] \<and> map_of dict key = None \<and> (case prev of None \<Rightarrow> True | Some p \<Rightarrow> p \<le> key)"
  by (auto simp: keyWarnings_def not_less split: option.splits)

lemma advance_consumes1: "m_rest d \<noteq> [] \<Longrightarrow> consumes d [hd (m_rest d)] (advance 1 d)"
  by (cases "m_rest d") (auto simp: consumes_def)

lemma first_byte_consumes:
  assumes "m_rest d \<noteq> []" "\<exists>u. u \<noteq> [] \<and> consumes (advance 1 d) u d'"
  shows "\<exists>u. u \<noteq> [] \<and> consumes d u d'"
  using assms(2) consumes_trans [OF advance_consumes1 [OF assms(1)]] by (metis append_is_Nil_conv)

lemma parse_consumes:
  "parseValue f m depth d = Inr (v, d') \<Longrightarrow> \<exists>u. u \<noteq> [] \<and> consumes d u d'"
  "parseList f m depth st xs d = Inr (v, d') \<Longrightarrow> \<exists>u. u \<noteq> [] \<and> consumes d u d'"
  "parseDict f m depth st dict prev d = Inr (v, d') \<Longrightarrow> \<exists>u. u \<noteq> [] \<and> consumes d u d'"
proof (induction f arbitrary: m depth d v d' st xs dict prev)
  case 0
  { case 1 then show ?case by simp }
  { case 2 then show ?case by simp }
  { case 3 then show ?case by simp }
next
  case (Suc f)
  { case 1
    then show ?case
    proof (cases rule: parseValue_Inr)
      case (1 w)
      then show ?thesis by (blast intro: parseInteger_consumes)
    next
      case (2 s)
      then show ?thesis by (blast intro: parseString_consumes)
    next
      case (3 w)
      show ?thesis by (rule first_byte_consumes [OF 3(2) Suc.IH(2) [OF 3(5)]])
    next
      case (4 w)
      show ?thesis by (rule first_byte_consumes [OF 4(2) Suc.IH(3) [OF 4(5)]])
    qed }
  { case 2
    then show ?case
    proof (cases rule: parseList_Inr)
      case 1
      then show ?thesis using advance_consumes1 by blast
    next
      case (2 item d1)
      then show ?thesis using Suc.IH(1,2) consumes_trans by (metis append_is_Nil_conv)
    qed }
  { case 3
    then show ?case
    proof (cases rule: parseDict_Inr)
      case 1
      then show ?thesis using advance_consumes1 by blast
    next
      case (2 key d1 val d3)
      with parseString_consumes [OF 2(3)] keyWarnings_consumes [of d1 dict prev key] Suc.IH(1) [OF 2(4)] Suc.IH(3) [OF 2(5)]
      show ?thesis by (metis append_is_Nil_conv consumes_trans)
    qed }
qed

section \<open>Silence means canonical\<close>

lemma emplace_snoc:
  "sorted_keys d \<Longrightarrow> (\<forall>(k', _) \<in> set d. k' < k) \<Longrightarrow> emplace k v d = d @ [(k, v)]"
proof (induction d)
  case (Cons a d)
  then show ?case by (cases a) (auto dest: less_asym)
qed simp

lemma sorted_keys_snoc: "sorted_keys (d @ [(k, v)]) \<longleftrightarrow> sorted_keys d \<and> (\<forall>(k', _) \<in> set d. k' < k)"
  by (auto simp: sorted_wrt_append)

definition encodeEntries :: "bdict \<Rightarrow> bytes" where
  "encodeEntries d = concat (map (\<lambda>(k, v). encodeString k @ bencode v) d)"

lemma encodeEntries_simps [simp]:
  "encodeEntries [] = []"
  "encodeEntries ((k, v) # d) = encodeString k @ bencode v @ encodeEntries d"
  "encodeEntries (d @ e) = encodeEntries d @ encodeEntries e"
  by (simp_all add: encodeEntries_def)

lemma bencode_BDict [simp]: "bencode (BDict sp d) = [100] @ encodeEntries d @ [101]"
  by (simp add: encodeEntries_def)

declare bencode.simps(6) [simp del]

text \<open>The last key of the dictionary so far is the one the next key is compared with.\<close>

definition keysUpTo :: "bdict \<Rightarrow> bytes option \<Rightarrow> bool" where
  "keysUpTo dict prev \<longleftrightarrow> sorted_keys dict \<and>
     (case prev of None \<Rightarrow> dict = [] | Some p \<Rightarrow> \<forall>(k, _) \<in> set dict. k \<le> p)"

lemma keysUpTo_emplace:
  assumes "keysUpTo dict prev" "map_of dict key = None" "case prev of None \<Rightarrow> True | Some p \<Rightarrow> p \<le> key"
  shows "emplace key val dict = dict @ [(key, val)]" "keysUpTo (dict @ [(key, val)]) (Some key)"
proof -
  have lt: "\<forall>(k, _) \<in> set dict. k < key"
  proof (clarify)
    fix k v assume kv: "(k, v) \<in> set dict"
    with assms(1,3) have "k \<le> key" by (auto simp: keysUpTo_def split: option.splits)
    moreover have "k \<noteq> key" using kv assms(2) by (auto simp: map_of_eq_None_iff image_iff)
    ultimately show "k < key" by simp
  qed
  with assms(1) show "emplace key val dict = dict @ [(key, val)]"
    by (simp add: emplace_snoc keysUpTo_def)
  from lt assms(1) show "keysUpTo (dict @ [(key, val)]) (Some key)"
    by (fastforce simp: keysUpTo_def sorted_wrt_append)
qed

lemma advance1_rest: "m_rest d \<noteq> [] \<Longrightarrow> m_rest d = hd (m_rest d) # m_rest (advance 1 d)"
  by (cases "m_rest d") simp_all

lemma parse_canonical:
  "parseValue f m depth d = Inr (v, d') \<Longrightarrow> m_warnings d' = [] \<Longrightarrow> m_rest d = bencode v @ m_rest d'"
  "parseList f m depth st xs d = Inr (v, d') \<Longrightarrow> m_warnings d' = [] \<Longrightarrow>
     \<exists>ys. v = mkList (xs @ ys) \<and> m_rest d = concat (map bencode ys) @ [101] @ m_rest d'"
  "parseDict f m depth st dict prev d = Inr (v, d') \<Longrightarrow> m_warnings d' = [] \<Longrightarrow> keysUpTo dict prev \<Longrightarrow>
     \<exists>es. v = mkDict (dict @ es) \<and> sorted_keys (dict @ es) \<and> m_rest d = encodeEntries es @ [101] @ m_rest d'"
proof (induction f arbitrary: m depth d v d' st xs dict prev)
  case 0
  { case 1 then show ?case by simp }
  { case 2 then show ?case by simp }
  { case 3 then show ?case by simp }
next
  case (Suc f)
  { case 1
    from 1(1) show ?case
    proof (cases rule: parseValue_Inr)
      case w: (1 w)
      with 1(2) show ?thesis using parseInteger_canonical [of d w d'] by simp
    next
      case s: (2 s)
      with 1(2) show ?thesis using parseString_canonical [of d s d'] by simp
    next
      case w: (3 w)
      from Suc.IH(2) [OF w(5) 1(2)] obtain ys where "w = mkList ys"
        "m_rest (advance 1 d) = concat (map bencode ys) @ [101] @ m_rest d'" by auto
      with w advance1_rest [OF w(2)] show ?thesis by simp
    next
      case w: (4 w)
      from Suc.IH(3) [OF w(5) 1(2)] obtain es where "w = mkDict es"
        "m_rest (advance 1 d) = encodeEntries es @ [101] @ m_rest d'" by (auto simp: keysUpTo_def)
      with w advance1_rest [OF w(2)] show ?thesis by simp
    qed }
  { case 2
    from 2(1) show ?case
    proof (cases rule: parseList_Inr)
      case e: 1
      then show ?thesis using advance1_rest [OF e(1)] by simp
    next
      case i: (2 item d1)
      from Suc.IH(2) [OF i(3) 2(2)] obtain ys where ys: "v = mkList ((xs @ [item]) @ ys)"
        "m_rest d1 = concat (map bencode ys) @ [101] @ m_rest d'" by auto
      from parse_consumes(2) [OF i(3)] 2(2) have "m_warnings d1 = []" by (blast dest: consumes_silent)
      from Suc.IH(1) [OF i(2) this] ys show ?thesis by (intro exI [of _ "item # ys"]) simp
    qed }
  { case 3
    from 3(1) show ?case
    proof (cases rule: parseDict_Inr)
      case e: 1
      then show ?thesis using advance1_rest [OF e(1)] 3(3) by (simp add: keysUpTo_def)
    next
      case k: (2 key d1 val d3)
      from parse_consumes(3) [OF k(5)] 3(2) have w3: "m_warnings d3 = []" by (blast dest: consumes_silent)
      with parse_consumes(1) [OF k(4)] have wk: "m_warnings (keyWarnings dict prev key d1) = []"
        by (blast dest: consumes_silent)
      then have w1: "m_warnings d1 = []" and nk: "map_of dict key = None"
        "case prev of None \<Rightarrow> True | Some p \<Rightarrow> p \<le> key" by (simp_all add: keyWarnings_silent)
      note em = keysUpTo_emplace [OF 3(3) nk, of val]
      from k(5) nk(1) em(1) have "parseDict f m depth st (dict @ [(key, val)]) (Some key) d3 = Inr (v, d')" by simp
      from Suc.IH(3) [OF this 3(2) em(2)] obtain es where es: "v = mkDict ((dict @ [(key, val)]) @ es)"
        "sorted_keys ((dict @ [(key, val)]) @ es)" "m_rest d3 = encodeEntries es @ [101] @ m_rest d'" by auto
      from parseString_canonical [OF k(3) k(2) w1] Suc.IH(1) [OF k(4) w3] es show ?thesis
        by (intro exI [of _ "(key, val) # es"]) simp
    qed }
qed

text \<open>C30: the decoder reports every deviation from canonical bencode. Input that decodes without an error
  and without a warning is, byte for byte, the canonical encoding of the value it decodes to.\<close>

theorem bdecode_silent_canonical:
  assumes "res_ok (bdecode data maxDepth)" "res_warnings (bdecode data maxDepth) = []"
  shows "bencode (res_value (bdecode data maxDepth)) = data"
proof -
  let ?d0 = "\<lparr>m_rest = data, m_pos = 0, m_warnings = []\<rparr>"
  from assms obtain v d where p: "parseValue (2 * length data + 1) maxDepth 0 ?d0 = Inr (v, d)"
    by (auto simp: bdecode_def res_ok_def split: sum.splits)
  with assms(2) have r: "m_rest d = []" "m_warnings d = []" "res_value (bdecode data maxDepth) = v"
    by (auto simp: bdecode_def Let_def split: if_splits)
  from parse_canonical(1) [OF p r(2)] r show ?thesis by simp
qed

section \<open>Fuel\<close>

lemma fail_Inl [simp]: "fail d p = Inl (e, ws) \<longleftrightarrow> e = \<lparr>err_offset = m_pos d, err_problem = p\<rparr> \<and> ws = m_warnings d"
  by (auto simp: fail_def)

lemma parseInteger_problem: "parseInteger d = Inl (e, ws) \<Longrightarrow> err_problem e \<noteq> OutOfFuel"
  by (auto simp: parseInteger_def Let_def split: sum.splits if_splits)

lemma parseString_problem: "parseString d = Inl (e, ws) \<Longrightarrow> err_problem e \<noteq> OutOfFuel"
  by (auto simp: parseString_def Let_def split: sum.splits if_splits)

lemma consumes_length: "consumes d u d' \<Longrightarrow> u \<noteq> [] \<Longrightarrow> length (m_rest d') < length (m_rest d)"
  by (cases u) (auto simp: consumes_def)

lemma parseList_Inl:
  assumes "parseList (Suc f) m depth st xs d = Inl (e, ws)"
  obtains "err_problem e \<noteq> OutOfFuel"
  | "m_rest d \<noteq> []" "parseValue f m (Suc depth) d = Inl (e, ws)"
  | item d1 where "parseValue f m (Suc depth) d = Inr (item, d1)" "parseList f m depth st (xs @ [item]) d1 = Inl (e, ws)"
  using assms by (auto split: if_splits sum.splits)

lemma parseDict_Inl:
  assumes "parseDict (Suc f) m depth st dict prev d = Inl (e, ws)"
  obtains "err_problem e \<noteq> OutOfFuel"
  | key d1 where "parseString d = Inr (key, d1)" "parseValue f m (Suc depth) (keyWarnings dict prev key d1) = Inl (e, ws)"
  | key d1 val d3 where "parseString d = Inr (key, d1)"
    "parseValue f m (Suc depth) (keyWarnings dict prev key d1) = Inr (val, d3)"
    "parseDict f m depth st (if map_of dict key \<noteq> None then dict else emplace key val dict) (Some key) d3 = Inl (e, ws)"
  using assms by (auto split: if_splits sum.splits dest: parseString_problem)

lemma parseValue_Inl:
  assumes "parseValue (Suc f) m depth d = Inl (e, ws)"
  obtains "err_problem e \<noteq> OutOfFuel"
  | "m_rest d \<noteq> []" "parseList f m depth (m_pos d) [] (advance 1 d) = Inl (e, ws)"
  | "m_rest d \<noteq> []" "parseDict f m depth (m_pos d) [] None (advance 1 d) = Inl (e, ws)"
  using assms
  by (auto simp: spanned_Inl Let_def split: if_splits sum.splits dest: parseString_problem parseInteger_problem)

lemma parse_enough_fuel:
  "parseValue f m depth d = Inl (e, ws) \<Longrightarrow> 2 * length (m_rest d) + 1 \<le> f \<Longrightarrow> err_problem e \<noteq> OutOfFuel"
  "parseList f m depth st xs d = Inl (e, ws) \<Longrightarrow> 2 * length (m_rest d) + 2 \<le> f \<Longrightarrow> err_problem e \<noteq> OutOfFuel"
  "parseDict f m depth st dict prev d = Inl (e, ws) \<Longrightarrow> 2 * length (m_rest d) + 2 \<le> f \<Longrightarrow> err_problem e \<noteq> OutOfFuel"
proof (induction f arbitrary: m depth d e ws st xs dict prev)
  case 0
  { case 1 then show ?case by simp }
  { case 2 then show ?case by simp }
  { case 3 then show ?case by simp }
next
  case (Suc f)
  { case 1
    from 1(1) show ?case
    proof (cases rule: parseValue_Inl)
      case 2
      with 1(2) show ?thesis by (intro Suc.IH(2) [OF 2(2)]) (cases "m_rest d"; simp)
    next
      case 3
      with 1(2) show ?thesis by (intro Suc.IH(3) [OF 3(2)]) (cases "m_rest d"; simp)
    qed }
  { case 2
    from 2(1) show ?case
    proof (cases rule: parseList_Inl)
      case v: 2
      with 2(2) show ?thesis by (intro Suc.IH(1) [OF v(2)]) simp
    next
      case (3 item d1)
      with parse_consumes(1) [OF 3(1)] have "length (m_rest d1) < length (m_rest d)" by (blast dest: consumes_length)
      with 2(2) show ?thesis by (intro Suc.IH(2) [OF 3(2)]) simp
    qed }
  { case 3
    from 3(1) show ?case
    proof (cases rule: parseDict_Inl)
      case (2 key d1)
      from parseString_consumes [OF 2(1)] have "length (m_rest d1) < length (m_rest d)" by (blast dest: consumes_length)
      with 3(2) show ?thesis by (intro Suc.IH(1) [OF 2(2)]) simp
    next
      case k: (3 key d1 val d3)
      from parseString_consumes [OF k(1)] have "length (m_rest d1) < length (m_rest d)" by (blast dest: consumes_length)
      moreover from parse_consumes(1) [OF k(2)] have "length (m_rest d3) < length (m_rest d1)"
        using consumes_length by fastforce
      ultimately show ?thesis using 3(2) by (intro Suc.IH(3) [OF k(3)]) simp
    qed }
qed

text \<open>C31: decoding always ends with a verdict: the fuel \<open>bdecode\<close> starts with suffices for every input and
  every nesting limit, so a failure is always one of the decoder's own error messages.\<close>

theorem bdecode_never_out_of_fuel:
  "case res_error (bdecode data maxDepth) of None \<Rightarrow> True | Some e \<Rightarrow> err_problem e \<noteq> OutOfFuel"
proof (cases "parseValue (2 * length data + 1) maxDepth 0 \<lparr>m_rest = data, m_pos = 0, m_warnings = []\<rparr>")
  case (Inl x)
  obtain e ws where x: "x = (e, ws)" by (cases x)
  have "err_problem e \<noteq> OutOfFuel" by (rule parse_enough_fuel(1) [OF Inl [unfolded x]]) simp
  with Inl x show ?thesis by (simp add: bdecode_def del: parseValue.simps)
next
  case (Inr x)
  then show ?thesis by (cases x) (simp add: bdecode_def Let_def del: parseValue.simps)
qed

section \<open>Round trip\<close>

text \<open>Values the decoder can give back: integers of 64 bits, strings whose length prints in at most ten
  digits, dictionaries with their keys in order, nested at most \<open>n\<close> deep.\<close>

fun fits :: "nat \<Rightarrow> bvalue \<Rightarrow> bool" where
  "fits n BInvalid = False"
| "fits n (BPreEncoded _ _) = False"
| "fits n (BInteger _ i) = (- (2 ^ 63) \<le> i \<and> i < 2 ^ 63)"
| "fits n (BString _ s) = (length s < 10 ^ 10)"
| "fits n (BList _ xs) = (0 < n \<and> (\<forall>x \<in> set xs. fits (n - 1) x))"
| "fits n (BDict _ d) = (0 < n \<and> sorted_keys d \<and> (\<forall>(k, x) \<in> set d. length k < 10 ^ 10 \<and> fits (n - 1) x))"

text \<open>Forget where values came from.\<close>

fun stripSpan :: "bvalue \<Rightarrow> bvalue" where
  "stripSpan BInvalid = BInvalid"
| "stripSpan (BPreEncoded _ b) = BPreEncoded None b"
| "stripSpan (BInteger _ i) = BInteger None i"
| "stripSpan (BString _ s) = BString None s"
| "stripSpan (BList _ xs) = BList None (map stripSpan xs)"
| "stripSpan (BDict _ d) = BDict None (map (\<lambda>(k, x). (k, stripSpan x)) d)"

lemma stripSpan_setRawSpan [simp]: "stripSpan (setRawSpan v st n) = stripSpan v"
  by (cases v) simp_all

lemma number10_digits:
  "number10 i = (if i < 0 then [45] else []) @ digits10 (nat \<bar>i\<bar>)"
  by (simp add: number10_def)

lemma digits10_Cons: "\<exists>c cs. digits10 n = c # cs \<and> isDigit c"
  using digits10_digits [of n] digits10_nonempty [of n] by (cases "digits10 n") auto

lemma digits10_leading: "length (digits10 n) > 1 \<Longrightarrow> hd (digits10 n) \<noteq> 48"
proof
  assume "length (digits10 n) > 1" "hd (digits10 n) = 48"
  moreover from this have "n = 0" by (simp add: digits10_hd_zero)
  ultimately show False by (simp add: digits10.simps [of 0])
qed

lemma not_digits [simp]: "\<not> isDigit 58" "\<not> isDigit 101" "\<not> isDigit 105" "\<not> isDigit 108" "\<not> isDigit 100" "\<not> isDigit 45"
  by (simp_all add: isDigit_def)

lemma parseString_encodeString:
  assumes "m_rest d = encodeString s @ r" "length s < 10 ^ 10"
  shows "parseString d = Inr (s, advance (length (encodeString s)) d)"
proof -
  let ?ds = "digits10 (length s)"
  have "lengthDigits 0 0 (m_rest d) = Inr (length s, length ?ds)"
    using lengthDigits_digits [of ?ds "58 # s @ r" 0 0] digits10_digits digits10_length_le [of 10 "length s"] assms
    by (simp add: encodeString_def decVal_digits10)
  moreover have "\<not> (length ?ds > 1 \<and> hd (m_rest d) = 48)"
    using digits10_leading [of "length s"] assms(1) digits10_Cons [of "length s"] by (auto simp: encodeString_def)
  ultimately show ?thesis
    using assms(1) by (simp add: parseString_def Let_def encodeString_def warnIf_def advance_def)
qed

lemma parseInteger_number10:
  assumes "m_rest d = [105] @ number10 i @ [101] @ r" "- (2 ^ 63) \<le> i" "i < 2 ^ 63"
  shows "parseInteger d = Inr (mkInt i, advance (length (number10 i) + 2) d)"
proof -
  let ?n = "nat \<bar>i\<bar>" and ?neg = "i < 0"
  let ?ds = "digits10 ?n"
  obtain c cs where c: "?ds = c # cs" "isDigit c" using digits10_Cons by blast
  then have c45: "c \<noteq> 45" by auto
  have lt: "?n < 2 ^ 64" using assms(2,3) by (simp add: nat_less_iff abs_less_iff)
  have dg: "integerDigits 0 0 (?ds @ 101 # r) = Inr (?n, length ?ds)"
    using integerDigits_digits [of ?ds "101 # r" 0 0] digits10_digits lt by (simp add: decVal_digits10)
  have lz: "\<not> (length ?ds > 1 \<and> c = 48)" using digits10_leading [of ?n] c by auto
  have lim: "?n \<le> (if ?neg then 2 ^ 63 else 2 ^ 63 - 1)" using assms(2,3) by (auto simp: nat_le_iff)
  show ?thesis
  proof (cases ?neg)
    case True
    with assms(1) have r: "m_rest d = 105 # 45 # ?ds @ 101 # r" by (simp add: number10_digits)
    have "?n \<noteq> 0" using True by simp
    with True r dg lz lim c show ?thesis
      by (auto simp: parseInteger_def Let_def warnIf_def number10_digits advance_def)
  next
    case False
    with assms(1) have r: "m_rest d = 105 # ?ds @ 101 # r" by (simp add: number10_digits)
    with False dg lz lim c c45 show ?thesis
      by (auto simp: parseInteger_def Let_def warnIf_def number10_digits advance_def)
  qed
qed

lemma advance_advance [simp]: "advance a (advance b d) = advance (b + a) d"
  by (simp add: advance_def add.commute)

lemma bencode_head:
  assumes "fits n v"
  shows "\<exists>c cs. bencode v = c # cs \<and> c \<noteq> 101"
proof (cases v)
  case (BString s b)
  then show ?thesis using digits10_Cons [of "length b"] by (auto simp: encodeString_def)
qed (use assms in auto)

definition decodesTo :: "nat \<Rightarrow> bvalue \<Rightarrow> bool" where
  "decodesTo m v \<longleftrightarrow> (\<forall>f depth d r. fits (m - depth) v \<longrightarrow> m_rest d = bencode v @ r \<longrightarrow>
     2 * length (m_rest d) + 1 \<le> f \<longrightarrow>
     (\<exists>v'. parseValue f m depth d = Inr (v', advance (length (bencode v)) d) \<and> stripSpan v' = stripSpan v))"

lemma decodesToD:
  assumes "decodesTo m v" "fits (m - depth) v" "m_rest d = bencode v @ r" "2 * length (m_rest d) + 1 \<le> f"
  obtains v' where "parseValue f m depth d = Inr (v', advance (length (bencode v)) d)" "stripSpan v' = stripSpan v"
  using assms unfolding decodesTo_def by blast

lemma parseList_bencode:
  assumes "\<forall>x \<in> set xs. decodesTo m x \<and> fits (m - Suc depth) x"
    "m_rest d = concat (map bencode xs) @ 101 # r" "2 * length (m_rest d) + 2 \<le> f"
  shows "\<exists>ys. parseList f m depth st acc d = Inr (mkList (acc @ ys), advance (length (concat (map bencode xs)) + 1) d)
    \<and> map stripSpan ys = map stripSpan xs"
  using assms
proof (induction xs arbitrary: acc d f)
  case Nil
  then obtain f' where "f = Suc f'" by (cases f) auto
  with Nil show ?case by simp
next
  case (Cons x xs)
  then obtain f' where f: "f = Suc f'" by (cases f) auto
  obtain c cs where c: "bencode x = c # cs" "c \<noteq> 101" using Cons.prems(1) bencode_head by fastforce
  have r: "m_rest d = bencode x @ (concat (map bencode xs) @ 101 # r)" using Cons.prems(2) by simp
  obtain v' where v': "parseValue f' m (Suc depth) d = Inr (v', advance (length (bencode x)) d)"
    "stripSpan v' = stripSpan x"
    by (rule decodesToD [of m x "Suc depth" d _ f']) (use Cons.prems(1,3) r f in auto)
  let ?d = "advance (length (bencode x)) d"
  have "m_rest ?d = concat (map bencode xs) @ 101 # r" using r by simp
  with Cons.IH [of ?d f' "acc @ [v']"] Cons.prems(1,3) f c r obtain ys where
    "parseList f' m depth st (acc @ [v']) ?d = Inr (mkList ((acc @ [v']) @ ys), advance (length (concat (map bencode xs)) + 1) ?d)"
    "map stripSpan ys = map stripSpan xs" by auto
  with v' f c r show ?case by (intro exI [of _ "v' # ys"]) (simp add: add.assoc)
qed

definition lastKey :: "bdict \<Rightarrow> bytes option" where
  "lastKey d = (if d = [] then None else Some (fst (last d)))"

lemma parseDict_bencode:
  assumes "\<forall>(k, x) \<in> set es. length k < 10 ^ 10 \<and> decodesTo m x \<and> fits (m - Suc depth) x"
    "m_rest d = encodeEntries es @ 101 # r" "2 * length (m_rest d) + 2 \<le> f"
    "prev = lastKey dict" "sorted_wrt (<) (map fst dict @ map fst es)"
  shows "\<exists>fs. parseDict f m depth st dict prev d = Inr (mkDict (dict @ fs), advance (length (encodeEntries es) + 1) d)
    \<and> map (\<lambda>(k, x). (k, stripSpan x)) fs = map (\<lambda>(k, x). (k, stripSpan x)) es"
  using assms
proof (induction es arbitrary: dict prev d f)
  case Nil
  then obtain f' where "f = Suc f'" by (cases f) auto
  with Nil show ?case by simp
next
  case (Cons e es)
  obtain k x where e: "e = (k, x)" by (cases e)
  from Cons.prems(3) obtain f' where f: "f = Suc f'" by (cases f) auto
  let ?r1 = "bencode x @ encodeEntries es @ 101 # r"
  have r: "m_rest d = encodeString k @ ?r1" using Cons.prems(2) e by simp
  let ?d1 = "advance (length (encodeString k)) d"
  have ps: "parseString d = Inr (k, ?d1)" using Cons.prems(1) e r by (intro parseString_encodeString) auto
  obtain c cs where c: "encodeString k = c # cs" "isDigit c"
    using digits10_Cons [of "length k"] by (auto simp: encodeString_def)
  then have c101: "c \<noteq> 101" by auto
  have lt: "\<forall>k' \<in> fst ` set dict. k' < k" using Cons.prems(5) e by (auto simp: sorted_wrt_append)
  have nk: "map_of dict k = None" using lt by (auto simp: map_of_eq_None_iff)
  have pk: "case prev of None \<Rightarrow> True | Some p \<Rightarrow> p \<le> k"
    using lt Cons.prems(4) by (auto simp: lastKey_def intro: less_imp_le)
  have kw: "keyWarnings dict prev k ?d1 = ?d1"
    using nk pk by (auto simp: keyWarnings_def warnIf_def split: option.splits)
  have r1: "m_rest ?d1 = bencode x @ (encodeEntries es @ 101 # r)" using r by simp
  obtain v' where v': "parseValue f' m (Suc depth) ?d1 = Inr (v', advance (length (bencode x)) ?d1)"
    "stripSpan v' = stripSpan x"
    by (rule decodesToD [of m x "Suc depth" ?d1 _ f']) (use Cons.prems(1,3) r f e r1 in auto)
  let ?d3 = "advance (length (bencode x)) ?d1" and ?dict = "dict @ [(k, v')]"
  have em: "emplace k v' dict = ?dict"
    using Cons.prems(5) lt by (intro emplace_snoc) (auto simp: sorted_wrt_append)
  have r3: "m_rest ?d3 = encodeEntries es @ 101 # r" using r by simp
  have "2 * length (m_rest ?d3) + 2 \<le> f'" using Cons.prems(3) f c r by simp
  with Cons.IH [of ?d3 f' "Some k" ?dict] Cons.prems(1,5) e r3 obtain fs where
    "parseDict f' m depth st ?dict (Some k) ?d3 = Inr (mkDict (?dict @ fs), advance (length (encodeEntries es) + 1) ?d3)"
    "map (\<lambda>(k, x). (k, stripSpan x)) fs = map (\<lambda>(k, x). (k, stripSpan x)) es"
    by (auto simp: lastKey_def)
  with ps kw v' em nk f c c101 r e show ?case by (intro exI [of _ "(k, v') # fs"]) (simp add: add.assoc)
qed

lemma decodesTo_all: "decodesTo m v"
proof (induction v)
  case (BInteger sp i)
  show ?case unfolding decodesTo_def
  proof (intro allI impI)
    fix f depth r and d :: decoder
    assume *: "fits (m - depth) (BInteger sp i)" "m_rest d = bencode (BInteger sp i) @ r" "2 * length (m_rest d) + 1 \<le> f"
    then obtain f' where "f = Suc f'" by (cases f) auto
    with * parseInteger_number10 [of d i r]
    show "\<exists>v'. parseValue f m depth d = Inr (v', advance (length (bencode (BInteger sp i))) d) \<and> stripSpan v' = stripSpan (BInteger sp i)"
      by (simp add: spanned_def)
  qed
next
  case (BString sp b)
  show ?case unfolding decodesTo_def
  proof (intro allI impI)
    fix f depth r and d :: decoder
    assume *: "fits (m - depth) (BString sp b)" "m_rest d = bencode (BString sp b) @ r" "2 * length (m_rest d) + 1 \<le> f"
    then obtain f' where f: "f = Suc f'" by (cases f) auto
    obtain c cs where "encodeString b = c # cs" "isDigit c" using digits10_Cons [of "length b"] by (auto simp: encodeString_def)
    moreover from this have "c \<noteq> 105" by auto
    ultimately
    show "\<exists>v'. parseValue f m depth d = Inr (v', advance (length (bencode (BString sp b))) d) \<and> stripSpan v' = stripSpan (BString sp b)"
      using * parseString_encodeString [of d b r] f by (simp add: spanned_def)
  qed
next
  case (BList sp xs)
  show ?case unfolding decodesTo_def
  proof (intro allI impI)
    fix f depth r and d :: decoder
    assume *: "fits (m - depth) (BList sp xs)" "m_rest d = bencode (BList sp xs) @ r" "2 * length (m_rest d) + 1 \<le> f"
    then obtain f' where f: "f = Suc f'" by (cases f) auto
    have md: "m - depth - 1 = m - Suc depth" "depth < m" using *(1) by auto
    let ?d = "advance 1 d"
    have "m_rest ?d = concat (map bencode xs) @ 101 # r" using *(2) by simp
    with parseList_bencode [of xs m depth ?d r f' "m_pos d" "[]"] BList * md f obtain ys where
      "parseList f' m depth (m_pos d) [] ?d = Inr (mkList ys, advance (length (concat (map bencode xs)) + 1) ?d)"
      "map stripSpan ys = map stripSpan xs" by auto
    with * f md show "\<exists>v'. parseValue f m depth d = Inr (v', advance (length (bencode (BList sp xs))) d) \<and> stripSpan v' = stripSpan (BList sp xs)"
      by (simp add: spanned_def)
  qed
next
  case (BDict sp es)
  show ?case unfolding decodesTo_def
  proof (intro allI impI)
    fix f depth r and d :: decoder
    assume *: "fits (m - depth) (BDict sp es)" "m_rest d = bencode (BDict sp es) @ r" "2 * length (m_rest d) + 1 \<le> f"
    then obtain f' where f: "f = Suc f'" by (cases f) auto
    have md: "m - depth - 1 = m - Suc depth" "depth < m" using *(1) by auto
    let ?d = "advance 1 d"
    have "m_rest ?d = encodeEntries es @ 101 # r" using *(2) by simp
    moreover have "\<forall>(k, x) \<in> set es. length k < 10 ^ 10 \<and> decodesTo m x \<and> fits (m - Suc depth) x"
      using *(1) BDict md by fastforce
    ultimately obtain fs where
      "parseDict f' m depth (m_pos d) [] None ?d = Inr (mkDict fs, advance (length (encodeEntries es) + 1) ?d)"
      "map (\<lambda>(k, x). (k, stripSpan x)) fs = map (\<lambda>(k, x). (k, stripSpan x)) es"
      using parseDict_bencode [of es m depth ?d r f' None "[]" "m_pos d"] * f by (auto simp: lastKey_def)
    with * f md show "\<exists>v'. parseValue f m depth d = Inr (v', advance (length (bencode (BDict sp es))) d) \<and> stripSpan v' = stripSpan (BDict sp es)"
      by (simp add: spanned_def)
  qed
qed (simp_all add: decodesTo_def)

lemma bdecode_bencode:
  assumes "fits maxDepth v"
  shows "res_ok (bdecode (bencode v) maxDepth) \<and> res_warnings (bdecode (bencode v) maxDepth) = []
    \<and> stripSpan (res_value (bdecode (bencode v) maxDepth)) = stripSpan v"
proof -
  let ?d0 = "\<lparr>m_rest = bencode v, m_pos = 0, m_warnings = []\<rparr>"
  obtain v' where "parseValue (2 * length (bencode v) + 1) maxDepth 0 ?d0 = Inr (v', advance (length (bencode v)) ?d0)"
    "stripSpan v' = stripSpan v"
    by (rule decodesToD [OF decodesTo_all, of maxDepth 0 v ?d0 "[]" "2 * length (bencode v) + 1"]) (use assms in auto)
  then show ?thesis by (simp add: bdecode_def Let_def res_ok_def del: parseValue.simps)
qed

text \<open>C29: decoding what the encoder wrote gives the value back, with no error and no warning, for every
  value within the decoder's limits (64-bit integers, ten-digit lengths, the nesting limit).\<close>

theorem bdecode_bencode_roundtrip:
  assumes "fits maxDepth v"
  shows "res_ok (bdecode (bencode v) maxDepth) \<and> res_warnings (bdecode (bencode v) maxDepth) = []
    \<and> stripSpan (res_value (bdecode (bencode v) maxDepth)) = stripSpan v"
  by (rule bdecode_bencode [OF assms])

definition sampleValue :: bvalue where
  "sampleValue = mkDict [(ascii ''a'', mkInt (- 5)), (ascii ''b'', mkList [mkString (ascii ''xy''), mkDict []])]"

lemma fits_sampleValue: "fits 32 sampleValue"
  by (simp add: sampleValue_def ascii_def)

theorem bdecode_bencode_roundtrip_witness:
  "fits 32 sampleValue \<and> stripSpan (res_value (bdecode (bencode sampleValue) 32)) = sampleValue"
  using bdecode_bencode_roundtrip [OF fits_sampleValue] fits_sampleValue by (simp add: sampleValue_def)

text \<open>Concrete canonical input for the witnesses of the theorems above.\<close>

theorem bdecode_silent_canonical_witness:
  "bencode (res_value (bdecode (bencode sampleValue) 32)) = bencode sampleValue"
  using bdecode_bencode [OF fits_sampleValue] by (intro bdecode_silent_canonical) simp_all

section \<open>Raw spans\<close>

fun subvalues :: "bvalue \<Rightarrow> bvalue list" where
  "subvalues (BList s xs) = BList s xs # concat (map subvalues xs)"
| "subvalues (BDict s d) = BDict s d # concat (map (\<lambda>(k, x). subvalues x) d)"
| "subvalues v = [v]"

definition spansExact :: "bytes \<Rightarrow> bvalue \<Rightarrow> bool" where
  "spansExact data v \<longleftrightarrow> (\<forall>w \<in> set (subvalues v). rawSpan w data = bencode w)"

definition atPos :: "bytes \<Rightarrow> decoder \<Rightarrow> bool" where
  "atPos data d \<longleftrightarrow> m_rest d = drop (m_pos d) data \<and> m_pos d \<le> length data"

lemma atPos_consumes:
  assumes "atPos data d" "consumes d u d'"
  shows "atPos data d'"
proof -
  from assms have u: "drop (m_pos d) data = u @ m_rest d'" "m_pos d' = m_pos d + length u" "m_pos d \<le> length data"
    by (auto simp: atPos_def consumes_def)
  from u(1) have "length u \<le> length data - m_pos d" by (metis le_add1 length_append length_drop)
  moreover from u(1) have "m_rest d' = drop (m_pos d + length u) data"
    by (metis add.commute append_eq_conv_conj drop_drop)
  ultimately show ?thesis using u by (simp add: atPos_def)
qed

lemma atPos_advance1: "atPos data d \<Longrightarrow> m_rest d \<noteq> [] \<Longrightarrow> atPos data (advance 1 d)"
  using atPos_consumes advance_consumes1 by blast

lemma atPos_keyWarnings [simp]: "atPos data (keyWarnings dict prev key d) = atPos data d"
  by (simp add: atPos_def)

lemma rawSpan_atPos:
  assumes "atPos data d" "m_rest d = b @ r" "b \<noteq> []" "spanOf v = Some (m_pos d, length b)"
  shows "rawSpan v data = b"
proof -
  from assms(1,2) have "drop (m_pos d) data = b @ r" "m_pos d \<le> length data" by (auto simp: atPos_def)
  moreover from this have "length b \<le> length data - m_pos d" by (metis le_add1 length_append length_drop)
  ultimately show ?thesis using assms(3,4) by (simp add: rawSpan_def)
qed

lemma parseValue_self_span:
  assumes "parseValue f m depth d = Inr (v, d')" "m_warnings d' = []" "atPos data d"
  shows "rawSpan v data = bencode v"
proof -
  from assms(1) obtain f' where f: "f = Suc f'" by (cases f) auto
  from parse_consumes(1) [OF assms(1)] obtain u where u: "u \<noteq> []" "m_rest d = u @ m_rest d'" "m_pos d' = m_pos d + length u"
    by (auto simp: consumes_def)
  with parse_canonical(1) [OF assms(1,2)] have ub: "u = bencode v" by simp
  then have "v \<noteq> BInvalid" using u by auto
  from assms(1) f have "\<exists>w. v = setRawSpan w (m_pos d) (m_pos d' - m_pos d)" by (simp add: spanned_Inr) blast
  then obtain w where w: "v = setRawSpan w (m_pos d) (m_pos d' - m_pos d)" by blast
  with \<open>v \<noteq> BInvalid\<close> have "w \<noteq> BInvalid" by (cases w) auto
  then have "spanOf v = Some (m_pos d, m_pos d' - m_pos d)" using w setRawSpan_span by metis
  then have "spanOf v = Some (m_pos d, length (bencode v))" using u(3) ub by simp
  with u ub assms(3) show ?thesis by (intro rawSpan_atPos) auto
qed

lemma spansExact_setRawSpan:
  assumes "rawSpan (setRawSpan v st n) data = bencode v" "\<forall>w \<in> set (tl (subvalues v)). rawSpan w data = bencode w"
  shows "spansExact data (setRawSpan v st n)"
  using assms by (cases v) (auto simp: spansExact_def)

lemma parse_spans:
  "parseValue f m depth d = Inr (v, d') \<Longrightarrow> m_warnings d' = [] \<Longrightarrow> atPos data d \<Longrightarrow> spansExact data v"
  "parseList f m depth st xs d = Inr (v, d') \<Longrightarrow> m_warnings d' = [] \<Longrightarrow> atPos data d \<Longrightarrow>
     \<forall>x \<in> set xs. spansExact data x \<Longrightarrow> \<forall>w \<in> set (tl (subvalues v)). rawSpan w data = bencode w"
  "parseDict f m depth st dict prev d = Inr (v, d') \<Longrightarrow> m_warnings d' = [] \<Longrightarrow> atPos data d \<Longrightarrow> keysUpTo dict prev \<Longrightarrow>
     \<forall>x \<in> snd ` set dict. spansExact data x \<Longrightarrow> \<forall>w \<in> set (tl (subvalues v)). rawSpan w data = bencode w"
proof (induction f arbitrary: m depth d v d' st xs dict prev)
  case 0
  { case 1 then show ?case by simp }
  { case 2 then show ?case by simp }
  { case 3 then show ?case by simp }
next
  case (Suc f)
  { case 1
    note self = parseValue_self_span [OF 1(1-3)]
    from 1(1) show ?case
    proof (cases rule: parseValue_Inr)
      case w: (1 w)
      from parseInteger_Inr [OF w(4) w(2)] obtain i where "w = mkInt i" by blast
      with self w show ?thesis by (simp add: spansExact_def)
    next
      case (2 s)
      with self show ?thesis by (simp add: spansExact_def)
    next
      case w: (3 w)
      from Suc.IH(2) [OF w(5) 1(2) atPos_advance1 [OF 1(3) w(2)]] self w(1)
      show ?thesis by (simp add: spansExact_setRawSpan)
    next
      case w: (4 w)
      from Suc.IH(3) [OF w(5) 1(2) atPos_advance1 [OF 1(3) w(2)]] self w(1)
      show ?thesis by (simp add: spansExact_setRawSpan keysUpTo_def)
    qed }
  { case 2
    from 2(1) show ?case
    proof (cases rule: parseList_Inr)
      case 1
      with 2(4) show ?thesis by (auto simp: spansExact_def)
    next
      case i: (2 item d1)
      from parse_consumes(2) [OF i(3)] 2(2) have w1: "m_warnings d1 = []" by (blast dest: consumes_silent)
      from parse_consumes(1) [OF i(2)] 2(3) have a1: "atPos data d1" by (blast intro: atPos_consumes)
      have "\<forall>x \<in> set (xs @ [item]). spansExact data x" using Suc.IH(1) [OF i(2) w1 2(3)] 2(4) by auto
      from Suc.IH(2) [OF i(3) 2(2) a1 this] show ?thesis .
    qed }
  { case 3
    from 3(1) show ?case
    proof (cases rule: parseDict_Inr)
      case 1
      with 3(5) show ?thesis by (fastforce simp: spansExact_def)
    next
      case k: (2 key d1 val d3)
      from parse_consumes(3) [OF k(5)] 3(2) have w3: "m_warnings d3 = []" by (blast dest: consumes_silent)
      with parse_consumes(1) [OF k(4)] have "m_warnings (keyWarnings dict prev key d1) = []"
        by (blast dest: consumes_silent)
      then have nk: "map_of dict key = None" "case prev of None \<Rightarrow> True | Some p \<Rightarrow> p \<le> key"
        by (simp_all add: keyWarnings_silent)
      from parseString_consumes [OF k(3)] 3(3) have a1: "atPos data (keyWarnings dict prev key d1)"
        by (auto intro: atPos_consumes)
      with parse_consumes(1) [OF k(4)] have a3: "atPos data d3" by (blast intro: atPos_consumes)
      note em = keysUpTo_emplace [OF 3(4) nk, of val]
      from k(5) nk(1) em(1) have p: "parseDict f m depth st (dict @ [(key, val)]) (Some key) d3 = Inr (v, d')" by simp
      have "\<forall>x \<in> snd ` set (dict @ [(key, val)]). spansExact data x" using Suc.IH(1) [OF k(4) w3 a1] 3(5) by auto
      from Suc.IH(3) [OF p 3(2) a3 em(2) this] show ?thesis .
    qed }
qed



end
