(* ===== verification/Krpc.thy ===== *)
theory Krpc
  imports Bencode Endpoint
begin

text \<open>
  \<^verbatim>\<open>dhtcore/include/dhtcore/Krpc.h\<close>, \<^verbatim>\<open>dhtcore/src/Krpc.cpp\<close>: KRPC messages, their parser and
  encoders, and the compact node and peer lists. Error texts are values of \<open>parse_error\<close>.
\<close>

datatype MessageType = Query | Response | ErrorMessage

record message =
  msg_type :: MessageType
  transactionId :: bytes
  msg_method :: bytes
  body :: bvalue
  errorCode :: int
  errorMessage :: bytes
  msg_version :: bytes
  reportedAddress :: "endpoint option"
  readOnly :: bool

definition emptyMessage :: message where
  "emptyMessage = \<lparr>msg_type = Query, transactionId = [], msg_method = [], body = BInvalid,
     errorCode = 0, errorMessage = [], msg_version = [], reportedAddress = None, readOnly = False\<rparr>"

text \<open>Error codes of BEP 5.\<close>

definition ProtocolError :: int where "ProtocolError = 203"
definition MethodUnknown :: int where "MethodUnknown = 204"

definition senderId :: "message \<Rightarrow> node_id option" where
  "senderId m = Option.bind (stringAt (body m) (ascii ''id'')) fromBytes"

datatype parse_error =
    BencodeError berror | TopLevelNotDict | MissingTransactionId | InvalidMessageType
  | QueryWithoutMethod | QueryWithoutArguments | ResponseWithoutValues | UnknownMessageType bytes

datatype parse_warning = BencodeWarning "nat \<times> bwarning" | ErrorWithoutList

record parse_result =
  parsed_message :: "message option"
  parsed_error :: "parse_error option"
  parsed_transactionId :: bytes
  parsed_warnings :: "parse_warning list"

text \<open>The two fields of an error list, when it is well formed.\<close>

definition errorFields :: "bvalue list \<Rightarrow> (int \<times> bytes) option" where
  "errorFields l =
     (case l of
        BInteger _ code # rest \<Rightarrow> Some (code, case rest of BString _ t # _ \<Rightarrow> t | _ \<Rightarrow> [])
      | _ \<Rightarrow> None)"

definition parse :: "qt_net \<Rightarrow> bytes \<Rightarrow> parse_result" where
  "parse Q datagram =
     (let decoded = bdecode datagram defaultMaxDepth;
          ws = map BencodeWarning (res_warnings decoded);
          root = res_value decoded;
          rejected = (\<lambda>tid e. \<lparr>parsed_message = None, parsed_error = Some e,
            parsed_transactionId = tid, parsed_warnings = ws\<rparr>)
      in case res_error decoded of
           Some e \<Rightarrow> rejected [] (BencodeError e)
         | None \<Rightarrow>
      if \<not> isDict root then rejected [] TopLevelNotDict
      else case stringAt root (ascii ''t'') of
             None \<Rightarrow> rejected [] MissingTransactionId
           | Some tid \<Rightarrow>
      (let accepted = (\<lambda>m ws'. \<lparr>parsed_message = Some m, parsed_error = None,
             parsed_transactionId = tid, parsed_warnings = ws @ ws'\<rparr>);
           m0 = emptyMessage\<lparr>transactionId := tid,
             msg_version := (case stringAt root (ascii ''v'') of Some v \<Rightarrow> v | None \<Rightarrow> []),
             reportedAddress := Option.bind (stringAt root (ascii ''ip'')) (fromCompact Q),
             readOnly := (integerAt root (ascii ''ro'') = Some 1)\<rparr>
       in case stringAt root (ascii ''y'') of
            None \<Rightarrow> rejected tid InvalidMessageType
          | Some y \<Rightarrow>
       if length y \<noteq> 1 then rejected tid InvalidMessageType
       else if y = ascii ''q'' then
         (case stringAt root (ascii ''q'') of
            None \<Rightarrow> rejected tid QueryWithoutMethod
          | Some meth \<Rightarrow>
              (case dictAt root (ascii ''a'') of
                 None \<Rightarrow> rejected tid QueryWithoutArguments
               | Some args \<Rightarrow> accepted (m0\<lparr>msg_type := Query, msg_method := meth, body := args\<rparr>) []))
       else if y = ascii ''r'' then
         (case dictAt root (ascii ''r'') of
            None \<Rightarrow> rejected tid ResponseWithoutValues
          | Some values \<Rightarrow> accepted (m0\<lparr>msg_type := Response, body := values\<rparr>) [])
       else if y = ascii ''e'' then
         (case errorFields (case listAt root (ascii ''e'') of Some e \<Rightarrow> toList e | None \<Rightarrow> []) of
            Some (code, text) \<Rightarrow>
              accepted (m0\<lparr>msg_type := ErrorMessage, errorCode := code, errorMessage := text\<rparr>) []
          | None \<Rightarrow> accepted (m0\<lparr>msg_type := ErrorMessage\<rparr>) [ErrorWithoutList])
       else rejected tid (UnknownMessageType y)))"

section \<open>Encoders\<close>

definition encodeQuery :: "bytes \<Rightarrow> bytes \<Rightarrow> bdict \<Rightarrow> bytes \<Rightarrow> bool \<Rightarrow> bytes" where
  "encodeQuery tid meth arguments version ro =
     (let r1 = emplace (ascii ''t'') (mkString tid) [];
          r2 = emplace (ascii ''y'') (mkString (ascii ''q'')) r1;
          r3 = emplace (ascii ''q'') (mkString meth) r2;
          r4 = emplace (ascii ''a'') (mkDict arguments) r3;
          r5 = (if ro then emplace (ascii ''ro'') (mkInt 1) r4 else r4);
          r6 = (if version \<noteq> [] then emplace (ascii ''v'') (mkString version) r5 else r5)
      in bencode (mkDict r6))"

definition encodeResponse :: "qt_net \<Rightarrow> bytes \<Rightarrow> bdict \<Rightarrow> bytes \<Rightarrow> endpoint \<Rightarrow> bytes" where
  "encodeResponse Q tid values version requester =
     (let r1 = emplace (ascii ''t'') (mkString tid) [];
          r2 = emplace (ascii ''y'') (mkString (ascii ''r'')) r1;
          r3 = emplace (ascii ''r'') (mkDict values) r2;
          r4 = (if isValid requester then emplace (ascii ''ip'') (mkString (toCompact Q requester)) r3 else r3);
          r5 = (if version \<noteq> [] then emplace (ascii ''v'') (mkString version) r4 else r4)
      in bencode (mkDict r5))"

definition encodeError :: "bytes \<Rightarrow> int \<Rightarrow> bytes \<Rightarrow> bytes \<Rightarrow> bytes" where
  "encodeError tid code text version =
     (let r1 = emplace (ascii ''t'') (mkString tid) [];
          r2 = emplace (ascii ''y'') (mkString (ascii ''e'')) r1;
          r3 = emplace (ascii ''e'') (mkList [mkInt code, mkString text]) r2;
          r4 = (if version \<noteq> [] then emplace (ascii ''v'') (mkString version) r3 else r3)
      in bencode (mkDict r4))"

section \<open>Compact node and peer lists\<close>

record compact_node =
  cn_id :: node_id
  cn_endpoint :: endpoint

definition encodeNodes :: "qt_net \<Rightarrow> compact_node list \<Rightarrow> Family \<Rightarrow> bytes" where
  "encodeNodes Q nodes fam =
     concat (map (\<lambda>n. toBytes (cn_id n) @ toCompact Q (cn_endpoint n))
       (filter (\<lambda>n. family Q (cn_endpoint n) = fam) nodes))"

definition entrySize :: "Family \<Rightarrow> nat" where
  "entrySize fam = (if fam = IPv4 then 26 else 38)"

text \<open>The loop of \<open>decodeNodes\<close> over the entries that are left.\<close>

function decodeEntries :: "qt_net \<Rightarrow> nat \<Rightarrow> bytes \<Rightarrow> compact_node list" where
  "decodeEntries Q entry data =
     (if entry = 0 \<or> length data < entry then []
      else (case (fromBytes (take id_Size data), fromCompact Q (take (entry - id_Size) (drop id_Size data))) of
              (Some nid, Some ep) \<Rightarrow> [\<lparr>cn_id = nid, cn_endpoint = ep\<rparr>]
            | _ \<Rightarrow> []) @ decodeEntries Q entry (drop entry data))"
  by pat_completeness auto
termination
  by (relation "measure (\<lambda>(Q, entry, data). length data)") auto

declare decodeEntries.simps [simp del]

record decoded_nodes =
  dn_nodes :: "compact_node list"
  dn_malformed :: bool

definition decodeNodes :: "qt_net \<Rightarrow> bytes \<Rightarrow> Family \<Rightarrow> decoded_nodes" where
  "decodeNodes Q data fam =
     \<lparr>dn_nodes = decodeEntries Q (entrySize fam) data,
      dn_malformed = (length data mod entrySize fam \<noteq> 0)\<rparr>"

definition decodePeers :: "qt_net \<Rightarrow> bvalue option \<Rightarrow> Family \<Rightarrow> endpoint list" where
  "decodePeers Q values fam =
     (case values of
        Some (BList _ items) \<Rightarrow>
          List.map_filter (\<lambda>item. case item of
              BString _ bs \<Rightarrow>
                if length bs = (if fam = IPv4 then 6 else 18) then fromCompact Q bs else None
            | _ \<Rightarrow> None) items
      | _ \<Rightarrow> [])"

section \<open>Reading a decoded dictionary\<close>

lemma map_of_strip: "map_of (map (\<lambda>(k, x). (k, stripSpan x)) d) k = map_option stripSpan (map_of d k)"
  by (induction d) auto

lemma find_key_strip: "find_key (stripSpan v) k = map_option stripSpan (find_key v k)"
  by (cases v) (auto simp: find_key_def map_of_strip)

lemma stringAt_strip [simp]: "stringAt (stripSpan v) k = stringAt v k"
  by (cases "find_key v k") (auto simp: stringAt_def find_key_strip split: bvalue.splits)

lemma integerAt_strip [simp]: "integerAt (stripSpan v) k = integerAt v k"
  by (cases "find_key v k") (auto simp: integerAt_def find_key_strip split: bvalue.splits)

lemma dictAt_strip: "dictAt (stripSpan v) k = map_option stripSpan (dictAt v k)"
  by (cases "find_key v k") (auto simp: dictAt_def find_key_strip split: bvalue.splits)

lemma listAt_strip: "listAt (stripSpan v) k = map_option stripSpan (listAt v k)"
  by (cases "find_key v k") (auto simp: listAt_def find_key_strip split: bvalue.splits)

lemma isDict_strip [simp]: "isDict (stripSpan v) = isDict v"
  by (cases v) (simp_all add: isDict_def)

lemma errorFields_strip: "errorFields (map stripSpan l) = errorFields l"
  by (cases l rule: list.exhaust; cases "hd l"; cases "tl l"; cases "hd (tl l)") (auto simp: errorFields_def)

lemma map_of_emplace:
  "sorted_keys d \<Longrightarrow> map_of (emplace k v d) = (if map_of d k = None then (map_of d)(k \<mapsto> v) else map_of d)"
  by (induction k v d rule: emplace.induct) (auto simp: fun_eq_iff map_of_eq_None_iff image_iff dest!: map_of_SomeD)

lemma map_of_insert_or_assign:
  "sorted_keys d \<Longrightarrow> map_of (insert_or_assign k v d) = (map_of d)(k \<mapsto> v)"
  by (induction k v d rule: insert_or_assign.induct) (auto simp: fun_eq_iff)

lemma set_fst_emplace: "fst ` set (emplace k v d) = insert k (fst ` set d)"
  by (induction k v d rule: emplace.induct) auto

lemma sorted_emplace: "sorted_keys d \<Longrightarrow> sorted_keys (emplace k v d)"
proof (induction k v d rule: emplace.induct)
  case (2 k v k' v' d)
  have "fst ` set (emplace k v d) = insert k (fst ` set d)" by (rule set_fst_emplace)
  with 2 show ?case by (auto simp: image_iff)
qed simp

lemma set_emplace: "set (emplace k v d) \<subseteq> insert (k, v) (set d)"
  by (induction k v d rule: emplace.induct) auto


lemma sameFields_reads:
  assumes "stripSpan v = stripSpan w"
  shows "isDict v = isDict w" "stringAt v k = stringAt w k" "integerAt v k = integerAt w k"
    "map_option stripSpan (dictAt v k) = map_option stripSpan (dictAt w k)"
    "map_option stripSpan (listAt v k) = map_option stripSpan (listAt w k)"
  using isDict_strip [of v] stringAt_strip [of v] integerAt_strip [of v] dictAt_strip [of v k] listAt_strip [of v k]
    dictAt_strip [of w k] listAt_strip [of w k] by (simp_all add: assms)


lemma decoded_root:
  assumes "fits 32 v"
  obtains root where "bdecode (bencode v) defaultMaxDepth = \<lparr>res_value = root, res_error = None, res_warnings = []\<rparr>"
    "stripSpan root = stripSpan v"
  using bdecode_bencode [OF assms] that [of "res_value (bdecode (bencode v) 32)"]
  by (cases "bdecode (bencode v) 32") (auto simp: defaultMaxDepth_def res_ok_def)

lemmas at_simps = stringAt_def integerAt_def dictAt_def listAt_def find_key_def map_of_emplace sorted_emplace

text \<open>The dictionaries the encoders build, as the sequence of \<open>emplace\<close> calls.\<close>

definition emplaceAll :: "(bytes \<times> 'v) list \<Rightarrow> (bytes \<times> 'v) list" where
  "emplaceAll es = fold (\<lambda>(k, v). emplace k v) es []"

lemma emplaceAll_fold_inv:
  "sorted_keys d \<Longrightarrow> sorted_keys (fold (\<lambda>(k, v). emplace k v) es d)
    \<and> set (fold (\<lambda>(k, v). emplace k v) es d) \<subseteq> set d \<union> set es
    \<and> map_of (fold (\<lambda>(k, v). emplace k v) es d) = map_of es ++ map_of d"
proof (induction es arbitrary: d)
  case (Cons e es)
  obtain k v where e: "e = (k, v)" by (cases e)
  have "map_of es ++ map_of (emplace k v d) = map_of (e # es) ++ map_of d"
    using map_of_emplace [OF Cons.prems, of k v] by (auto simp: e map_add_def fun_eq_iff split: option.splits)
  with Cons.IH [OF sorted_emplace [OF Cons.prems], of k v] set_emplace [of k v d] show ?case
    by (auto simp: e fun_upd_def)
qed simp

lemma emplaceAll_props:
  "sorted_keys (emplaceAll es)" "set (emplaceAll es) \<subseteq> set es" "map_of (emplaceAll es) = map_of es"
  using emplaceAll_fold_inv [of "[]" es] by (simp_all add: emplaceAll_def)

lemma fits_emplaceAll:
  assumes "\<forall>(k, x) \<in> set es. length k < 10 ^ 10 \<and> fits n x"
  shows "fits (Suc n) (mkDict (emplaceAll es))"
  using assms emplaceAll_props(1,2) [of es] by auto

lemma encodeQuery_emplaceAll:
  "encodeQuery tid meth arguments version ro = bencode (mkDict (emplaceAll
     ([(ascii ''t'', mkString tid), (ascii ''y'', mkString (ascii ''q'')), (ascii ''q'', mkString meth),
       (ascii ''a'', mkDict arguments)] @ (if ro then [(ascii ''ro'', mkInt 1)] else [])
      @ (if version = [] then [] else [(ascii ''v'', mkString version)]))))"
  by (simp add: encodeQuery_def emplaceAll_def Let_def)

lemma encodeResponse_emplaceAll:
  "encodeResponse Q tid values version requester = bencode (mkDict (emplaceAll
     ([(ascii ''t'', mkString tid), (ascii ''y'', mkString (ascii ''r'')), (ascii ''r'', mkDict values)]
      @ (if isValid requester then [(ascii ''ip'', mkString (toCompact Q requester))] else [])
      @ (if version = [] then [] else [(ascii ''v'', mkString version)]))))"
  by (simp add: encodeResponse_def emplaceAll_def Let_def)

lemma encodeError_emplaceAll:
  "encodeError tid code text version = bencode (mkDict (emplaceAll
     ([(ascii ''t'', mkString tid), (ascii ''y'', mkString (ascii ''e'')),
       (ascii ''e'', mkList [mkInt code, mkString text])]
      @ (if version = [] then [] else [(ascii ''v'', mkString version)]))))"
  by (simp add: encodeError_def emplaceAll_def Let_def)


lemma reads_of_root:
  assumes "stripSpan rt = stripSpan (mkDict (emplaceAll es))"
  shows "isDict rt" "stringAt rt k = (case map_of es k of Some (BString _ b) \<Rightarrow> Some b | _ \<Rightarrow> None)"
    "integerAt rt k = (case map_of es k of Some (BInteger _ b) \<Rightarrow> Some b | _ \<Rightarrow> None)"
    "map_option stripSpan (dictAt rt k) = map_option stripSpan (case map_of es k of Some (BDict s b) \<Rightarrow> Some (BDict s b) | _ \<Rightarrow> None)"
    "map_option stripSpan (listAt rt k) = map_option stripSpan (case map_of es k of Some (BList s b) \<Rightarrow> Some (BList s b) | _ \<Rightarrow> None)"
  using sameFields_reads [OF assms]
  by (simp_all add: stringAt_def integerAt_def dictAt_def listAt_def find_key_def emplaceAll_props isDict_def)

lemma parse_encodeQuery:
  assumes "length tid < 10 ^ 10" "length meth < 10 ^ 10" "length version < 10 ^ 10" "fits 31 (mkDict arguments)"
  shows "\<exists>args. stripSpan args = stripSpan (mkDict arguments) \<and>
    parse Q (encodeQuery tid meth arguments version ro) =
      \<lparr>parsed_message = Some (emptyMessage\<lparr>transactionId := tid, msg_method := meth, body := args,
         msg_version := version, readOnly := ro\<rparr>),
       parsed_error = None, parsed_transactionId = tid, parsed_warnings = []\<rparr>"
proof -
  let ?es = "[(ascii ''t'', mkString tid), (ascii ''y'', mkString (ascii ''q'')), (ascii ''q'', mkString meth),
       (ascii ''a'', mkDict arguments)] @ (if ro then [(ascii ''ro'', mkInt 1)] else [])
      @ (if version = [] then [] else [(ascii ''v'', mkString version)])"
  have "fits (Suc 31) (mkDict (emplaceAll ?es))"
    by (rule fits_emplaceAll) (use assms in \<open>auto simp: ascii_def split: if_splits\<close>)
  then obtain rt where rt: "bdecode (encodeQuery tid meth arguments version ro) defaultMaxDepth
      = \<lparr>res_value = rt, res_error = None, res_warnings = []\<rparr>" "stripSpan rt = stripSpan (mkDict (emplaceAll ?es))"
    unfolding encodeQuery_emplaceAll using decoded_root [of "mkDict (emplaceAll ?es)"] by auto
  note reads = reads_of_root [OF rt(2)]
  obtain args where args: "dictAt rt (ascii ''a'') = Some args" "stripSpan args = stripSpan (mkDict arguments)"
    using reads(4) [of "ascii ''a''"] by (auto simp: ascii_def)
  have "stringAt rt (ascii ''t'') = Some tid" "stringAt rt (ascii ''y'') = Some (ascii ''q'')"
    "stringAt rt (ascii ''q'') = Some meth" "stringAt rt (ascii ''ip'') = None"
    "stringAt rt (ascii ''v'') = (if version = [] then None else Some version)"
    "integerAt rt (ascii ''ro'') = (if ro then Some 1 else None)"
    by (simp_all add: reads ascii_def)
  then have "parse Q (encodeQuery tid meth arguments version ro) =
      \<lparr>parsed_message = Some (emptyMessage\<lparr>transactionId := tid, msg_method := meth, body := args,
         msg_version := version, readOnly := ro\<rparr>),
       parsed_error = None, parsed_transactionId = tid, parsed_warnings = []\<rparr>"
    by (simp add: parse_def rt(1) reads(1) args(1) emptyMessage_def)
  with args(2) show ?thesis by blast
qed


lemma type_bytes_distinct [simp]:
  "ascii ''r'' \<noteq> ascii ''q''" "ascii ''e'' \<noteq> ascii ''q''" "ascii ''e'' \<noteq> ascii ''r''"
  by (simp_all add: ascii_def)

lemma parse_encodeResponse:
  assumes "length tid < 10 ^ 10" "length version < 10 ^ 10" "fits 31 (mkDict values)" "wf_endpoint Q requester"
  shows "\<exists>vals. stripSpan vals = stripSpan (mkDict values) \<and>
    parse Q (encodeResponse Q tid values version requester) =
      \<lparr>parsed_message = Some (emptyMessage\<lparr>msg_type := Response, transactionId := tid, body := vals,
         msg_version := version, reportedAddress := (if isValid requester then Some requester else None)\<rparr>),
       parsed_error = None, parsed_transactionId = tid, parsed_warnings = []\<rparr>"
proof -
  let ?es = "[(ascii ''t'', mkString tid), (ascii ''y'', mkString (ascii ''r'')), (ascii ''r'', mkDict values)]
      @ (if isValid requester then [(ascii ''ip'', mkString (toCompact Q requester))] else [])
      @ (if version = [] then [] else [(ascii ''v'', mkString version)])"
  have compact: "isValid requester \<Longrightarrow> length (toCompact Q requester) \<le> 18"
    using toCompact_length [OF assms(4)] by (auto simp: isValid_def)
  have "fits (Suc 31) (mkDict (emplaceAll ?es))"
    by (rule fits_emplaceAll) (use assms compact in \<open>auto simp: ascii_def split: if_splits\<close>)
  then obtain rt where rt: "bdecode (encodeResponse Q tid values version requester) defaultMaxDepth
      = \<lparr>res_value = rt, res_error = None, res_warnings = []\<rparr>" "stripSpan rt = stripSpan (mkDict (emplaceAll ?es))"
    unfolding encodeResponse_emplaceAll using decoded_root [of "mkDict (emplaceAll ?es)"] by auto
  note reads = reads_of_root [OF rt(2)]
  obtain vals where vals: "dictAt rt (ascii ''r'') = Some vals" "stripSpan vals = stripSpan (mkDict values)"
    using reads(4) [of "ascii ''r''"] by (auto simp: ascii_def)
  have "stringAt rt (ascii ''t'') = Some tid" "stringAt rt (ascii ''y'') = Some (ascii ''r'')"
    "stringAt rt (ascii ''ip'') = (if isValid requester then Some (toCompact Q requester) else None)"
    "stringAt rt (ascii ''v'') = (if version = [] then None else Some version)"
    "integerAt rt (ascii ''ro'') = None"
    by (simp_all add: reads ascii_def)
  moreover have "isValid requester \<Longrightarrow> fromCompact Q (toCompact Q requester) = Some requester"
    using assms(4) by (intro fromCompact_toCompact) (auto simp: isValid_def)
  ultimately have "parse Q (encodeResponse Q tid values version requester) =
      \<lparr>parsed_message = Some (emptyMessage\<lparr>msg_type := Response, transactionId := tid, body := vals,
         msg_version := version, reportedAddress := (if isValid requester then Some requester else None)\<rparr>),
       parsed_error = None, parsed_transactionId = tid, parsed_warnings = []\<rparr>"
    by (simp add: parse_def rt(1) reads(1) vals(1) emptyMessage_def)
  with vals(2) show ?thesis by blast
qed

lemma parse_encodeError:
  assumes "length tid < 10 ^ 10" "length version < 10 ^ 10" "length txt < 10 ^ 10" "- (2 ^ 63) \<le> code" "code < 2 ^ 63"
  shows "parse Q (encodeError tid code txt version) =
      \<lparr>parsed_message = Some (emptyMessage\<lparr>msg_type := ErrorMessage, transactionId := tid, errorCode := code,
         errorMessage := txt, msg_version := version\<rparr>),
       parsed_error = None, parsed_transactionId = tid, parsed_warnings = []\<rparr>"
proof -
  let ?es = "[(ascii ''t'', mkString tid), (ascii ''y'', mkString (ascii ''e'')),
       (ascii ''e'', mkList [mkInt code, mkString txt])]
      @ (if version = [] then [] else [(ascii ''v'', mkString version)])"
  have "fits (Suc 31) (mkDict (emplaceAll ?es))"
    by (rule fits_emplaceAll) (use assms in \<open>auto simp: ascii_def split: if_splits\<close>)
  then obtain rt where rt: "bdecode (encodeError tid code txt version) defaultMaxDepth
      = \<lparr>res_value = rt, res_error = None, res_warnings = []\<rparr>" "stripSpan rt = stripSpan (mkDict (emplaceAll ?es))"
    unfolding encodeError_emplaceAll using decoded_root [of "mkDict (emplaceAll ?es)"] by auto
  note reads = reads_of_root [OF rt(2)]
  obtain l where l: "listAt rt (ascii ''e'') = Some l" "stripSpan l = mkList [mkInt code, mkString txt]"
    using reads(5) [of "ascii ''e''"] by (auto simp: ascii_def)
  then have fields: "errorFields (toList l) = Some (code, txt)"
    using errorFields_strip [of "toList l"] by (cases l) (simp_all add: toList_def errorFields_def)
  have "stringAt rt (ascii ''t'') = Some tid" "stringAt rt (ascii ''y'') = Some (ascii ''e'')"
    "stringAt rt (ascii ''ip'') = None"
    "stringAt rt (ascii ''v'') = (if version = [] then None else Some version)"
    "integerAt rt (ascii ''ro'') = None"
    by (simp_all add: reads ascii_def)
  then show ?thesis
    by (simp add: parse_def rt(1) reads(1) l(1) fields emptyMessage_def)
qed

section \<open>Compact lists\<close>

definition wf_node :: "qt_net \<Rightarrow> compact_node \<Rightarrow> bool" where
  "wf_node Q n \<longleftrightarrow> wf_id (cn_id n) \<and> wf_endpoint Q (cn_endpoint n) \<and> address (cn_endpoint n) \<noteq> NullAddress"

lemma entry_length:
  assumes "wf_node Q n"
  shows "length (toBytes (cn_id n) @ toCompact Q (cn_endpoint n)) = entrySize (family Q (cn_endpoint n))"
  using assms toCompact_length [of Q "cn_endpoint n"]
  by (auto simp: wf_node_def entrySize_def toBytes_def wf_id_def id_Size_def)

lemma decodeEntries_entry:
  assumes "wf_node Q n" "family Q (cn_endpoint n) = fam"
  shows "decodeEntries Q (entrySize fam) ((toBytes (cn_id n) @ toCompact Q (cn_endpoint n)) @ rest)
    = n # decodeEntries Q (entrySize fam) rest"
proof -
  have len: "length (toBytes (cn_id n)) = id_Size" "length (toCompact Q (cn_endpoint n)) = entrySize fam - id_Size"
    "length (toBytes (cn_id n) @ toCompact Q (cn_endpoint n)) = entrySize fam"
    using assms entry_length [OF assms(1)] by (auto simp: wf_node_def toBytes_def wf_id_def)
  have "fromBytes (toBytes (cn_id n)) = Some (cn_id n)"
    "fromCompact Q (toCompact Q (cn_endpoint n)) = Some (cn_endpoint n)"
    using assms(1) by (auto simp: wf_node_def fromBytes_def toBytes_def wf_id_def fromCompact_toCompact)
  with len show ?thesis
    by (subst decodeEntries.simps) (auto simp: entrySize_def id_Size_def)
qed

lemma decodeNodes_encodeNodes:
  assumes "\<forall>n \<in> set ns. wf_node Q n"
  shows "decodeNodes Q (encodeNodes Q ns fam) fam =
    \<lparr>dn_nodes = filter (\<lambda>n. family Q (cn_endpoint n) = fam) ns, dn_malformed = False\<rparr>"
proof -
  have "decodeEntries Q (entrySize fam) (encodeNodes Q ns fam) = filter (\<lambda>n. family Q (cn_endpoint n) = fam) ns
    \<and> length (encodeNodes Q ns fam) mod entrySize fam = 0"
    using assms
  proof (induction ns)
    case Nil
    show ?case by (subst decodeEntries.simps) (simp add: encodeNodes_def entrySize_def)
  next
    case (Cons n ns)
    show ?case
    proof (cases "family Q (cn_endpoint n) = fam")
      case True
      then have "encodeNodes Q (n # ns) fam = (toBytes (cn_id n) @ toCompact Q (cn_endpoint n)) @ encodeNodes Q ns fam"
        by (simp add: encodeNodes_def)
      moreover have "length (toBytes (cn_id n) @ toCompact Q (cn_endpoint n)) = entrySize fam"
        using entry_length [of Q n] Cons.prems True by simp
      ultimately show ?thesis using Cons decodeEntries_entry [of Q n fam] True
        by (simp flip: add.assoc)
    next
      case False
      with Cons show ?thesis by (simp add: encodeNodes_def)
    qed
  qed
  then show ?thesis by (simp add: decodeNodes_def)
qed


lemma decodeEntries_wf: "n \<in> set (decodeEntries Q entry data) \<Longrightarrow> wf_node Q n"
proof (induction Q entry data rule: decodeEntries.induct)
  case (1 Q entry data)
  show ?case
  proof (cases "entry = 0 \<or> length data < entry")
    case True
    with "1.prems" show ?thesis by (subst (asm) decodeEntries.simps) simp
  next
    case False
    with 1 show ?thesis
      by (subst (asm) (2) decodeEntries.simps)
        (auto simp: wf_node_def fromBytes_def wf_id_def split: option.splits if_splits
          dest: fromCompact_wf [OF sym] fromCompact_not_null [OF sym])
  qed
qed

section \<open>Properties\<close>



text \<open>a response written by \<open>encodeResponse\<close> is accepted by \<open>parse\<close> with the values, version and
  the requester's address it was written with; an error written by \<open>encodeError\<close> with its code and text.\<close>

theorem parse_encodeResponse_roundtrip:
  assumes "length tid < 10 ^ 10" "length version < 10 ^ 10" "fits 31 (mkDict values)" "wf_endpoint Q requester"
    and "length txt < 10 ^ 10" "- (2 ^ 63) \<le> code" "code < 2 ^ 63"
  shows "(\<exists>vals. stripSpan vals = stripSpan (mkDict values) \<and>
    parse Q (encodeResponse Q tid values version requester) =
      \<lparr>parsed_message = Some (emptyMessage\<lparr>msg_type := Response, transactionId := tid, body := vals,
         msg_version := version, reportedAddress := (if isValid requester then Some requester else None)\<rparr>),
       parsed_error = None, parsed_transactionId = tid, parsed_warnings = []\<rparr>) \<and>
    parse Q (encodeError tid code txt version) =
      \<lparr>parsed_message = Some (emptyMessage\<lparr>msg_type := ErrorMessage, transactionId := tid, errorCode := code,
         errorMessage := txt, msg_version := version\<rparr>),
       parsed_error = None, parsed_transactionId = tid, parsed_warnings = []\<rparr>"
  using assms parse_encodeResponse parse_encodeError by blast

theorem parse_encodeResponse_roundtrip_witness:
  "(\<exists>vals. stripSpan vals = mkDict [] \<and>
    parse qt_doc (encodeResponse qt_doc (ascii ''aa'') [] [] (mkEndpoint qt_doc (V4 0x01020304) 6881)) =
      \<lparr>parsed_message = Some (emptyMessage\<lparr>msg_type := Response, transactionId := ascii ''aa'', body := vals,
         msg_version := [], reportedAddress := Some (mkEndpoint qt_doc (V4 0x01020304) 6881)\<rparr>),
       parsed_error = None, parsed_transactionId = ascii ''aa'', parsed_warnings = []\<rparr>)"
  using parse_encodeResponse_roundtrip [of "ascii ''aa''" "[]" "[]" qt_doc "mkEndpoint qt_doc (V4 0x01020304) 6881" "[]" 0]
  by (simp add: wf_endpoint_def wf_address_def isValid_def mkEndpoint_def)

text \<open>\<open>decodeNodes\<close> gives back exactly the nodes of the family that \<open>encodeNodes\<close> wrote, in order,
  and does not report the list as malformed.\<close>

theorem decodeNodes_roundtrip:
  assumes "\<forall>n \<in> set ns. wf_node Q n"
  shows "decodeNodes Q (encodeNodes Q ns fam) fam =
    \<lparr>dn_nodes = filter (\<lambda>n. family Q (cn_endpoint n) = fam) ns, dn_malformed = False\<rparr>"
  by (rule decodeNodes_encodeNodes [OF assms])

theorem decodeNodes_roundtrip_witness:
  "decodeNodes qt_doc (encodeNodes qt_doc [\<lparr>cn_id = nullId, cn_endpoint = mkEndpoint qt_doc (V4 0x01020304) 6881\<rparr>] IPv4) IPv4
    = \<lparr>dn_nodes = [\<lparr>cn_id = nullId, cn_endpoint = mkEndpoint qt_doc (V4 0x01020304) 6881\<rparr>], dn_malformed = False\<rparr>"
  using decodeNodes_roundtrip [of "[\<lparr>cn_id = nullId, cn_endpoint = mkEndpoint qt_doc (V4 0x01020304) 6881\<rparr>]" qt_doc IPv4]
  by (simp add: wf_node_def wf_endpoint_def wf_address_def wf_id_def nullId_def mkEndpoint_def family_def familyOf_def protocol_simps)

end
