(* ===== verification/Throttling.thy ===== *)
theory Throttling
  imports Endpoint
begin

text \<open>
  \<^verbatim>\<open>dhtcore/include/dhtcore/Support.h\<close>, \<^verbatim>\<open>dhtcore/src/Support.cpp\<close> (second part): the vote on our external
  address, the per-address rate limiter and the budget of new contacts. The \<open>double\<close> balances are
  exact rationals here; rounding of the last bit of a double is not modelled.
\<close>

section \<open>ExternalIpVoter\<close>

definition MaxVoters :: nat where "MaxVoters = 50"
definition MinVotes :: nat where "MinVotes = 3"

record vote =
  v_reported :: host_address
  v_at :: int

record ip_voter =
  m_votes :: "(host_address \<times> vote) list"
  m_consensus :: host_address

definition newVoter :: ip_voter where
  "newVoter = \<lparr>m_votes = [], m_consensus = NullAddress\<rparr>"

definition tallyStep :: "host_address \<times> vote \<Rightarrow> (host_address \<times> nat) list \<Rightarrow> (host_address \<times> nat) list" where
  "tallyStep p t = AList.update (v_reported (snd p)) (Suc (case map_of t (v_reported (snd p)) of Some n \<Rightarrow> n | None \<Rightarrow> 0)) t"

definition tallyVotes :: "(host_address \<times> vote) list \<Rightarrow> (host_address \<times> nat) list" where
  "tallyVotes votes = fold tallyStep votes []"

text \<open>The loop over the tally: winner, its count and the second highest count.\<close>

definition topStep :: "host_address \<times> nat \<Rightarrow> host_address \<times> nat \<times> nat \<Rightarrow> host_address \<times> nat \<times> nat" where
  "topStep p r = (case r of (winner, best, second) \<Rightarrow>
     if snd p > best then (fst p, snd p, best) else if snd p > second then (winner, best, snd p) else (winner, best, second))"

definition topTwo :: "(host_address \<times> nat) list \<Rightarrow> host_address \<times> nat \<times> nat" where
  "topTwo tally = fold topStep tally (NullAddress, 0, 0)"

text \<open>The votes after one more, without the oldest when there are too many.\<close>

definition storeVote :: "host_address \<Rightarrow> host_address \<Rightarrow> int \<Rightarrow> (host_address \<times> vote) list \<Rightarrow> (host_address \<times> vote) list" where
  "storeVote voter reported now votes =
     (let votes' = AList.update voter \<lparr>v_reported = reported, v_at = now\<rparr> votes
      in if length votes' > MaxVoters then remove_nth (min_index (\<lambda>p. v_at (snd p)) votes') votes' else votes')"

definition addVote :: "qt_net \<Rightarrow> host_address \<Rightarrow> host_address \<Rightarrow> int \<Rightarrow> ip_voter \<Rightarrow> bool \<times> ip_voter" where
  "addVote Q rawVoter rawReported now s =
     (let voter = normalizeAddress Q rawVoter; reported = normalizeAddress Q rawReported
      in if voter = NullAddress \<or> reported = NullAddress then (False, s)
         else
           let s' = s\<lparr>m_votes := storeVote voter reported now (m_votes s)\<rparr>
           in case topTwo (tallyVotes (m_votes s')) of (winner, best, second) \<Rightarrow>
                if best < MinVotes \<or> best < 2 * second \<or> winner = m_consensus s then (False, s')
                else (True, s'\<lparr>m_consensus := winner\<rparr>))"

section \<open>RateLimiter\<close>

record rate_bucket =
  tokens :: rat
  bucket_last :: int

record rate_limiter =
  m_rate :: rat
  m_burst :: rat
  m_limits :: "(host_address \<times> rate_bucket) list"

definition allow :: "host_address \<Rightarrow> int \<Rightarrow> rate_limiter \<Rightarrow> bool \<times> rate_limiter" where
  "allow a now s =
     (let b = (case map_of (m_limits s) a of Some b \<Rightarrow> b | None \<Rightarrow> \<lparr>tokens = m_burst s, bucket_last = now\<rparr>);
          t = min (m_burst s) (tokens b + of_int (now - bucket_last b) * m_rate s / 1000)
      in if t < 1 then (False, s\<lparr>m_limits := AList.update a \<lparr>tokens = t, bucket_last = now\<rparr> (m_limits s)\<rparr>)
         else (True, s\<lparr>m_limits := AList.update a \<lparr>tokens = t - 1, bucket_last = now\<rparr> (m_limits s)\<rparr>))"

definition pruneLimiter :: "int \<Rightarrow> rate_limiter \<Rightarrow> rate_limiter" where
  "pruneLimiter now s =
     (let refillMs = \<lfloor>m_burst s / m_rate s * 1000\<rfloor>
      in s\<lparr>m_limits := filter (\<lambda>(a, b). \<not> now - bucket_last b > refillMs) (m_limits s)\<rparr>)"

section \<open>ContactBudget\<close>

definition WindowMs :: int where "WindowMs = 180 * 1000"

record contact_budget =
  m_recent :: "(endpoint \<times> int) list"
  m_contacts :: int
  m_limit :: int
  m_balance :: rat
  m_last :: int

definition newBudget :: contact_budget where
  "newBudget = \<lparr>m_recent = [], m_contacts = 0, m_limit = 0, m_balance = 0, m_last = 0\<rparr>"

definition isLimited :: "contact_budget \<Rightarrow> bool" where
  "isLimited s \<longleftrightarrow> m_limit s > 0"

definition setLimit :: "int \<Rightarrow> int \<Rightarrow> contact_budget \<Rightarrow> contact_budget" where
  "setLimit contactsPerSecond now s =
     (let c = max 0 contactsPerSecond
      in if c = m_limit s then s
         else s\<lparr>m_limit := c, m_balance := (if \<not> isLimited s then of_int c else min (m_balance s) (of_int c)), m_last := now\<rparr>)"

definition refill :: "int \<Rightarrow> contact_budget \<Rightarrow> contact_budget" where
  "refill now s =
     (if now > m_last s
      then s\<lparr>m_balance := min (of_int (m_limit s)) (m_balance s + of_int (now - m_last s) * of_int (m_limit s) / 1000), m_last := now\<rparr>
      else s)"

definition isLive :: "endpoint \<Rightarrow> int \<Rightarrow> contact_budget \<Rightarrow> bool" where
  "isLive to now s = (case map_of (m_recent s) to of Some t \<Rightarrow> now - t < WindowMs | None \<Rightarrow> False)"

definition budgetAllows :: "endpoint \<Rightarrow> int \<Rightarrow> contact_budget \<Rightarrow> bool \<times> contact_budget" where
  "budgetAllows to now s =
     (if \<not> isLimited s \<or> isLive to now s then (True, s)
      else let s' = refill now s in (m_balance s' \<ge> 1, s'))"

definition recordContact :: "endpoint \<Rightarrow> int \<Rightarrow> contact_budget \<Rightarrow> contact_budget" where
  "recordContact to now s =
     (let live = isLive to now s; s1 = s\<lparr>m_recent := AList.update to now (m_recent s)\<rparr>
      in if live then s1
         else let s2 = s1\<lparr>m_contacts := m_contacts s1 + 1\<rparr>
              in if isLimited s2 then let s3 = refill now s2 in s3\<lparr>m_balance := m_balance s3 - 1\<rparr> else s2)"

definition pruneBudget :: "int \<Rightarrow> contact_budget \<Rightarrow> contact_budget" where
  "pruneBudget now s = s\<lparr>m_recent := filter (\<lambda>(e, t). \<not> now - t \<ge> WindowMs) (m_recent s)\<rparr>"

section \<open>Token buckets\<close>

text \<open>How many of a sequence of requests are charged when each one is answered in turn.\<close>

fun charged_by :: "('r \<Rightarrow> 's \<Rightarrow> nat \<times> 's) \<Rightarrow> 'r list \<Rightarrow> 's \<Rightarrow> nat" where
  "charged_by spend [] s = 0"
| "charged_by spend (r # rs) s = fst (spend r s) + charged_by spend rs (snd (spend r s))"

text \<open>What a bucket of tokens promises its client: at most \<open>burst\<close> tokens at any time, growing by at most
  \<open>rate\<close> per millisecond, and one paid for every request that is charged.\<close>

locale token_bucket =
  fixes avail :: "'s \<Rightarrow> int \<Rightarrow> rat"
    and spend :: "'r \<Rightarrow> 's \<Rightarrow> nat \<times> 's"
    and time :: "'r \<Rightarrow> int"
    and valid :: "'s \<Rightarrow> int \<Rightarrow> bool"
    and rate burst :: rat
  assumes rate_nonneg: "valid s t \<Longrightarrow> 0 \<le> rate"
    and valid_later: "valid s t \<Longrightarrow> t \<le> t' \<Longrightarrow> valid s t'"
    and valid_spend: "valid s (time r) \<Longrightarrow> valid (snd (spend r s)) (time r)"
    and avail_nonneg: "valid s t \<Longrightarrow> 0 \<le> avail s t"
    and avail_burst: "valid s t \<Longrightarrow> avail s t \<le> burst"
    and avail_grow: "valid s t \<Longrightarrow> t \<le> t' \<Longrightarrow> avail s t' \<le> avail s t + rate * of_int (t' - t)"
    and pay: "valid s (time r) \<Longrightarrow> avail (snd (spend r s)) (time r) + of_nat (fst (spend r s)) \<le> avail s (time r)"
begin

lemma charged_bound:
  "valid s t0 \<Longrightarrow> sorted (t0 # map time rs @ [t1]) \<Longrightarrow>
   of_nat (charged_by spend rs s) \<le> avail s t0 + rate * of_int (t1 - t0)"
proof (induction rs arbitrary: s t0)
  case Nil
  then show ?case using avail_nonneg [of s t0] rate_nonneg [of s t0] by (simp add: add_nonneg_nonneg)
next
  case (Cons r rs)
  let ?s' = "snd (spend r s)"
  have le: "t0 \<le> time r" "sorted (time r # map time rs @ [t1])" using Cons.prems(2) by auto
  have v: "valid s (time r)" using Cons.prems(1) le(1) by (rule valid_later)
  have "of_nat (charged_by spend (r # rs) s) \<le> of_nat (fst (spend r s)) + (avail ?s' (time r) + rate * of_int (t1 - time r))"
    using Cons.IH [OF valid_spend [OF v] le(2)] by simp
  also have "\<dots> \<le> avail s (time r) + rate * of_int (t1 - time r)" using pay [OF v] by simp
  also have "\<dots> \<le> avail s t0 + rate * of_int (time r - t0) + rate * of_int (t1 - time r)"
    using avail_grow [OF Cons.prems(1) le(1)] by simp
  also have "\<dots> = avail s t0 + rate * of_int (t1 - t0)" by (simp add: algebra_simps)
  finally show ?case .
qed

lemma window_bound:
  assumes "valid s t0" "sorted (t0 # map time rs @ [t1])"
  shows "of_nat (charged_by spend rs s) \<le> burst + rate * of_int (t1 - t0)"
  using charged_bound [OF assms] avail_burst [OF assms(1)] by linarith

end

subsection \<open>The rate limiter is one\<close>

datatype limiter_op = Ask host_address (op_at: int) | PruneOp (op_at: int)

definition limiterStep :: "host_address \<Rightarrow> limiter_op \<Rightarrow> rate_limiter \<Rightarrow> nat \<times> rate_limiter" where
  "limiterStep a l_op s =
     (case l_op of Ask a' now \<Rightarrow> (of_bool (a' = a \<and> fst (allow a' now s)), snd (allow a' now s))
      | PruneOp now \<Rightarrow> (0, pruneLimiter now s))"

definition limiterAvail :: "host_address \<Rightarrow> rate_limiter \<Rightarrow> int \<Rightarrow> rat" where
  "limiterAvail a s t =
     (case map_of (m_limits s) a of None \<Rightarrow> m_burst s
      | Some b \<Rightarrow> min (m_burst s) (tokens b + of_int (t - bucket_last b) * (m_rate s / 1000)))"

definition limiterValid :: "rat \<Rightarrow> rat \<Rightarrow> rate_limiter \<Rightarrow> int \<Rightarrow> bool" where
  "limiterValid R B s t \<longleftrightarrow> 0 < R \<and> 0 \<le> B \<and> m_rate s = R \<and> m_burst s = B \<and> distinct (map fst (m_limits s)) \<and>
     (\<forall>(a, b) \<in> set (m_limits s). 0 \<le> tokens b \<and> bucket_last b \<le> t)"

lemma allow_simps [simp]:
  "m_rate (snd (allow a now s)) = m_rate s" "m_burst (snd (allow a now s)) = m_burst s"
  by (simp_all add: allow_def Let_def)

lemma limiterValid_bucket:
  "limiterValid R B s t \<Longrightarrow> map_of (m_limits s) a = Some b \<Longrightarrow> 0 \<le> tokens b \<and> bucket_last b \<le> t"
  by (auto simp: limiterValid_def dest!: map_of_SomeD)

lemma allow_avail:
  assumes "limiterValid R B s now"
  shows "fst (allow a now s) \<longleftrightarrow> 1 \<le> limiterAvail a s now"
    "m_limits (snd (allow a now s)) = AList.update a
       \<lparr>tokens = limiterAvail a s now - of_bool (1 \<le> limiterAvail a s now), bucket_last = now\<rparr> (m_limits s)"
  by (auto simp: allow_def limiterAvail_def Let_def not_less split: option.splits)

lemma limiterAvail_nonneg:
  assumes "limiterValid R B s t"
  shows "0 \<le> limiterAvail a s t"
  using assms limiterValid_bucket [OF assms, of a]
  by (auto simp: limiterAvail_def limiterValid_def split: option.splits)

lemma limiterValid_allow:
  assumes "limiterValid R B s now"
  shows "limiterValid R B (snd (allow a now s)) now"
  using assms set_update_subset [of a _ "m_limits s"] limiterAvail_nonneg [OF assms, of a]
  unfolding limiterValid_def by (fastforce simp: allow_avail [OF assms] distinct_update)

lemma limiterValid_prune: "limiterValid R B s now \<Longrightarrow> limiterValid R B (pruneLimiter now s) now"
  by (auto simp: limiterValid_def pruneLimiter_def Let_def distinct_map_filter)

text \<open>A bucket that pruning drops is full again, so that dropping it changes no answer.\<close>

lemma prune_avail:
  assumes "limiterValid R B s now" "now \<le> t"
  shows "limiterAvail a (pruneLimiter now s) t = limiterAvail a s t"
proof (cases "map_of (m_limits s) a")
  case None
  with assms show ?thesis by (simp add: limiterAvail_def pruneLimiter_def Let_def map_of_filter_values limiterValid_def)
next
  case (Some b)
  have rb: "0 < m_rate s" "0 \<le> m_burst s" "0 \<le> tokens b" "distinct (map fst (m_limits s))"
    using assms(1) limiterValid_bucket [OF assms(1) Some] by (auto simp: limiterValid_def)
  have full: "m_burst s \<le> tokens b + of_int (t - bucket_last b) * (m_rate s / 1000)"
    if "now - bucket_last b > \<lfloor>m_burst s / m_rate s * 1000\<rfloor>"
  proof -
    have "m_burst s / m_rate s * 1000 < of_int (now - bucket_last b)" using that by (simp add: floor_less_iff)
    also have "\<dots> \<le> of_int (t - bucket_last b)" using assms(2) by simp
    finally have "m_burst s < of_int (t - bucket_last b) * (m_rate s / 1000)"
      using rb(1) by (simp add: field_simps)
    with rb(3) show ?thesis by linarith
  qed
  show ?thesis
    using Some rb(4) full by (auto simp: limiterAvail_def pruneLimiter_def Let_def map_of_filter_values)
qed

lemma limiterAvail_other: "a' \<noteq> a \<Longrightarrow> limiterAvail a (snd (allow a' now s)) t = limiterAvail a s t"
proof -
  assume "a' \<noteq> a"
  then have "map_of (m_limits (snd (allow a' now s))) a = map_of (m_limits s) a"
    by (auto simp: allow_def Let_def update_conv')
  then show ?thesis by (cases "map_of (m_limits s) a") (simp_all add: limiterAvail_def)
qed

lemma min_shift: "0 \<le> c \<Longrightarrow> y' = y + c \<Longrightarrow> min B y' \<le> min B y + c" for c :: rat
  by (simp add: min_def)

lemma limiterAvail_grow:
  assumes "limiterValid R B s t" "t \<le> t'"
  shows "limiterAvail a s t' \<le> limiterAvail a s t + R / 1000 * of_int (t' - t)"
proof (cases "map_of (m_limits s) a")
  case None
  with assms show ?thesis by (simp add: limiterAvail_def limiterValid_def)
next
  case (Some b)
  have "tokens b + of_int (t' - bucket_last b) * (R / 1000) =
      tokens b + of_int (t - bucket_last b) * (R / 1000) + R / 1000 * of_int (t' - t)"
    by (simp add: algebra_simps diff_divide_distrib)
  with Some assms show ?thesis
    by (simp add: limiterAvail_def limiterValid_def min_shift del: of_int_diff)
qed

interpretation limiter: token_bucket "limiterAvail a" "limiterStep a" op_at "limiterValid R B" "R / 1000" B for a R B
proof
  show "0 \<le> R / 1000" if "limiterValid R B s t" for s t using that by (simp add: limiterValid_def)
  show "limiterValid R B s t'" if "limiterValid R B s t" "t \<le> t'" for s t t'
    using that by (fastforce simp: limiterValid_def)
  show "limiterValid R B (snd (limiterStep a r s)) (op_at r)" if "limiterValid R B s (op_at r)" for s r
    using that by (cases r) (simp_all add: limiterStep_def limiterValid_allow limiterValid_prune)
  show "0 \<le> limiterAvail a s t" if "limiterValid R B s t" for s t using that by (rule limiterAvail_nonneg)
  show "limiterAvail a s t \<le> B" if "limiterValid R B s t" for s t
    using that by (auto simp: limiterAvail_def limiterValid_def split: option.splits)
  show "limiterAvail a s t' \<le> limiterAvail a s t + R / 1000 * of_int (t' - t)" if "limiterValid R B s t" "t \<le> t'" for s t t'
    using that by (rule limiterAvail_grow)
  show "limiterAvail a (snd (limiterStep a r s)) (op_at r) + of_nat (fst (limiterStep a r s)) \<le> limiterAvail a s (op_at r)"
    if v: "limiterValid R B s (op_at r)" for s r
  proof (cases r)
    case (Ask a' now)
    show ?thesis
    proof (cases "a' = a")
      case True
      have "limiterAvail a s now \<le> B" using v Ask by (auto simp: limiterAvail_def limiterValid_def split: option.splits)
      with True v Ask show ?thesis
        by (simp add: limiterStep_def allow_avail limiterAvail_def [of a "snd _"] update_conv')
    qed (use Ask in \<open>simp add: limiterStep_def limiterAvail_other\<close>)
  qed (use v in \<open>simp add: limiterStep_def prune_avail\<close>)
qed


subsection \<open>The contact budget is one\<close>

text \<open>The way the senders use the budget: a datagram goes out, and is recorded, only when the budget allows
  it. A request is charged when it makes a contact with an endpoint that was not live.\<close>

datatype budget_op = Contact endpoint (budget_at: int) | PruneBudgetOp (budget_at: int)

definition budgetStep :: "budget_op \<Rightarrow> contact_budget \<Rightarrow> nat \<times> contact_budget" where
  "budgetStep b_op s =
     (case b_op of
        Contact to now \<Rightarrow>
          (let (ok, s') = budgetAllows to now s
           in if ok then (of_bool (\<not> isLive to now s'), recordContact to now s') else (0, s'))
      | PruneBudgetOp now \<Rightarrow> (0, pruneBudget now s))"

definition budgetAvail :: "contact_budget \<Rightarrow> int \<Rightarrow> rat" where
  "budgetAvail s t = min (of_int (m_limit s)) (m_balance s + of_int (t - m_last s) * (of_int (m_limit s) / 1000))"

definition budgetValid :: "int \<Rightarrow> contact_budget \<Rightarrow> int \<Rightarrow> bool" where
  "budgetValid L s t \<longleftrightarrow> 0 < L \<and> m_limit s = L \<and> 0 \<le> m_balance s \<and> m_balance s \<le> of_int L \<and> m_last s \<le> t"

lemma refill_balance:
  assumes "budgetValid L s now"
  shows "m_balance (refill now s) = budgetAvail s now" "m_last (refill now s) = now" "m_limit (refill now s) = m_limit s"
    "m_recent (refill now s) = m_recent s" "m_contacts (refill now s) = m_contacts s"
  using assms by (auto simp: refill_def budgetAvail_def budgetValid_def)

lemma budgetAvail_bounds:
  assumes "budgetValid L s t"
  shows "0 \<le> budgetAvail s t" "budgetAvail s t \<le> of_int L"
  using assms by (auto simp: budgetAvail_def budgetValid_def)

lemma refill_idem: "refill now (s\<lparr>m_recent := r, m_contacts := c, m_last := now\<rparr>) = s\<lparr>m_recent := r, m_contacts := c, m_last := now\<rparr>"
  by (simp add: refill_def)

lemma isLive_cong: "m_recent s = m_recent s' \<Longrightarrow> isLive to now s = isLive to now s'"
  by (simp add: isLive_def)

text \<open>What a contact does to the balance, for a budget with a limit.\<close>

lemma contact_cases:
  assumes v: "budgetValid L s now"
  obtains (live) "budgetStep (Contact to now) s = (0, s\<lparr>m_recent := AList.update to now (m_recent s)\<rparr>)"
  | (refused) "budgetAvail s now < 1" "budgetStep (Contact to now) s = (0, refill now s)"
  | (charged) s' where "1 \<le> budgetAvail s now" "budgetStep (Contact to now) s = (1, s')"
      "m_balance s' = budgetAvail s now - 1" "m_last s' = now" "m_limit s' = m_limit s" "m_contacts s' = m_contacts s + 1"
proof (cases "isLive to now s")
  case True
  then show thesis by (intro live) (simp add: budgetStep_def budgetAllows_def recordContact_def Let_def)
next
  case False
  note r = refill_balance [OF v]
  have limited: "isLimited s" using v by (simp add: isLimited_def budgetValid_def)
  have dead: "\<not> isLive to now (refill now s)" using False isLive_cong [OF r(4)] by simp
  show thesis
  proof (cases "1 \<le> budgetAvail s now")
    case False': False
    show thesis using False' False limited by (intro refused) (auto simp: budgetStep_def budgetAllows_def Let_def r(1))
  next
    case True
    let ?s' = "recordContact to now (refill now s)"
    have "budgetStep (Contact to now) s = (1, ?s')"
      using True False limited dead by (simp add: budgetStep_def budgetAllows_def Let_def r(1))
    moreover have "?s' = (refill now s)\<lparr>m_recent := AList.update to now (m_recent s), m_contacts := m_contacts s + 1,
        m_balance := budgetAvail s now - 1\<rparr>"
      using dead limited r by (simp add: recordContact_def Let_def isLimited_def refill_def [of now "_\<lparr>m_contacts := _\<rparr>"])
    ultimately show thesis using r by (intro charged [OF True, of ?s']) simp_all
  qed
qed

lemma budgetAvail_now: "m_last s = t \<Longrightarrow> m_balance s \<le> of_int (m_limit s) \<Longrightarrow> budgetAvail s t = m_balance s"
  by (simp add: budgetAvail_def)

interpretation budget: token_bucket budgetAvail budgetStep budget_at "budgetValid L" "of_int L / 1000" "of_int L" for L
proof
  show "0 \<le> (of_int L / 1000 :: rat)" if "budgetValid L s t" for s t using that by (simp add: budgetValid_def)
  show "budgetValid L s t'" if "budgetValid L s t" "t \<le> t'" for s t t' using that by (simp add: budgetValid_def)
  show "0 \<le> budgetAvail s t" "budgetAvail s t \<le> of_int L" if "budgetValid L s t" for s t
    using budgetAvail_bounds [OF that] by auto
  show "budgetAvail s t' \<le> budgetAvail s t + of_int L / 1000 * of_int (t' - t)" if "budgetValid L s t" "t \<le> t'" for s t t'
    unfolding budgetAvail_def using that
    by (intro min_shift) (auto simp: budgetValid_def algebra_simps diff_divide_distrib)
  show "budgetValid L (snd (budgetStep r s)) (budget_at r)" if "budgetValid L s (budget_at r)" for s r
  proof (cases r)
    case (Contact to now)
    with that have v: "budgetValid L s now" by simp
    note b = budgetAvail_bounds [OF v] and f = refill_balance [OF v]
    from v show ?thesis unfolding Contact
      by (cases rule: contact_cases [where to = to]) (use v b f in \<open>auto simp: budgetValid_def\<close>)
  qed (use that in \<open>simp add: budgetStep_def pruneBudget_def budgetValid_def\<close>)
  show "budgetAvail (snd (budgetStep r s)) (budget_at r) + of_nat (fst (budgetStep r s)) \<le> budgetAvail s (budget_at r)"
    if "budgetValid L s (budget_at r)" for s r
  proof (cases r)
    case (Contact to now)
    with that have v: "budgetValid L s now" by simp
    note b = budgetAvail_bounds [OF v] and f = refill_balance [OF v]
    have lim: "m_limit s = L" using v by (simp add: budgetValid_def)
    from v show ?thesis
    proof (cases rule: contact_cases [where to = to])
      case live
      then show ?thesis by (simp add: Contact budgetAvail_def)
    next
      case refused
      then show ?thesis using budgetAvail_now [of "refill now s" now] f b lim by (simp add: Contact)
    next
      case (charged s')
      then show ?thesis using budgetAvail_now [of s' now] b lim by (simp add: Contact)
    qed
  qed (simp add: budgetStep_def pruneBudget_def budgetAvail_def)
qed

section \<open>Properties\<close>

text \<open>C37: within any span of time the rate limiter grants an address at most the burst plus the rate times
  the span, whatever other addresses ask and whenever idle entries are pruned.\<close>

theorem rate_limiter_window:
  assumes "limiterValid R B s t0" "sorted (t0 # map op_at ops @ [t1])"
  shows "of_nat (charged_by (limiterStep a) ops s) \<le> B + R / 1000 * of_int (t1 - t0)"
  by (rule limiter.window_bound [OF assms])

theorem rate_limiter_window_witness:
  "of_nat (charged_by (limiterStep (V4 1)) [Ask (V4 1) 0, Ask (V4 2) 0, Ask (V4 1) 10, PruneOp 20]
     \<lparr>m_rate = 2, m_burst = 2, m_limits = []\<rparr>) \<le> 2 + 2 / 1000 * rat_of_int (20 - 0)"
  by (rule rate_limiter_window) (simp_all add: limiterValid_def)

text \<open>Pruning a rate limiter changes no later answer.\<close>

theorem prune_changes_no_answer:
  assumes "limiterValid R B s now" "now \<le> t"
  shows "fst (allow a t (pruneLimiter now s)) = fst (allow a t s)"
proof -
  have "limiterValid R B s t" "limiterValid R B (pruneLimiter now s) t"
    using limiter.valid_later [OF assms] limiter.valid_later [OF limiterValid_prune [OF assms(1)] assms(2)] .
  then show ?thesis by (simp add: allow_avail(1) prune_avail [OF assms])
qed

theorem prune_changes_no_answer_witness:
  "fst (allow (V4 1) 5000 (pruneLimiter 4000 \<lparr>m_rate = 2, m_burst = 2, m_limits = [(V4 1, \<lparr>tokens = 0, bucket_last = 0\<rparr>)]\<rparr>))
    = fst (allow (V4 1) 5000 \<lparr>m_rate = 2, m_burst = 2, m_limits = [(V4 1, \<lparr>tokens = 0, bucket_last = 0\<rparr>)]\<rparr>)"
  by (rule prune_changes_no_answer [of 2 2]) (simp_all add: limiterValid_def)

text \<open>C38: with a limit of \<open>L\<close> contacts per second, the datagrams the budget lets out reach at most \<open>L\<close>
  endpoints that were not live plus \<open>L\<close> for every second that passes.\<close>

theorem contact_budget_window:
  assumes "budgetValid L s t0" "sorted (t0 # map budget_at ops @ [t1])"
  shows "of_nat (charged_by budgetStep ops s) \<le> rat_of_int L + of_int L / 1000 * of_int (t1 - t0)"
  by (rule budget.window_bound [OF assms])

lemma setLimit_valid: "0 < L \<Longrightarrow> m_limit s \<noteq> L \<Longrightarrow> 0 \<le> m_balance s \<Longrightarrow> budgetValid L (setLimit L now s) now"
  by (auto simp: setLimit_def budgetValid_def Let_def)

theorem contact_budget_window_witness:
  "of_nat (charged_by budgetStep [Contact nullEndpoint 0, PruneBudgetOp 500] (setLimit 5 0 newBudget))
    \<le> rat_of_int 5 + of_int 5 / 1000 * of_int (500 - 0)"
  by (rule contact_budget_window [OF setLimit_valid]) (simp_all add: newBudget_def)


section \<open>The vote\<close>

definition votesFor :: "host_address \<Rightarrow> (host_address \<times> vote) list \<Rightarrow> nat" where
  "votesFor a votes = length (filter (\<lambda>(_, v). v_reported v = a) votes)"

lemma tally_count:
  "distinct (map fst t) \<Longrightarrow> distinct (map fst (fold tallyStep votes t)) \<and>
   (case map_of (fold tallyStep votes t) a of Some n \<Rightarrow> n | None \<Rightarrow> 0)
     = (case map_of t a of Some n \<Rightarrow> n | None \<Rightarrow> 0) + votesFor a votes"
proof (induction votes arbitrary: t)
  case (Cons p votes)
  have "distinct (map fst (tallyStep p t))" using Cons.prems by (simp add: tallyStep_def distinct_update)
  from Cons.IH [OF this] show ?case
    by (auto simp: votesFor_def tallyStep_def update_conv' split_beta split: option.splits)
qed (simp add: votesFor_def)

lemma tallyVotes_count: "distinct (map fst (tallyVotes votes))"
  "(a, n) \<in> set (tallyVotes votes) \<Longrightarrow> n = votesFor a votes"
  "a \<notin> fst ` set (tallyVotes votes) \<Longrightarrow> votesFor a votes = 0"
proof -
  note c = tally_count [of "[]" votes, folded tallyVotes_def]
  show d: "distinct (map fst (tallyVotes votes))" using c by simp
  show "n = votesFor a votes" if "(a, n) \<in> set (tallyVotes votes)"
    using c [of a] that d by (auto simp: map_of_eq_Some_iff [OF d] dest: iffD2 [OF map_of_eq_Some_iff [OF d]])
  show "votesFor a votes = 0" if "a \<notin> fst ` set (tallyVotes votes)"
    using c [of a] that by (simp add: map_of_eq_None_iff [THEN iffD2])
qed

text \<open>The loop over the tally keeps the highest count with its address and bounds every other count.\<close>

definition topInv :: "(host_address \<times> nat) set \<Rightarrow> host_address \<times> nat \<times> nat \<Rightarrow> bool" where
  "topInv seen r = (case r of (winner, best, second) \<Rightarrow>
     (0 < best \<longrightarrow> (winner, best) \<in> seen) \<and> (\<forall>(a, n) \<in> seen. n \<le> best \<and> (a \<noteq> winner \<longrightarrow> n \<le> second)) \<and> second \<le> best)"

lemma topStep_inv:
  assumes "topInv seen r" "fst p \<notin> fst ` seen"
  shows "topInv (insert p seen) (topStep p r)"
proof -
  obtain a n where p: "p = (a, n)" by (cases p)
  obtain w t s where r: "r = (w, t, s)" by (cases r)
  show ?thesis using assms by (fastforce simp: p r topInv_def topStep_def)
qed

lemma topTwo_inv:
  "distinct (map fst tally) \<Longrightarrow> topInv seen r \<Longrightarrow> fst ` seen \<inter> fst ` set tally = {} \<Longrightarrow>
   topInv (seen \<union> set tally) (fold topStep tally r)"
proof (induction tally arbitrary: seen r)
  case (Cons p tally)
  have "topInv (insert p seen) (topStep p r)" by (rule topStep_inv [OF Cons.prems(2)]) (use Cons.prems(3) in auto)
  from Cons.IH [OF _ this] Cons.prems(1,3) show ?case by auto
qed simp

definition wf_voter :: "ip_voter \<Rightarrow> bool" where
  "wf_voter s \<longleftrightarrow> distinct (map fst (m_votes s)) \<and> length (m_votes s) \<le> MaxVoters"

lemma storeVote_wf:
  assumes "distinct (map fst votes)" "length votes \<le> MaxVoters"
  shows "distinct (map fst (storeVote v r now votes)) \<and> length (storeVote v r now votes) \<le> MaxVoters"
proof -
  let ?votes = "AList.update v \<lparr>v_reported = r, v_at = now\<rparr> votes"
  let ?k = "min_index (\<lambda>p. v_at (snd p)) ?votes"
  have d: "distinct (map fst ?votes)" using assms by (simp add: distinct_update)
  have len: "length ?votes \<le> Suc MaxVoters" using assms(2) length_update_le [of _ _ votes] by (metis Suc_le_mono le_trans)
  have "?votes \<noteq> []" by (cases votes) auto
  then have "?k < length ?votes" by (rule min_index_bound)
  moreover have "distinct (map fst (remove_nth ?k ?votes))" using distinct_remove_nth [OF d] by (simp add: remove_nth_map)
  ultimately show ?thesis using d len by (auto simp: storeVote_def Let_def)
qed

lemma addVote_cases:
  obtains (ignored) "addVote Q voter reported now s = (False, s)"
  | (kept) v r where "addVote Q voter reported now s = (False, s\<lparr>m_votes := storeVote v r now (m_votes s)\<rparr>)"
  | (changed) v r w best second where "topTwo (tallyVotes (storeVote v r now (m_votes s))) = (w, best, second)"
      "3 \<le> best" "2 * second \<le> best"
      "addVote Q voter reported now s = (True, s\<lparr>m_votes := storeVote v r now (m_votes s), m_consensus := w\<rparr>)"
proof (cases "normalizeAddress Q voter = NullAddress \<or> normalizeAddress Q reported = NullAddress")
  case True
  then show thesis by (intro ignored) (auto simp: addVote_def)
next
  case False
  let ?votes = "storeVote (normalizeAddress Q voter) (normalizeAddress Q reported) now (m_votes s)"
  obtain w best second where t: "topTwo (tallyVotes ?votes) = (w, best, second)" by (cases "topTwo (tallyVotes ?votes)")
  show thesis
  proof (cases "best < MinVotes \<or> best < 2 * second \<or> w = m_consensus s")
    case True
    with False t show thesis by (intro kept) (auto simp: addVote_def)
  next
    case ok: False
    show thesis by (rule changed [OF t]) (use False ok t in \<open>auto simp: addVote_def MinVotes_def\<close>)
  qed
qed

lemma addVote_wf: "wf_voter s \<Longrightarrow> wf_voter (snd (addVote Q voter reported now s))"
  by (cases rule: addVote_cases [of Q voter reported now s]) (auto simp: wf_voter_def storeVote_wf)

text \<open>C39: there is at most one vote per remote address and at most fifty in all, and our external address
  changes only to an address with at least three votes and at least twice the votes of any other.\<close>

theorem external_ip_majority:
  assumes "wf_voter s"
  shows "wf_voter (snd (addVote Q voter reported now s)) \<and>
    (let r = addVote Q voter reported now s; s' = snd r
     in if fst r then 3 \<le> votesFor (m_consensus s') (m_votes s') \<and>
          (\<forall>a. a \<noteq> m_consensus s' \<longrightarrow> 2 * votesFor a (m_votes s') \<le> votesFor (m_consensus s') (m_votes s'))
        else m_consensus s' = m_consensus s)"
proof -
  have "3 \<le> votesFor w votes \<and> (\<forall>a. a \<noteq> w \<longrightarrow> 2 * votesFor a votes \<le> votesFor w votes)"
    if t: "topTwo (tallyVotes votes) = (w, best, sec)" "3 \<le> best" "2 * sec \<le> best" for votes w best sec
  proof -
    have "topInv ({} \<union> set (tallyVotes votes)) (fold topStep (tallyVotes votes) (NullAddress, 0, 0))"
      by (rule topTwo_inv) (simp_all add: tallyVotes_count topInv_def)
    then have inv: "topInv (set (tallyVotes votes)) (w, best, sec)" using t(1) by (simp add: topTwo_def)
    have w: "votesFor w votes = best" using inv t(2) tallyVotes_count(2) [of w best] by (auto simp: topInv_def)
    have "votesFor a votes \<le> sec" if "a \<noteq> w" for a
    proof (cases "a \<in> fst ` set (tallyVotes votes)")
      case True
      then obtain n where n: "(a, n) \<in> set (tallyVotes votes)" by auto
      with inv that have "n \<le> sec" by (auto simp: topInv_def)
      with tallyVotes_count(2) [OF n] show ?thesis by simp
    qed (simp add: tallyVotes_count(3))
    with w t(2,3) show ?thesis by (metis le_trans mult_le_mono2)
  qed
  then show ?thesis using addVote_wf [OF assms, of Q voter reported now]
    by (cases rule: addVote_cases [of Q voter reported now s]) (simp_all add: Let_def)
qed

theorem external_ip_majority_witness: "wf_voter (snd (addVote qt_doc (V4 1) (V4 2) 5 newVoter))"
  using external_ip_majority [of newVoter qt_doc "V4 1" "V4 2" 5] by (simp add: wf_voter_def newVoter_def)

end
