(* ===== verification/RpcManager.thy ===== *)
theory RpcManager
  imports Krpc Throttling
begin

text \<open>
  \<^verbatim>\<open>dhtcore/include/dhtcore/RpcManager.h\<close>, \<^verbatim>\<open>dhtcore/src/RpcManager.cpp\<close>: outstanding transactions, the
  per-host send limit and the queues behind it. Callbacks are tokens of type \<open>'cb\<close>; what a callback
  does to the manager is the argument \<open>react\<close> of the handlers that run callbacks. The time is an
  argument of each handler, and whether the operating system takes a datagram is the argument
  \<open>sendOk\<close>. Three fields record what leaves the manager: the datagrams written, the \<open>onSent\<close> hooks run
  and the reports posted to the event loop.
\<close>

datatype reply_status = ResponseReply | ErrorReply | Timeout | Throttled

record rpc_reply =
  rr_status :: reply_status
  rr_message :: message
  rr_datagram :: bytes
  rr_request :: bytes
  rr_from :: endpoint
  rr_rttMs :: int

definition emptyReply :: rpc_reply where
  "emptyReply = \<lparr>rr_status = Timeout, rr_message = emptyMessage, rr_datagram = [], rr_request = [],
     rr_from = nullEndpoint, rr_rttMs = - 1\<rparr>"

record host_limit =
  hl_ratePerSecond :: rat
  hl_burst :: rat
  hl_maxQueued :: int

definition defaultHostLimit :: host_limit where
  "defaultHostLimit = \<lparr>hl_ratePerSecond = 2, hl_burst = 2, hl_maxQueued = 64\<rparr>"

definition DefaultTimeoutMs :: int where "DefaultTimeoutMs = 3000"
definition MaxQueuedTotal :: int where "MaxQueuedTotal = 20000"
definition DefaultMaxPending :: int where "DefaultMaxPending = 60000"
definition PruneIntervalMs :: int where "PruneIntervalMs = 5000"

record 'cb queued =
  q_to :: endpoint
  q_method :: bytes
  q_arguments :: bdict
  q_version :: bytes
  q_callback :: "'cb option"
  q_timeoutMs :: int
  q_onSent :: "'cb option"

record 'cb pending =
  p_to :: endpoint
  p_request :: bytes
  p_sentAt :: int
  p_deadline :: int
  p_callback :: "'cb option"

record 'cb rpc_manager =
  m_pending :: "(bytes \<times> 'cb pending) list"
  m_queues :: "(host_address \<times> 'cb queued list) list"
  m_order :: "host_address list"
  m_budget :: "contact_budget option"
  m_budgetExhausted :: bool
  m_hostLimit :: host_limit
  m_limiter :: rate_limiter
  m_drainActive :: bool
  m_lastPrune :: int
  m_queuedTotal :: int
  m_delayed :: int
  m_refused :: int
  m_sendFailures :: int
  m_maxPending :: int
  m_nextId :: "16 word"
  m_readOnly :: bool
  out_wire :: "(bytes \<times> endpoint) list"
  out_hooks :: "'cb list"
  out_reports :: "('cb \<times> rpc_reply) list"

definition limiterFor :: "host_limit \<Rightarrow> rate_limiter" where
  "limiterFor l = \<lparr>m_rate = hl_ratePerSecond l, m_burst = hl_burst l, m_limits = []\<rparr>"

definition newRpcManager :: "16 word \<Rightarrow> 'cb rpc_manager" where
  "newRpcManager firstId = \<lparr>m_pending = [], m_queues = [], m_order = [], m_budget = None, m_budgetExhausted = False,
     m_hostLimit = defaultHostLimit, m_limiter = limiterFor defaultHostLimit, m_drainActive = False, m_lastPrune = 0,
     m_queuedTotal = 0, m_delayed = 0, m_refused = 0, m_sendFailures = 0, m_maxPending = DefaultMaxPending,
     m_nextId = firstId, m_readOnly = False, out_wire = [], out_hooks = [], out_reports = []\<rparr>"

definition setReadOnly :: "bool \<Rightarrow> 'cb rpc_manager \<Rightarrow> 'cb rpc_manager" where
  "setReadOnly ro s = s\<lparr>m_readOnly := ro\<rparr>"

definition setHostLimit :: "host_limit \<Rightarrow> 'cb rpc_manager \<Rightarrow> 'cb rpc_manager" where
  "setHostLimit l s = s\<lparr>m_hostLimit := l, m_limiter := limiterFor l\<rparr>"

definition setBudget :: "contact_budget option \<Rightarrow> 'cb rpc_manager \<Rightarrow> 'cb rpc_manager" where
  "setBudget b s = s\<lparr>m_budget := b\<rparr>"

definition setMaxPending :: "int \<Rightarrow> 'cb rpc_manager \<Rightarrow> 'cb rpc_manager" where
  "setMaxPending n s = s\<lparr>m_maxPending := max 1 (min n 65536)\<rparr>"

text \<open>The loop of \<open>nextTransactionId\<close>. It looks at each of the 65536 ids at most once before it repeats
  itself; \<open>None\<close> stands for a loop that never ends, which needs all of them to be pending.\<close>

fun nextIdLoop :: "nat \<Rightarrow> bytes set \<Rightarrow> 16 word \<Rightarrow> (bytes \<times> 16 word) option" where
  "nextIdLoop 0 used n = None"
| "nextIdLoop (Suc fuel) used n =
     (if be16 n \<in> used then nextIdLoop fuel used (n + 1) else Some (be16 n, n + 1))"

definition nextTransactionId :: "'cb rpc_manager \<Rightarrow> (bytes \<times> 'cb rpc_manager) option" where
  "nextTransactionId s =
     map_option (\<lambda>(tid, n). (tid, s\<lparr>m_nextId := n\<rparr>)) (nextIdLoop 65536 (set (map fst (m_pending s))) (m_nextId s))"

definition canSendNow :: "'cb rpc_manager \<Rightarrow> bool" where
  "canSendNow s \<longleftrightarrow> int (length (m_pending s)) < m_maxPending s"

definition affordable :: "endpoint \<Rightarrow> int \<Rightarrow> 'cb rpc_manager \<Rightarrow> bool \<times> 'cb rpc_manager" where
  "affordable to now s =
     (case m_budget s of
        None \<Rightarrow> (True, s)
      | Some b \<Rightarrow> let (ok, b') = budgetAllows to now b in (ok, s\<lparr>m_budget := Some b'\<rparr>))"

definition limiterAllows :: "host_address \<Rightarrow> int \<Rightarrow> 'cb rpc_manager \<Rightarrow> bool \<times> 'cb rpc_manager" where
  "limiterAllows a now s = (let (ok, l) = allow a now (m_limiter s) in (ok, s\<lparr>m_limiter := l\<rparr>))"

definition reportNotSent :: "'cb option \<Rightarrow> endpoint \<Rightarrow> 'cb rpc_manager \<Rightarrow> 'cb rpc_manager" where
  "reportNotSent callback to s =
     (case callback of
        None \<Rightarrow> s
      | Some cb \<Rightarrow> s\<lparr>out_reports := out_reports s @ [(cb, emptyReply\<lparr>rr_status := Throttled, rr_from := to\<rparr>)]\<rparr>)"

definition refuse :: "'cb queued \<Rightarrow> 'cb rpc_manager \<Rightarrow> 'cb rpc_manager" where
  "refuse q s = reportNotSent (q_callback q) (q_to q) (s\<lparr>m_refused := m_refused s + 1\<rparr>)"

definition send :: "(bytes \<Rightarrow> endpoint \<Rightarrow> bool) \<Rightarrow> int \<Rightarrow> 'cb queued \<Rightarrow> 'cb rpc_manager \<Rightarrow> 'cb rpc_manager" where
  "send sendOk now q s =
     (case nextTransactionId s of
        None \<Rightarrow> s
      | Some (tid, s1) \<Rightarrow>
          let datagram = encodeQuery tid (q_method q) (q_arguments q) (q_version q) (m_readOnly s1);
              s2 = s1\<lparr>m_pending := AList.update tid \<lparr>p_to = q_to q, p_request = datagram, p_sentAt = now,
                     p_deadline = now + q_timeoutMs q, p_callback = q_callback q\<rparr> (m_pending s1)\<rparr>
          in if sendOk datagram (q_to q)
             then s2\<lparr>m_budget := map_option (recordContact (q_to q) now) (m_budget s2),
                     out_hooks := out_hooks s2 @ (case q_onSent q of None \<Rightarrow> [] | Some h \<Rightarrow> [h]),
                     out_wire := out_wire s2 @ [(datagram, q_to q)]\<rparr>
             else reportNotSent (q_callback q) (q_to q)
                    (s2\<lparr>m_sendFailures := m_sendFailures s2 + 1, m_pending := AList.delete tid (m_pending s2)\<rparr>))"

text \<open>Whether the query may go out at once: the tests of \<open>query\<close> in their order, each with its effect.\<close>

definition mayGoNow :: "endpoint \<Rightarrow> int \<Rightarrow> 'cb rpc_manager \<Rightarrow> bool \<times> 'cb rpc_manager" where
  "mayGoNow to now s =
     (if map_of (m_queues s) (address to) \<noteq> None \<or> m_budgetExhausted s \<or> \<not> canSendNow s then (False, s)
      else let (ok, s1) = affordable to now s
           in if \<not> ok then (False, s1) else limiterAllows (address to) now s1)"

definition query :: "(bytes \<Rightarrow> endpoint \<Rightarrow> bool) \<Rightarrow> int \<Rightarrow> 'cb queued \<Rightarrow> 'cb rpc_manager \<Rightarrow> 'cb rpc_manager" where
  "query sendOk now q s =
     (let host = address (q_to q);
          (go, s1) = mayGoNow (q_to q) now s;
          enqueue = (\<lambda>s'. s'\<lparr>m_queues := AList.update host ((case map_of (m_queues s') host of None \<Rightarrow> [] | Some l \<Rightarrow> l) @ [q]) (m_queues s'),
             m_queuedTotal := m_queuedTotal s' + 1, m_delayed := m_delayed s' + 1, m_drainActive := True\<rparr>)
      in if go then send sendOk now q s1
         else case map_of (m_queues s1) host of
                None \<Rightarrow> if m_queuedTotal s1 \<ge> MaxQueuedTotal then refuse q s1
                        else enqueue (s1\<lparr>m_order := m_order s1 @ [host]\<rparr>)
              | Some l \<Rightarrow> if int (length l) \<ge> hl_maxQueued (m_hostLimit s1) \<or> m_queuedTotal s1 \<ge> MaxQueuedTotal then refuse q s1
                        else enqueue s1)"

definition queuedFor :: "host_address \<Rightarrow> 'cb rpc_manager \<Rightarrow> nat" where
  "queuedFor a s = (case map_of (m_queues s) a of None \<Rightarrow> 0 | Some l \<Rightarrow> length l)"

text \<open>The turn of one host in \<open>drain\<close>: whether it waits on the contact allowance, and the new state.\<close>

definition drainHost :: "(bytes \<Rightarrow> endpoint \<Rightarrow> bool) \<Rightarrow> int \<Rightarrow> host_address \<Rightarrow> 'cb queued list \<Rightarrow> 'cb rpc_manager \<Rightarrow> bool \<times> 'cb rpc_manager" where
  "drainHost sendOk now host l s =
     (case l of
        [] \<Rightarrow> (False, s)
      | q # rest \<Rightarrow>
          let (ok, s1) = affordable (q_to q) now s
          in if \<not> ok then (True, s1)
             else let (go, s2) = limiterAllows host now s1
                  in if go then (False, send sendOk now q (s2\<lparr>m_queues := AList.update host rest (m_queues s2),
                                   m_queuedTotal := m_queuedTotal s2 - 1\<rparr>))
                     else (False, s2))"

definition requeueHost :: "host_address \<Rightarrow> 'cb rpc_manager \<Rightarrow> 'cb rpc_manager" where
  "requeueHost host s =
     (if map_of (m_queues s) host = Some [] then s\<lparr>m_queues := AList.delete host (m_queues s)\<rparr>
      else s\<lparr>m_order := m_order s @ [host]\<rparr>)"

fun drainLoop :: "(bytes \<Rightarrow> endpoint \<Rightarrow> bool) \<Rightarrow> int \<Rightarrow> nat \<Rightarrow> bool \<Rightarrow> 'cb rpc_manager \<Rightarrow> bool \<times> 'cb rpc_manager" where
  "drainLoop sendOk now 0 exhausted s = (exhausted, s)"
| "drainLoop sendOk now (Suc n) exhausted s =
     (case m_order s of
        [] \<Rightarrow> (exhausted, s)
      | host # order \<Rightarrow>
          if \<not> canSendNow s then (True, s)
          else let s1 = s\<lparr>m_order := order\<rparr>
               in case map_of (m_queues s1) host of
                    None \<Rightarrow> drainLoop sendOk now n exhausted s1
                  | Some l \<Rightarrow>
                      let (waits, s2) = drainHost sendOk now host l s1
                      in drainLoop sendOk now n (exhausted \<or> waits) (requeueHost host s2))"

definition drain :: "(bytes \<Rightarrow> endpoint \<Rightarrow> bool) \<Rightarrow> int \<Rightarrow> 'cb rpc_manager \<Rightarrow> 'cb rpc_manager" where
  "drain sendOk now s =
     (let (exhausted, s1) = drainLoop sendOk now (length (m_order s)) False s
      in if m_queues s1 = [] then s1\<lparr>m_budgetExhausted := False, m_drainActive := False\<rparr>
         else s1\<lparr>m_budgetExhausted := exhausted\<rparr>)"

definition handleReply :: "('cb \<Rightarrow> rpc_reply \<Rightarrow> 'cb rpc_manager \<Rightarrow> 'cb rpc_manager) \<Rightarrow> int \<Rightarrow> message \<Rightarrow> bytes \<Rightarrow> endpoint
    \<Rightarrow> 'cb rpc_manager \<Rightarrow> bool \<times> 'cb rpc_manager" where
  "handleReply react now msg datagram from s =
     (case map_of (m_pending s) (transactionId msg) of
        None \<Rightarrow> (False, s)
      | Some p \<Rightarrow>
          if p_to p \<noteq> from then (False, s)
          else let s1 = s\<lparr>m_pending := AList.delete (transactionId msg) (m_pending s)\<rparr>;
                   reply = \<lparr>rr_status = (if msg_type msg = ErrorMessage then ErrorReply else ResponseReply),
                     rr_message = msg, rr_datagram = datagram, rr_request = p_request p, rr_from = from,
                     rr_rttMs = now - p_sentAt p\<rparr>
               in (True, case p_callback p of None \<Rightarrow> s1 | Some cb \<Rightarrow> react cb reply s1))"

definition expireOne :: "('cb \<Rightarrow> rpc_reply \<Rightarrow> 'cb rpc_manager \<Rightarrow> 'cb rpc_manager) \<Rightarrow> bytes \<Rightarrow> 'cb rpc_manager \<Rightarrow> 'cb rpc_manager" where
  "expireOne react tid s =
     (case map_of (m_pending s) tid of
        None \<Rightarrow> s
      | Some p \<Rightarrow>
          let s1 = s\<lparr>m_pending := AList.delete tid (m_pending s)\<rparr>;
              reply = emptyReply\<lparr>rr_status := Timeout, rr_request := p_request p, rr_from := p_to p\<rparr>
          in case p_callback p of None \<Rightarrow> s1 | Some cb \<Rightarrow> react cb reply s1)"

definition pruneIfDue :: "int \<Rightarrow> 'cb rpc_manager \<Rightarrow> 'cb rpc_manager" where
  "pruneIfDue now s =
     (if now - m_lastPrune s \<ge> PruneIntervalMs
      then s\<lparr>m_limiter := pruneLimiter now (m_limiter s), m_lastPrune := now\<rparr> else s)"

definition expiredIds :: "int \<Rightarrow> 'cb rpc_manager \<Rightarrow> bytes list" where
  "expiredIds now s = map fst (filter (\<lambda>(tid, p). p_deadline p \<le> now) (m_pending s))"

definition expire :: "('cb \<Rightarrow> rpc_reply \<Rightarrow> 'cb rpc_manager \<Rightarrow> 'cb rpc_manager) \<Rightarrow> int \<Rightarrow> 'cb rpc_manager \<Rightarrow> 'cb rpc_manager" where
  "expire react now s = (let s1 = pruneIfDue now s in fold (expireOne react) (expiredIds now s1) s1)"

definition cancelAll :: "'cb rpc_manager \<Rightarrow> 'cb rpc_manager" where
  "cancelAll s = s\<lparr>m_pending := [], m_queues := [], m_order := [], m_queuedTotal := 0, m_budgetExhausted := False,
     m_drainActive := False\<rparr>"


section \<open>Transaction ids\<close>

lemma nextIdLoop_Some: "nextIdLoop fuel used n = Some (tid, n') \<Longrightarrow> tid \<notin> used \<and> length tid = 2"
  by (induction fuel arbitrary: n) (auto split: if_splits)

lemma nextIdLoop_None: "nextIdLoop fuel used n = None \<Longrightarrow> i < fuel \<Longrightarrow> be16 (n + of_nat i) \<in> used"
proof (induction fuel arbitrary: n i)
  case (Suc fuel)
  show ?case
  proof (cases i)
    case 0
    with Suc.prems show ?thesis by (simp split: if_splits)
  next
    case (Suc j)
    with Suc.prems have "nextIdLoop fuel used (n + 1) = None" "j < fuel" by (auto split: if_splits)
    from Suc.IH [OF this] show ?thesis by (simp add: Suc add.assoc)
  qed
qed simp

lemma be16_inject: "be16 v = be16 w \<longleftrightarrow> v = w"
  by (metis from16_be16)

lemma of_nat_inj_16: "inj_on (of_nat :: nat \<Rightarrow> 16 word) {..<65536}"
proof (rule inj_onI)
  fix i j :: nat
  assume ij: "i \<in> {..<65536}" "j \<in> {..<65536}" "(of_nat i :: 16 word) = of_nat j"
  have "i mod 2 ^ LENGTH(16) = j mod 2 ^ LENGTH(16)"
    using arg_cong [OF ij(3), of unat] unfolding unat_of_nat .
  with ij(1,2) show "i = j" by simp
qed

lemma nextTransactionId_total:
  assumes "length (m_pending s) < 65536"
  obtains tid s' where "nextTransactionId s = Some (tid, s')" "tid \<notin> fst ` set (m_pending s)" "length tid = 2"
    "\<exists>n. s' = s\<lparr>m_nextId := n\<rparr>"
proof (cases "nextIdLoop 65536 (set (map fst (m_pending s))) (m_nextId s)")
  case None
  let ?f = "\<lambda>i. be16 (m_nextId s + of_nat i)"
  have "?f ` {..<65536} \<subseteq> set (map fst (m_pending s))" using nextIdLoop_None [OF None] by blast
  moreover have "inj_on ?f {..<65536}"
    using of_nat_inj_16 by (auto simp: inj_on_def be16_inject)
  ultimately have "(65536 :: nat) \<le> card (set (map fst (m_pending s)))"
    using card_inj_on_le [of ?f "{..<65536}" "set (map fst (m_pending s))"] by simp
  with assms card_length [of "map fst (m_pending s)"] show thesis by simp
next
  case (Some r)
  obtain tid n where r: "r = (tid, n)" by (cases r)
  show thesis
    by (rule that [of tid "s\<lparr>m_nextId := n\<rparr>"])
      (use Some r nextIdLoop_Some [of 65536 _ "m_nextId s" tid n] in \<open>auto simp: nextTransactionId_def\<close>)
qed

section \<open>Invariant\<close>

definition wf_pendings :: "'cb rpc_manager \<Rightarrow> bool" where
  "wf_pendings s \<longleftrightarrow> distinct (map fst (m_pending s)) \<and> (\<forall>(tid, p) \<in> set (m_pending s). length tid = 2) \<and>
     length (m_pending s) \<le> 65536 \<and> 1 \<le> m_maxPending s \<and> m_maxPending s \<le> 65536"

definition wf_queues :: "'cb rpc_manager \<Rightarrow> bool" where
  "wf_queues s \<longleftrightarrow> distinct (map fst (m_queues s)) \<and> distinct (m_order s) \<and> set (m_order s) = fst ` set (m_queues s) \<and>
     (\<forall>(h, l) \<in> set (m_queues s). l \<noteq> [] \<and> (\<forall>q \<in> set l. address (q_to q) = h)) \<and>
     m_queuedTotal s = alist_total (\<lambda>l. int (length l)) (m_queues s) \<and> m_queuedTotal s \<le> MaxQueuedTotal"

definition wf_rpc :: "'cb rpc_manager \<Rightarrow> bool" where
  "wf_rpc s \<longleftrightarrow> wf_pendings s \<and> wf_queues s"

lemma wf_newRpcManager: "wf_rpc (newRpcManager firstId)"
  by (simp add: wf_rpc_def wf_pendings_def wf_queues_def newRpcManager_def DefaultMaxPending_def MaxQueuedTotal_def)

text \<open>Operations that leave one half of the state alone.\<close>

definition sameQueues :: "'cb rpc_manager \<Rightarrow> 'cb rpc_manager \<Rightarrow> bool" where
  "sameQueues s s' \<longleftrightarrow> m_queues s' = m_queues s \<and> m_order s' = m_order s \<and> m_queuedTotal s' = m_queuedTotal s"

definition samePending :: "'cb rpc_manager \<Rightarrow> 'cb rpc_manager \<Rightarrow> bool" where
  "samePending s s' \<longleftrightarrow> m_pending s' = m_pending s \<and> m_maxPending s' = m_maxPending s"

lemma sameQueues_wf: "sameQueues s s' \<Longrightarrow> wf_queues s' = wf_queues s"
  by (simp add: sameQueues_def wf_queues_def)

lemma samePending_wf: "samePending s s' \<Longrightarrow> wf_pendings s' = wf_pendings s"
  by (simp add: samePending_def wf_pendings_def)

lemma wf_rpc_same: "sameQueues s s' \<Longrightarrow> samePending s s' \<Longrightarrow> wf_rpc s \<Longrightarrow> wf_rpc s'"
  by (simp add: wf_rpc_def sameQueues_wf samePending_wf)

lemma reportNotSent_same [simp]:
  "sameQueues s (reportNotSent cb to s)" "samePending s (reportNotSent cb to s)"
  "m_limiter (reportNotSent cb to s) = m_limiter s" "out_wire (reportNotSent cb to s) = out_wire s"
  "m_pending (reportNotSent cb to s) = m_pending s" "m_maxPending (reportNotSent cb to s) = m_maxPending s"
  "m_queues (reportNotSent cb to s) = m_queues s" "m_order (reportNotSent cb to s) = m_order s"
  "m_queuedTotal (reportNotSent cb to s) = m_queuedTotal s"
  by (simp_all add: reportNotSent_def sameQueues_def samePending_def split: option.splits)

lemma refuse_same [simp]:
  "sameQueues s (refuse q s)" "samePending s (refuse q s)" "m_limiter (refuse q s) = m_limiter s" "out_wire (refuse q s) = out_wire s"
  by (simp_all add: refuse_def sameQueues_def samePending_def)

lemma affordable_same:
  "affordable to now s = (ok, s') \<Longrightarrow> sameQueues s s' \<and> samePending s s' \<and> m_limiter s' = m_limiter s \<and> out_wire s' = out_wire s
     \<and> m_hostLimit s' = m_hostLimit s"
  by (auto simp: affordable_def sameQueues_def samePending_def split: option.splits prod.splits)

lemma limiterAllows_same:
  "limiterAllows a now s = (ok, s') \<Longrightarrow> sameQueues s s' \<and> samePending s s' \<and> out_wire s' = out_wire s \<and>
     m_limiter s' = snd (allow a now (m_limiter s)) \<and> ok = fst (allow a now (m_limiter s))"
  by (auto simp: limiterAllows_def sameQueues_def samePending_def split: prod.splits)

lemma send_queues: "sameQueues s (send sendOk now q s)"
  by (auto simp: send_def sameQueues_def nextTransactionId_def Let_def split: option.splits prod.splits)

lemma send_limiter: "m_limiter (send sendOk now q s) = m_limiter s"
  by (auto simp: send_def nextTransactionId_def Let_def split: option.splits prod.splits)

lemma send_pending:
  assumes wf: "wf_pendings s" and can: "canSendNow s"
  shows "wf_pendings (send sendOk now q s)"
proof -
  have lt: "length (m_pending s) < 65536" using assms by (simp add: wf_pendings_def canSendNow_def)
  obtain tid s1 where tid1: "nextTransactionId s = Some (tid, s1)" "tid \<notin> fst ` set (m_pending s)" "length tid = 2"
    "\<exists>n. s1 = s\<lparr>m_nextId := n\<rparr>" by (rule nextTransactionId_total [OF lt])
  then obtain n where "s1 = s\<lparr>m_nextId := n\<rparr>" by blast
  note tid = tid1(1-3) this
  have none: "map_of (m_pending s) tid = None" using tid(2) by (simp add: map_of_eq_None_iff)
  have upd: "AList.update tid p (m_pending s) = m_pending s @ [(tid, p)]" for p by (rule map_fst_update_new [OF none])
  have "AList.delete tid (m_pending s @ [(tid, p)]) = m_pending s" for p
    by (rule delete_append_new [OF tid(2)])
  with wf lt tid(2,3) show ?thesis
    by (auto simp: send_def tid(1,4) Let_def upd wf_pendings_def)
qed

lemma send_wf: "wf_rpc s \<Longrightarrow> canSendNow s \<Longrightarrow> wf_rpc (send sendOk now q s)"
  by (simp add: wf_rpc_def send_pending sameQueues_wf [OF send_queues])

lemma mayGoNow_same:
  assumes "mayGoNow to now s = (go, s')"
  shows "sameQueues s s' \<and> samePending s s' \<and> out_wire s' = out_wire s \<and>
    (go \<longrightarrow> canSendNow s \<and> map_of (m_queues s) (address to) = None \<and> fst (allow (address to) now (m_limiter s)) \<and>
       m_limiter s' = snd (allow (address to) now (m_limiter s))) \<and>
    (m_limiter s' = m_limiter s \<or> m_limiter s' = snd (allow (address to) now (m_limiter s)))"
proof (cases "map_of (m_queues s) (address to) \<noteq> None \<or> m_budgetExhausted s \<or> \<not> canSendNow s")
  case True
  with assms show ?thesis by (auto simp: mayGoNow_def sameQueues_def samePending_def)
next
  case False
  obtain ok s1 where a: "affordable to now s = (ok, s1)" by (cases "affordable to now s")
  obtain ok2 s2 where l: "limiterAllows (address to) now s1 = (ok2, s2)" by (cases "limiterAllows (address to) now s1")
  note same = affordable_same [OF a] limiterAllows_same [OF l]
  from False a l assms show ?thesis
    by (cases ok) (use same in \<open>auto simp: mayGoNow_def sameQueues_def samePending_def\<close>)
qed

lemma canSendNow_same: "samePending s s' \<Longrightarrow> canSendNow s' = canSendNow s"
  by (simp add: samePending_def canSendNow_def)

text \<open>Adding a query to the end of its host's queue.\<close>

lemma enqueue_wf:
  assumes wf: "wf_queues s" and room: "m_queuedTotal s < MaxQueuedTotal" and host: "address (q_to q) = h"
    and s': "m_queues s' = AList.update h ((case map_of (m_queues s) h of None \<Rightarrow> [] | Some l \<Rightarrow> l) @ [q]) (m_queues s)"
    "m_order s' = (if map_of (m_queues s) h = None then m_order s @ [h] else m_order s)" "m_queuedTotal s' = m_queuedTotal s + 1"
  shows "wf_queues s'"
proof (cases "map_of (m_queues s) h")
  case None
  then have "h \<notin> fst ` set (m_queues s)" by (simp add: map_of_eq_None_iff)
  with None wf room host show ?thesis
    by (auto simp: wf_queues_def s' map_fst_update_new)
next
  case (Some l)
  have d: "distinct (map fst (m_queues s))" using wf by (simp add: wf_queues_def)
  have l: "\<forall>q \<in> set l. address (q_to q) = h" using wf map_of_SomeD [OF Some] by (auto simp: wf_queues_def)
  have keys: "fst ` set (AList.update h x (m_queues s)) = fst ` set (m_queues s)" for x
    by (rule keys_update_old [OF Some])
  have "m \<noteq> [] \<and> (\<forall>q \<in> set m. address (q_to q) = k)" if "(k, m) \<in> set (AList.update h (l @ [q]) (m_queues s))" for k m
    using update_distinct_member [OF d that] l host wf by (auto simp: wf_queues_def)
  then show ?thesis
    using Some wf room keys alist_total_update [OF Some d, of "\<lambda>l. int (length l)" "l @ [q]"]
    by (auto simp: wf_queues_def s' distinct_update)
qed

lemma query_wf:
  assumes "wf_rpc s"
  shows "wf_rpc (query sendOk now q s)"
proof -
  obtain go s1 where g: "mayGoNow (q_to q) now s = (go, s1)" by (cases "mayGoNow (q_to q) now s")
  note same = mayGoNow_same [OF g]
  have wf1: "wf_pendings s1" "wf_queues s1"
    using assms same sameQueues_wf [of s s1] samePending_wf [of s s1] by (auto simp: wf_rpc_def)
  show ?thesis
  proof (cases go)
    case True
    then have can: "canSendNow s1" using same canSendNow_same [of s s1] by simp
    from True show ?thesis by (simp add: query_def g Let_def send_wf [OF _ can] wf_rpc_def [of s1] wf1)
  next
    case False
    have refused: "wf_rpc (refuse q s1)"
      using wf1 sameQueues_wf [of s1 "refuse q s1"] samePending_wf [of s1 "refuse q s1"] by (simp add: wf_rpc_def)
    show ?thesis
    proof (cases "map_of (m_queues s1) (address (q_to q))")
      case None
      have "m_queuedTotal s1 < MaxQueuedTotal \<Longrightarrow> wf_rpc (query sendOk now q s)"
        unfolding wf_rpc_def
      proof
        assume lt: "m_queuedTotal s1 < MaxQueuedTotal"
        show "wf_queues (query sendOk now q s)"
          by (rule enqueue_wf [OF wf1(2) lt refl, where q = q]) (use False None lt in \<open>simp_all add: query_def g Let_def\<close>)
        show "wf_pendings (query sendOk now q s)"
          using wf1(1) False None lt by (simp add: query_def g Let_def wf_pendings_def)
      qed
      moreover have "\<not> m_queuedTotal s1 < MaxQueuedTotal \<Longrightarrow> query sendOk now q s = refuse q s1"
        using False None by (simp add: query_def g Let_def)
      ultimately show ?thesis using refused by metis
    next
      case (Some l)
      let ?full = "int (length l) \<ge> hl_maxQueued (m_hostLimit s1) \<or> m_queuedTotal s1 \<ge> MaxQueuedTotal"
      have "\<not> ?full \<Longrightarrow> wf_rpc (query sendOk now q s)"
        unfolding wf_rpc_def
      proof
        assume lt: "\<not> ?full"
        then have "m_queuedTotal s1 < MaxQueuedTotal" by simp
        then show "wf_queues (query sendOk now q s)"
          by (rule enqueue_wf [OF wf1(2) _ refl, where q = q]) (use False Some lt in \<open>simp_all add: query_def g Let_def\<close>)
        show "wf_pendings (query sendOk now q s)"
          using wf1(1) False Some lt by (simp add: query_def g Let_def wf_pendings_def)
      qed
      moreover have "?full \<Longrightarrow> query sendOk now q s = refuse q s1"
        using False Some by (simp add: query_def g Let_def)
      ultimately show ?thesis using refused by metis
    qed
  qed
qed

text \<open>A host's turn in \<open>drain\<close>: nothing is sent, or the head of its queue goes out with a token of its bucket.\<close>

lemma drainHost_cases:
  assumes "drainHost sendOk now host (q # rest) s = (waits, s2)"
  obtains (kept) "sameQueues s s2" "samePending s s2" "out_wire s2 = out_wire s"
      "m_limiter s2 = m_limiter s \<or> m_limiter s2 = snd (allow host now (m_limiter s))"
  | (sent) s1 where "s2 = send sendOk now q s1" "m_queues s1 = AList.update host rest (m_queues s)"
      "m_order s1 = m_order s" "m_queuedTotal s1 = m_queuedTotal s - 1" "samePending s s1" "out_wire s1 = out_wire s"
      "fst (allow host now (m_limiter s))" "m_limiter s1 = snd (allow host now (m_limiter s))"
proof -
  obtain ok s1 where a: "affordable (q_to q) now s = (ok, s1)" by (cases "affordable (q_to q) now s")
  obtain go s2' where l: "limiterAllows host now s1 = (go, s2')" by (cases "limiterAllows host now s1")
  note same = affordable_same [OF a] limiterAllows_same [OF l]
  show thesis
  proof (cases "ok \<and> go")
    case True
    with assms a l same show thesis
      by (intro sent [of "s2'\<lparr>m_queues := AList.update host rest (m_queues s2'), m_queuedTotal := m_queuedTotal s2' - 1\<rparr>"])
        (auto simp: drainHost_def sameQueues_def samePending_def)
  next
    case False
    with assms a l same show thesis
      by (intro kept) (auto simp: drainHost_def sameQueues_def samePending_def split: if_splits)
  qed
qed

lemma requeue_kept_wf:
  assumes "wf_queues s" "m_order s = host # order" "sameQueues (s\<lparr>m_order := order\<rparr>) s2" "map_of (m_queues s) host = Some (q # rest)"
  shows "wf_queues (requeueHost host s2)"
  using assms by (auto simp: requeueHost_def wf_queues_def sameQueues_def)

lemma requeue_sent_wf:
  assumes wf: "wf_queues s" and ord: "m_order s = host # order" and l: "map_of (m_queues s) host = Some (q # rest)"
    and s1: "m_queues s1 = AList.update host rest (m_queues s)" "m_order s1 = order" "m_queuedTotal s1 = m_queuedTotal s - 1"
  shows "wf_queues (requeueHost host s1)"
proof -
  have d: "distinct (map fst (m_queues s))" using wf by (simp add: wf_queues_def)
  have du: "distinct (map fst (AList.update host rest (m_queues s)))" using d by (rule distinct_update)
  have new: "map_of (AList.update host rest (m_queues s)) host = Some rest" by (simp add: update_conv')
  have keys: "fst ` set (AList.update host rest (m_queues s)) = fst ` set (m_queues s)" by (rule keys_update_old [OF l])
  have ql: "\<forall>q' \<in> set rest. address (q_to q') = host" using wf map_of_SomeD [OF l] by (auto simp: wf_queues_def)
  have mem: "k = host \<and> m = rest \<or> k \<noteq> host \<and> (k, m) \<in> set (m_queues s)" if "(k, m) \<in> set (AList.update host rest (m_queues s))" for k m
    by (rule update_distinct_member [OF d that])
  have total: "alist_total (\<lambda>l. int (length l)) (AList.update host rest (m_queues s)) = m_queuedTotal s - 1"
    using wf alist_total_update [OF l d, of "\<lambda>l. int (length l)" rest] by (simp add: wf_queues_def)
  show ?thesis
  proof (cases "rest = []")
    case True
    have "alist_total (\<lambda>l. int (length l)) (AList.delete host (AList.update host rest (m_queues s))) = m_queuedTotal s - 1"
      using alist_total_delete [OF new du, of "\<lambda>l. int (length l)"] total True by simp
    moreover have "m \<noteq> [] \<and> (\<forall>q \<in> set m. address (q_to q) = k)"
      if "(k, m) \<in> set (AList.delete host (AList.update host rest (m_queues s)))" for k m
      using that mem [of k m] wf by (auto simp: AList.delete_eq wf_queues_def)
    moreover have "fst ` set (AList.delete host (AList.update host rest (m_queues s))) = set order"
      using wf ord keys by (auto simp: wf_queues_def keys_delete)
    ultimately show ?thesis
      using True wf ord distinct_delete [OF du, of host] new s1 by (auto simp: requeueHost_def wf_queues_def)
  next
    case False
    have "m \<noteq> [] \<and> (\<forall>q \<in> set m. address (q_to q) = k)" if "(k, m) \<in> set (AList.update host rest (m_queues s))" for k m
      using mem [OF that] ql False wf by (auto simp: wf_queues_def)
    with False wf ord du keys total new s1 show ?thesis by (auto simp: requeueHost_def wf_queues_def)
  qed
qed

lemma requeueHost_pending [simp]:
  "samePending s (requeueHost host s)" "m_limiter (requeueHost host s) = m_limiter s" "out_wire (requeueHost host s) = out_wire s"
  "wf_pendings (requeueHost host s) = wf_pendings s"
  by (simp_all add: requeueHost_def samePending_def wf_pendings_def)

lemma drainTurn_wf:
  assumes wf: "wf_rpc s" and ord: "m_order s = host # order" and can: "canSendNow s"
    and l: "map_of (m_queues s) host = Some l" and turn: "drainHost sendOk now host l (s\<lparr>m_order := order\<rparr>) = (waits, s2)"
  shows "wf_rpc (requeueHost host s2)"
proof -
  have wfs: "wf_pendings s" "wf_queues s" using wf by (simp_all add: wf_rpc_def)
  obtain q rest where lq: "l = q # rest"
    using wfs(2) map_of_SomeD [OF l] by (cases l) (auto simp: wf_queues_def)
  show ?thesis using turn unfolding lq
  proof (cases rule: drainHost_cases)
    case kept
    have "wf_pendings s2" using samePending_wf [OF kept(2)] wfs(1) by (simp add: wf_pendings_def)
    with requeue_kept_wf [OF wfs(2) ord kept(1) l [unfolded lq]] show ?thesis by (simp add: wf_rpc_def)
  next
    case (sent s1)
    have p: "wf_pendings s1" "canSendNow s1"
      using sent(5) wfs(1) can by (simp_all add: samePending_def wf_pendings_def canSendNow_def)
    have "sameQueues s1 s2" unfolding sent(1) by (rule send_queues)
    then have "wf_queues (requeueHost host s2)"
      by (intro requeue_sent_wf [OF wfs(2) ord l [unfolded lq]]) (use sent in \<open>simp_all add: sameQueues_def\<close>)
    with send_pending [OF p] sent(1) show ?thesis by (simp add: wf_rpc_def)
  qed
qed

lemma order_keys: "wf_queues s \<Longrightarrow> m_order s = host # order \<Longrightarrow> map_of (m_queues s) host \<noteq> None"
  by (auto simp: wf_queues_def map_of_eq_None_iff)

lemma drainLoop_wf: "wf_rpc s \<Longrightarrow> wf_rpc (snd (drainLoop sendOk now n exhausted s))"
proof (induction n arbitrary: exhausted s)
  case (Suc n)
  show ?case
  proof (cases "m_order s")
    case (Cons host order)
    obtain l where l: "map_of (m_queues s) host = Some l"
      using order_keys [OF _ Cons] Suc.prems by (auto simp: wf_rpc_def)
    obtain waits s2 where t: "drainHost sendOk now host l (s\<lparr>m_order := order\<rparr>) = (waits, s2)"
      by (cases "drainHost sendOk now host l (s\<lparr>m_order := order\<rparr>)")
    show ?thesis
    proof (cases "canSendNow s")
      case True
      have "wf_rpc (requeueHost host s2)" by (rule drainTurn_wf [OF Suc.prems Cons True l t])
      from Suc.IH [OF this] show ?thesis using True Cons l t by simp
    qed (use Suc.prems Cons in simp)
  qed (use Suc.prems in simp)
qed simp

lemma drain_wf: "wf_rpc s \<Longrightarrow> wf_rpc (drain sendOk now s)"
  by (rule wf_rpc_same [OF _ _ drainLoop_wf [of s sendOk now "length (m_order s)" False]])
    (auto simp: drain_def Let_def sameQueues_def samePending_def split: prod.splits)

lemma cancelAll_wf: "wf_rpc s \<Longrightarrow> wf_rpc (cancelAll s)"
  by (simp add: cancelAll_def wf_rpc_def wf_pendings_def wf_queues_def MaxQueuedTotal_def)

lemma setters_wf [simp]:
  "wf_rpc s \<Longrightarrow> wf_rpc (setReadOnly ro s)" "wf_rpc s \<Longrightarrow> wf_rpc (setHostLimit l s)" "wf_rpc s \<Longrightarrow> wf_rpc (setBudget b s)"
  "wf_rpc s \<Longrightarrow> wf_rpc (setMaxPending n s)"
  by (simp_all add: setReadOnly_def setHostLimit_def setBudget_def setMaxPending_def wf_rpc_def wf_pendings_def wf_queues_def)

lemma forget_wf: "wf_rpc s \<Longrightarrow> wf_rpc (s\<lparr>m_pending := AList.delete tid (m_pending s)\<rparr>)"
  using set_delete_subset [of tid "m_pending s"] length_delete_le [of tid "m_pending s"]
    sameQueues_wf [of s "s\<lparr>m_pending := AList.delete tid (m_pending s)\<rparr>"]
  by (auto simp: wf_rpc_def wf_pendings_def distinct_delete sameQueues_def)

lemma expireOne_wf:
  assumes "wf_rpc s" "\<And>cb r s. wf_rpc s \<Longrightarrow> wf_rpc (react cb r s)"
  shows "wf_rpc (expireOne react tid s)"
proof (cases "map_of (m_pending s) tid")
  case (Some p)
  note forgotten = forget_wf [OF assms(1), of tid]
  show ?thesis
    using Some forgotten assms(2) [OF forgotten] by (cases "p_callback p") (simp_all add: expireOne_def Let_def)
qed (use assms(1) in \<open>simp add: expireOne_def\<close>)

lemma pruneIfDue_wf: "wf_rpc s \<Longrightarrow> wf_rpc (pruneIfDue now s)"
  by (rule wf_rpc_same [of s]) (simp_all add: pruneIfDue_def sameQueues_def samePending_def)

lemma expire_wf:
  assumes "wf_rpc s" and react: "\<And>cb r s. wf_rpc s \<Longrightarrow> wf_rpc (react cb r s)"
  shows "wf_rpc (expire react now s)"
proof -
  have "wf_rpc s0 \<Longrightarrow> wf_rpc (fold (expireOne react) ids s0)" for ids s0
    by (induction ids arbitrary: s0) (simp_all add: expireOne_wf react)
  then show ?thesis by (simp add: expire_def Let_def pruneIfDue_wf [OF assms(1)])
qed

lemma handleReply_wf:
  assumes "wf_rpc s" "\<And>cb r s. wf_rpc s \<Longrightarrow> wf_rpc (react cb r s)"
  shows "wf_rpc (snd (handleReply react now msg datagram from s))"
proof (cases "map_of (m_pending s) (transactionId msg)")
  case (Some p)
  note forgotten = forget_wf [OF assms(1), of "transactionId msg"]
  show ?thesis
    using Some assms(1) forgotten assms(2) [OF forgotten]
    by (cases "p_callback p") (simp_all add: handleReply_def Let_def)
qed (use assms(1) in \<open>simp add: handleReply_def\<close>)

section \<open>What leaves for one host\<close>

definition wireTo :: "host_address \<Rightarrow> 'cb rpc_manager \<Rightarrow> nat" where
  "wireTo a s = length (filter (\<lambda>(d, e). address e = a) (out_wire s))"

text \<open>From \<open>s\<close> to \<open>s'\<close>, every datagram to \<open>a\<close> is paid for with a token of the bucket of \<open>a\<close>.\<close>

definition paid :: "host_address \<Rightarrow> rat \<Rightarrow> rat \<Rightarrow> int \<Rightarrow> 'cb rpc_manager \<Rightarrow> 'cb rpc_manager \<Rightarrow> bool" where
  "paid a R B now s s' \<longleftrightarrow> (limiterValid R B (m_limiter s) now \<longrightarrow>
     limiterValid R B (m_limiter s') now \<and> wireTo a s \<le> wireTo a s' \<and>
     limiterAvail a (m_limiter s') now + of_nat (wireTo a s' - wireTo a s) \<le> limiterAvail a (m_limiter s) now)"

lemma paid_refl: "m_limiter s' = m_limiter s \<Longrightarrow> out_wire s' = out_wire s \<Longrightarrow> paid a R B now s s'"
  by (simp add: paid_def wireTo_def)

lemma paid_trans: "paid a R B now s s1 \<Longrightarrow> paid a R B now s1 s2 \<Longrightarrow> paid a R B now s s2"
  by (auto simp: paid_def of_nat_diff)

lemma paid_fold: "(\<And>x s. paid a R B now s (f x s)) \<Longrightarrow> paid a R B now s (fold f xs s)"
  by (induction xs arbitrary: s) (auto intro: paid_refl paid_trans)

lemma paid_asked:
  assumes "m_limiter s' = m_limiter s \<or> m_limiter s' = snd (allow h now (m_limiter s))" "out_wire s' = out_wire s"
  shows "paid a R B now s s'"
  using assms limiter.pay [of R B "m_limiter s" "Ask h now" a] limiter.valid_spend [of R B "m_limiter s" "Ask h now" a]
  by (auto simp: paid_def wireTo_def limiterStep_def of_bool_def split: if_splits)

lemma send_wire: "out_wire (send sendOk now q s) = out_wire s \<or> (\<exists>d. out_wire (send sendOk now q s) = out_wire s @ [(d, q_to q)])"
  by (auto simp: send_def nextTransactionId_def Let_def split: option.splits prod.splits)

lemma paid_sent:
  assumes s1: "m_limiter s1 = snd (allow (address (q_to q)) now (m_limiter s))" "out_wire s1 = out_wire s"
    and ok: "fst (allow (address (q_to q)) now (m_limiter s))"
  shows "paid a R B now s (send sendOk now q s1)"
proof -
  let ?op = "Ask (address (q_to q)) now"
  have "wireTo a s \<le> wireTo a (send sendOk now q s1) \<and> wireTo a (send sendOk now q s1) \<le> wireTo a s + of_bool (address (q_to q) = a)"
    using send_wire [of sendOk now q s1] s1(2) by (auto simp: wireTo_def)
  then have "of_nat (wireTo a (send sendOk now q s1) - wireTo a s) \<le> (of_nat (fst (limiterStep a ?op (m_limiter s))) :: rat)"
    unfolding of_nat_le_iff using ok by (auto simp: limiterStep_def)
  moreover have "limiterValid R B (m_limiter s) now \<Longrightarrow>
      limiterAvail a (m_limiter s1) now + of_nat (fst (limiterStep a ?op (m_limiter s))) \<le> limiterAvail a (m_limiter s) now"
    using limiter.pay [of R B "m_limiter s" ?op a] s1(1) by (simp add: limiterStep_def)
  moreover have "limiterValid R B (m_limiter s) now \<Longrightarrow> limiterValid R B (m_limiter s1) now"
    using limiter.valid_spend [of R B "m_limiter s" ?op a] s1(1) by (simp add: limiterStep_def)
  ultimately show ?thesis
    using \<open>wireTo a s \<le> _ \<and> _\<close> by (auto simp: paid_def send_limiter intro: order_trans [OF add_left_mono])
qed

lemma query_paid: "paid a R B now s (query sendOk now q s)"
proof -
  obtain go s1 where g: "mayGoNow (q_to q) now s = (go, s1)" by (cases "mayGoNow (q_to q) now s")
  note same = mayGoNow_same [OF g]
  show ?thesis
  proof (cases go)
    case True
    then have "paid a R B now s (send sendOk now q s1)" using same by (intro paid_sent) auto
    with True show ?thesis by (simp add: query_def g Let_def)
  next
    case False
    then have "m_limiter (query sendOk now q s) = m_limiter s1" "out_wire (query sendOk now q s) = out_wire s1"
      by (auto simp: query_def g Let_def split: option.splits)
    with same show ?thesis by (intro paid_asked [of _ _ "address (q_to q)"]) auto
  qed
qed

lemma drainTurn_paid:
  assumes wf: "wf_rpc s" and l: "map_of (m_queues s) host = Some l"
    and turn: "drainHost sendOk now host l (s\<lparr>m_order := order\<rparr>) = (waits, s2)"
  shows "paid a R B now s (requeueHost host s2)"
proof -
  obtain q rest where lq: "l = q # rest" and host: "address (q_to q) = host"
    using wf map_of_SomeD [OF l] by (cases l) (auto simp: wf_rpc_def wf_queues_def)
  have "paid a R B now s s2" using turn unfolding lq
  proof (cases rule: drainHost_cases)
    case kept
    then show ?thesis by (intro paid_asked [of _ _ host]) auto
  next
    case (sent s1)
    then show ?thesis unfolding sent(1) by (intro paid_sent) (simp_all add: host)
  qed
  then show ?thesis by (rule paid_trans) (simp add: paid_refl)
qed

lemma drainLoop_paid: "wf_rpc s \<Longrightarrow> paid a R B now s (snd (drainLoop sendOk now n exhausted s))"
proof (induction n arbitrary: exhausted s)
  case (Suc n)
  show ?case
  proof (cases "m_order s")
    case (Cons host order)
    obtain l where l: "map_of (m_queues s) host = Some l"
      using order_keys [OF _ Cons] Suc.prems by (auto simp: wf_rpc_def)
    obtain waits s2 where t: "drainHost sendOk now host l (s\<lparr>m_order := order\<rparr>) = (waits, s2)"
      by (cases "drainHost sendOk now host l (s\<lparr>m_order := order\<rparr>)")
    show ?thesis
    proof (cases "canSendNow s")
      case True
      note turn = drainTurn_paid [OF Suc.prems l t, of a R B] drainTurn_wf [OF Suc.prems Cons True l t]
      from paid_trans [OF turn(1) Suc.IH [OF turn(2)]] show ?thesis using True Cons l t by simp
    qed (use Cons in \<open>simp add: paid_refl\<close>)
  qed (simp add: paid_refl)
qed (simp add: paid_refl)

lemma drain_paid: "wf_rpc s \<Longrightarrow> paid a R B now s (drain sendOk now s)"
  by (rule paid_trans [OF drainLoop_paid [of s a R B now sendOk "length (m_order s)" False]])
    (auto simp: drain_def Let_def split: prod.splits intro: paid_refl)

section \<open>Traffic\<close>

text \<open>The calls the engine makes between configuration changes. A callback may issue any further queries:
  \<open>follow\<close> gives them.\<close>

datatype 'cb rpc_op =
    QueryOp "'cb queued" (rpc_at: int)
  | DrainOp (rpc_at: int)
  | ReplyOp message bytes endpoint (rpc_at: int)
  | ExpireOp (rpc_at: int)

definition runCallback :: "(bytes \<Rightarrow> endpoint \<Rightarrow> bool) \<Rightarrow> ('cb \<Rightarrow> rpc_reply \<Rightarrow> 'cb queued list) \<Rightarrow> int \<Rightarrow>
    'cb \<Rightarrow> rpc_reply \<Rightarrow> 'cb rpc_manager \<Rightarrow> 'cb rpc_manager" where
  "runCallback sendOk follow now cb reply s = fold (query sendOk now) (follow cb reply) s"

fun rpcStep :: "(bytes \<Rightarrow> endpoint \<Rightarrow> bool) \<Rightarrow> ('cb \<Rightarrow> rpc_reply \<Rightarrow> 'cb queued list) \<Rightarrow> 'cb rpc_op \<Rightarrow>
    'cb rpc_manager \<Rightarrow> 'cb rpc_manager" where
  "rpcStep sendOk follow (QueryOp q now) s = query sendOk now q s"
| "rpcStep sendOk follow (DrainOp now) s = drain sendOk now s"
| "rpcStep sendOk follow (ReplyOp msg datagram from now) s =
     snd (handleReply (runCallback sendOk follow now) now msg datagram from s)"
| "rpcStep sendOk follow (ExpireOp now) s = expire (runCallback sendOk follow now) now s"

definition rpcSpend :: "(bytes \<Rightarrow> endpoint \<Rightarrow> bool) \<Rightarrow> ('cb \<Rightarrow> rpc_reply \<Rightarrow> 'cb queued list) \<Rightarrow> host_address \<Rightarrow>
    'cb rpc_op \<Rightarrow> 'cb rpc_manager \<Rightarrow> nat \<times> 'cb rpc_manager" where
  "rpcSpend sendOk follow a r s = (wireTo a (rpcStep sendOk follow r s) - wireTo a s, rpcStep sendOk follow r s)"

lemma runCallback_wf: "wf_rpc s \<Longrightarrow> wf_rpc (runCallback sendOk follow now cb reply s)"
proof -
  have "wf_rpc s \<Longrightarrow> wf_rpc (fold (query sendOk now) qs s)" for qs
    by (induction qs arbitrary: s) (simp_all add: query_wf)
  then show "wf_rpc s \<Longrightarrow> wf_rpc (runCallback sendOk follow now cb reply s)" by (simp add: runCallback_def)
qed

lemma rpcStep_wf: "wf_rpc s \<Longrightarrow> wf_rpc (rpcStep sendOk follow r s)"
  by (cases r) (simp_all add: query_wf drain_wf handleReply_wf expire_wf runCallback_wf)

lemma runCallback_paid: "paid a R B now s (runCallback sendOk follow now cb reply s)"
  unfolding runCallback_def by (rule paid_fold) (rule query_paid)

lemma handleReply_paid:
  assumes "\<And>cb r s. paid a R B now s (react cb r s)"
  shows "paid a R B now s (snd (handleReply react now msg datagram from s))"
proof (cases "map_of (m_pending s) (transactionId msg)")
  case (Some p)
  have forgotten: "paid a R B now s (s\<lparr>m_pending := x\<rparr>)" for x by (simp add: paid_refl)
  from Some paid_trans [OF forgotten assms] forgotten show ?thesis
    by (cases "p_callback p") (simp_all add: handleReply_def Let_def paid_refl)
qed (simp add: handleReply_def paid_refl)

lemma expireOne_paid:
  assumes "\<And>cb r s. paid a R B now s (react cb r s)"
  shows "paid a R B now s (expireOne react tid s)"
proof (cases "map_of (m_pending s) tid")
  case (Some p)
  have forgotten: "paid a R B now s (s\<lparr>m_pending := x\<rparr>)" for x by (simp add: paid_refl)
  from Some paid_trans [OF forgotten assms] forgotten show ?thesis
    by (cases "p_callback p") (simp_all add: expireOne_def Let_def)
qed (simp add: expireOne_def paid_refl)

lemma pruned_paid: "paid a R B now s (s\<lparr>m_limiter := pruneLimiter now (m_limiter s), m_lastPrune := now\<rparr>)"
  using limiter.pay [of R B "m_limiter s" "PruneOp now" a] limiter.valid_spend [of R B "m_limiter s" "PruneOp now" a]
  by (simp add: paid_def wireTo_def limiterStep_def)

lemma expire_paid:
  assumes "\<And>cb r s. paid a R B now s (react cb r s)"
  shows "paid a R B now s (expire react now s)"
proof -
  have "paid a R B now s0 (fold (expireOne react) ids s0)" for ids s0
    by (rule paid_fold) (rule expireOne_paid [OF assms])
  with paid_trans [OF pruned_paid this] show ?thesis by (simp add: expire_def Let_def pruneIfDue_def)
qed

lemma rpcStep_paid: "wf_rpc s \<Longrightarrow> rpc_at r = now \<Longrightarrow> paid a R B now s (rpcStep sendOk follow r s)"
  by (cases r) (simp_all add: query_paid drain_paid handleReply_paid expire_paid runCallback_paid)

definition rpcValid :: "rat \<Rightarrow> rat \<Rightarrow> 'cb rpc_manager \<Rightarrow> int \<Rightarrow> bool" where
  "rpcValid R B s t \<longleftrightarrow> wf_rpc s \<and> limiterValid R B (m_limiter s) t"

interpretation manager: token_bucket "\<lambda>s. limiterAvail a (m_limiter s)" "rpcSpend sendOk follow a" rpc_at "rpcValid R B" "R / 1000" B
  for a sendOk follow R B
proof
  show "0 \<le> R / 1000" if "rpcValid R B s t" for s :: "'a rpc_manager" and t
    using that limiter.rate_nonneg by (auto simp: rpcValid_def)
  show "rpcValid R B s t'" if "rpcValid R B s t" "t \<le> t'" for s :: "'a rpc_manager" and t t'
    using that limiter.valid_later by (auto simp: rpcValid_def)
  show "rpcValid R B (snd (rpcSpend sendOk follow a r s)) (rpc_at r)" if "rpcValid R B s (rpc_at r)" for s :: "'a rpc_manager" and r
    using that rpcStep_paid [of s r "rpc_at r" a R B sendOk follow] by (simp add: rpcValid_def rpcSpend_def rpcStep_wf paid_def)
  show "0 \<le> limiterAvail a (m_limiter s) t" if "rpcValid R B s t" for s :: "'a rpc_manager" and t
    using that limiter.avail_nonneg by (auto simp: rpcValid_def)
  show "limiterAvail a (m_limiter s) t \<le> B" if "rpcValid R B s t" for s :: "'a rpc_manager" and t
    using that limiter.avail_burst by (auto simp: rpcValid_def)
  show "limiterAvail a (m_limiter s) t' \<le> limiterAvail a (m_limiter s) t + R / 1000 * of_int (t' - t)"
    if "rpcValid R B s t" "t \<le> t'" for s :: "'a rpc_manager" and t t'
    using that limiter.avail_grow by (auto simp: rpcValid_def)
  show "limiterAvail a (m_limiter (snd (rpcSpend sendOk follow a r s))) (rpc_at r) + of_nat (fst (rpcSpend sendOk follow a r s))
      \<le> limiterAvail a (m_limiter s) (rpc_at r)" if "rpcValid R B s (rpc_at r)" for s :: "'a rpc_manager" and r
    using that rpcStep_paid [of s r "rpc_at r" a R B sendOk follow] by (auto simp: rpcValid_def rpcSpend_def paid_def of_nat_diff)
qed

text \<open>What was written to one host over a run is what each step wrote.\<close>

lemma charged_by_wire:
  assumes "wf_rpc s" "limiterValid R B (m_limiter s) t0" "sorted (t0 # map rpc_at ops)"
  shows "wireTo a s + charged_by (rpcSpend sendOk follow a) ops s = wireTo a (fold (rpcStep sendOk follow) ops s)"
  using assms
proof (induction ops arbitrary: s t0)
  case (Cons r ops)
  have v: "limiterValid R B (m_limiter s) (rpc_at r)"
    using limiter.valid_later [OF Cons.prems(2), of "rpc_at r"] Cons.prems(3) by simp
  have st: "wireTo a s \<le> wireTo a (rpcStep sendOk follow r s)" "limiterValid R B (m_limiter (rpcStep sendOk follow r s)) (rpc_at r)"
    using rpcStep_paid [OF Cons.prems(1) refl [of "rpc_at r"], of a R B sendOk follow] v by (simp_all add: paid_def)
  from Cons.IH [OF rpcStep_wf [OF Cons.prems(1)] st(2)] Cons.prems(3) st(1) show ?case by (simp add: rpcSpend_def)
qed simp

section \<open>Properties\<close>

definition exampleQuery :: "unit queued" where
  "exampleQuery = \<lparr>q_to = \<lparr>address = V4 1, port = 6881\<rparr>, q_method = [112, 105, 110, 103], q_arguments = [],
     q_version = [], q_callback = Some (), q_timeoutMs = DefaultTimeoutMs, q_onSent = None\<rparr>"

text \<open>States the engine can bring a manager to: configuration changes as well as traffic.\<close>

inductive rpcReachable :: "'cb rpc_manager \<Rightarrow> bool" where
  created: "rpcReachable (newRpcManager firstId)"
| traffic: "rpcReachable s \<Longrightarrow> rpcReachable (rpcStep sendOk follow r s)"
| cancelled: "rpcReachable s \<Longrightarrow> rpcReachable (cancelAll s)"
| readOnlySet: "rpcReachable s \<Longrightarrow> rpcReachable (setReadOnly ro s)"
| limitSet: "rpcReachable s \<Longrightarrow> rpcReachable (setHostLimit l s)"
| budgetSet: "rpcReachable s \<Longrightarrow> rpcReachable (setBudget b s)"
| maxPendingSet: "rpcReachable s \<Longrightarrow> rpcReachable (setMaxPending n s)"

text \<open>C23: Every state the manager can reach is well formed: transaction ids of outstanding queries are distinct and
  two bytes long, there are at most 65536 of them, each queued query stands in the queue of its own host, the
  drain order lists exactly the hosts with a queue, each once, no queue is empty, and the queued total is the
  number of queued queries and never exceeds \<open>MaxQueuedTotal\<close>.\<close>

theorem rpc_manager_invariant: "rpcReachable s \<Longrightarrow> wf_rpc s"
  by (induction rule: rpcReachable.induct) (simp_all add: wf_newRpcManager rpcStep_wf cancelAll_wf)

theorem rpc_manager_invariant_witness:
  "wf_rpc (drain (\<lambda>d e. True) 0 (query (\<lambda>d e. True) 0 exampleQuery (setMaxPending 100 (newRpcManager 65535))))"
proof (rule rpc_manager_invariant)
  have "rpcReachable (rpcStep (\<lambda>d e. True) (\<lambda>cb r. []) (DrainOp 0)
      (rpcStep (\<lambda>d e. True) (\<lambda>cb r. []) (QueryOp exampleQuery 0) (setMaxPending 100 (newRpcManager 65535))))"
    by (intro traffic maxPendingSet created)
  then show "rpcReachable (drain (\<lambda>d e. True) 0 (query (\<lambda>d e. True) 0 exampleQuery (setMaxPending 100 (newRpcManager 65535))))" by simp
qed

text \<open>The search of \<open>nextTransactionId\<close> ends whenever the manager may send: it returns a two-byte id that no
  outstanding query uses, although the counter wraps at 65536 and skips ids in use.\<close>

theorem transaction_id_fresh:
  assumes "wf_rpc s" "canSendNow s"
  shows "\<exists>tid n. nextTransactionId s = Some (tid, s\<lparr>m_nextId := n\<rparr>) \<and> length tid = 2 \<and> tid \<notin> fst ` set (m_pending s)"
proof -
  have "length (m_pending s) < 65536" using assms by (simp add: wf_rpc_def wf_pendings_def canSendNow_def)
  then show ?thesis by (rule nextTransactionId_total) metis
qed

theorem transaction_id_fresh_witness:
  "\<exists>tid n. nextTransactionId (newRpcManager 7 :: unit rpc_manager) = Some (tid, (newRpcManager 7 :: unit rpc_manager)\<lparr>m_nextId := n\<rparr>) \<and> length tid = 2 \<and>
     tid \<notin> fst ` set (m_pending (newRpcManager 7 :: unit rpc_manager))"
  by (rule transaction_id_fresh [OF wf_newRpcManager]) (simp add: canSendNow_def newRpcManager_def DefaultMaxPending_def)

text \<open>C24: However queries, drains, replies, timeouts and the queries callbacks issue are interleaved, the datagrams
  the manager writes to one host in the time from \<open>t0\<close> to \<open>t1\<close> are at most the burst plus the rate times the elapsed time.\<close>

theorem host_send_rate:
  assumes "wf_rpc s" "limiterValid R B (m_limiter s) t0" "sorted (t0 # map rpc_at ops @ [t1])"
  shows "of_nat (wireTo a (fold (rpcStep sendOk follow) ops s)) \<le> of_nat (wireTo a s) + (B + R / 1000 * of_int (t1 - t0))"
proof -
  have "sorted (t0 # map rpc_at ops)" using assms(3) sorted_append [of "t0 # map rpc_at ops" "[t1]"] by simp
  note total = charged_by_wire [OF assms(1,2) this, of a sendOk follow]
  have "rpcValid R B s t0" using assms(1,2) by (simp add: rpcValid_def)
  from manager.window_bound [OF this assms(3), of sendOk follow a] show ?thesis by (simp flip: total)
qed

theorem host_send_rate_witness:
  "of_nat (wireTo (V4 1) (fold (rpcStep (\<lambda>d e. True) (\<lambda>cb r. [])) (replicate 50 (QueryOp exampleQuery 10000)) (newRpcManager 0))) \<le> (22 :: rat)"
proof -
  have "limiterValid 2 2 (m_limiter (newRpcManager 0 :: unit rpc_manager)) 0"
    by (simp add: limiterValid_def newRpcManager_def limiterFor_def defaultHostLimit_def)
  moreover have "sorted (0 # map rpc_at (replicate 50 (QueryOp exampleQuery 10000)) @ [10000])" by (simp add: sorted_append)
  ultimately have "of_nat (wireTo (V4 1) (fold (rpcStep (\<lambda>d e. True) (\<lambda>cb r. [])) (replicate 50 (QueryOp exampleQuery 10000)) (newRpcManager 0)))
      \<le> of_nat (wireTo (V4 1) (newRpcManager 0 :: unit rpc_manager)) + (2 + 2 / 1000 * of_int (10000 - 0) :: rat)"
    by (rule host_send_rate [OF wf_newRpcManager])
  then show ?thesis by (simp add: wireTo_def newRpcManager_def)
qed

text \<open>C25: A response is accepted only when its transaction is outstanding and it comes from the endpoint the query
  went to; it is then forgotten before its callback runs, with the request that was sent and the round-trip
  time. Any other response changes nothing.\<close>

theorem reply_accepted_once:
  assumes "wf_rpc s" and r: "handleReply react now msg datagram from s = (accepted, s')"
  shows "if accepted then \<exists>p s1. (transactionId msg, p) \<in> set (m_pending s) \<and> p_to p = from \<and>
           s1 = s\<lparr>m_pending := AList.delete (transactionId msg) (m_pending s)\<rparr> \<and>
           map_of (m_pending s1) (transactionId msg) = None \<and> wf_rpc s1 \<and>
           (case p_callback p of None \<Rightarrow> s' = s1
            | Some cb \<Rightarrow> \<exists>reply. s' = react cb reply s1 \<and> rr_message reply = msg \<and> rr_request reply = p_request p \<and>
                rr_from reply = from \<and> rr_rttMs reply = now - p_sentAt p)
         else s' = s \<and> (\<forall>p. (transactionId msg, p) \<in> set (m_pending s) \<longrightarrow> p_to p \<noteq> from)"
proof (cases "map_of (m_pending s) (transactionId msg)")
  case None
  with r have "\<not> accepted" "s' = s" by (simp_all add: handleReply_def)
  with None show ?thesis by (auto simp: map_of_eq_None_iff image_iff)
next
  case (Some p)
  have d: "distinct (map fst (m_pending s))" using assms(1) by (simp add: wf_rpc_def wf_pendings_def)
  have only: "p' = p" if "(transactionId msg, p') \<in> set (m_pending s)" for p'
    using map_of_is_SomeI [OF d that] Some by simp
  show ?thesis
  proof (cases "p_to p = from")
    case True
    with Some r have acc: "accepted" by (auto simp: handleReply_def Let_def split: if_splits)
    have "map_of (AList.delete (transactionId msg) (m_pending s)) (transactionId msg) = None" by (simp add: delete_conv')
    with Some r acc True forget_wf [OF assms(1), of "transactionId msg"] map_of_SomeD [OF Some] show ?thesis
      by (cases "p_callback p") (force simp: handleReply_def Let_def)+
  next
    case False
    with Some r have "\<not> accepted" "s' = s" by (simp_all add: handleReply_def)
    with only False show ?thesis by auto
  qed
qed

theorem reply_accepted_once_witness:
  "case handleReply (\<lambda>cb r s. s) 5 emptyMessage [] nullEndpoint (newRpcManager 0 :: unit rpc_manager) of (accepted, s') \<Rightarrow>
     \<not> accepted \<and> s' = newRpcManager 0"
proof -
  have "handleReply (\<lambda>cb r s. s) 5 emptyMessage [] nullEndpoint (newRpcManager 0 :: unit rpc_manager) = (False, newRpcManager 0)"
    by (simp add: handleReply_def newRpcManager_def)
  from reply_accepted_once [OF wf_newRpcManager this] this show ?thesis by simp
qed

end
