(* ===== verification/Bep44.thy ===== *)
theory Bep44
  imports Bencode NodeId
begin

text \<open>
  \<^verbatim>\<open>dhtcore/include/dhtcore/Bep44.h\<close>, \<^verbatim>\<open>dhtcore/src/Bep44.cpp\<close>: targets and the signed bytes of stored
  items. Qt's SHA-1 and the vendored Ed25519 functions are fields of the parameter \<open>C\<close>.
\<close>

record crypto =
  sha1 :: "bytes \<Rightarrow> bytes"
  ed25519_check :: "bytes \<Rightarrow> bytes \<Rightarrow> bytes \<Rightarrow> int"
  ed25519_key_pair :: "bytes \<Rightarrow> bytes \<times> bytes"
  ed25519_sign :: "bytes \<Rightarrow> bytes \<Rightarrow> bytes"

text \<open>What the code relies on: SHA-1 digests have twenty bytes.\<close>

definition sha1_sized :: "crypto \<Rightarrow> bool" where
  "sha1_sized C \<longleftrightarrow> (\<forall>m. length (sha1 C m) = 20)"

definition MaxValueBytes :: nat where "MaxValueBytes = 1000"
definition MaxSaltBytes :: nat where "MaxSaltBytes = 64"
definition PublicKeyBytes :: nat where "PublicKeyBytes = 32"
definition SignatureBytes :: nat where "SignatureBytes = 64"
definition ItemTtlMs :: int where "ItemTtlMs = 2 * 60 * 60 * 1000"

text \<open>The error codes of BEP 44.\<close>

definition MessageTooBig :: int where "MessageTooBig = 205"
definition InvalidSignature :: int where "InvalidSignature = 206"
definition SaltTooLongCode :: int where "SaltTooLongCode = 207"
definition CasMismatchCode :: int where "CasMismatchCode = 301"
definition SequenceTooLowCode :: int where "SequenceTooLowCode = 302"

text \<open>\<open>NodeId::fromBytes\<close> of a digest always succeeds; the model takes the digest itself.\<close>

definition immutableTarget :: "crypto \<Rightarrow> bytes \<Rightarrow> node_id" where
  "immutableTarget C bencodedValue = the (fromBytes (sha1 C bencodedValue))"

definition mutableTarget :: "crypto \<Rightarrow> bytes \<Rightarrow> bytes \<Rightarrow> node_id" where
  "mutableTarget C publicKey salt = the (fromBytes (sha1 C (publicKey @ salt)))"

definition signingBuffer :: "bytes \<Rightarrow> int \<Rightarrow> bytes \<Rightarrow> bytes" where
  "signingBuffer salt sequence bencodedValue =
     (if salt \<noteq> [] then ascii ''4:salt'' @ digits10 (length salt) @ ascii '':'' @ salt else [])
     @ ascii ''3:seqi'' @ number10 sequence @ ascii ''e1:v'' @ bencodedValue"

definition verify :: "crypto \<Rightarrow> bytes \<Rightarrow> bytes \<Rightarrow> bytes \<Rightarrow> bool option" where
  "verify C signature msg publicKey =
     (if length signature \<noteq> SignatureBytes \<or> length publicKey \<noteq> PublicKeyBytes then Some False
      else Some (ed25519_check C signature publicKey msg = 0))"

record key_pair =
  kp_public :: bytes
  kp_secret :: bytes

definition keyPairFromSeed :: "crypto \<Rightarrow> bytes \<Rightarrow> key_pair" where
  "keyPairFromSeed C seed =
     (if length seed \<noteq> 32 then \<lparr>kp_public = [], kp_secret = []\<rparr>
      else let (secret, public) = ed25519_key_pair C seed in \<lparr>kp_public = public, kp_secret = secret\<rparr>)"

definition sign :: "crypto \<Rightarrow> bytes \<Rightarrow> bytes \<Rightarrow> bytes" where
  "sign C msg secretKey = (if length secretKey \<noteq> 64 then [] else ed25519_sign C secretKey msg)"

section \<open>The signed bytes determine the item\<close>

lemma span_digits: "\<forall>c \<in> set ds. isDigit c \<Longrightarrow> \<not> isDigit x \<Longrightarrow>
   takeWhile isDigit (ds @ x # rest) = ds \<and> dropWhile isDigit (ds @ x # rest) = x # rest"
  by (simp add: takeWhile_append2 dropWhile_append2)

lemma digits_prefix_unique:
  assumes "digits10 m @ x # r = digits10 n @ y # s" "\<not> isDigit x" "\<not> isDigit y"
  shows "m = n \<and> x = y \<and> r = s"
proof -
  have d: "\<forall>c \<in> set (digits10 k). isDigit c" for k by (rule digits10_digits)
  have "digits10 m = digits10 n" "x # r = y # s"
    using span_digits [OF d assms(2), of m r] span_digits [OF d assms(3), of n s] assms(1) by metis+
  moreover have "decVal 0 (digits10 k) = k" for k by (rule decVal_digits10)
  ultimately show ?thesis by (metis list.inject)
qed


lemma not_digit_minus: "\<not> isDigit 45"
  by (simp add: isDigit_def)

lemma number_prefix_unique:
  assumes "number10 m @ x # r = number10 n @ y # s" "\<not> isDigit x" "\<not> isDigit y"
  shows "m = n \<and> r = s"
proof -
  have hd: "digits10 k @ z \<noteq> 45 # w" "45 # w \<noteq> digits10 k @ z" for k z w
    using digits10_digits [of k] not_digit_minus by (cases "digits10 k"; auto)+
  have neg: "m < 0 \<longleftrightarrow> n < 0"
  proof (rule ccontr)
    assume "(m < 0) \<noteq> (n < 0)"
    with assms(1) show False
      using hd(1) [of "nat m" "x # r"] hd(2) [of _ "nat n" "y # s"] by (auto simp: number10_def split: if_splits)
  qed
  show ?thesis
  proof (cases "m < 0")
    case True
    with neg assms digits_prefix_unique [of "nat (- m)" x r "nat (- n)" y s] show ?thesis by (auto simp: number10_def)
  next
    case False
    with neg assms digits_prefix_unique [of "nat m" x r "nat n" y s] show ?thesis by (auto simp: number10_def)
  qed
qed

lemma seq_value_unique:
  assumes "ascii ''3:seqi'' @ number10 m @ ascii ''e1:v'' @ v = ascii ''3:seqi'' @ number10 n @ ascii ''e1:v'' @ w"
  shows "m = n \<and> v = w"
proof -
  have "number10 m @ 101 # (ascii ''1:v'' @ v) = number10 n @ 101 # (ascii ''1:v'' @ w)"
    using assms by (simp add: ascii_def)
  from number_prefix_unique [OF this] show ?thesis by (simp add: isDigit_def)
qed

text \<open>the bytes a mutable item's signature covers determine the salt, the sequence number and the value,
  so a signature made for one item is never a signature of another; and they are what the canonical
  dictionary with these fields contains between its \<open>d\<close> and \<open>e\<close>.\<close>

theorem signingBuffer_injective:
  "(signingBuffer salt1 seq1 v1 = signingBuffer salt2 seq2 v2 \<longleftrightarrow> salt1 = salt2 \<and> seq1 = seq2 \<and> v1 = v2) \<and>
   ascii ''d'' @ signingBuffer salt1 seq1 v1 @ ascii ''e'' =
     bencode (mkDict ((if salt1 = [] then [] else [(ascii ''salt'', mkString salt1)])
       @ [(ascii ''seq'', mkInt seq1), (ascii ''v'', preEncoded v1)]))"
proof (rule conjI, rule iffI)
  assume eq: "signingBuffer salt1 seq1 v1 = signingBuffer salt2 seq2 v2"
  have same: "salt1 = [] \<longleftrightarrow> salt2 = []"
    using eq by (auto simp: signingBuffer_def ascii_def split: if_splits)
  show "salt1 = salt2 \<and> seq1 = seq2 \<and> v1 = v2"
  proof (cases "salt1 = []")
    case True
    with eq same seq_value_unique [of seq1 v1 seq2 v2] show ?thesis by (simp add: signingBuffer_def)
  next
    case False
    let ?t = "\<lambda>n v. ascii ''3:seqi'' @ number10 n @ ascii ''e1:v'' @ v"
    have "digits10 (length salt1) @ 58 # (salt1 @ ?t seq1 v1) = digits10 (length salt2) @ 58 # (salt2 @ ?t seq2 v2)"
      using eq same False by (simp add: signingBuffer_def ascii_def)
    from digits_prefix_unique [OF this] have "length salt1 = length salt2" "salt1 @ ?t seq1 v1 = salt2 @ ?t seq2 v2"
      by (simp_all add: isDigit_def)
    then have "salt1 = salt2" "?t seq1 v1 = ?t seq2 v2" by simp_all
    with seq_value_unique [of seq1 v1 seq2 v2] show ?thesis by simp
  qed
next
  have "digits10 4 = [52]" "digits10 3 = [51]" "digits10 1 = [49]" by (subst digits10.simps; simp)+
  then show "ascii ''d'' @ signingBuffer salt1 seq1 v1 @ ascii ''e'' =
     bencode (mkDict ((if salt1 = [] then [] else [(ascii ''salt'', mkString salt1)])
       @ [(ascii ''seq'', mkInt seq1), (ascii ''v'', preEncoded v1)]))"
    by (simp add: signingBuffer_def encodeString_def preEncoded_def ascii_def numeral_nat)
qed auto

end
