(* ===== verification/Storage.thy ===== *)
theory Storage
  imports Bep44 Endpoint
begin

text \<open>
  \<^verbatim>\<open>dhtcore/include/dhtcore/Support.h\<close>, \<^verbatim>\<open>dhtcore/src/Support.cpp\<close> (first part): announce tokens, the
  peers announced to this node and the BEP 44 items it holds. Random bytes, the random choices of
  samples and the time are arguments of the operations.
\<close>

section \<open>TokenManager\<close>

definition RotationMs :: int where "RotationMs = 5 * 60 * 1000"

record token_manager =
  m_current :: bytes
  m_previous :: bytes
  m_rotatedAt :: int

definition newTokenManager :: token_manager where
  "newTokenManager = \<lparr>m_current = [], m_previous = [], m_rotatedAt = - 1\<rparr>"

definition addressBytes :: "qt_net \<Rightarrow> host_address \<Rightarrow> bytes" where
  "addressBytes Q raw =
     (let a = normalizeAddress Q raw
      in if isIPv4Protocol a then be32 (toIPv4Address a) else toIPv6Address Q a)"

definition rotateIfNeeded :: "bytes \<Rightarrow> bytes \<Rightarrow> int \<Rightarrow> token_manager \<Rightarrow> token_manager" where
  "rotateIfNeeded r1 r2 now tm =
     (if m_rotatedAt tm < 0 \<or> now - m_rotatedAt tm \<ge> 2 * RotationMs
        then \<lparr>m_current = r1, m_previous = r2, m_rotatedAt = now\<rparr>
      else if now - m_rotatedAt tm \<ge> RotationMs
        then \<lparr>m_current = r1, m_previous = m_current tm, m_rotatedAt = now\<rparr>
      else tm)"

definition tokenFor :: "crypto \<Rightarrow> qt_net \<Rightarrow> bytes \<Rightarrow> host_address \<Rightarrow> bytes" where
  "tokenFor C Q secret a = take 8 (sha1 C (secret @ addressBytes Q a))"

definition generateToken :: "crypto \<Rightarrow> qt_net \<Rightarrow> bytes \<Rightarrow> bytes \<Rightarrow> host_address \<Rightarrow> int \<Rightarrow> token_manager
    \<Rightarrow> bytes \<times> token_manager" where
  "generateToken C Q r1 r2 a now tm =
     (let tm' = rotateIfNeeded r1 r2 now tm in (tokenFor C Q (m_current tm') a, tm'))"

definition validateToken :: "crypto \<Rightarrow> qt_net \<Rightarrow> bytes \<Rightarrow> bytes \<Rightarrow> bytes \<Rightarrow> host_address \<Rightarrow> int \<Rightarrow> token_manager
    \<Rightarrow> bool \<times> token_manager" where
  "validateToken C Q r1 r2 token a now tm =
     (let tm' = rotateIfNeeded r1 r2 now tm
      in (token = tokenFor C Q (m_current tm') a \<or> token = tokenFor C Q (m_previous tm') a, tm'))"

section \<open>PeerStorage\<close>

definition PeerTtlMs :: int where "PeerTtlMs = 30 * 60 * 1000"
definition MaxInfohashes :: nat where "MaxInfohashes = 5000"
definition MaxPeersPerInfohash :: nat where "MaxPeersPerInfohash = 500"

record peer_entry =
  pe_peers :: "(endpoint \<times> int) list"
  pe_lastAnnounce :: int

record peer_storage =
  m_entries :: "(node_id \<times> peer_entry) list"
  m_peerCount :: int

definition emptyPeerStorage :: peer_storage where
  "emptyPeerStorage = \<lparr>m_entries = [], m_peerCount = 0\<rparr>"

text \<open>The first part of \<open>announce\<close>: the entry of the infohash, made if it is not there; the entry
  announced to longest ago makes room for it.\<close>

definition ensureEntry :: "node_id \<Rightarrow> peer_storage \<Rightarrow> peer_storage" where
  "ensureEntry infohash s =
     (if map_of (m_entries s) infohash \<noteq> None then s
      else let s1 = (if length (m_entries s) \<ge> MaxInfohashes
                     then let k = min_index (\<lambda>e. pe_lastAnnounce (snd e)) (m_entries s)
                          in \<lparr>m_entries = remove_nth k (m_entries s),
                              m_peerCount = m_peerCount s - int (length (pe_peers (snd (m_entries s ! k))))\<rparr>
                     else s)
           in s1\<lparr>m_entries := m_entries s1 @ [(infohash, \<lparr>pe_peers = [], pe_lastAnnounce = 0\<rparr>)]\<rparr>)"

text \<open>The second part: the peer list of the entry with the change of the peer count.\<close>

definition announcePeer :: "endpoint \<Rightarrow> int \<Rightarrow> (endpoint \<times> int) list \<Rightarrow> (endpoint \<times> int) list \<times> int" where
  "announcePeer peer now ps =
     (if map_of ps peer \<noteq> None then (AList.update peer now ps, 0)
      else if length ps \<ge> MaxPeersPerInfohash
        then (AList.update peer now (remove_nth (min_index snd ps) ps), 0)
        else (AList.update peer now ps, 1))"

definition announce :: "node_id \<Rightarrow> endpoint \<Rightarrow> int \<Rightarrow> peer_storage \<Rightarrow> peer_storage" where
  "announce infohash peer now s =
     (let s1 = ensureEntry infohash s;
          entry = the (map_of (m_entries s1) infohash);
          (ps, d) = announcePeer peer now (pe_peers entry)
      in \<lparr>m_entries = AList.update infohash \<lparr>pe_peers = ps, pe_lastAnnounce = now\<rparr> (m_entries s1),
          m_peerCount = m_peerCount s1 + d\<rparr>)"

text \<open>A partial shuffle: element \<open>i\<close> is swapped with one at or after it that the generator picks.\<close>

definition swap_nth :: "nat \<Rightarrow> nat \<Rightarrow> 'a list \<Rightarrow> 'a list" where
  "swap_nth i j xs = xs[i := xs ! j, j := xs ! i]"

definition shufflePrefix :: "(nat \<Rightarrow> nat) \<Rightarrow> nat \<Rightarrow> 'a list \<Rightarrow> 'a list" where
  "shufflePrefix rng k xs = fold (\<lambda>i ys. swap_nth i (i + rng i) ys) [0..<k] xs"

definition storedPeers :: "qt_net \<Rightarrow> (nat \<Rightarrow> nat) \<Rightarrow> node_id \<Rightarrow> Family \<Rightarrow> nat \<Rightarrow> peer_storage \<Rightarrow> endpoint list" where
  "storedPeers Q rng infohash fam maxCount s =
     (case map_of (m_entries s) infohash of
        None \<Rightarrow> []
      | Some e \<Rightarrow>
          (let out = filter (\<lambda>p. family Q p = fam) (map fst (pe_peers e))
           in if length out > maxCount then take maxCount (shufflePrefix rng maxCount out) else out))"

definition livePeers :: "int \<Rightarrow> (endpoint \<times> int) list \<Rightarrow> (endpoint \<times> int) list" where
  "livePeers now ps = filter (\<lambda>p. \<not> (now - snd p \<ge> PeerTtlMs)) ps"

definition expirePeers :: "int \<Rightarrow> peer_storage \<Rightarrow> peer_storage" where
  "expirePeers now s =
     (let kept = map (\<lambda>(k, e). (k, e\<lparr>pe_peers := livePeers now (pe_peers e)\<rparr>)) (m_entries s);
          dropped = sum_list (map (\<lambda>(k, e). int (length (pe_peers e)) - int (length (livePeers now (pe_peers e)))) (m_entries s))
      in \<lparr>m_entries = filter (\<lambda>(k, e). pe_peers e \<noteq> []) kept, m_peerCount = m_peerCount s - dropped\<rparr>)"

definition clearPeers :: "peer_storage \<Rightarrow> peer_storage" where
  "clearPeers s = \<lparr>m_entries = [], m_peerCount = 0\<rparr>"

text \<open>\<open>std::shuffle\<close> with a seeded generator is the argument \<open>shuffle\<close>.\<close>

definition sampleInfohashes :: "(node_id list \<Rightarrow> node_id list) \<Rightarrow> int \<Rightarrow> peer_storage \<Rightarrow> node_id list" where
  "sampleInfohashes shuffle maxCount s =
     (let keys = shuffle (map fst (m_entries s))
      in if int (length keys) > maxCount then take (nat (max 0 maxCount)) keys else keys)"

record stored_infohash =
  si_infohash :: node_id
  si_lastAnnounce :: int
  si_peers :: "(endpoint \<times> int) list"

definition peerSnapshot :: "peer_storage \<Rightarrow> stored_infohash list" where
  "peerSnapshot s = map (\<lambda>(k, e). \<lparr>si_infohash = k, si_lastAnnounce = pe_lastAnnounce e, si_peers = pe_peers e\<rparr>) (m_entries s)"

section \<open>ItemStorage\<close>

definition MaxItems :: nat where "MaxItems = 1000"
definition int64_max :: int where "int64_max = 2 ^ 63 - 1"

datatype PutResult = Stored | Refreshed | SequenceTooLow | CasMismatch | TooBig | SaltTooLong

record immutable_item =
  ii_target :: node_id
  ii_value :: bytes
  ii_storedAt :: int

record mutable_item =
  mi_target :: node_id
  mi_publicKey :: bytes
  mi_salt :: bytes
  mi_signature :: bytes
  mi_value :: bytes
  mi_sequence :: int
  mi_storedAt :: int

record item_storage =
  m_immutable :: "(node_id \<times> immutable_item) list"
  m_mutable :: "(node_id \<times> mutable_item) list"

definition emptyItemStorage :: item_storage where
  "emptyItemStorage = \<lparr>m_immutable = [], m_mutable = []\<rparr>"

text \<open>One of the two loops that look for the oldest item: time, key and kind of the victim so far.\<close>

definition victimScan :: "bool \<Rightarrow> ('v \<Rightarrow> int) \<Rightarrow> (node_id \<times> 'v) list \<Rightarrow> int \<times> node_id \<times> bool \<Rightarrow> int \<times> node_id \<times> bool" where
  "victimScan mut storedAt items start =
     fold (\<lambda>(k, v) (oldest, victim, m). if storedAt v < oldest then (storedAt v, k, mut) else (oldest, victim, m)) items start"

definition makeRoom :: "item_storage \<Rightarrow> item_storage" where
  "makeRoom s =
     (if length (m_immutable s) + length (m_mutable s) < MaxItems then s
      else let (_, victim, isMutable) =
             victimScan True mi_storedAt (m_mutable s)
               (victimScan False ii_storedAt (m_immutable s) (int64_max, nullId, False))
           in if isMutable then s\<lparr>m_mutable := AList.delete victim (m_mutable s)\<rparr>
              else s\<lparr>m_immutable := AList.delete victim (m_immutable s)\<rparr>)"

definition putImmutable :: "node_id \<Rightarrow> bytes \<Rightarrow> int \<Rightarrow> item_storage \<Rightarrow> PutResult \<times> item_storage" where
  "putImmutable target v now s =
     (if length v > MaxValueBytes then (TooBig, s)
      else case map_of (m_immutable s) target of
             Some it \<Rightarrow> (Refreshed, s\<lparr>m_immutable := AList.update target (it\<lparr>ii_storedAt := now\<rparr>) (m_immutable s)\<rparr>)
           | None \<Rightarrow>
               (let s1 = makeRoom s
                in (Stored, s1\<lparr>m_immutable := AList.update target
                      \<lparr>ii_target = target, ii_value = v, ii_storedAt = now\<rparr> (m_immutable s1)\<rparr>)))"

definition putMutable :: "mutable_item \<Rightarrow> int option \<Rightarrow> int \<Rightarrow> item_storage \<Rightarrow> PutResult \<times> item_storage" where
  "putMutable item cas now s =
     (if length (mi_value item) > MaxValueBytes then (TooBig, s)
      else if length (mi_salt item) > MaxSaltBytes then (SaltTooLong, s)
      else case map_of (m_mutable s) (mi_target item) of
             Some it \<Rightarrow>
               if cas \<noteq> None \<and> mi_sequence it \<noteq> the cas then (CasMismatch, s)
               else if mi_sequence item < mi_sequence it then (SequenceTooLow, s)
               else if mi_sequence item = mi_sequence it
                 then (Refreshed, s\<lparr>m_mutable := AList.update (mi_target item) (it\<lparr>mi_storedAt := now\<rparr>) (m_mutable s)\<rparr>)
               else (Stored, s\<lparr>m_mutable := AList.update (mi_target item) (item\<lparr>mi_storedAt := now\<rparr>) (m_mutable s)\<rparr>)
           | None \<Rightarrow>
               if cas \<noteq> None then (CasMismatch, s)
               else let s1 = makeRoom s
                    in (Stored, s1\<lparr>m_mutable := AList.update (mi_target item) (item\<lparr>mi_storedAt := now\<rparr>) (m_mutable s1)\<rparr>))"

definition immutableItem :: "node_id \<Rightarrow> item_storage \<Rightarrow> immutable_item option" where
  "immutableItem target s = map_of (m_immutable s) target"

definition mutableItem :: "node_id \<Rightarrow> item_storage \<Rightarrow> mutable_item option" where
  "mutableItem target s = map_of (m_mutable s) target"

definition expireItems :: "int \<Rightarrow> item_storage \<Rightarrow> item_storage" where
  "expireItems now s =
     \<lparr>m_immutable = filter (\<lambda>(k, it). \<not> now - ii_storedAt it \<ge> ItemTtlMs) (m_immutable s),
      m_mutable = filter (\<lambda>(k, it). \<not> now - mi_storedAt it \<ge> ItemTtlMs) (m_mutable s)\<rparr>"

definition clearItems :: "item_storage \<Rightarrow> item_storage" where
  "clearItems s = \<lparr>m_immutable = [], m_mutable = []\<rparr>"

definition immutableSnapshot :: "item_storage \<Rightarrow> immutable_item list" where
  "immutableSnapshot s = map snd (m_immutable s)"

definition mutableSnapshot :: "item_storage \<Rightarrow> mutable_item list" where
  "mutableSnapshot s = map snd (m_mutable s)"


section \<open>Tokens stay valid\<close>

text \<open>The operations other requests cause in between.\<close>

datatype token_op =
    GenerateOp (op_time: int) host_address bytes bytes
  | ValidateOp (op_time: int) bytes host_address bytes bytes

definition tokenStep :: "crypto \<Rightarrow> qt_net \<Rightarrow> token_op \<Rightarrow> token_manager \<Rightarrow> token_manager" where
  "tokenStep C Q t_op tm =
     (case t_op of GenerateOp now a r1 r2 \<Rightarrow> snd (generateToken C Q r1 r2 a now tm)
      | ValidateOp now tok a r1 r2 \<Rightarrow> snd (validateToken C Q r1 r2 tok a now tm))"

definition secretAlive :: "bytes \<Rightarrow> int \<Rightarrow> int \<Rightarrow> token_manager \<Rightarrow> bool" where
  "secretAlive sec t now tm \<longleftrightarrow>
     (m_current tm = sec \<and> 0 \<le> m_rotatedAt tm \<and> m_rotatedAt tm \<le> t \<and> t - m_rotatedAt tm < RotationMs) \<or>
     (m_previous tm = sec \<and> t < m_rotatedAt tm \<and> m_rotatedAt tm \<le> now)"

lemma secretAlive_rotate:
  assumes "secretAlive sec t now tm" "0 \<le> t" "now \<le> now'" "now' - t < RotationMs"
  shows "secretAlive sec t now' (rotateIfNeeded r1 r2 now' tm)"
  using assms unfolding secretAlive_def rotateIfNeeded_def by (auto simp: RotationMs_def)

lemma tokenStep_rotate: "\<exists>r1 r2. tokenStep C Q t_op tm = rotateIfNeeded r1 r2 (op_time t_op) tm"
  by (cases t_op) (auto simp: tokenStep_def generateToken_def validateToken_def Let_def)

lemma secretAlive_run:
  assumes "secretAlive sec t now tm" "0 \<le> t" "sorted (now # map op_time ops)"
    "\<forall>t_op \<in> set ops. op_time t_op - t < RotationMs"
  shows "secretAlive sec t (last (now # map op_time ops)) (fold (tokenStep C Q) ops tm)"
  using assms
proof (induction ops arbitrary: now tm)
  case (Cons t_op ops)
  obtain r1 r2 where "tokenStep C Q t_op tm = rotateIfNeeded r1 r2 (op_time t_op) tm" using tokenStep_rotate by blast
  then have "secretAlive sec t (op_time t_op) (tokenStep C Q t_op tm)"
    using Cons.prems by (auto intro!: secretAlive_rotate)
  from Cons.IH [OF this Cons.prems(2)] Cons.prems(3,4) show ?case by simp
qed simp

lemma rotate_alive:
  assumes "0 \<le> t" "m_rotatedAt tm \<le> t"
  shows "secretAlive (m_current (rotateIfNeeded r1 r2 t tm)) t t (rotateIfNeeded r1 r2 t tm)"
  using assms unfolding secretAlive_def rotateIfNeeded_def by (auto simp: RotationMs_def)

text \<open>C34: a token handed to an address is accepted from that address for at least five minutes, whatever
  other tokens are generated or validated in between, as long as the clock does not run backwards.\<close>

theorem token_valid_five_minutes:
  assumes "0 \<le> t" "m_rotatedAt tm \<le> t" "generateToken C Q r1 r2 a t tm = (tok, tm1)"
    and "sorted (t # map op_time ops @ [now])" "now - t < RotationMs"
  shows "fst (validateToken C Q q1 q2 tok a now (fold (tokenStep C Q) ops tm1))"
proof -
  have tok: "tok = tokenFor C Q (m_current tm1) a" "tm1 = rotateIfNeeded r1 r2 t tm"
    using assms(3) by (auto simp: generateToken_def Let_def)
  have alive: "secretAlive (m_current tm1) t t tm1" unfolding tok(2) by (rule rotate_alive [OF assms(1,2)])
  have "\<forall>t_op \<in> set ops. op_time t_op - t < RotationMs" "sorted (t # map op_time ops)"
    using assms(4,5) by (auto simp: sorted_append)
  from secretAlive_run [OF alive assms(1) this(2,1)]
  have "secretAlive (m_current tm1) t (last (t # map op_time ops)) (fold (tokenStep C Q) ops tm1)" .
  moreover have "last (t # map op_time ops) \<le> now"
    using assms(4) by (auto simp: sorted_append last_map dest: last_in_set)
  ultimately have "secretAlive (m_current tm1) t now (rotateIfNeeded q1 q2 now (fold (tokenStep C Q) ops tm1))"
    using assms(1,5) by (intro secretAlive_rotate)
  then show ?thesis by (auto simp: validateToken_def Let_def tok(1) secretAlive_def)
qed

definition plainCrypto :: crypto where
  "plainCrypto = \<lparr>sha1 = (\<lambda>m. take 20 (m @ replicate 20 0)), ed25519_check = (\<lambda>_ _ _. 0),
     ed25519_key_pair = (\<lambda>s. (s @ s, s)), ed25519_sign = (\<lambda>_ _. replicate 64 0)\<rparr>"

theorem token_valid_five_minutes_witness:
  "fst (validateToken plainCrypto qt_doc [5] [6] (fst (generateToken plainCrypto qt_doc [1] [2] (V4 7) 1000 newTokenManager)) (V4 7) 250000
     (fold (tokenStep plainCrypto qt_doc) [GenerateOp 200000 (V4 8) [3] [4]]
        (snd (generateToken plainCrypto qt_doc [1] [2] (V4 7) 1000 newTokenManager))))"
  by (rule token_valid_five_minutes [where t = 1000 and tm = newTokenManager and ?r1.0 = "[1]" and ?r2.0 = "[2]"])
    (simp_all add: newTokenManager_def RotationMs_def)

section \<open>Peer storage invariant\<close>

definition wf_peer_entry :: "peer_entry \<Rightarrow> bool" where
  "wf_peer_entry e \<longleftrightarrow> distinct (map fst (pe_peers e)) \<and> pe_peers e \<noteq> [] \<and> length (pe_peers e) \<le> MaxPeersPerInfohash"

definition peerTotal :: "(node_id \<times> peer_entry) list \<Rightarrow> int" where
  "peerTotal es = sum_list (map (\<lambda>(k, e). int (length (pe_peers e))) es)"

definition wf_peers :: "peer_storage \<Rightarrow> bool" where
  "wf_peers s \<longleftrightarrow> distinct (map fst (m_entries s)) \<and> length (m_entries s) \<le> MaxInfohashes \<and>
     (\<forall>(k, e) \<in> set (m_entries s). wf_peer_entry e) \<and> m_peerCount s = peerTotal (m_entries s)"

lemma wf_emptyPeerStorage [simp]: "wf_peers emptyPeerStorage"
  by (simp add: wf_peers_def emptyPeerStorage_def peerTotal_def)

lemma announcePeer_props:
  assumes "distinct (map fst ps)" "length ps \<le> MaxPeersPerInfohash" "announcePeer peer now ps = (ps', d)"
  shows "distinct (map fst ps') \<and> ps' \<noteq> [] \<and> length ps' \<le> MaxPeersPerInfohash \<and>
    int (length ps') = int (length ps) + d \<and> map_of ps' peer = Some now"
proof -
  let ?k = "min_index snd ps"
  let ?rem = "remove_nth ?k ps"
  have update: "AList.update peer now xs \<noteq> []" for xs :: "(endpoint \<times> int) list" by (cases xs) auto
  have ne: "length ps \<ge> MaxPeersPerInfohash \<Longrightarrow> ps \<noteq> []" by (auto simp: MaxPeersPerInfohash_def)
  have rem: "length ps \<ge> MaxPeersPerInfohash \<Longrightarrow> length ?rem = length ps - 1"
    using min_index_bound [OF ne] by simp
  have d: "distinct (map fst ?rem)" using distinct_remove_nth [OF assms(1)] by (simp add: remove_nth_map)
  have none: "map_of ps peer = None \<Longrightarrow> map_of ?rem peer = None"
    using set_remove_nth [of ?k ps] by (auto simp: map_of_eq_None_iff)
  consider (known) "map_of ps peer \<noteq> None" | (full) "map_of ps peer = None" "length ps \<ge> MaxPeersPerInfohash"
    | (room) "map_of ps peer = None" "length ps < MaxPeersPerInfohash" by fastforce
  then show ?thesis
  proof cases
    case known
    with assms update show ?thesis
      by (auto simp: announcePeer_def length_update distinct_update update_conv')
  next
    case full
    with assms(3) have "ps' = AList.update peer now ?rem" "d = 0" by (auto simp: announcePeer_def)
    with full(2) rem [OF full(2)] d none [OF full(1)] assms(2) ne [OF full(2)] update show ?thesis
      by (simp add: length_update distinct_update update_conv' MaxPeersPerInfohash_def)
  next
    case room
    with assms update show ?thesis
      by (auto simp: announcePeer_def length_update distinct_update update_conv')
  qed
qed

lemma peerTotal_simps [simp]:
  "peerTotal [] = 0" "peerTotal (e # es) = int (length (pe_peers (snd e))) + peerTotal es"
  "peerTotal (es @ fs) = peerTotal es + peerTotal fs"
  by (simp_all add: peerTotal_def split_beta)

lemma peerTotal_update:
  "map_of es k = Some e \<Longrightarrow> distinct (map fst es) \<Longrightarrow>
   peerTotal (AList.update k e' es) = peerTotal es - int (length (pe_peers e)) + int (length (pe_peers e'))"
  by (induction es) (auto split: if_splits)

lemma peerTotal_remove:
  assumes "i < length es"
  shows "peerTotal (remove_nth i es) = peerTotal es - int (length (pe_peers (snd (es ! i))))"
proof -
  have "peerTotal es = peerTotal (take i es @ es ! i # drop (Suc i) es)" using id_take_nth_drop [OF assms] by simp
  then show ?thesis by (simp add: remove_nth_def)
qed

text \<open>What \<open>ensureEntry\<close> gives: the entry is there, and every other entry is one that was there.\<close>

lemma ensureEntry_props:
  fixes ih :: node_id
  assumes wf: "wf_peers s"
  defines "s1 \<equiv> ensureEntry ih s"
  shows "distinct (map fst (m_entries s1))" "length (m_entries s1) \<le> MaxInfohashes"
    "m_peerCount s1 = peerTotal (m_entries s1)" "map_of (m_entries s1) ih \<noteq> None"
    "\<And>k e. (k, e) \<in> set (m_entries s1) \<Longrightarrow> wf_peer_entry e \<or> (k = ih \<and> pe_peers e = [])"
    "map_of (m_entries s1) ih = Some e \<Longrightarrow> map_of (m_entries s) ih = Some e \<or> pe_peers e = []"
proof -
  let ?k = "min_index (\<lambda>e. pe_lastAnnounce (snd e)) (m_entries s)"
  have es: "distinct (map fst (m_entries s))" "length (m_entries s) \<le> MaxInfohashes" "m_peerCount s = peerTotal (m_entries s)"
    "\<And>k e. (k, e) \<in> set (m_entries s) \<Longrightarrow> wf_peer_entry e"
    using wf by (auto simp: wf_peers_def)
  have k: "length (m_entries s) \<ge> MaxInfohashes \<Longrightarrow> ?k < length (m_entries s)"
    by (rule min_index_bound) (auto simp: MaxInfohashes_def)
  have d: "distinct (map fst (remove_nth ?k (m_entries s)))" using distinct_remove_nth [OF es(1)] by (simp add: remove_nth_map)
  have sub: "fst ` set (remove_nth ?k (m_entries s)) \<subseteq> fst ` set (m_entries s)" by (rule image_mono [OF set_remove_nth])
  show "distinct (map fst (m_entries s1))"
    using es(1) d sub by (auto simp: s1_def ensureEntry_def Let_def map_of_eq_None_iff)
  show "length (m_entries s1) \<le> MaxInfohashes"
    using es(2) k by (auto simp: s1_def ensureEntry_def Let_def MaxInfohashes_def)
  show "m_peerCount s1 = peerTotal (m_entries s1)"
    using es(3) k by (auto simp: s1_def ensureEntry_def Let_def peerTotal_remove)
  show "map_of (m_entries s1) ih \<noteq> None"
    by (auto simp: s1_def ensureEntry_def Let_def map_of_eq_None_iff)
  show "wf_peer_entry e \<or> (k = ih \<and> pe_peers e = [])" if "(k, e) \<in> set (m_entries s1)" for k e
    using that es(4) set_remove_nth [of ?k "m_entries s"] by (auto simp: s1_def ensureEntry_def Let_def split: if_splits)
  show "map_of (m_entries s) ih = Some e \<or> pe_peers e = []" if "map_of (m_entries s1) ih = Some e"
  proof (cases "map_of (m_entries s) ih")
    case None
    then have "ih \<notin> fst ` set (m_entries s)" by (simp add: map_of_eq_None_iff)
    with sub have "map_of (remove_nth ?k (m_entries s)) ih = None" by (auto simp: map_of_eq_None_iff)
    with None that show ?thesis by (auto simp: s1_def ensureEntry_def Let_def map_add_def split: if_splits)
  qed (use that in \<open>simp add: s1_def ensureEntry_def\<close>)
qed

lemma announce_wf:
  assumes wf: "wf_peers s"
  shows "wf_peers (announce ih peer now s)"
proof -
  let ?s1 = "ensureEntry ih s"
  note p = ensureEntry_props [OF wf, where ih = ih]
  from p(4) obtain e where e: "map_of (m_entries ?s1) ih = Some e" by blast
  then have "(ih, e) \<in> set (m_entries ?s1)" by (rule map_of_SomeD)
  from p(5) [OF this] have entry: "distinct (map fst (pe_peers e))" "length (pe_peers e) \<le> MaxPeersPerInfohash"
    by (auto simp: wf_peer_entry_def)
  obtain ps d where psd: "announcePeer peer now (pe_peers e) = (ps, d)" by (cases "announcePeer peer now (pe_peers e)")
  note a = announcePeer_props [OF entry psd]
  let ?e' = "\<lparr>pe_peers = ps, pe_lastAnnounce = now\<rparr>"
  have r: "announce ih peer now s = \<lparr>m_entries = AList.update ih ?e' (m_entries ?s1), m_peerCount = m_peerCount ?s1 + d\<rparr>"
    using e psd by (simp add: announce_def Let_def)
  have "wf_peer_entry x" if "(k, x) \<in> set (AList.update ih ?e' (m_entries ?s1))" for k x
    using update_distinct_member [OF p(1) that] p(5) a by (auto simp: wf_peer_entry_def)
  then show ?thesis
    unfolding r wf_peers_def using p(1-3) e a
    by (auto simp: distinct_update length_update peerTotal_update [OF e p(1)])
qed

lemma peerTotal_expire:
  "peerTotal (filter (\<lambda>(k, e). pe_peers e \<noteq> []) (map (\<lambda>(k, e). (k, e\<lparr>pe_peers := f e\<rparr>)) es))
    = sum_list (map (\<lambda>(k, e). int (length (f e))) es)"
  by (induction es) auto

lemma peerTotal_dropped:
  "peerTotal es - sum_list (map (\<lambda>(k, e). int (length (pe_peers e)) - int (length (f e))) es)
    = sum_list (map (\<lambda>(k, e). int (length (f e))) es)"
  by (induction es) auto

lemma expirePeers_wf:
  assumes "wf_peers s"
  shows "wf_peers (expirePeers now s)"
proof -
  let ?kept = "map (\<lambda>(k, e). (k, e\<lparr>pe_peers := livePeers now (pe_peers e)\<rparr>)) (m_entries s)"
  have fst_kept: "map fst ?kept = map fst (m_entries s)" by (simp add: comp_def split_beta)
  have "distinct (map fst ?kept)" using assms by (simp add: fst_kept wf_peers_def del: map_map)
  then have "distinct (map fst (filter (\<lambda>(k, e). pe_peers e \<noteq> []) ?kept))" by (rule distinct_map_filter)
  moreover have "length (filter (\<lambda>(k, e). pe_peers e \<noteq> []) ?kept) \<le> MaxInfohashes"
    by (rule le_trans [OF length_filter_le]) (use assms in \<open>simp add: wf_peers_def\<close>)
  moreover have "\<forall>(k, e) \<in> set (filter (\<lambda>(k, e). pe_peers e \<noteq> []) ?kept). wf_peer_entry e"
    using assms by (fastforce simp: wf_peers_def wf_peer_entry_def livePeers_def distinct_map_filter
        intro: le_trans [OF length_filter_le])
  moreover have "m_peerCount (expirePeers now s) = peerTotal (m_entries (expirePeers now s))"
  proof -
    have "m_peerCount (expirePeers now s) = peerTotal (m_entries s) -
        sum_list (map (\<lambda>(k, e). int (length (pe_peers e)) - int (length (livePeers now (pe_peers e)))) (m_entries s))"
      using assms by (simp add: expirePeers_def Let_def wf_peers_def)
    also have "\<dots> = sum_list (map (\<lambda>(k, e). int (length (livePeers now (pe_peers e)))) (m_entries s))"
      by (rule peerTotal_dropped)
    finally show ?thesis by (simp add: expirePeers_def Let_def peerTotal_expire)
  qed
  ultimately show ?thesis by (simp add: wf_peers_def expirePeers_def Let_def)
qed


inductive peers_reachable :: "peer_storage \<Rightarrow> bool" where
  start: "peers_reachable emptyPeerStorage"
| announced: "peers_reachable s \<Longrightarrow> peers_reachable (announce ih peer now s)"
| expired: "peers_reachable s \<Longrightarrow> peers_reachable (expirePeers now s)"
| cleared: "peers_reachable s \<Longrightarrow> peers_reachable (clearPeers s)"

lemma peers_reachable_wf: "peers_reachable s \<Longrightarrow> wf_peers s"
  by (induction rule: peers_reachable.induct)
    (simp_all add: announce_wf expirePeers_wf, simp add: clearPeers_def wf_peers_def peerTotal_def)

text \<open>C36: whatever is announced, expired or cleared, the node keeps at most 5000 infohashes with at least one
  and at most 500 peers each, no infohash or peer twice, and the running peer count is the number of peers
  stored.\<close>

theorem peer_storage_invariant:
  assumes "peers_reachable s"
  shows "length (m_entries s) \<le> 5000 \<and> distinct (map fst (m_entries s)) \<and>
    (\<forall>(k, e) \<in> set (m_entries s). 1 \<le> length (pe_peers e) \<and> length (pe_peers e) \<le> 500 \<and> distinct (map fst (pe_peers e))) \<and>
    m_peerCount s = sum_list (map (\<lambda>(k, e). int (length (pe_peers e))) (m_entries s))"
  using peers_reachable_wf [OF assms]
  by (auto simp: wf_peers_def wf_peer_entry_def MaxInfohashes_def MaxPeersPerInfohash_def peerTotal_def Suc_le_eq)

theorem peer_storage_invariant_witness:
  "length (m_entries (announce nullId nullEndpoint 5 emptyPeerStorage)) \<le> 5000"
  using peer_storage_invariant [OF peers_reachable.announced [OF peers_reachable.start]] by blast

lemma announce_lookup:
  assumes wf: "wf_peers s"
  shows "\<exists>e. map_of (m_entries (announce ih peer now s)) ih = Some e \<and> map_of (pe_peers e) peer = Some now \<and> pe_lastAnnounce e = now"
proof -
  note p = ensureEntry_props [OF wf, where ih = ih]
  from p(4) obtain e where e: "map_of (m_entries (ensureEntry ih s)) ih = Some e" by blast
  from p(5) [OF map_of_SomeD [OF e]] have "distinct (map fst (pe_peers e))" "length (pe_peers e) \<le> MaxPeersPerInfohash"
    by (auto simp: wf_peer_entry_def)
  then show ?thesis
    using announcePeer_props [of "pe_peers e" peer now] e
    by (auto simp: announce_def update_conv' Let_def split_beta prod_eq_iff)
qed

lemma expire_lookup:
  assumes "wf_peers s"
  shows "map_of (m_entries (expirePeers now s)) ih = (case map_of (m_entries s) ih of None \<Rightarrow> None
    | Some e \<Rightarrow> if livePeers now (pe_peers e) = [] then None else Some (e\<lparr>pe_peers := livePeers now (pe_peers e)\<rparr>))"
proof -
  let ?kept = "map (\<lambda>(k, e). (k, e\<lparr>pe_peers := livePeers now (pe_peers e)\<rparr>)) (m_entries s)"
  have "map fst ?kept = map fst (m_entries s)" by (simp add: comp_def split_beta)
  with assms have d: "distinct (map fst ?kept)" by (metis wf_peers_def)
  have m: "map_of (map (\<lambda>(k, e). (k, f e)) es) ih = map_option f (map_of es ih)" for f :: "peer_entry \<Rightarrow> peer_entry" and es
    by (induction es) auto
  show ?thesis
    using map_of_filter_values [OF d, of "\<lambda>e. pe_peers e \<noteq> []" ih] unfolding m
    by (auto simp: expirePeers_def Let_def split: option.splits)
qed

text \<open>An announced peer is stored under its infohash with the time of the announcement, and expiry
  removes exactly the peers announced at least thirty minutes ago.\<close>

theorem announce_then_expire:
  assumes "wf_peers s"
  shows "(\<exists>e. map_of (m_entries (announce ih peer now s)) ih = Some e \<and> map_of (pe_peers e) peer = Some now) \<and>
    (let stored = (\<lambda>s'. case map_of (m_entries s') ih of None \<Rightarrow> [] | Some e \<Rightarrow> pe_peers e)
     in stored (expirePeers now s) = filter (\<lambda>p. now - snd p < 30 * 60 * 1000) (stored s))"
  using announce_lookup [OF assms, of ih peer now] expire_lookup [OF assms, of now ih]
  by (auto simp: Let_def livePeers_def PeerTtlMs_def split_beta not_le split: option.splits)

theorem announce_then_expire_witness:
  "\<exists>e. map_of (m_entries (announce nullId nullEndpoint 7 emptyPeerStorage)) nullId = Some e \<and> map_of (pe_peers e) nullEndpoint = Some 7"
  using announce_then_expire [OF wf_emptyPeerStorage] by blast


section \<open>Item storage\<close>

definition wf_items :: "item_storage \<Rightarrow> bool" where
  "wf_items s \<longleftrightarrow> distinct (map fst (m_immutable s)) \<and> distinct (map fst (m_mutable s)) \<and>
     length (m_immutable s) + length (m_mutable s) \<le> MaxItems \<and>
     (\<forall>(k, it) \<in> set (m_immutable s). ii_target it = k \<and> length (ii_value it) \<le> MaxValueBytes \<and> ii_storedAt it < int64_max) \<and>
     (\<forall>(k, it) \<in> set (m_mutable s). mi_target it = k \<and> length (mi_value it) \<le> MaxValueBytes
        \<and> length (mi_salt it) \<le> MaxSaltBytes \<and> mi_storedAt it < int64_max)"

lemma victimScan_Cons: "victimScan mut st ((k, x) # xs) (t, v, m) =
    victimScan mut st xs (if st x < t then (st x, k, mut) else (t, v, m))"
  by (simp add: victimScan_def)

lemma victimScan_result:
  "victimScan mut st items (t, v, m) = r \<Longrightarrow>
   (r = (t, v, m) \<and> (\<forall>p \<in> set items. t \<le> st (snd p))) \<or>
   (\<exists>p \<in> set items. r = (st (snd p), fst p, mut) \<and> st (snd p) < t \<and> (\<forall>q \<in> set items. st (snd p) \<le> st (snd q)))"
proof (induction items arbitrary: t v m)
  case (Cons e items)
  obtain k x where e: "e = (k, x)" by (cases e)
  show ?case
  proof (cases "st x < t")
    case True
    with Cons.prems have "victimScan mut st items (st x, k, mut) = r" by (simp add: e victimScan_Cons)
    from Cons.IH [OF this] True show ?thesis by (auto simp: e)
  next
    case False
    with Cons.prems have "victimScan mut st items (t, v, m) = r" by (simp add: e victimScan_Cons)
    from Cons.IH [OF this] False show ?thesis by (auto simp: e)
  qed
qed (auto simp: victimScan_def)

lemma no_elements: "\<forall>p \<in> set xs. False \<Longrightarrow> xs = []"
  by (cases xs) auto

definition itemTimes :: "item_storage \<Rightarrow> int list" where
  "itemTimes s = map (\<lambda>(k, it). ii_storedAt it) (m_immutable s) @ map (\<lambda>(k, it). mi_storedAt it) (m_mutable s)"

text \<open>The victim is an item of the storage and none is older.\<close>

lemma makeRoom_full:
  assumes wf: "wf_items s" and full: "length (m_immutable s) + length (m_mutable s) \<ge> MaxItems"
  obtains (mut) k it where "(k, it) \<in> set (m_mutable s)" "\<forall>t \<in> set (itemTimes s). mi_storedAt it \<le> t"
      "makeRoom s = s\<lparr>m_mutable := AList.delete k (m_mutable s)\<rparr>"
  | (imm) k it where "(k, it) \<in> set (m_immutable s)" "\<forall>t \<in> set (itemTimes s). ii_storedAt it \<le> t"
      "makeRoom s = s\<lparr>m_immutable := AList.delete k (m_immutable s)\<rparr>"
proof -
  obtain t1 v1 b1 where r1: "victimScan False ii_storedAt (m_immutable s) (int64_max, nullId, False) = (t1, v1, b1)"
    by (cases "victimScan False ii_storedAt (m_immutable s) (int64_max, nullId, False)") auto
  obtain t2 v2 b2 where r2: "victimScan True mi_storedAt (m_mutable s) (t1, v1, b1) = (t2, v2, b2)"
    by (cases "victimScan True mi_storedAt (m_mutable s) (t1, v1, b1)") auto
  have room: "makeRoom s = (if b2 then s\<lparr>m_mutable := AList.delete v2 (m_mutable s)\<rparr>
      else s\<lparr>m_immutable := AList.delete v2 (m_immutable s)\<rparr>)"
    using full by (simp add: makeRoom_def r1 r2)
  have bound: "\<forall>p \<in> set (m_immutable s). ii_storedAt (snd p) < int64_max" "\<forall>p \<in> set (m_mutable s). mi_storedAt (snd p) < int64_max"
    using wf by (auto simp: wf_items_def)
  have low1: "\<forall>p \<in> set (m_immutable s). t1 \<le> ii_storedAt (snd p)"
    using victimScan_result [OF r1] by (auto dest: bspec)
  have times: "itemTimes s = map (\<lambda>p. ii_storedAt (snd p)) (m_immutable s) @ map (\<lambda>p. mi_storedAt (snd p)) (m_mutable s)"
    by (simp add: itemTimes_def split_beta)
  consider (keep) "(t2, v2, b2) = (t1, v1, b1)" "\<forall>p \<in> set (m_mutable s). t1 \<le> mi_storedAt (snd p)"
    | (new) p where "p \<in> set (m_mutable s)" "(t2, v2, b2) = (mi_storedAt (snd p), fst p, True)" "mi_storedAt (snd p) < t1"
      "\<forall>q \<in> set (m_mutable s). mi_storedAt (snd p) \<le> mi_storedAt (snd q)"
    using victimScan_result [OF r2] by blast
  then show thesis
  proof cases
    case new
    show thesis
    proof (rule mut [of "fst p" "snd p"])
      show "\<forall>t \<in> set (itemTimes s). mi_storedAt (snd p) \<le> t"
        using new(3,4) low1 unfolding times by auto
    qed (use new(1,2) room in simp_all)
  next
    case keep
    have "\<exists>p \<in> set (m_immutable s). (t1, v1, b1) = (ii_storedAt (snd p), fst p, False)"
    proof (rule ccontr)
      assume "\<not> ?thesis"
      with victimScan_result [OF r1] have "t1 = int64_max" by auto
      with keep(2) low1 bound have "\<forall>p \<in> set (m_immutable s). False" "\<forall>p \<in> set (m_mutable s). False"
        by (meson not_le)+
      then have "m_immutable s = []" "m_mutable s = []" by (blast intro: no_elements)+
      with full show False by (simp add: MaxItems_def)
    qed
    then obtain p where p: "p \<in> set (m_immutable s)" "t1 = ii_storedAt (snd p)" "v1 = fst p" "\<not> b1" by auto
    show thesis
    proof (rule imm [of "fst p" "snd p"])
      show "\<forall>t \<in> set (itemTimes s). ii_storedAt (snd p) \<le> t"
        using keep(2) low1 p(2) unfolding times by auto
    qed (use keep(1) p room in simp_all)
  qed
qed

lemma wf_items_parts:
  assumes "wf_items s" "set (m_immutable s') \<subseteq> set (m_immutable s)" "set (m_mutable s') \<subseteq> set (m_mutable s)"
    "distinct (map fst (m_immutable s'))" "distinct (map fst (m_mutable s'))"
    "length (m_immutable s') + length (m_mutable s') \<le> MaxItems"
  shows "wf_items s'"
  using assms unfolding wf_items_def by blast

lemma makeRoom_wf:
  assumes wf: "wf_items s"
  shows "wf_items (makeRoom s) \<and> length (m_immutable (makeRoom s)) + length (m_mutable (makeRoom s)) < MaxItems \<and>
    set (m_immutable (makeRoom s)) \<subseteq> set (m_immutable s) \<and> set (m_mutable (makeRoom s)) \<subseteq> set (m_mutable s)"
proof (cases "length (m_immutable s) + length (m_mutable s) \<ge> MaxItems")
  case False
  with wf show ?thesis by (simp add: makeRoom_def)
next
  case True
  have d: "distinct (map fst (m_immutable s))" "distinct (map fst (m_mutable s))"
    "length (m_immutable s) + length (m_mutable s) \<le> MaxItems" using wf by (auto simp: wf_items_def)
  have sub: "set (AList.delete k xs) \<subseteq> set xs" for k :: node_id and xs :: "(node_id \<times> 'v) list"
    by (auto simp: AList.delete_eq)
  from wf True show ?thesis
  proof (cases rule: makeRoom_full)
    case (mut k it)
    have "Suc (length (AList.delete k (m_mutable s))) = length (m_mutable s)"
      by (rule length_delete [OF d(2)]) (use mut(1) in force)
    with d sub [of k "m_mutable s"] show ?thesis unfolding mut(3)
      by (auto intro!: wf_items_parts [OF wf] distinct_delete)
  next
    case (imm k it)
    have "Suc (length (AList.delete k (m_immutable s))) = length (m_immutable s)"
      by (rule length_delete [OF d(1)]) (use imm(1) in force)
    with d sub [of k "m_immutable s"] show ?thesis unfolding imm(3)
      by (auto intro!: wf_items_parts [OF wf] distinct_delete)
  qed
qed


lemma wf_update_immutable:
  assumes "wf_items s" "ii_target it = k" "length (ii_value it) \<le> MaxValueBytes" "ii_storedAt it < int64_max"
    "map_of (m_immutable s) k \<noteq> None \<or> length (m_immutable s) + length (m_mutable s) < MaxItems"
  shows "wf_items (s\<lparr>m_immutable := AList.update k it (m_immutable s)\<rparr>)"
  using assms set_update_subset [of k it "m_immutable s"] unfolding wf_items_def
  by (auto simp: distinct_update length_update split: if_splits)

lemma wf_update_mutable:
  assumes "wf_items s" "mi_target it = k" "length (mi_value it) \<le> MaxValueBytes" "length (mi_salt it) \<le> MaxSaltBytes"
    "mi_storedAt it < int64_max" "map_of (m_mutable s) k \<noteq> None \<or> length (m_immutable s) + length (m_mutable s) < MaxItems"
  shows "wf_items (s\<lparr>m_mutable := AList.update k it (m_mutable s)\<rparr>)"
  using assms set_update_subset [of k it "m_mutable s"] unfolding wf_items_def
  by (auto simp: distinct_update length_update split: if_splits)

lemma putImmutable_wf:
  assumes wf: "wf_items s" and "now < int64_max"
  shows "wf_items (snd (putImmutable target v now s))"
proof (cases "map_of (m_immutable s) target")
  case None
  have "wf_items ((makeRoom s)\<lparr>m_immutable := AList.update target
      \<lparr>ii_target = target, ii_value = v, ii_storedAt = now\<rparr> (m_immutable (makeRoom s))\<rparr>)" if "length v \<le> MaxValueBytes"
    by (rule wf_update_immutable) (use makeRoom_wf [OF wf] assms(2) that in auto)
  with None wf show ?thesis by (simp add: putImmutable_def Let_def)
next
  case (Some it)
  have "(target, it) \<in> set (m_immutable s)" using Some by (rule map_of_SomeD)
  with wf have "ii_target it = target" "length (ii_value it) \<le> MaxValueBytes" by (auto simp: wf_items_def)
  then have "wf_items (s\<lparr>m_immutable := AList.update target (it\<lparr>ii_storedAt := now\<rparr>) (m_immutable s)\<rparr>)"
    by (intro wf_update_immutable [OF wf]) (use Some assms(2) in auto)
  with Some wf show ?thesis by (simp add: putImmutable_def)
qed

lemma putMutable_wf:
  assumes wf: "wf_items s" and "now < int64_max"
  shows "wf_items (snd (putMutable item cas now s))"
proof (cases "length (mi_value item) \<le> MaxValueBytes \<and> length (mi_salt item) \<le> MaxSaltBytes")
  case False
  with wf show ?thesis by (auto simp: putMutable_def)
next
  case True
  show ?thesis
  proof (cases "map_of (m_mutable s) (mi_target item)")
    case None
    have "wf_items ((makeRoom s)\<lparr>m_mutable := AList.update (mi_target item) (item\<lparr>mi_storedAt := now\<rparr>) (m_mutable (makeRoom s))\<rparr>)"
      by (rule wf_update_mutable) (use makeRoom_wf [OF wf] assms(2) True in auto)
    with None wf True show ?thesis by (simp add: putMutable_def Let_def)
  next
    case (Some it)
    have "(mi_target item, it) \<in> set (m_mutable s)" using Some by (rule map_of_SomeD)
    with wf have it: "mi_target it = mi_target item" "length (mi_value it) \<le> MaxValueBytes" "length (mi_salt it) \<le> MaxSaltBytes"
      by (auto simp: wf_items_def)
    have "wf_items (s\<lparr>m_mutable := AList.update (mi_target item) (it\<lparr>mi_storedAt := now\<rparr>) (m_mutable s)\<rparr>)"
      "wf_items (s\<lparr>m_mutable := AList.update (mi_target item) (item\<lparr>mi_storedAt := now\<rparr>) (m_mutable s)\<rparr>)"
      by (intro wf_update_mutable [OF wf]; use Some assms(2) it True in auto)+
    with Some wf True show ?thesis by (simp add: putMutable_def)
  qed
qed

lemma expireItems_wf:
  assumes "wf_items s"
  shows "wf_items (expireItems now s)"
  by (rule wf_items_parts [OF assms])
    (use assms in \<open>auto simp: expireItems_def distinct_map_filter wf_items_def
      intro: le_trans [OF add_mono [OF length_filter_le length_filter_le]]\<close>)

inductive items_reachable :: "item_storage \<Rightarrow> bool" where
  start: "items_reachable emptyItemStorage"
| immutablePut: "items_reachable s \<Longrightarrow> now < int64_max \<Longrightarrow> items_reachable (snd (putImmutable target v now s))"
| mutablePut: "items_reachable s \<Longrightarrow> now < int64_max \<Longrightarrow> items_reachable (snd (putMutable item cas now s))"
| expired: "items_reachable s \<Longrightarrow> items_reachable (expireItems now s)"
| cleared: "items_reachable s \<Longrightarrow> items_reachable (clearItems s)"

lemma items_reachable_wf: "items_reachable s \<Longrightarrow> wf_items s"
  by (induction rule: items_reachable.induct)
    (simp_all add: putImmutable_wf putMutable_wf expireItems_wf, simp_all add: wf_items_def emptyItemStorage_def clearItems_def)

text \<open>the node never holds more than 1000 items, none larger than 1000 bytes or with a salt longer than
  64 bytes, each under its own target and no target twice.\<close>

theorem item_storage_invariant:
  assumes "items_reachable s"
  shows "length (m_immutable s) + length (m_mutable s) \<le> 1000 \<and>
    distinct (map fst (m_immutable s)) \<and> distinct (map fst (m_mutable s)) \<and>
    (\<forall>(k, it) \<in> set (m_immutable s). ii_target it = k \<and> length (ii_value it) \<le> 1000) \<and>
    (\<forall>(k, it) \<in> set (m_mutable s). mi_target it = k \<and> length (mi_value it) \<le> 1000 \<and> length (mi_salt it) \<le> 64)"
  using items_reachable_wf [OF assms]
  by (auto simp: wf_items_def MaxItems_def MaxValueBytes_def MaxSaltBytes_def)

theorem item_storage_invariant_witness:
  "length (m_immutable (snd (putImmutable nullId [105, 49, 101] 10 emptyItemStorage)))
    + length (m_mutable (snd (putImmutable nullId [105, 49, 101] 10 emptyItemStorage))) \<le> 1000"
  using item_storage_invariant [OF items_reachable.immutablePut [OF items_reachable.start, of 10]]
  by (simp add: int64_max_def)

lemma makeRoom_lookup: "map_of (m_mutable s) k = None \<Longrightarrow> map_of (m_mutable (makeRoom s)) k = None"
  by (auto simp: makeRoom_def Let_def split_beta delete_conv')

lemma map_of_makeRoom:
  "map_of (m_mutable (makeRoom s)) k = map_of (m_mutable s) k \<or> map_of (m_mutable (makeRoom s)) k = None"
  by (auto simp: makeRoom_def Let_def split_beta delete_conv' split: if_splits)

text \<open>C35: a mutable item that is stored is only ever replaced by one with a higher sequence number, and only
  when the compare-and-swap number, if one is given, is the stored one; every refusal leaves the storage as
  it was; and an accepted item is what a lookup then returns.\<close>

theorem putMutable_monotone:
  assumes "putMutable item cas now s = (res, s')"
  shows "(res \<in> {SequenceTooLow, CasMismatch, TooBig, SaltTooLong} \<longrightarrow> s' = s) \<and>
    (res = Stored \<longrightarrow> mutableItem (mi_target item) s' = Some (item\<lparr>mi_storedAt := now\<rparr>)) \<and>
    (\<forall>old. mutableItem (mi_target item) s = Some old \<longrightarrow>
       (\<exists>new. mutableItem (mi_target item) s' = Some new \<and> mi_sequence old \<le> mi_sequence new \<and>
          (mi_sequence old = mi_sequence new \<longrightarrow> mi_value new = mi_value old) \<and>
          (res \<in> {Stored, Refreshed} \<and> cas \<noteq> None \<longrightarrow> cas = Some (mi_sequence old))))"
  using assms
  by (auto simp: putMutable_def mutableItem_def Let_def update_conv' split: if_splits option.splits)

theorem putMutable_monotone_witness:
  "let item = \<lparr>mi_target = nullId, mi_publicKey = [], mi_salt = [], mi_signature = [], mi_value = [105, 49, 101],
        mi_sequence = 4, mi_storedAt = 0\<rparr>;
       r = putMutable item None 10 emptyItemStorage
   in fst r = Stored \<and> mutableItem nullId (snd r) = Some (item\<lparr>mi_storedAt := 10\<rparr>)"
proof -
  let ?item = "\<lparr>mi_target = nullId, mi_publicKey = [], mi_salt = [], mi_signature = [], mi_value = [105, 49, 101],
        mi_sequence = 4, mi_storedAt = 0\<rparr>"
  have "fst (putMutable ?item None 10 emptyItemStorage) = Stored"
    by (simp add: putMutable_def emptyItemStorage_def MaxValueBytes_def MaxSaltBytes_def Let_def)
  with putMutable_monotone [OF prod.collapse [symmetric], of ?item None 10 emptyItemStorage] show ?thesis by simp
qed


section \<open>Samples of the stored peers\<close>

lemma swap_nth_props: "i < length xs \<Longrightarrow> j < length xs \<Longrightarrow> mset (swap_nth i j xs) = mset xs \<and> length (swap_nth i j xs) = length xs"
  using mset_swap [of j xs i] by (simp add: swap_nth_def)

lemma shufflePrefix_mset:
  assumes "k \<le> length xs" "\<And>i. i < k \<Longrightarrow> i + rng i < length xs"
  shows "mset (shufflePrefix rng k xs) = mset xs \<and> length (shufflePrefix rng k xs) = length xs"
  using assms
proof (induction k)
  case (Suc k)
  then have "mset (shufflePrefix rng k xs) = mset xs \<and> length (shufflePrefix rng k xs) = length xs" by simp
  then show ?case
    using Suc.prems swap_nth_props [of k "shufflePrefix rng k xs" "k + rng k"] by (simp add: shufflePrefix_def)
qed (simp add: shufflePrefix_def)

text \<open>The peers returned for an infohash are distinct stored peers of the family asked for, and as many
  as asked for or all there are, whatever the generator picks within its bounds.\<close>

theorem storedPeers_sample:
  assumes "wf_peers s" "map_of (m_entries s) ih = Some e"
    "\<And>i. i < k \<Longrightarrow> i + rng i < length (filter (\<lambda>p. family Q (fst p) = fam) (pe_peers e))"
  shows "distinct (storedPeers Q rng ih fam k s) \<and>
    set (storedPeers Q rng ih fam k s) \<subseteq> {p. family Q p = fam \<and> map_of (pe_peers e) p \<noteq> None} \<and>
    length (storedPeers Q rng ih fam k s) = min k (length (filter (\<lambda>p. family Q (fst p) = fam) (pe_peers e)))"
proof -
  let ?out = "filter (\<lambda>p. family Q p = fam) (map fst (pe_peers e))"
  have len: "length ?out = length (filter (\<lambda>p. family Q (fst p) = fam) (pe_peers e))" by (simp add: filter_map comp_def)
  have "(ih, e) \<in> set (m_entries s)" using assms(2) by (rule map_of_SomeD)
  then have d: "distinct ?out" using assms(1) by (auto simp: wf_peers_def wf_peer_entry_def)
  have set: "set ?out \<subseteq> {p. family Q p = fam \<and> map_of (pe_peers e) p \<noteq> None}"
    by (auto simp: map_of_eq_None_iff image_iff)
  show ?thesis
  proof (cases "length ?out > k")
    case True
    then have m: "mset (shufflePrefix rng k ?out) = mset ?out" "length (shufflePrefix rng k ?out) = length ?out"
      using shufflePrefix_mset [of k ?out rng] assms(3) by (simp_all only: len)
    have "distinct (shufflePrefix rng k ?out)" using m(1) d by (metis mset_eq_imp_distinct_iff)
    moreover have "set (take k (shufflePrefix rng k ?out)) \<subseteq> set ?out"
      using set_take_subset m(1) by (metis mset_eq_setD)
    ultimately show ?thesis
      using True m(2) set unfolding storedPeers_def assms(2) len [symmetric] by (simp add: Let_def)
  next
    case False
    with d set show ?thesis unfolding storedPeers_def assms(2) len [symmetric] by (simp add: Let_def)
  qed
qed

theorem storedPeers_sample_witness:
  "storedPeers qt_doc (\<lambda>_. 0) nullId IPv4 0 (announce nullId nullEndpoint 7 emptyPeerStorage) = []"
proof -
  obtain e where "map_of (m_entries (announce nullId nullEndpoint 7 emptyPeerStorage)) nullId = Some e"
    using announce_lookup [OF wf_emptyPeerStorage] by blast
  from storedPeers_sample [OF announce_wf [OF wf_emptyPeerStorage] this, of 0] show ?thesis by simp
qed

end
