(* ===== verification/Lookup.thy ===== *)
theory Lookup
  imports RpcManager Storage
begin

text \<open>
  \<^verbatim>\<open>dhtcore/include/dhtcore/Lookup.h\<close>, \<^verbatim>\<open>dhtcore/src/Lookup.cpp\<close>: the iterative lookup towards a target.
  The queries it asks for are recorded in \<open>l_asked\<close> and its result in \<open>l_result\<close>. Its query function is
  \<open>DhtNode::sendQuery\<close>, which hands the query to \<open>RpcManager::query\<close>: the reply comes back through the
  event loop, and the \<open>onSent\<close> hook runs inside the call exactly when the datagram leaves at once; the
  argument \<open>sentNow\<close> says for which endpoints it does. \<open>m_peerSet\<close> holds the elements of \<open>m_peers\<close>.
\<close>

datatype lookup_kind = FindNode | GetPeers | GetItem

datatype cand_state = New | InFlight | Slow | Responded | Failed

record candidate =
  c_id :: node_id
  c_endpoint :: endpoint
  c_state :: cand_state
  c_token :: bytes
  c_hops :: int
  c_sentAtMs :: int

record contact =
  ct_id :: node_id
  ct_endpoint :: endpoint
  ct_token :: bytes

record item_fields =
  i_found :: bool
  i_isMutable :: bool
  i_value :: bytes
  i_publicKey :: bytes
  i_signature :: bytes
  i_sequence :: int

definition noItem :: item_fields where
  "noItem = \<lparr>i_found = False, i_isMutable = False, i_value = [], i_publicKey = [], i_signature = [], i_sequence = - 1\<rparr>"

record lookup_result =
  r_kind :: lookup_kind
  r_target :: node_id
  r_closest :: "contact list"
  r_peers :: "endpoint list"
  r_sightings :: "(endpoint \<times> endpoint) list"
  r_queried :: int
  r_responded :: int
  r_durationMs :: int
  r_hops :: int
  r_item :: item_fields

record asked =
  a_to :: endpoint
  a_method :: bytes
  a_arguments :: bdict
  a_timeoutMs :: int

definition lookupK :: nat where "lookupK = 8"
definition Alpha :: int where "Alpha = 3"
definition MaxCandidates :: nat where "MaxCandidates = 100"
definition MaxQueries :: int where "MaxQueries = 150"
definition MaxSightings :: nat where "MaxSightings = 2000"
definition MaxOutstanding :: int where "MaxOutstanding = 2 * Alpha"
definition SlowAfterMs :: int where "SlowAfterMs = 700"
definition QueryTimeoutMs :: int where "QueryTimeoutMs = 1500"

record lookup =
  l_kind :: lookup_kind
  l_target :: node_id
  l_family :: Family
  l_self :: node_id
  l_allowLocal :: bool
  l_candidates :: "candidate list"
  l_seen :: "endpoint list"
  l_peers :: "endpoint list"
  l_sightings :: "(endpoint \<times> endpoint) list"
  l_salt :: bytes
  l_item :: item_fields
  l_startedAt :: "int option"
  l_slowTimer :: bool
  l_slowAfterMs :: int
  l_queryTimeoutMs :: int
  l_inFlight :: int
  l_outstanding :: int
  l_queries :: int
  l_responded :: int
  l_started :: bool
  l_finished :: bool
  l_done :: bool
  l_asked :: "asked list"
  l_result :: "lookup_result option"

definition newLookup :: "lookup_kind \<Rightarrow> node_id \<Rightarrow> Family \<Rightarrow> node_id \<Rightarrow> bool \<Rightarrow> lookup" where
  "newLookup kind target fam selfId allowLocal =
     \<lparr>l_kind = kind, l_target = target, l_family = fam, l_self = selfId, l_allowLocal = allowLocal, l_candidates = [],
      l_seen = [], l_peers = [], l_sightings = [], l_salt = [], l_item = noItem, l_startedAt = None, l_slowTimer = False,
      l_slowAfterMs = SlowAfterMs, l_queryTimeoutMs = QueryTimeoutMs, l_inFlight = 0, l_outstanding = 0, l_queries = 0,
      l_responded = 0, l_started = False, l_finished = False, l_done = False, l_asked = [], l_result = None\<rparr>"

definition setSalt :: "bytes \<Rightarrow> lookup \<Rightarrow> lookup" where
  "setSalt salt l = l\<lparr>l_salt := salt\<rparr>"

definition setTimeouts :: "int \<Rightarrow> int \<Rightarrow> lookup \<Rightarrow> lookup" where
  "setTimeouts slowAfter queryTimeout l =
     (let q = max 100 queryTimeout
      in l\<lparr>l_queryTimeoutMs := q, l_slowAfterMs := max 100 (min slowAfter q)\<rparr>)"

text \<open>The loops of \<open>canFinish\<close> (\<open>None\<close> is its early \<open>return false\<close>) and of \<open>finish\<close>.\<close>

fun finishScan :: "nat \<Rightarrow> candidate list \<Rightarrow> nat option" where
  "finishScan responded [] = Some responded"
| "finishScan responded (c # cs) =
     (if responded \<ge> lookupK then Some responded
      else if c_state c = Responded then finishScan (responded + 1) cs
      else if c_state c = InFlight \<or> c_state c = Slow then None
      else finishScan responded cs)"

definition finishable :: "candidate list \<Rightarrow> int \<Rightarrow> int \<Rightarrow> bool" where
  "finishable cs outstanding queries =
     (case finishScan 0 cs of
        None \<Rightarrow> False
      | Some responded \<Rightarrow>
          if responded \<ge> lookupK then True
          else if outstanding > 0 then False
          else if queries \<ge> MaxQueries then True
          else \<not> list_ex (\<lambda>c. c_state c = New) cs)"

definition canFinish :: "lookup \<Rightarrow> bool" where
  "canFinish l = finishable (l_candidates l) (l_outstanding l) (l_queries l)"

fun collectClosest :: "contact list \<Rightarrow> int \<Rightarrow> candidate list \<Rightarrow> contact list \<times> int" where
  "collectClosest closest hops [] = (closest, hops)"
| "collectClosest closest hops (c # cs) =
     (if length closest \<ge> lookupK then (closest, hops)
      else if c_state c \<noteq> Responded then collectClosest closest hops cs
      else collectClosest (closest @ [\<lparr>ct_id = c_id c, ct_endpoint = c_endpoint c, ct_token = c_token c\<rparr>])
             (if closest = [] then c_hops c else hops) cs)"

definition finish :: "int \<Rightarrow> lookup \<Rightarrow> lookup" where
  "finish now l =
     (let (closest, hops) = collectClosest [] (- 1) (l_candidates l)
      in l\<lparr>l_finished := True, l_slowTimer := False, l_done := True,
           l_result := Some \<lparr>r_kind = l_kind l, r_target = l_target l, r_closest = closest, r_peers = l_peers l,
             r_sightings = l_sightings l, r_queried = l_queries l, r_responded = l_responded l,
             r_durationMs = (case l_startedAt l of None \<Rightarrow> 0 | Some t \<Rightarrow> now - t), r_hops = hops, r_item = l_item l\<rparr>\<rparr>)"

definition modifyCandidate :: "endpoint \<Rightarrow> (candidate \<Rightarrow> candidate) \<Rightarrow> candidate list \<Rightarrow> candidate list" where
  "modifyCandidate e f cs =
     (case find_index (\<lambda>c. c_endpoint c = e) cs of None \<Rightarrow> cs | Some i \<Rightarrow> cs[i := f (cs ! i)])"

definition onSent :: "int \<Rightarrow> endpoint \<Rightarrow> lookup \<Rightarrow> lookup" where
  "onSent now e l = l\<lparr>l_candidates := modifyCandidate e
     (\<lambda>c. if c_state c = InFlight then c\<lparr>c_sentAtMs := now\<rparr> else c) (l_candidates l)\<rparr>"

text \<open>The selection loop of \<open>step\<close>: the candidates with their new states, and the endpoints to query.\<close>

fun pick :: "int \<Rightarrow> nat \<Rightarrow> int \<Rightarrow> candidate list \<Rightarrow> candidate list \<times> endpoint list" where
  "pick budget ahead queries [] = ([], [])"
| "pick budget ahead queries (c # cs) =
     (if budget \<le> 0 \<or> ahead \<ge> lookupK then (c # cs, [])
      else if c_state c = Responded then
        let (cs', es) = pick budget (ahead + 1) queries cs in (c # cs', es)
      else if c_state c = New \<and> queries < MaxQueries then
        let (cs', es) = pick (budget - 1) ahead (queries + 1) cs
        in (c\<lparr>c_state := InFlight, c_sentAtMs := 0\<rparr> # cs', c_endpoint c # es)
      else let (cs', es) = pick budget ahead queries cs in (c # cs', es))"

definition methodOf :: "lookup_kind \<Rightarrow> bytes" where
  "methodOf kind = (case kind of FindNode \<Rightarrow> ascii ''find_node'' | GetPeers \<Rightarrow> ascii ''get_peers'' | GetItem \<Rightarrow> ascii ''get'')"

definition keyOf :: "lookup_kind \<Rightarrow> bytes" where
  "keyOf kind = (if kind = GetPeers then ascii ''info_hash'' else ascii ''target'')"

definition ask :: "(endpoint \<Rightarrow> bool) \<Rightarrow> int \<Rightarrow> endpoint \<Rightarrow> lookup \<Rightarrow> lookup" where
  "ask sentNow now e l =
     (let l1 = l\<lparr>l_asked := l_asked l @ [\<lparr>a_to = e, a_method = methodOf (l_kind l),
            a_arguments = emplace (keyOf (l_kind l)) (mkString (toBytes (l_target l))) [], a_timeoutMs = l_queryTimeoutMs l\<rparr>]\<rparr>
      in if sentNow e then onSent now e l1 else l1)"

definition step :: "(endpoint \<Rightarrow> bool) \<Rightarrow> int \<Rightarrow> lookup \<Rightarrow> lookup" where
  "step sentNow now l =
     (if l_finished l then l
      else let (cs, toSend) = pick (min (Alpha - l_inFlight l) (MaxOutstanding - l_outstanding l)) 0 (l_queries l) (l_candidates l);
               n = int (length toSend);
               l1 = fold (ask sentNow now) toSend (l\<lparr>l_candidates := cs, l_inFlight := l_inFlight l + n,
                      l_outstanding := l_outstanding l + n, l_queries := l_queries l + n\<rparr>);
               l2 = (if l_outstanding l1 > 0 \<and> \<not> l_slowTimer l1 then l1\<lparr>l_slowTimer := True\<rparr> else l1)
           in if canFinish l2 then finish now l2 else l2)"

fun trimFrom :: "nat \<Rightarrow> candidate list \<Rightarrow> candidate list" where
  "trimFrom 0 cs = cs"
| "trimFrom (Suc i) cs =
     (if length cs > MaxCandidates then trimFrom i (if c_state (cs ! i) = New then remove_nth i cs else cs) else cs)"

definition insertCandidate :: "qt_net \<Rightarrow> node_id \<Rightarrow> endpoint \<Rightarrow> int \<Rightarrow> lookup \<Rightarrow> lookup option" where
  "insertCandidate Q nid e hops l =
     (if l_finished l \<or> nid = l_self l then None
      else if family Q e \<noteq> l_family l \<or> \<not> isUsableRemote Q e (l_allowLocal l) then None
      else if e \<in> set (l_seen l) then None
      else let c = \<lparr>c_id = nid, c_endpoint = e, c_state = New, c_token = [], c_hops = hops, c_sentAtMs = 0\<rparr>;
               cs = insert_sorted (\<lambda>a b. closer (l_target l) (c_id a) (c_id b)) c (l_candidates l)
           in Some (l\<lparr>l_seen := l_seen l @ [e], l_candidates := trimFrom (length cs) cs\<rparr>))"

definition addCandidate :: "qt_net \<Rightarrow> (endpoint \<Rightarrow> bool) \<Rightarrow> int \<Rightarrow> node_id \<Rightarrow> endpoint \<Rightarrow> int \<Rightarrow> lookup \<Rightarrow> lookup" where
  "addCandidate Q sentNow now nid e hops l =
     (case insertCandidate Q nid e hops l of
        None \<Rightarrow> l
      | Some l1 \<Rightarrow> if l_started l1 then step sentNow now l1 else l1)"

definition start :: "(endpoint \<Rightarrow> bool) \<Rightarrow> int \<Rightarrow> lookup \<Rightarrow> lookup" where
  "start sentNow now l = step sentNow now (l\<lparr>l_started := True, l_startedAt := Some now\<rparr>)"

definition isSlowNow :: "int \<Rightarrow> lookup \<Rightarrow> candidate \<Rightarrow> bool" where
  "isSlowNow now l c \<longleftrightarrow> c_state c = InFlight \<and> c_sentAtMs c > 0 \<and> now - c_sentAtMs c \<ge> l_slowAfterMs l"

definition checkSlow :: "(endpoint \<Rightarrow> bool) \<Rightarrow> int \<Rightarrow> lookup \<Rightarrow> lookup" where
  "checkSlow sentNow now l =
     (if l_finished l then l
      else let slow = filter (isSlowNow now l) (l_candidates l);
               l1 = l\<lparr>l_candidates := map (\<lambda>c. if isSlowNow now l c then c\<lparr>c_state := Slow\<rparr> else c) (l_candidates l),
                      l_inFlight := l_inFlight l - int (length slow)\<rparr>;
               l2 = (if l_inFlight l1 = 0 then l1\<lparr>l_slowTimer := False\<rparr> else l1)
           in if slow \<noteq> [] then step sentNow now l2 else l2)"

definition acceptMutable :: "crypto \<Rightarrow> bytes \<Rightarrow> bytes \<Rightarrow> int \<Rightarrow> bytes \<Rightarrow> lookup \<Rightarrow> lookup" where
  "acceptMutable C key signature sequence raw l =
     (if length key \<noteq> PublicKeyBytes \<or> length signature \<noteq> SignatureBytes then l
      else if mutableTarget C key (l_salt l) \<noteq> l_target l then l
      else if sequence \<le> i_sequence (l_item l) then l
      else if verify C signature (signingBuffer (l_salt l) sequence raw) key \<noteq> Some True then l
      else l\<lparr>l_item := \<lparr>i_found = True, i_isMutable = True, i_value = raw, i_publicKey = key,
             i_signature = signature, i_sequence = sequence\<rparr>\<rparr>)"

definition acceptImmutable :: "crypto \<Rightarrow> bytes \<Rightarrow> lookup \<Rightarrow> lookup" where
  "acceptImmutable C raw l =
     (if \<not> i_found (l_item l) \<and> immutableTarget C raw = l_target l
      then l\<lparr>l_item := (l_item l)\<lparr>i_found := True, i_isMutable := False, i_value := raw\<rparr>\<rparr> else l)"

definition collectItem :: "crypto \<Rightarrow> rpc_reply \<Rightarrow> lookup \<Rightarrow> lookup" where
  "collectItem C reply l =
     (let bdy = body (rr_message reply)
      in case find_key bdy (ascii ''v'') of
           None \<Rightarrow> l
         | Some v \<Rightarrow>
             let raw = rawSpan v (rr_datagram reply)
             in if raw = [] then l
                else case (stringAt bdy (ascii ''k''), stringAt bdy (ascii ''sig''), integerAt bdy (ascii ''seq'')) of
                       (Some key, Some signature, Some sequence) \<Rightarrow> acceptMutable C key signature sequence raw l
                     | _ \<Rightarrow> acceptImmutable C raw l)"

definition collectPeer :: "endpoint \<Rightarrow> endpoint \<Rightarrow> lookup \<Rightarrow> lookup" where
  "collectPeer source peer l =
     (let l1 = (if length (l_sightings l) < MaxSightings then l\<lparr>l_sightings := l_sightings l @ [(peer, source)]\<rparr> else l)
      in if peer \<in> set (l_peers l1) then l1 else l1\<lparr>l_peers := l_peers l1 @ [peer]\<rparr>)"

definition foundNodes :: "qt_net \<Rightarrow> Family \<Rightarrow> bvalue \<Rightarrow> compact_node list" where
  "foundNodes Q fam bdy =
     (case stringAt bdy (if fam = IPv4 then ascii ''nodes'' else ascii ''nodes6'') of
        None \<Rightarrow> [] | Some bs \<Rightarrow> dn_nodes (decodeNodes Q bs fam))"

text \<open>\<open>onReply\<close> for a candidate that answered: what its answer adds, before the next step. While the
  referrals are inserted \<open>m_started\<close> is false, so \<open>addCandidate\<close> does not step.\<close>

definition learn :: "qt_net \<Rightarrow> crypto \<Rightarrow> endpoint \<Rightarrow> int \<Rightarrow> rpc_reply \<Rightarrow> lookup \<Rightarrow> lookup" where
  "learn Q C e hops reply l =
     (let bdy = body (rr_message reply);
          l1 = (if l_kind l = GetItem then collectItem C reply l else l);
          l2 = (if l_kind l = GetPeers then fold (collectPeer e) (decodePeers Q (listAt bdy (ascii ''values'')) (l_family l)) l1 else l1);
          l3 = fold (\<lambda>n l'. case insertCandidate Q (cn_id n) (cn_endpoint n) (hops + 1) l' of None \<Rightarrow> l' | Some l'' \<Rightarrow> l'')
                 (foundNodes Q (l_family l) bdy) l2
      in l3)"

definition onReply :: "qt_net \<Rightarrow> crypto \<Rightarrow> (endpoint \<Rightarrow> bool) \<Rightarrow> int \<Rightarrow> endpoint \<Rightarrow> rpc_reply \<Rightarrow> lookup \<Rightarrow> lookup" where
  "onReply Q C sentNow now e reply l =
     (if l_finished l then l
      else case find_index (\<lambda>c. c_endpoint c = e) (l_candidates l) of
        None \<Rightarrow> l
      | Some i \<Rightarrow>
          let c = l_candidates l ! i
          in if c_state c \<noteq> InFlight \<and> c_state c \<noteq> Slow then l
             else let l1 = l\<lparr>l_inFlight := (if c_state c = InFlight then l_inFlight l - 1 else l_inFlight l),
                             l_outstanding := l_outstanding l - 1\<rparr>
                  in if rr_status reply \<noteq> ResponseReply
                     then step sentNow now (l1\<lparr>l_candidates := (l_candidates l1)[i := c\<lparr>c_state := Failed\<rparr>]\<rparr>)
                     else let token = (case stringAt (body (rr_message reply)) (ascii ''token'') of Some t \<Rightarrow> t | None \<Rightarrow> c_token c);
                              l2 = l1\<lparr>l_candidates := (l_candidates l1)[i := c\<lparr>c_state := Responded, c_token := token\<rparr>],
                                      l_responded := l_responded l1 + 1\<rparr>
                          in step sentNow now (learn Q C e (c_hops c) reply l2))"

section \<open>Invariant\<close>

abbreviation cnt :: "('a \<Rightarrow> bool) \<Rightarrow> 'a list \<Rightarrow> int" where
  "cnt P xs \<equiv> int (length (filter P xs))"

definition byDistance :: "node_id \<Rightarrow> candidate list \<Rightarrow> bool" where
  "byDistance target cs \<longleftrightarrow> sorted_wrt (\<lambda>a b. \<not> closer target (c_id b) (c_id a)) cs"

text \<open>The candidates: nearest first, one per endpoint, each usable and not ourselves.\<close>

definition wf_cands :: "qt_net \<Rightarrow> lookup \<Rightarrow> candidate list \<Rightarrow> bool" where
  "wf_cands Q l cs \<longleftrightarrow> wf_id (l_target l) \<and> byDistance (l_target l) cs \<and> distinct (map c_endpoint cs) \<and> c_endpoint ` set cs \<subseteq> set (l_seen l) \<and>
     length cs \<le> MaxCandidates \<and>
     (\<forall>c \<in> set cs. wf_id (c_id c) \<and> c_id c \<noteq> l_self l \<and> family Q (c_endpoint c) = l_family l \<and> isUsableRemote Q (c_endpoint c) (l_allowLocal l))"

text \<open>The counters are what they count, and stay within the limits.\<close>

definition wf_counts :: "lookup \<Rightarrow> candidate list \<Rightarrow> bool" where
  "wf_counts l cs \<longleftrightarrow> l_inFlight l = cnt (\<lambda>c. c_state c = InFlight) cs \<and>
     l_outstanding l = cnt (\<lambda>c. c_state c = InFlight \<or> c_state c = Slow) cs \<and>
     l_queries l = cnt (\<lambda>c. c_state c \<noteq> New) cs \<and> l_responded l = cnt (\<lambda>c. c_state c = Responded) cs \<and>
     l_inFlight l \<le> Alpha \<and> l_outstanding l \<le> MaxOutstanding \<and> l_queries l \<le> MaxQueries"

text \<open>Every candidate that is no longer new was asked, once.\<close>

definition notNew :: "candidate list \<Rightarrow> endpoint set" where
  "notNew cs = c_endpoint ` {c \<in> set cs. c_state c \<noteq> New}"

definition wf_asked :: "lookup \<Rightarrow> candidate list \<Rightarrow> bool" where
  "wf_asked l cs \<longleftrightarrow> distinct (map a_to (l_asked l)) \<and>
     a_to ` set (l_asked l) = notNew cs"

definition wf_item :: "crypto \<Rightarrow> node_id \<Rightarrow> bytes \<Rightarrow> item_fields \<Rightarrow> bool" where
  "wf_item C target salt i \<longleftrightarrow>
     (if \<not> i_found i then i_sequence i = - 1
      else if i_isMutable i then mutableTarget C (i_publicKey i) salt = target \<and>
        verify C (i_signature i) (signingBuffer salt (i_sequence i) (i_value i)) (i_publicKey i) = Some True
      else immutableTarget C (i_value i) = target)"

definition wf_found :: "crypto \<Rightarrow> lookup \<Rightarrow> bool" where
  "wf_found C l \<longleftrightarrow> distinct (l_peers l) \<and> length (l_sightings l) \<le> MaxSightings \<and> wf_item C (l_target l) (l_salt l) (l_item l)"

definition toContact :: "candidate \<Rightarrow> contact" where
  "toContact c = \<lparr>ct_id = c_id c, ct_endpoint = c_endpoint c, ct_token = c_token c\<rparr>"

text \<open>Once finished, the result holds the nearest responders and what was found.\<close>

definition wf_result :: "lookup \<Rightarrow> candidate list \<Rightarrow> bool" where
  "wf_result l cs \<longleftrightarrow> l_done l = l_finished l \<and>
     (if l_finished l then finishable cs (l_outstanding l) (l_queries l) \<and>
        (\<exists>r. l_result l = Some r \<and> r_closest r = map toContact (take lookupK (filter (\<lambda>c. c_state c = Responded) cs)) \<and>
           r_peers r = l_peers l \<and> r_item r = l_item l \<and> r_queried r = l_queries l \<and> r_responded r = l_responded l)
      else l_result l = None)"

definition wf_lookup :: "qt_net \<Rightarrow> crypto \<Rightarrow> lookup \<Rightarrow> bool" where
  "wf_lookup Q C l \<longleftrightarrow> wf_cands Q l (l_candidates l) \<and> wf_counts l (l_candidates l) \<and> wf_asked l (l_candidates l) \<and>
     wf_found C l \<and> wf_result l (l_candidates l)"

lemma notNew_simps [simp]:
  "notNew [] = {}" "notNew (c # cs) = (if c_state c = New then {} else {c_endpoint c}) \<union> notNew cs"
  by (auto simp: notNew_def)

lemma wf_newLookup: "wf_id target \<Longrightarrow> wf_lookup Q C (newLookup kind target fam selfId allowLocal)"
  by (simp add: wf_lookup_def wf_cands_def wf_counts_def wf_asked_def wf_found_def wf_result_def wf_item_def newLookup_def
      byDistance_def noItem_def Alpha_def MaxOutstanding_def MaxQueries_def)

text \<open>Which part of the invariant reads which fields.\<close>

lemma wf_frame [simp]:
  "wf_cands Q (l\<lparr>l_candidates := x1\<rparr>) cs = wf_cands Q l cs" "wf_cands Q (l\<lparr>l_asked := x2\<rparr>) cs = wf_cands Q l cs"
  "wf_cands Q (l\<lparr>l_inFlight := x3\<rparr>) cs = wf_cands Q l cs" "wf_cands Q (l\<lparr>l_outstanding := x3\<rparr>) cs = wf_cands Q l cs"
  "wf_cands Q (l\<lparr>l_queries := x3\<rparr>) cs = wf_cands Q l cs" "wf_cands Q (l\<lparr>l_responded := x3\<rparr>) cs = wf_cands Q l cs"
  "wf_cands Q (l\<lparr>l_slowTimer := b\<rparr>) cs = wf_cands Q l cs"
  "wf_counts (l\<lparr>l_candidates := x1\<rparr>) cs = wf_counts l cs" "wf_counts (l\<lparr>l_asked := x2\<rparr>) cs = wf_counts l cs"
  "wf_counts (l\<lparr>l_slowTimer := b\<rparr>) cs = wf_counts l cs" "wf_counts (l\<lparr>l_seen := x4\<rparr>) cs = wf_counts l cs"
  "wf_asked (l\<lparr>l_candidates := x1\<rparr>) cs = wf_asked l cs" "wf_asked (l\<lparr>l_inFlight := x3\<rparr>) cs = wf_asked l cs"
  "wf_asked (l\<lparr>l_outstanding := x3\<rparr>) cs = wf_asked l cs" "wf_asked (l\<lparr>l_queries := x3\<rparr>) cs = wf_asked l cs"
  "wf_asked (l\<lparr>l_responded := x3\<rparr>) cs = wf_asked l cs" "wf_asked (l\<lparr>l_slowTimer := b\<rparr>) cs = wf_asked l cs"
  "wf_asked (l\<lparr>l_seen := x4\<rparr>) cs = wf_asked l cs"
  "wf_found C (l\<lparr>l_candidates := x1\<rparr>) = wf_found C l" "wf_found C (l\<lparr>l_asked := x2\<rparr>) = wf_found C l"
  "wf_found C (l\<lparr>l_inFlight := x3\<rparr>) = wf_found C l" "wf_found C (l\<lparr>l_outstanding := x3\<rparr>) = wf_found C l"
  "wf_found C (l\<lparr>l_queries := x3\<rparr>) = wf_found C l" "wf_found C (l\<lparr>l_responded := x3\<rparr>) = wf_found C l"
  "wf_found C (l\<lparr>l_slowTimer := b\<rparr>) = wf_found C l" "wf_found C (l\<lparr>l_seen := x4\<rparr>) = wf_found C l"
  "wf_result (l\<lparr>l_candidates := x1\<rparr>) cs = wf_result l cs" "wf_result (l\<lparr>l_asked := x2\<rparr>) cs = wf_result l cs"
  "wf_result (l\<lparr>l_slowTimer := b\<rparr>) cs = wf_result l cs" "wf_result (l\<lparr>l_seen := x4\<rparr>) cs = wf_result l cs"
  by (simp_all add: wf_cands_def wf_counts_def wf_asked_def wf_found_def wf_result_def)

lemma wf_frame_other [simp]:
  "wf_cands Q (l\<lparr>l_started := b\<rparr>) cs = wf_cands Q l cs" "wf_counts (l\<lparr>l_started := b\<rparr>) cs = wf_counts l cs"
  "wf_asked (l\<lparr>l_started := b\<rparr>) cs = wf_asked l cs" "wf_found C (l\<lparr>l_started := b\<rparr>) = wf_found C l"
  "wf_result (l\<lparr>l_started := b\<rparr>) cs = wf_result l cs" "wf_cands Q (l\<lparr>l_startedAt := x5\<rparr>) cs = wf_cands Q l cs"
  "wf_counts (l\<lparr>l_startedAt := x5\<rparr>) cs = wf_counts l cs" "wf_asked (l\<lparr>l_startedAt := x5\<rparr>) cs = wf_asked l cs"
  "wf_found C (l\<lparr>l_startedAt := x5\<rparr>) = wf_found C l" "wf_result (l\<lparr>l_startedAt := x5\<rparr>) cs = wf_result l cs"
  "wf_cands Q (l\<lparr>l_slowAfterMs := x3\<rparr>) cs = wf_cands Q l cs" "wf_counts (l\<lparr>l_slowAfterMs := x3\<rparr>) cs = wf_counts l cs"
  "wf_asked (l\<lparr>l_slowAfterMs := x3\<rparr>) cs = wf_asked l cs" "wf_found C (l\<lparr>l_slowAfterMs := x3\<rparr>) = wf_found C l"
  "wf_result (l\<lparr>l_slowAfterMs := x3\<rparr>) cs = wf_result l cs" "wf_cands Q (l\<lparr>l_queryTimeoutMs := x3\<rparr>) cs = wf_cands Q l cs"
  "wf_counts (l\<lparr>l_queryTimeoutMs := x3\<rparr>) cs = wf_counts l cs" "wf_asked (l\<lparr>l_queryTimeoutMs := x3\<rparr>) cs = wf_asked l cs"
  "wf_found C (l\<lparr>l_queryTimeoutMs := x3\<rparr>) = wf_found C l" "wf_result (l\<lparr>l_queryTimeoutMs := x3\<rparr>) cs = wf_result l cs"
  "wf_cands Q (l\<lparr>l_item := x6\<rparr>) cs = wf_cands Q l cs" "wf_counts (l\<lparr>l_item := x6\<rparr>) cs = wf_counts l cs"
  "wf_asked (l\<lparr>l_item := x6\<rparr>) cs = wf_asked l cs" "wf_cands Q (l\<lparr>l_peers := x4\<rparr>) cs = wf_cands Q l cs"
  "wf_counts (l\<lparr>l_peers := x4\<rparr>) cs = wf_counts l cs" "wf_asked (l\<lparr>l_peers := x4\<rparr>) cs = wf_asked l cs"
  "wf_cands Q (l\<lparr>l_sightings := x7\<rparr>) cs = wf_cands Q l cs" "wf_counts (l\<lparr>l_sightings := x7\<rparr>) cs = wf_counts l cs"
  "wf_asked (l\<lparr>l_sightings := x7\<rparr>) cs = wf_asked l cs"
  by (simp_all add: wf_cands_def wf_counts_def wf_asked_def wf_found_def wf_result_def)

subsection \<open>Changing candidates in place\<close>

lemma modifyCandidate_map:
  assumes "distinct (map c_endpoint cs)"
  shows "modifyCandidate e f cs = map (\<lambda>c. if c_endpoint c = e then f c else c) cs"
proof (cases "find_index (\<lambda>c. c_endpoint c = e) cs")
  case None
  then have "\<forall>c \<in> set cs. c_endpoint c \<noteq> e" by (simp add: find_index_None)
  with None show ?thesis by (simp add: modifyCandidate_def map_idI)
next
  case (Some i)
  from find_index_SomeD [OF Some] have i: "i < length cs" "c_endpoint (cs ! i) = e" by auto
  have "c_endpoint (cs ! j) = e \<longleftrightarrow> j = i" if "j < length cs" for j
    using assms i that by (auto simp: distinct_conv_nth)
  with Some i show ?thesis by (auto simp: modifyCandidate_def intro!: nth_equalityI simp: nth_list_update)
qed

lemma cnt_update: "i < length xs \<Longrightarrow> cnt P (xs[i := y]) = cnt P xs - of_bool (P (xs ! i)) + of_bool (P y)"
proof (induction xs arbitrary: i)
  case (Cons x xs)
  then show ?case by (cases i) auto
qed simp

lemma notNew_update:
  "i < length cs \<Longrightarrow> c_state (cs ! i) \<noteq> New \<Longrightarrow> c_state c \<noteq> New \<Longrightarrow> c_endpoint c = c_endpoint (cs ! i) \<Longrightarrow>
   notNew (cs[i := c]) = notNew cs"
proof (induction cs arbitrary: i)
  case (Cons x cs)
  then show ?case by (cases i) auto
qed simp

lemma finishScan_map: "(\<And>c. c_state (g c) = c_state c) \<Longrightarrow> finishScan n (map g cs) = finishScan n cs"
  by (induction n cs rule: finishScan.induct) auto

lemma sentAt_map:
  assumes "\<And>c. g c = c \<or> (\<exists>t. g c = c\<lparr>c_sentAtMs := t\<rparr>)"
  shows "wf_cands Q l (map g cs) = wf_cands Q l cs" "wf_counts l (map g cs) = wf_counts l cs"
    "wf_asked l (map g cs) = wf_asked l cs" "wf_result l (map g cs) = wf_result l cs" "notNew (map g cs) = notNew cs"
proof -
  have g [simp]: "c_id (g c) = c_id c" "c_endpoint (g c) = c_endpoint c" "c_state (g c) = c_state c" "toContact (g c) = toContact c" for c
    using assms [of c] by (auto simp: toContact_def)
  have comp [simp]: "c_endpoint \<circ> g = c_endpoint" "toContact \<circ> g = toContact" by (auto simp: fun_eq_iff)
  show "wf_cands Q l (map g cs) = wf_cands Q l cs"
    by (simp add: wf_cands_def byDistance_def sorted_wrt_map image_image)
  show "wf_counts l (map g cs) = wf_counts l cs" by (simp add: wf_counts_def filter_map comp_def)
  show n: "notNew (map g cs) = notNew cs" by (induction cs) simp_all
  then show "wf_asked l (map g cs) = wf_asked l cs" by (simp add: wf_asked_def)
  have "finishable (map g cs) n m = finishable cs n m" for n m
    by (cases "finishScan 0 cs") (simp_all add: finishable_def finishScan_map list_ex_iff)
  then show "wf_result l (map g cs) = wf_result l cs"
    by (simp add: wf_result_def filter_map take_map comp_def)
qed

lemma onSent_wf: "wf_lookup Q C l \<Longrightarrow> wf_lookup Q C (onSent now e l)"
proof -
  assume wf: "wf_lookup Q C l"
  let ?f = "\<lambda>c. if c_state c = InFlight then c\<lparr>c_sentAtMs := now\<rparr> else c"
  have cs: "modifyCandidate e ?f (l_candidates l) = map (\<lambda>c. if c_endpoint c = e then ?f c else c) (l_candidates l)"
    using wf by (intro modifyCandidate_map) (simp add: wf_lookup_def wf_cands_def)
  note same = sentAt_map [of "\<lambda>c. if c_endpoint c = e then ?f c else c"]
  have same: "wf_cands Q l' (map (\<lambda>c. if c_endpoint c = e then ?f c else c) cs) = wf_cands Q l' cs"
    "wf_counts l' (map (\<lambda>c. if c_endpoint c = e then ?f c else c) cs) = wf_counts l' cs"
    "wf_asked l' (map (\<lambda>c. if c_endpoint c = e then ?f c else c) cs) = wf_asked l' cs"
    "wf_result l' (map (\<lambda>c. if c_endpoint c = e then ?f c else c) cs) = wf_result l' cs" for l' cs
    by (rule same; auto)+
  show ?thesis using wf by (simp add: wf_lookup_def onSent_def cs same)
qed

subsection \<open>The selection of \<open>step\<close>\<close>

text \<open>What the selection may do: leave a candidate alone, or mark a new one as in flight and note its endpoint.\<close>

inductive picked :: "candidate list \<Rightarrow> candidate list \<Rightarrow> endpoint list \<Rightarrow> bool" where
  none: "picked [] [] []"
| keep: "picked cs cs' es \<Longrightarrow> picked (c # cs) (c # cs') es"
| mark: "picked cs cs' es \<Longrightarrow> c_state c = New \<Longrightarrow>
    picked (c # cs) (c\<lparr>c_state := InFlight, c_sentAtMs := 0\<rparr> # cs') (c_endpoint c # es)"

lemma picked_none: "picked cs cs []"
  by (induction cs) (auto intro: picked.intros)

lemma pick_picked: "picked cs (fst (pick budget ahead queries cs)) (snd (pick budget ahead queries cs))"
proof (induction budget ahead queries cs rule: pick.induct)
  case (2 budget ahead queries c cs)
  then show ?case by (auto simp: picked_none split: prod.splits intro: picked.intros)
qed (simp add: picked.none)

lemma pick_budget: "int (length (snd (pick budget ahead queries cs))) \<le> max 0 budget"
  by (induction budget ahead queries cs rule: pick.induct) (auto split: prod.splits)

lemma pick_queries: "queries + int (length (snd (pick budget ahead queries cs))) \<le> max queries MaxQueries"
  by (induction budget ahead queries cs rule: pick.induct) (auto split: prod.splits)

lemma picked_counts:
  assumes "picked cs cs' es"
  shows "cnt (\<lambda>c. c_state c = InFlight) cs' = cnt (\<lambda>c. c_state c = InFlight) cs + int (length es)"
    "cnt (\<lambda>c. c_state c = InFlight \<or> c_state c = Slow) cs' = cnt (\<lambda>c. c_state c = InFlight \<or> c_state c = Slow) cs + int (length es)"
    "cnt (\<lambda>c. c_state c \<noteq> New) cs' = cnt (\<lambda>c. c_state c \<noteq> New) cs + int (length es)"
    "cnt (\<lambda>c. c_state c = Responded) cs' = cnt (\<lambda>c. c_state c = Responded) cs"
  using assms by (induction rule: picked.induct) auto

lemma picked_keys:
  assumes "picked cs cs' es"
  shows "map c_id cs' = map c_id cs" "map c_endpoint cs' = map c_endpoint cs" "set es \<subseteq> c_endpoint ` {c \<in> set cs. c_state c = New}"
  using assms by (induction rule: picked.induct) auto

lemma picked_asked:
  assumes "picked cs cs' es"
  shows "notNew cs' = notNew cs \<union> set es"
  using assms by (induction rule: picked.induct) auto

lemma picked_distinct: "picked cs cs' es \<Longrightarrow> distinct (map c_endpoint cs) \<Longrightarrow> distinct es"
proof (induction rule: picked.induct)
  case (mark cs cs' es c)
  with picked_keys(3) [OF mark.hyps(1)] show ?case by auto
qed auto

lemma picked_Nil: "picked cs cs' es \<Longrightarrow> es = [] \<Longrightarrow> cs' = cs"
  by (induction rule: picked.induct) auto

lemma wf_cands_keys:
  assumes "map c_id cs' = map c_id cs" "map c_endpoint cs' = map c_endpoint cs"
  shows "wf_cands Q l cs' = wf_cands Q l cs"
proof -
  have d: "byDistance t xs = sorted_wrt (\<lambda>a b. \<not> closer t b a) (map c_id xs)" for t and xs :: "candidate list"
    by (simp add: byDistance_def sorted_wrt_map)
  have all: "(\<forall>c \<in> set xs. wf_id (c_id c) \<and> c_id c \<noteq> l_self l \<and> family Q (c_endpoint c) = l_family l \<and> isUsableRemote Q (c_endpoint c) (l_allowLocal l)) =
     ((\<forall>i \<in> set (map c_id xs). wf_id i \<and> i \<noteq> l_self l) \<and> (\<forall>e \<in> set (map c_endpoint xs). family Q e = l_family l \<and> isUsableRemote Q e (l_allowLocal l)))"
    for xs :: "candidate list" by auto
  have len: "length xs = length (map c_id xs)" for xs :: "candidate list" by simp
  show ?thesis unfolding wf_cands_def d all len image_set assms ..
qed

text \<open>Asking changes nothing but the record of queries and the times they left.\<close>

lemma ask_frame [simp]:
  "l_inFlight (ask sentNow now e l) = l_inFlight l" "l_outstanding (ask sentNow now e l) = l_outstanding l"
  "l_queries (ask sentNow now e l) = l_queries l" "l_responded (ask sentNow now e l) = l_responded l"
  "l_finished (ask sentNow now e l) = l_finished l" "l_done (ask sentNow now e l) = l_done l" "l_result (ask sentNow now e l) = l_result l"
  "map a_to (l_asked (ask sentNow now e l)) = map a_to (l_asked l) @ [e]"
  "l_started (ask sentNow now e l) = l_started l"
  by (simp_all add: ask_def onSent_def Let_def)

lemma onSent_states:
  "distinct (map c_endpoint (l_candidates l)) \<Longrightarrow>
     map c_state (l_candidates (onSent now e l)) = map c_state (l_candidates l) \<and>
     map c_endpoint (l_candidates (onSent now e l)) = map c_endpoint (l_candidates l)"
  by (auto simp: onSent_def modifyCandidate_map)

text \<open>The part of the invariant that holds while the picked queries are being handed out.\<close>

definition wf_midway :: "qt_net \<Rightarrow> crypto \<Rightarrow> endpoint list \<Rightarrow> lookup \<Rightarrow> bool" where
  "wf_midway Q C es l \<longleftrightarrow> wf_cands Q l (l_candidates l) \<and> wf_counts l (l_candidates l) \<and> wf_found C l \<and>
     \<not> l_finished l \<and> \<not> l_done l \<and> l_result l = None \<and>
     distinct (map a_to (l_asked l) @ es) \<and>
     a_to ` set (l_asked l) \<union> set es = notNew (l_candidates l)"

lemma wf_midway_Nil: "wf_midway Q C [] l \<longleftrightarrow> wf_lookup Q C l \<and> \<not> l_finished l"
  by (auto simp: wf_midway_def wf_lookup_def wf_asked_def wf_result_def)

lemma ask_midway: "wf_midway Q C (e # es) l \<Longrightarrow> wf_midway Q C es (ask sentNow now e l)"
proof -
  assume mid: "wf_midway Q C (e # es) l"
  let ?l = "l\<lparr>l_asked := l_asked l @ [\<lparr>a_to = e, a_method = methodOf (l_kind l),
            a_arguments = emplace (keyOf (l_kind l)) (mkString (toBytes (l_target l))) [], a_timeoutMs = l_queryTimeoutMs l\<rparr>]\<rparr>"
  let ?g = "\<lambda>c. if c_endpoint c = e then if c_state c = InFlight then c\<lparr>c_sentAtMs := now\<rparr> else c else c"
  have asked: "wf_midway Q C es ?l" using mid by (auto simp: wf_midway_def)
  have cs: "l_candidates (onSent now e ?l) = map ?g (l_candidates l)"
    using mid by (simp add: onSent_def wf_midway_def wf_cands_def modifyCandidate_map)
  have same: "wf_cands Q l' (map ?g xs) = wf_cands Q l' xs" "wf_counts l' (map ?g xs) = wf_counts l' xs"
    "notNew (map ?g xs) = notNew xs" for l' xs by (rule sentAt_map; auto)+
  have "onSent now e ?l = ?l\<lparr>l_candidates := map ?g (l_candidates l)\<rparr>" using cs by (simp add: onSent_def)
  with asked have "wf_midway Q C es (onSent now e ?l)"
    unfolding wf_midway_def by (simp add: same)
  with asked show ?thesis by (simp add: ask_def Let_def)
qed

lemma asks_midway: "wf_midway Q C es l \<Longrightarrow> wf_midway Q C [] (fold (ask sentNow now) es l)"
  by (induction es arbitrary: l) (simp_all add: ask_midway)

subsection \<open>One step\<close>

lemma collectClosest_closest:
  "length acc \<le> lookupK \<Longrightarrow>
   fst (collectClosest acc h cs) = acc @ map toContact (take (lookupK - length acc) (filter (\<lambda>c. c_state c = Responded) cs))"
proof (induction acc h cs rule: collectClosest.induct)
  case (2 closest hops c cs)
  show ?case
  proof (cases "length closest \<ge> lookupK")
    case False
    then have "lookupK - length closest = Suc (lookupK - Suc (length closest))" by simp
    with 2 False show ?thesis by (cases "c_state c = Responded") (simp_all add: toContact_def)
  qed (use 2 in simp)
qed simp

lemma finish_wf: "wf_lookup Q C l \<Longrightarrow> canFinish l \<Longrightarrow> wf_lookup Q C (finish now l)"
  using collectClosest_closest [of "[]" "- 1" "l_candidates l"]
  by (auto simp: finish_def wf_lookup_def wf_cands_def wf_counts_def wf_asked_def wf_found_def wf_result_def canFinish_def split: prod.splits)

lemma start_picks:
  assumes wf: "wf_lookup Q C l" and run: "\<not> l_finished l"
    and p: "pick (min (Alpha - l_inFlight l) (MaxOutstanding - l_outstanding l)) 0 (l_queries l) (l_candidates l) = (cs, es)"
  shows "wf_midway Q C es (l\<lparr>l_candidates := cs, l_inFlight := l_inFlight l + int (length es),
     l_outstanding := l_outstanding l + int (length es), l_queries := l_queries l + int (length es)\<rparr>)"
proof -
  let ?b = "min (Alpha - l_inFlight l) (MaxOutstanding - l_outstanding l)"
  have pk: "picked (l_candidates l) cs es" using pick_picked [of "l_candidates l" ?b 0 "l_queries l"] p by simp
  have len: "int (length es) \<le> max 0 ?b" "l_queries l + int (length es) \<le> max (l_queries l) MaxQueries"
    using pick_budget [of ?b 0 "l_queries l" "l_candidates l"] pick_queries [of "l_queries l" ?b 0 "l_candidates l"] p by simp_all
  have w: "wf_cands Q l (l_candidates l)" "wf_counts l (l_candidates l)" "wf_asked l (l_candidates l)" "wf_found C l" "wf_result l (l_candidates l)"
    using wf by (simp_all add: wf_lookup_def)
  have d: "distinct (map c_endpoint (l_candidates l))" using w(1) by (simp add: wf_cands_def)
  have "set es \<inter> notNew (l_candidates l) = {}"
    using picked_keys(3) [OF pk] d by (force simp: notNew_def distinct_map dest: inj_onD)
  with w(3) picked_distinct [OF pk d] have "distinct (map a_to (l_asked l) @ es)" by (auto simp: wf_asked_def)
  moreover have "wf_cands Q l cs" using w(1) wf_cands_keys [OF picked_keys(1,2) [OF pk]] by simp
  moreover have "wf_counts (l\<lparr>l_inFlight := l_inFlight l + int (length es),
     l_outstanding := l_outstanding l + int (length es), l_queries := l_queries l + int (length es)\<rparr>) cs"
    using w(2) picked_counts [OF pk] len by (auto simp: wf_counts_def)
  ultimately show ?thesis
    using w(3-5) run picked_asked [OF pk]
    by (auto simp: wf_midway_def wf_asked_def wf_result_def wf_counts_def)
qed

lemma step_wf:
  assumes wf: "wf_lookup Q C l"
  shows "wf_lookup Q C (step sentNow now l)"
proof (cases "l_finished l")
  case False
  obtain cs es where p: "pick (min (Alpha - l_inFlight l) (MaxOutstanding - l_outstanding l)) 0 (l_queries l) (l_candidates l) = (cs, es)"
    by (cases "pick (min (Alpha - l_inFlight l) (MaxOutstanding - l_outstanding l)) 0 (l_queries l) (l_candidates l)")
  let ?l1 = "fold (ask sentNow now) es (l\<lparr>l_candidates := cs, l_inFlight := l_inFlight l + int (length es),
     l_outstanding := l_outstanding l + int (length es), l_queries := l_queries l + int (length es)\<rparr>)"
  have w1: "wf_lookup Q C ?l1" using asks_midway [OF start_picks [OF wf False p]] by (simp add: wf_midway_Nil)
  then have "wf_lookup Q C (?l1\<lparr>l_slowTimer := True\<rparr>)" by (simp add: wf_lookup_def)
  with w1 show ?thesis using False by (simp add: step_def p Let_def finish_wf)
qed (use wf in \<open>simp add: step_def\<close>)

lemma finishScan_settled:
  "\<forall>c \<in> set cs. c_state c \<noteq> InFlight \<and> c_state c \<noteq> Slow \<Longrightarrow> \<exists>r. finishScan n cs = Some r"
  by (induction n cs rule: finishScan.induct) auto

lemma pick_stuck:
  "snd (pick budget ahead queries cs) = [] \<Longrightarrow> 0 < budget \<Longrightarrow> queries < MaxQueries \<Longrightarrow> list_ex (\<lambda>c. c_state c = New) cs \<Longrightarrow>
   \<forall>c \<in> set cs. c_state c \<noteq> InFlight \<and> c_state c \<noteq> Slow \<Longrightarrow> \<exists>r. finishScan ahead cs = Some r \<and> lookupK \<le> r"
proof (induction budget ahead queries cs rule: pick.induct)
  case (2 budget ahead queries c cs)
  then show ?case by (cases "c_state c") (auto split: prod.splits if_splits)
qed simp

lemma fold_ask_frame:
  "l_outstanding (fold (ask sentNow now) es l) = l_outstanding l" "l_queries (fold (ask sentNow now) es l) = l_queries l"
  by (induction es arbitrary: l) simp_all

lemma step_moves:
  assumes wf: "wf_lookup Q C l"
  shows "l_finished (step sentNow now l) \<or> 0 < l_outstanding (step sentNow now l)"
proof (rule ccontr)
  assume stuck: "\<not> (l_finished (step sentNow now l) \<or> 0 < l_outstanding (step sentNow now l))"
  then have run: "\<not> l_finished l" by (auto simp: step_def)
  obtain cs es where p: "pick (min (Alpha - l_inFlight l) (MaxOutstanding - l_outstanding l)) 0 (l_queries l) (l_candidates l) = (cs, es)"
    by (cases "pick (min (Alpha - l_inFlight l) (MaxOutstanding - l_outstanding l)) 0 (l_queries l) (l_candidates l)")
  have counts: "l_outstanding l = cnt (\<lambda>c. c_state c = InFlight \<or> c_state c = Slow) (l_candidates l)"
    "l_inFlight l = cnt (\<lambda>c. c_state c = InFlight) (l_candidates l)" using wf by (simp_all add: wf_lookup_def wf_counts_def)
  have "l_outstanding l + int (length es) \<le> 0"
    using stuck run by (auto simp: step_def p Let_def fold_ask_frame finish_def split: if_splits prod.splits)
  with counts(1) have none: "int (length es) = 0" "l_outstanding l = 0" by linarith+
  then have es: "es = []" by simp
  have idle: "\<forall>c \<in> set (l_candidates l). c_state c \<noteq> InFlight \<and> c_state c \<noteq> Slow"
    using counts(1) none(2) by (auto simp: filter_empty_conv)
  then have "l_inFlight l = 0" using counts(2) by (auto simp: filter_empty_conv)
  then have budget: "0 < min (Alpha - l_inFlight l) (MaxOutstanding - l_outstanding l)"
    using none(2) by (simp add: Alpha_def MaxOutstanding_def)
  have cs: "cs = l_candidates l"
    using picked_Nil pick_picked [of "l_candidates l" _ 0 "l_queries l"] p es by (metis fst_conv snd_conv)
  obtain r where r: "finishScan 0 (l_candidates l) = Some r" using finishScan_settled [OF idle] by blast
  have "finishable (l_candidates l) (l_outstanding l) (l_queries l)"
  proof (cases "l_queries l < MaxQueries \<and> list_ex (\<lambda>c. c_state c = New) (l_candidates l)")
    case True
    with pick_stuck [OF _ budget _ _ idle, of 0 "l_queries l"] p es r have "lookupK \<le> r" by auto
    with r show ?thesis by (simp add: finishable_def)
  qed (use r none(2) in \<open>auto simp: finishable_def\<close>)
  then have "l_finished (step sentNow now l)"
    unfolding step_def p es cs Let_def prod.case using run none(2) by (simp add: canFinish_def finish_def split: prod.splits)
  with stuck show False by simp
qed

subsection \<open>Adding candidates\<close>

interpretation nearestCandidate: strict_weak_order "\<lambda>c. length (c_id c) = length t" "\<lambda>a b. closer t (c_id a) (c_id b)" for t
  using nearer.lt_asym nearer.lt_negtrans by unfold_locales blast+

lemma trim_cases:
  "length cs \<le> Suc MaxCandidates \<Longrightarrow> n \<le> length cs \<Longrightarrow>
   (trimFrom n cs = cs \<and> ((\<exists>j < n. c_state (cs ! j) = New) \<longrightarrow> length cs \<le> MaxCandidates)) \<or>
   (\<exists>j < length cs. c_state (cs ! j) = New \<and> trimFrom n cs = remove_nth j cs \<and> length cs = Suc MaxCandidates)"
proof (induction n)
  case (Suc n)
  show ?case
  proof (cases "length cs > MaxCandidates")
    case True
    then have len: "length cs = Suc MaxCandidates" using Suc.prems(1) by simp
    show ?thesis
    proof (cases "c_state (cs ! n) = New")
      case New: True
      have "trimFrom n (remove_nth n cs) = remove_nth n cs"
        using Suc.prems len by (cases n) simp_all
      with New True len Suc.prems(2) show ?thesis by (intro disjI2 exI [of _ n]) simp
    next
      case False
      with Suc True len show ?thesis by (auto simp: less_Suc_eq)
    qed
  qed simp
qed simp

lemma sorted_remove_nth: "sorted_wrt P xs \<Longrightarrow> sorted_wrt P (remove_nth i xs)"
proof -
  assume s: "sorted_wrt P xs"
  have "\<forall>x \<in> set (take i xs). \<forall>y \<in> set (drop i xs). P x y"
    using s sorted_wrt_append [of P "take i xs" "drop i xs"] by simp
  moreover have "set (drop (Suc i) xs) \<subseteq> set (drop i xs)" by (simp add: set_drop_subset_set_drop)
  ultimately show ?thesis using s by (auto simp: remove_nth_def sorted_wrt_append sorted_wrt_drop sorted_wrt_take)
qed

lemma notNew_remove: "i < length cs \<Longrightarrow> c_state (cs ! i) = New \<Longrightarrow> notNew (remove_nth i cs) = notNew cs"
  by (subst (2) remove_nth_split [of i cs]) (auto simp: remove_nth_def notNew_def)

lemma cnt_remove_nth: "i < length xs \<Longrightarrow> \<not> P (xs ! i) \<Longrightarrow> cnt P (remove_nth i xs) = cnt P xs"
  by (subst (2) remove_nth_split [of i xs]) (simp_all add: remove_nth_def)

lemma replace_cands_wf:
  assumes "wf_lookup Q C l" "\<not> l_finished l" "byDistance (l_target l) cs" "distinct (map c_endpoint cs)" "length cs \<le> MaxCandidates"
    and sub: "set cs \<subseteq> insert c (set (l_candidates l))"
    and c: "wf_id (c_id c)" "c_id c \<noteq> l_self l" "family Q (c_endpoint c) = l_family l" "isUsableRemote Q (c_endpoint c) (l_allowLocal l)"
    and cnts: "\<And>P. (\<And>c. P c \<Longrightarrow> c_state c \<noteq> New) \<Longrightarrow> cnt P cs = cnt P (l_candidates l)" and nn: "notNew cs = notNew (l_candidates l)"
  shows "wf_lookup Q C (l\<lparr>l_seen := l_seen l @ [c_endpoint c], l_candidates := cs\<rparr>)"
proof -
  have w: "wf_cands Q l (l_candidates l)" "wf_counts l (l_candidates l)" "wf_asked l (l_candidates l)" "wf_found C l" "wf_result l (l_candidates l)"
    using assms(1) by (simp_all add: wf_lookup_def)
  have "cnt (\<lambda>c. c_state c = InFlight) cs = cnt (\<lambda>c. c_state c = InFlight) (l_candidates l)"
    "cnt (\<lambda>c. c_state c = InFlight \<or> c_state c = Slow) cs = cnt (\<lambda>c. c_state c = InFlight \<or> c_state c = Slow) (l_candidates l)"
    "cnt (\<lambda>c. c_state c \<noteq> New) cs = cnt (\<lambda>c. c_state c \<noteq> New) (l_candidates l)"
    "cnt (\<lambda>c. c_state c = Responded) cs = cnt (\<lambda>c. c_state c = Responded) (l_candidates l)"
    by (rule cnts; auto)+
  then have "wf_counts l cs" using w(2) unfolding wf_counts_def by simp
  moreover have "wf_cands Q (l\<lparr>l_seen := l_seen l @ [c_endpoint c]\<rparr>) cs"
    using w(1) assms(3-5) sub c by (auto simp: wf_cands_def)
  ultimately show ?thesis using w(3-5) assms(2) nn by (simp add: wf_lookup_def wf_asked_def wf_result_def)
qed

text \<open>Adding a candidate: the new one enters in its place, and at most one that was not asked yet leaves.\<close>

lemma insertCandidate_wf:
  assumes wf: "wf_lookup Q C l" and nid: "wf_id nid" and ins: "insertCandidate Q nid e hops l = Some l'"
  shows "wf_lookup Q C l'"
proof -
  let ?c = "\<lparr>c_id = nid, c_endpoint = e, c_state = New, c_token = [], c_hops = hops, c_sentAtMs = 0\<rparr>"
  let ?lt = "\<lambda>a b. closer (l_target l) (c_id a) (c_id b)"
  let ?cs = "insert_sorted ?lt ?c (l_candidates l)"
  have g: "\<not> l_finished l" "nid \<noteq> l_self l" "family Q e = l_family l" "isUsableRemote Q e (l_allowLocal l)" "e \<notin> set (l_seen l)"
    and l': "l' = l\<lparr>l_seen := l_seen l @ [e], l_candidates := trimFrom (length ?cs) ?cs\<rparr>"
    using ins by (auto simp: insertCandidate_def Let_def split: if_splits)
  have w: "wf_cands Q l (l_candidates l)" "wf_counts l (l_candidates l)" "wf_asked l (l_candidates l)" "wf_found C l" "wf_result l (l_candidates l)"
    using wf by (simp_all add: wf_lookup_def)
  have sorted: "byDistance (l_target l) ?cs"
    using w(1) nid unfolding byDistance_def by (intro nearestCandidate.sorted_insert) (auto simp: wf_cands_def byDistance_def wf_id_def)
  have new: "?c \<in> set ?cs" by simp
  then obtain k where k: "k < length ?cs" "?cs ! k = ?c" by (metis in_set_conv_nth)
  have len: "length ?cs \<le> Suc MaxCandidates" using w(1) by (simp add: wf_cands_def)
  have dist: "distinct (map c_endpoint ?cs)"
  proof -
    have "mset (map c_endpoint ?cs) = add_mset e (mset (map c_endpoint (l_candidates l)))" by simp
    moreover have "distinct (e # map c_endpoint (l_candidates l))" using w(1) g(5) by (auto simp: wf_cands_def)
    ultimately show ?thesis using mset_eq_imp_distinct_iff by (metis mset.simps(2))
  qed
  have cnts: "cnt P ?cs = cnt P (l_candidates l)" if "\<not> P ?c" for P using filter_insert_sorted [of P ?c, OF that] by simp
  have nn: "notNew ?cs = notNew (l_candidates l)" by (auto simp: notNew_def)
  note replace = replace_cands_wf [where c = ?c, OF wf g(1), simplified, OF _ _ _ _ nid g(2-4), folded l']
  from trim_cases [OF len order_refl] show ?thesis
  proof (elim disjE conjE exE)
    assume t: "trimFrom (length ?cs) ?cs = ?cs" and small: "(\<exists>j < length ?cs. c_state (?cs ! j) = New) \<longrightarrow> length ?cs \<le> MaxCandidates"
    have "length ?cs \<le> MaxCandidates" using small k by (metis candidate.select_convs(3))
    show ?thesis unfolding l' t
    proof (rule replace)
      show "length (filter P ?cs) = length (filter P (l_candidates l))" if "\<And>c. P c \<Longrightarrow> c_state c \<noteq> New" for P
        using cnts [of P] that [of ?c] by auto
    qed (use sorted dist nn \<open>length ?cs \<le> MaxCandidates\<close> in auto)
  next
    fix j
    assume j: "j < length ?cs" "c_state (?cs ! j) = New" "trimFrom (length ?cs) ?cs = remove_nth j ?cs" "length ?cs = Suc MaxCandidates"
    show ?thesis unfolding l' j(3)
    proof (rule replace)
      show "byDistance (l_target l) (remove_nth j ?cs)" using sorted unfolding byDistance_def by (rule sorted_remove_nth)
      show "distinct (map c_endpoint (remove_nth j ?cs))" using dist by (simp add: remove_nth_map distinct_remove_nth)
      show "length (remove_nth j ?cs) \<le> MaxCandidates" using j(1,4) by simp
      show "set (remove_nth j ?cs) \<subseteq> insert ?c (set (l_candidates l))" using set_remove_nth [of j ?cs] by simp
      show "notNew (remove_nth j ?cs) = notNew (l_candidates l)" using notNew_remove [OF j(1,2)] nn by simp
      show "length (filter P (remove_nth j ?cs)) = length (filter P (l_candidates l))" if "\<And>c. P c \<Longrightarrow> c_state c \<noteq> New" for P
        using cnt_remove_nth [OF j(1), of P] cnts [of P] that j(2) by fastforce
    qed
  qed
qed

lemma addCandidate_wf: "wf_lookup Q C l \<Longrightarrow> wf_id nid \<Longrightarrow> wf_lookup Q C (addCandidate Q sentNow now nid e hops l)"
  by (auto simp: addCandidate_def insertCandidate_wf step_wf split: option.splits)

subsection \<open>Replies and slow queries\<close>

lemma start_wf: "wf_lookup Q C l \<Longrightarrow> wf_lookup Q C (start sentNow now l)"
  unfolding start_def
  by (rule step_wf) (simp add: wf_lookup_def)

lemma setTimeouts_wf: "wf_lookup Q C l \<Longrightarrow> wf_lookup Q C (setTimeouts slowAfter queryTimeout l)"
  by (simp add: setTimeouts_def Let_def wf_lookup_def)

lemma collectItem_cases:
  "collectItem C reply l = l \<or> (\<exists>key sig sequence raw. collectItem C reply l = acceptMutable C key sig sequence raw l) \<or>
   (\<exists>raw. collectItem C reply l = acceptImmutable C raw l)"
proof (cases "find_key (body (rr_message reply)) (ascii ''v'')")
  case (Some v)
  then show ?thesis
    by (cases "rawSpan v (rr_datagram reply) = []"; cases "stringAt (body (rr_message reply)) (ascii ''k'')";
        cases "stringAt (body (rr_message reply)) (ascii ''sig'')"; cases "integerAt (body (rr_message reply)) (ascii ''seq'')")
      (auto simp: collectItem_def Let_def)
qed (simp add: collectItem_def)

lemma acceptMutable_item:
  "wf_item C (l_target l) (l_salt l) (l_item l) \<Longrightarrow> \<exists>i. acceptMutable C key sig sequence raw l = l\<lparr>l_item := i\<rparr> \<and> wf_item C (l_target l) (l_salt l) i"
proof (cases "acceptMutable C key sig sequence raw l = l")
  case True
  then show "wf_item C (l_target l) (l_salt l) (l_item l) \<Longrightarrow> ?thesis" by (intro exI [of _ "l_item l"]) simp
next
  case False
  then show ?thesis
    by (intro exI [of _ "\<lparr>i_found = True, i_isMutable = True, i_value = raw, i_publicKey = key, i_signature = sig, i_sequence = sequence\<rparr>"])
      (auto simp: acceptMutable_def wf_item_def split: if_splits)
qed

lemma acceptImmutable_item:
  "wf_item C (l_target l) (l_salt l) (l_item l) \<Longrightarrow> \<exists>i. acceptImmutable C raw l = l\<lparr>l_item := i\<rparr> \<and> wf_item C (l_target l) (l_salt l) i"
proof (cases "acceptImmutable C raw l = l")
  case True
  then show "wf_item C (l_target l) (l_salt l) (l_item l) \<Longrightarrow> ?thesis" by (intro exI [of _ "l_item l"]) simp
next
  case False
  then show ?thesis
    by (intro exI [of _ "(l_item l)\<lparr>i_found := True, i_isMutable := False, i_value := raw\<rparr>"])
      (auto simp: acceptImmutable_def wf_item_def split: if_splits)
qed

lemma collectItem_item:
  assumes "wf_item C (l_target l) (l_salt l) (l_item l)"
  shows "\<exists>i. collectItem C reply l = l\<lparr>l_item := i\<rparr> \<and> wf_item C (l_target l) (l_salt l) i"
  using collectItem_cases [of C reply l]
proof (elim disjE exE)
  assume "collectItem C reply l = l"
  with assms show ?thesis by (intro exI [of _ "l_item l"]) simp
qed (use acceptMutable_item acceptImmutable_item assms in metis)+

lemma collectPeer_wf: "wf_lookup Q C l \<Longrightarrow> \<not> l_finished l \<Longrightarrow> wf_lookup Q C (collectPeer source peer l)"
  by (simp add: collectPeer_def Let_def wf_lookup_def wf_found_def wf_result_def)

lemma collectPeer_frame [simp]: "l_finished (collectPeer source peer l) = l_finished l"
  by (simp add: collectPeer_def Let_def)

lemma collectPeers_wf:
  "wf_lookup Q C l \<Longrightarrow> \<not> l_finished l \<Longrightarrow>
     wf_lookup Q C (fold (collectPeer source) peers l) \<and> \<not> l_finished (fold (collectPeer source) peers l)"
  by (induction peers arbitrary: l) (simp_all add: collectPeer_wf)

lemma collectItem_wf: "wf_lookup Q C l \<Longrightarrow> \<not> l_finished l \<Longrightarrow> wf_lookup Q C (collectItem C reply l) \<and> \<not> l_finished (collectItem C reply l)"
proof -
  assume wf: "wf_lookup Q C l" and run: "\<not> l_finished l"
  then have "wf_item C (l_target l) (l_salt l) (l_item l)" by (simp add: wf_lookup_def wf_found_def)
  then obtain i where i: "collectItem C reply l = l\<lparr>l_item := i\<rparr>" "wf_item C (l_target l) (l_salt l) i"
    using collectItem_item by blast
  from wf run i(2) show ?thesis
    by (simp add: i(1) wf_lookup_def wf_found_def wf_result_def)
qed

lemma foundNodes_wf: "n \<in> set (foundNodes Q fam bdy) \<Longrightarrow> wf_id (cn_id n)"
  by (auto simp: foundNodes_def decodeNodes_def wf_node_def dest: decodeEntries_wf split: option.splits)

lemma referrals_wf:
  "wf_lookup Q C l \<Longrightarrow> (\<And>n. n \<in> set ns \<Longrightarrow> wf_id (cn_id n)) \<Longrightarrow>
   wf_lookup Q C (fold (\<lambda>n l'. case insertCandidate Q (cn_id n) (cn_endpoint n) hops l' of None \<Rightarrow> l' | Some l'' \<Rightarrow> l'') ns l)"
proof (induction ns arbitrary: l)
  case (Cons n ns)
  have "wf_lookup Q C (case insertCandidate Q (cn_id n) (cn_endpoint n) hops l of None \<Rightarrow> l | Some l'' \<Rightarrow> l'')"
    using Cons.prems(1) insertCandidate_wf [OF Cons.prems(1) Cons.prems(2) [of n]] by (auto split: option.splits)
  with Cons show ?case by simp
qed simp

lemma learn_wf: "wf_lookup Q C l \<Longrightarrow> \<not> l_finished l \<Longrightarrow> wf_lookup Q C (learn Q C e hops reply l)"
proof -
  assume wf: "wf_lookup Q C l" and run: "\<not> l_finished l"
  define l1 where "l1 = (if l_kind l = GetItem then collectItem C reply l else l)"
  define l2 where "l2 = (if l_kind l = GetPeers then fold (collectPeer e)
     (decodePeers Q (listAt (body (rr_message reply)) (ascii ''values'')) (l_family l)) l1 else l1)"
  have w1: "wf_lookup Q C l1" "\<not> l_finished l1" using collectItem_wf [OF wf run] wf run by (simp_all add: l1_def)
  have "wf_lookup Q C l2" using collectPeers_wf [OF w1] w1 by (simp add: l2_def)
  then show ?thesis
    unfolding learn_def Let_def l1_def [symmetric] l2_def [symmetric] by (rule referrals_wf) (rule foundNodes_wf)
qed

text \<open>An outstanding query that ends.\<close>

lemma settle_wf:
  assumes wf: "wf_lookup Q C l" and run: "\<not> l_finished l" and i: "i < length (l_candidates l)"
    and c: "c = l_candidates l ! i" "c_state c = InFlight \<or> c_state c = Slow"
    and c': "c_id c' = c_id c" "c_endpoint c' = c_endpoint c" "c_state c' = Failed \<or> c_state c' = Responded"
  shows "wf_lookup Q C (l\<lparr>l_inFlight := (if c_state c = InFlight then l_inFlight l - 1 else l_inFlight l),
     l_outstanding := l_outstanding l - 1, l_candidates := (l_candidates l)[i := c'],
     l_responded := l_responded l + of_bool (c_state c' = Responded)\<rparr>)"
proof -
  have w: "wf_cands Q l (l_candidates l)" "wf_counts l (l_candidates l)" "wf_asked l (l_candidates l)" "wf_found C l" "wf_result l (l_candidates l)"
    using wf by (simp_all add: wf_lookup_def)
  have keys: "wf_cands Q l ((l_candidates l)[i := c'])"
    using w(1) wf_cands_keys [of "(l_candidates l)[i := c']" "l_candidates l"] i c(1) c' by (simp add: map_update list_update_same_conv)
  have "notNew ((l_candidates l)[i := c']) = notNew (l_candidates l)"
    using i c c' by (intro notNew_update) auto
  then have asked: "wf_asked l ((l_candidates l)[i := c'])" using w(3) by (simp add: wf_asked_def)
  have counts: "wf_counts (l\<lparr>l_inFlight := (if c_state c = InFlight then l_inFlight l - 1 else l_inFlight l),
     l_outstanding := l_outstanding l - 1, l_responded := l_responded l + of_bool (c_state c' = Responded)\<rparr>) ((l_candidates l)[i := c'])"
    using w(2) cnt_update [OF i, of _ c'] c c'(3) unfolding wf_counts_def by auto
  then show ?thesis using keys asked w(4,5) run
    by (simp add: wf_lookup_def wf_result_def wf_counts_def)
qed

lemma onReply_wf:
  assumes wf: "wf_lookup Q C l"
  shows "wf_lookup Q C (onReply Q C sentNow now e reply l)"
proof (cases "l_finished l \<or> find_index (\<lambda>c. c_endpoint c = e) (l_candidates l) = None")
  case True
  with wf show ?thesis by (auto simp: onReply_def)
next
  case False
  then obtain i where i: "find_index (\<lambda>c. c_endpoint c = e) (l_candidates l) = Some i" and run: "\<not> l_finished l" by auto
  define c where "c = l_candidates l ! i"
  have il: "i < length (l_candidates l)" using find_index_SomeD [OF i] by simp
  show ?thesis
  proof (cases "c_state c = InFlight \<or> c_state c = Slow")
    case out: True
    note settle = settle_wf [OF wf run il c_def out]
    show ?thesis
    proof (cases "rr_status reply = ResponseReply")
      case True
      let ?c = "c\<lparr>c_state := Responded, c_token := case stringAt (body (rr_message reply)) (ascii ''token'') of Some t \<Rightarrow> t | None \<Rightarrow> c_token c\<rparr>"
      from settle [of ?c] have s: "wf_lookup Q C (l\<lparr>l_inFlight := (if c_state c = InFlight then l_inFlight l - 1 else l_inFlight l),
         l_outstanding := l_outstanding l - 1, l_candidates := (l_candidates l)[i := ?c], l_responded := l_responded l + 1\<rparr>)" by simp
      then have "wf_lookup Q C (step sentNow now (learn Q C e (c_hops c) reply
         (l\<lparr>l_inFlight := (if c_state c = InFlight then l_inFlight l - 1 else l_inFlight l),
         l_outstanding := l_outstanding l - 1, l_candidates := (l_candidates l)[i := ?c], l_responded := l_responded l + 1\<rparr>)))"
        using run by (intro step_wf learn_wf) simp_all
      then show ?thesis using wf run out True by (simp add: onReply_def i Let_def flip: c_def)
    next
      case False
      let ?l = "l\<lparr>l_inFlight := (if c_state c = InFlight then l_inFlight l - 1 else l_inFlight l),
         l_outstanding := l_outstanding l - 1, l_candidates := (l_candidates l)[i := c\<lparr>c_state := Failed\<rparr>]\<rparr>"
      have "?l\<lparr>l_responded := l_responded l + 0\<rparr> = ?l" by (rule lookup.equality) simp_all
      with settle [of "c\<lparr>c_state := Failed\<rparr>"] have "wf_lookup Q C (step sentNow now ?l)" by (intro step_wf) simp
      then show ?thesis using wf run out False by (simp add: onReply_def i Let_def flip: c_def)
    qed
  next
    case False
    with wf i run show ?thesis by (simp add: onReply_def Let_def c_def)
  qed
qed

lemma slow_counts:
  fixes P :: "candidate \<Rightarrow> bool"
  assumes "\<And>c. P c \<Longrightarrow> c_state c = InFlight"
  shows "cnt (\<lambda>c. c_state c = InFlight) (map (\<lambda>c. if P c then c\<lparr>c_state := Slow\<rparr> else c) cs) = cnt (\<lambda>c. c_state c = InFlight) cs - cnt P cs"
    "cnt (\<lambda>c. c_state c = InFlight \<or> c_state c = Slow) (map (\<lambda>c. if P c then c\<lparr>c_state := Slow\<rparr> else c) cs) = cnt (\<lambda>c. c_state c = InFlight \<or> c_state c = Slow) cs"
    "cnt (\<lambda>c. c_state c \<noteq> New) (map (\<lambda>c. if P c then c\<lparr>c_state := Slow\<rparr> else c) cs) = cnt (\<lambda>c. c_state c \<noteq> New) cs"
    "cnt (\<lambda>c. c_state c = Responded) (map (\<lambda>c. if P c then c\<lparr>c_state := Slow\<rparr> else c) cs) = cnt (\<lambda>c. c_state c = Responded) cs"
    "notNew (map (\<lambda>c. if P c then c\<lparr>c_state := Slow\<rparr> else c) cs) = notNew cs"
  using assms by (induction cs) auto

lemma checkSlow_wf:
  assumes wf: "wf_lookup Q C l"
  shows "wf_lookup Q C (checkSlow sentNow now l)"
proof (cases "l_finished l")
  case False
  have sl: "isSlowNow now l c \<Longrightarrow> c_state c = InFlight" for c by (simp add: isSlowNow_def)
  let ?cs = "map (\<lambda>c. if isSlowNow now l c then c\<lparr>c_state := Slow\<rparr> else c) (l_candidates l)"
  define l1 where "l1 = l\<lparr>l_candidates := ?cs, l_inFlight := l_inFlight l - cnt (isSlowNow now l) (l_candidates l)\<rparr>"
  have "wf_cands Q l ?cs = wf_cands Q l (l_candidates l)" by (rule wf_cands_keys) auto
  then have w: "wf_lookup Q C l1" using wf False slow_counts [of "isSlowNow now l", OF sl]
    by (simp add: l1_def wf_lookup_def wf_counts_def wf_asked_def wf_result_def)
  then have "wf_lookup Q C (l1\<lparr>l_slowTimer := False\<rparr>)" by (simp add: wf_lookup_def)
  with w show ?thesis using False unfolding checkSlow_def Let_def l1_def [symmetric] by (simp add: step_wf)
qed (use wf in \<open>simp add: checkSlow_def\<close>)

section \<open>Properties\<close>

text \<open>A lookup as \<open>DhtNode::startLookup\<close> sets it up, and the events that drive it, in any order.\<close>

inductive lookupReachable :: "qt_net \<Rightarrow> crypto \<Rightarrow> lookup \<Rightarrow> bool" for Q C where
  created: "wf_id target \<Longrightarrow> lookupReachable Q C (setTimeouts slowAfter timeout (setSalt salt (newLookup kind target fam selfId allowLocal)))"
| added: "lookupReachable Q C l \<Longrightarrow> wf_id nid \<Longrightarrow> lookupReachable Q C (addCandidate Q sentNow now nid e hops l)"
| started: "lookupReachable Q C l \<Longrightarrow> lookupReachable Q C (start sentNow now l)"
| sent: "lookupReachable Q C l \<Longrightarrow> lookupReachable Q C (onSent now e l)"
| slowChecked: "lookupReachable Q C l \<Longrightarrow> lookupReachable Q C (checkSlow sentNow now l)"
| replied: "lookupReachable Q C l \<Longrightarrow> lookupReachable Q C (onReply Q C sentNow now e reply l)"

lemma setSalt_new_wf: "wf_id target \<Longrightarrow> wf_lookup Q C (setSalt salt (newLookup kind target fam selfId allowLocal))"
  by (simp add: wf_lookup_def wf_cands_def wf_counts_def wf_asked_def wf_found_def wf_result_def wf_item_def newLookup_def
      byDistance_def noItem_def Alpha_def MaxOutstanding_def MaxQueries_def setSalt_def)

lemma lookupReachable_wf: "lookupReachable Q C l \<Longrightarrow> wf_lookup Q C l"
  by (induction rule: lookupReachable.induct)
    (simp_all add: setTimeouts_wf setSalt_new_wf addCandidate_wf start_wf onSent_wf checkSlow_wf onReply_wf)

lemma asked_few:
  assumes "wf_lookup Q C l"
  shows "length (l_asked l) \<le> MaxCandidates"
proof -
  have "length (l_asked l) = card (notNew (l_candidates l))"
    using assms distinct_card [of "map a_to (l_asked l)"] by (simp add: wf_lookup_def wf_asked_def)
  also have "\<dots> \<le> card (set (l_candidates l))"
    unfolding notNew_def by (rule order_trans [OF card_image_le card_mono]) auto
  also have "\<dots> \<le> length (l_candidates l)" by (rule card_length)
  finally show ?thesis using assms by (simp add: wf_lookup_def wf_cands_def)
qed

text \<open>The scan of \<open>canFinish\<close>: nothing outstanding stands before the responders it counted.\<close>

lemma finishScan_split:
  "finishScan n cs = Some r \<Longrightarrow> n \<le> lookupK \<Longrightarrow>
   \<exists>pre post. cs = pre @ post \<and> (\<forall>c \<in> set pre. c_state c \<noteq> InFlight \<and> c_state c \<noteq> Slow) \<and>
     r = n + length (filter (\<lambda>c. c_state c = Responded) pre) \<and> (post = [] \<or> lookupK \<le> r)"
proof (induction n cs rule: finishScan.induct)
  case (2 n c cs)
  show ?case
  proof (cases "lookupK \<le> n")
    case False
    let ?m = "if c_state c = Responded then n + 1 else n"
    have "c_state c \<noteq> InFlight" "c_state c \<noteq> Slow" "finishScan ?m cs = Some r"
      using 2(3) False by (auto split: if_splits)
    moreover from this obtain pre post where "cs = pre @ post" "\<forall>c \<in> set pre. c_state c \<noteq> InFlight \<and> c_state c \<noteq> Slow"
      "r = ?m + length (filter (\<lambda>c. c_state c = Responded) pre)" "post = [] \<or> lookupK \<le> r"
      using 2 False by (cases "c_state c = Responded") auto
    ultimately show ?thesis by (intro exI [of _ "c # pre"] exI [of _ post]) (auto split: if_splits)
  qed (use 2(3) in \<open>intro exI [of _ "[]"] exI [of _ "c # cs"]; simp\<close>)
qed simp

text \<open>C20: Whatever replies, timeouts, slow queries and referrals come in, in whatever order: the candidates stay sorted by
  distance, one per endpoint, usable and not ourselves; the counters count what they name; at most \<open>Alpha\<close>
  queries hold a slot and at most twice as many are outstanding; no node is asked twice; and the lookup asks
  at most \<open>MaxCandidates\<close> nodes in all, so the limit \<open>MaxQueries\<close> is never what stops it.\<close>

theorem lookup_invariant:
  assumes "lookupReachable Q C l"
  shows "wf_lookup Q C l \<and> length (l_asked l) \<le> 100 \<and> distinct (map a_to (l_asked l)) \<and>
    length (filter (\<lambda>c. c_state c = InFlight) (l_candidates l)) \<le> 3 \<and>
    length (filter (\<lambda>c. c_state c = InFlight \<or> c_state c = Slow) (l_candidates l)) \<le> 6"
  using lookupReachable_wf [OF assms] asked_few [OF lookupReachable_wf [OF assms]]
  by (simp add: wf_lookup_def wf_asked_def wf_counts_def Alpha_def MaxOutstanding_def MaxCandidates_def)

theorem lookup_invariant_witness:
  "wf_lookup qt_doc plainCrypto (start (\<lambda>e. True) 5 (setTimeouts 0 0 (setSalt [] (newLookup GetPeers nullId IPv4 nullId False))))"
  using lookup_invariant [OF started [OF created [OF wf_nullId]]] by blast

text \<open>C22: A lookup never gets stuck: after every step it has finished or is waiting for at least one query it has
  sent, and each of those is answered or times out.\<close>

theorem lookup_progress:
  assumes "lookupReachable Q C l"
  shows "l_finished (step sentNow now l) \<or> 0 < l_outstanding (step sentNow now l)"
  by (rule step_moves [OF lookupReachable_wf [OF assms]])

theorem lookup_progress_witness:
  "l_finished (step (\<lambda>e. True) 5 (setTimeouts 0 0 (setSalt [] (newLookup FindNode nullId IPv6 nullId False)))) \<or>
     0 < l_outstanding (step (\<lambda>e. True) 5 (setTimeouts 0 0 (setSalt [] (newLookup FindNode nullId IPv6 nullId False))))"
  by (rule lookup_progress [of qt_doc plainCrypto]) (rule created [OF wf_nullId])

text \<open>C21: The result of a finished lookup: at most \<open>K\<close> nodes, nearest first, that answered; no other node that answered is
  nearer than any of them; with fewer than \<open>K\<close> nothing is outstanding; and with \<open>K\<close> no node that is still outstanding is
  nearer. An item in it hashes to the target, or carries a valid signature of the key the target names.\<close>

theorem lookup_result_nearest:
  assumes "lookupReachable Q C l" "l_finished l"
  shows "\<exists>r chosen others. l_result l = Some r \<and> r_closest r = map toContact chosen \<and> length chosen \<le> 8 \<and>
    filter (\<lambda>c. c_state c = Responded) (l_candidates l) = chosen @ others \<and> byDistance (l_target l) (chosen @ others) \<and>
    (length chosen < 8 \<longrightarrow> others = [] \<and> l_outstanding l = 0) \<and>
    (\<forall>a \<in> set chosen. \<forall>b \<in> set (l_candidates l). c_state b = InFlight \<or> c_state b = Slow \<longrightarrow> \<not> closer (l_target l) (c_id b) (c_id a)) \<and>
    wf_item C (l_target l) (l_salt l) (r_item r)"
proof -
  let ?resp = "filter (\<lambda>c. c_state c = Responded)"
  note wf = lookupReachable_wf [OF assms(1)]
  obtain r where r: "l_result l = Some r" "r_closest r = map toContact (take lookupK (?resp (l_candidates l)))" "r_item r = l_item l"
    and fin: "finishable (l_candidates l) (l_outstanding l) (l_queries l)"
    using wf assms(2) by (auto simp: wf_lookup_def wf_result_def)
  have sorted: "byDistance (l_target l) (l_candidates l)" and item: "wf_item C (l_target l) (l_salt l) (l_item l)"
    and out: "l_outstanding l = cnt (\<lambda>c. c_state c = InFlight \<or> c_state c = Slow) (l_candidates l)"
    using wf by (auto simp: wf_lookup_def wf_cands_def wf_found_def wf_counts_def)
  obtain n where n: "finishScan 0 (l_candidates l) = Some n" "lookupK \<le> n \<or> l_outstanding l \<le> 0"
    using fin by (auto simp: finishable_def split: option.splits if_splits)
  obtain pre post where s: "l_candidates l = pre @ post" "\<forall>c \<in> set pre. c_state c \<noteq> InFlight \<and> c_state c \<noteq> Slow"
    "n = length (?resp pre)" "post = [] \<or> lookupK \<le> n" using finishScan_split [OF n(1)] by auto
  let ?chosen = "take lookupK (?resp (l_candidates l))"
  have sub: "set ?chosen \<subseteq> set pre" using s(1,3,4) by (auto dest: in_set_takeD)
  have far: "\<not> closer (l_target l) (c_id b) (c_id a)" if "a \<in> set ?chosen" "b \<in> set (l_candidates l)" "c_state b = InFlight \<or> c_state b = Slow" for a b
    using that sub s(1,2) sorted by (auto simp: byDistance_def sorted_wrt_append)
  have "length ?chosen < 8 \<Longrightarrow> drop lookupK (?resp (l_candidates l)) = [] \<and> l_outstanding l = 0"
    using n(2) out s by (auto simp: lookupK_def)
  moreover have "byDistance (l_target l) (?resp (l_candidates l))" using sorted by (simp add: byDistance_def sorted_wrt_filter)
  ultimately show ?thesis using r item far
    by (intro exI [of _ r] exI [of _ ?chosen] exI [of _ "drop lookupK (?resp (l_candidates l))"]) (simp add: lookupK_def)
qed

definition emptyRun :: lookup where
  "emptyRun = start (\<lambda>e. True) 5 (setTimeouts 0 0 (setSalt [] (newLookup GetItem nullId IPv4 nullId False)))"

theorem lookup_result_nearest_witness:
  "l_finished emptyRun \<and> (\<exists>r. l_result emptyRun = Some r \<and> wf_item plainCrypto nullId [] (r_item r))"
proof -
  have fin: "l_finished emptyRun" and fields: "l_target emptyRun = nullId" "l_salt emptyRun = []"
    by (simp_all add: emptyRun_def start_def step_def setTimeouts_def setSalt_def newLookup_def canFinish_def finishable_def
        finish_def Let_def lookupK_def MaxQueries_def)
  have "lookupReachable qt_doc plainCrypto emptyRun" unfolding emptyRun_def by (intro started created wf_nullId)
  from lookup_result_nearest [OF this fin] fin show ?thesis by (auto simp: fields)
qed

end
