(* ===== verification/Probing.thy ===== *)
theory Probing
  imports Dht_Prelude
begin

text \<open>
  The index of \<^verbatim>\<open>dhtcore/src/NodeCatalog.cpp\<close>: an open-addressing table with linear probing and backward-shift
  deletion. A table is a list of slots whose length is a power of two; \<open>None\<close> is \<open>NoSlot\<close>. The
  function \<open>hm\<close> gives the home position of a slot, and \<open>matches\<close> whether a slot holds the key looked for.
  Each loop takes fuel and returns \<open>None\<close> when it runs out; the table's length is always enough.
\<close>

unbundle bit_operations_syntax

text \<open>\<open>i & mask\<close> with \<open>mask = size - 1\<close>.\<close>

definition wrap :: "nat \<Rightarrow> nat \<Rightarrow> nat" where
  "wrap n i = i AND (n - 1)"

fun findLoop :: "nat \<Rightarrow> (nat \<Rightarrow> bool) \<Rightarrow> nat option list \<Rightarrow> nat \<Rightarrow> nat option option" where
  "findLoop 0 matches t i = None"
| "findLoop (Suc fuel) matches t i =
     (case t ! i of
        None \<Rightarrow> Some None
      | Some s \<Rightarrow> if matches s then Some (Some i) else findLoop fuel matches t (wrap (length t) (i + 1)))"

fun freeLoop :: "nat \<Rightarrow> nat option list \<Rightarrow> nat \<Rightarrow> nat option" where
  "freeLoop 0 t i = None"
| "freeLoop (Suc fuel) t i = (if t ! i = None then Some i else freeLoop fuel t (wrap (length t) (i + 1)))"

definition staysPut :: "nat \<Rightarrow> nat \<Rightarrow> nat \<Rightarrow> bool" where
  "staysPut i j home = (if i \<le> j then i < home \<and> home \<le> j else i < home \<or> home \<le> j)"

fun eraseLoop :: "nat \<Rightarrow> (nat \<Rightarrow> nat) \<Rightarrow> nat option list \<Rightarrow> nat \<Rightarrow> nat \<Rightarrow> nat option list option" where
  "eraseLoop 0 hm t i j = None"
| "eraseLoop (Suc fuel) hm t i j =
     (let j' = wrap (length t) (j + 1)
      in case t ! j' of
           None \<Rightarrow> Some (t[i := None])
         | Some s \<Rightarrow> if staysPut i j' (hm s) then eraseLoop fuel hm t i j'
                     else eraseLoop fuel hm (t[i := t ! j']) j' j')"


section \<open>Positions\<close>

lemma wrap_mod: "wrap (2 ^ k) i = i mod 2 ^ k"
  unfolding wrap_def by (metis mask_eq_exp_minus_1 take_bit_eq_mask take_bit_eq_mod)

text \<open>Every occupied position is reached from its home without crossing a free one.\<close>

definition probed :: "(nat \<Rightarrow> nat) \<Rightarrow> nat option list \<Rightarrow> bool" where
  "probed hm t \<longleftrightarrow> (\<forall>p s. p < length t \<longrightarrow> t ! p = Some s \<longrightarrow> hm s < length t \<and>
     (\<exists>k < length t. p = (hm s + k) mod length t \<and> (\<forall>m < k. t ! ((hm s + m) mod length t) \<noteq> None)))"

definition slots :: "nat option list \<Rightarrow> nat set" where
  "slots t = {s. Some s \<in> set t}"

definition once :: "nat option list \<Rightarrow> bool" where
  "once t \<longleftrightarrow> (\<forall>p q s. p < length t \<longrightarrow> q < length t \<longrightarrow> t ! p = Some s \<longrightarrow> t ! q = Some s \<longrightarrow> p = q)"

definition wf_index :: "(nat \<Rightarrow> nat) \<Rightarrow> nat option list \<Rightarrow> bool" where
  "wf_index hm t \<longleftrightarrow> (\<exists>k. length t = 2 ^ k) \<and> probed hm t \<and> once t \<and> None \<in> set t"

text \<open>Distance from the position after a free position \<open>e\<close>: along it no occupied run wraps around.\<close>

definition lin :: "nat \<Rightarrow> nat \<Rightarrow> nat \<Rightarrow> nat" where
  "lin n e p = (if e < p then p - e - 1 else p + n - e - 1)"

lemma lin_bound: "p < n \<Longrightarrow> e < n \<Longrightarrow> lin n e p < n"
  by (auto simp: lin_def)

lemma lin_inj: "p < n \<Longrightarrow> q < n \<Longrightarrow> e < n \<Longrightarrow> lin n e p = lin n e q \<longleftrightarrow> p = q"
  by (auto simp: lin_def)

lemma lin_self: "lin n e e = n - 1"
  by (simp add: lin_def)

lemma lin_succ: "p < n \<Longrightarrow> e < n \<Longrightarrow> p \<noteq> e \<Longrightarrow> lin n e (Suc p mod n) = Suc (lin n e p)"
  by (cases "Suc p = n") (auto simp: lin_def)

lemma lin_step: "e < n \<Longrightarrow> (h + m) mod n \<noteq> e \<Longrightarrow> lin n e ((h + Suc m) mod n) = Suc (lin n e ((h + m) mod n))"
  using lin_succ [of "(h + m) mod n" n e] by (simp add: mod_Suc_eq)

lemma staysPut_lin:
  "i < n \<Longrightarrow> j < n \<Longrightarrow> h < n \<Longrightarrow> e < n \<Longrightarrow> lin n e i < lin n e j \<Longrightarrow> lin n e h \<le> lin n e j \<Longrightarrow>
   staysPut i j h \<longleftrightarrow> lin n e i < lin n e h"
  by (auto simp: lin_def staysPut_def split: if_splits)

lemma probed_lin:
  assumes e: "e < length t" "t ! e = None"
  shows "probed hm t \<longleftrightarrow> (\<forall>p s. p < length t \<longrightarrow> t ! p = Some s \<longrightarrow> hm s < length t \<and> lin (length t) e (hm s) \<le> lin (length t) e p \<and>
    (\<forall>q < length t. lin (length t) e (hm s) \<le> lin (length t) e q \<longrightarrow> lin (length t) e q < lin (length t) e p \<longrightarrow> t ! q \<noteq> None))"
    (is "_ \<longleftrightarrow> (\<forall>p s. _ \<longrightarrow> _ \<longrightarrow> ?lin p s)")
proof -
  let ?n = "length t" let ?l = "lin (length t) e"
  have pos: "0 < ?n" using e(1) by (cases t) simp_all
  have along: "?l ((h + m) mod ?n) = ?l h + m" if "h < ?n" "\<forall>m < k. (h + m) mod ?n \<noteq> e" "m \<le> k" for h m k
    using that
  proof (induction m)
    case (Suc m)
    then show ?case using lin_step [OF e(1), of h m] by simp
  qed simp
  have "hm s < ?n \<and> (\<exists>k < ?n. p = (hm s + k) mod ?n \<and> (\<forall>m < k. t ! ((hm s + m) mod ?n) \<noteq> None)) \<longleftrightarrow> ?lin p s"
    if p: "p < ?n" "t ! p = Some s" for p s
  proof (intro iffI; elim conjE exE)
    fix k
    assume h: "hm s < ?n" and k: "k < ?n" "p = (hm s + k) mod ?n" "\<forall>m < k. t ! ((hm s + m) mod ?n) \<noteq> None"
    have ne: "\<forall>m < k. (hm s + m) mod ?n \<noteq> e" using k(3) e(2) by auto
    have lp: "?l p = ?l (hm s) + k" using along [OF h ne, of k] k(2) by simp
    have "t ! q \<noteq> None" if q: "q < ?n" "?l (hm s) \<le> ?l q" "?l q < ?l p" for q
    proof -
      let ?m = "?l q - ?l (hm s)"
      have "?m < k" using q lp by simp
      then have "?l ((hm s + ?m) mod ?n) = ?l q" using along [OF h ne, of ?m] q(2) by simp
      then have "(hm s + ?m) mod ?n = q" using lin_inj [of "(hm s + ?m) mod ?n" ?n q e] q(1) e(1) by (simp add: mod_less_divisor [OF pos])
      with k(3) \<open>?m < k\<close> show ?thesis by auto
    qed
    with h lp show "?lin p s" by simp
  next
    assume h: "hm s < ?n" and le: "?l (hm s) \<le> ?l p"
      and occ: "\<forall>q < ?n. ?l (hm s) \<le> ?l q \<longrightarrow> ?l q < ?l p \<longrightarrow> t ! q \<noteq> None"
    let ?k = "?l p - ?l (hm s)"
    have step: "?l ((hm s + m) mod ?n) = ?l (hm s) + m" if "m \<le> ?k" for m
      using that
    proof (induction m)
      case (Suc m)
      have "(hm s + m) mod ?n \<noteq> e"
        using Suc lin_self [of ?n e] lin_bound [OF p(1) e(1)] by (intro notI) simp
      with Suc show ?case using lin_step [OF e(1), of "hm s" m] by simp
    qed (use h in simp)
    have "(hm s + ?k) mod ?n = p" using step [of ?k] le lin_inj [of "(hm s + ?k) mod ?n" ?n p e] p(1) e(1) by (simp add: mod_less_divisor [OF pos])
    moreover have "t ! ((hm s + m) mod ?n) \<noteq> None" if "m < ?k" for m
      using step [of m] that mod_less_divisor [OF pos, of "hm s + m"] by (intro occ [rule_format]) simp_all
    moreover have "?k < ?n" using lin_bound [OF p(1) e(1)] by simp
    ultimately show "hm s < ?n \<and> (\<exists>k < ?n. p = (hm s + k) mod ?n \<and> (\<forall>m < k. t ! ((hm s + m) mod ?n) \<noteq> None))"
      using h by metis
  qed
  then show ?thesis unfolding probed_def by meson
qed

section \<open>Searching\<close>

lemma shift: "(Suc i mod n + m) mod n = (i + Suc m) mod n"
  by (simp add: mod_add_left_eq)

lemma findLoop_missing:
  assumes n: "length t = 2 ^ k" and none: "\<forall>s \<in> slots t. \<not> matches s"
  shows "i < length t \<Longrightarrow> d < fuel \<Longrightarrow> t ! ((i + d) mod length t) = None \<Longrightarrow> findLoop fuel matches t i = Some None"
proof (induction fuel arbitrary: i d)
  case (Suc fuel)
  show ?case
  proof (cases "t ! i")
    case (Some s)
    with Suc.prems obtain d' where d: "d = Suc d'" by (cases d) auto
    have "s \<in> slots t" using Some Suc.prems(1) by (metis nth_mem slots_def mem_Collect_eq)
    moreover have "findLoop fuel matches t (Suc i mod length t) = Some None"
      using Suc.prems(2,3) n unfolding d by (intro Suc.IH [of _ d']) (simp_all add: shift)
    ultimately show ?thesis using Some none n by (simp add: wrap_mod)
  qed simp
qed simp

lemma findLoop_found:
  assumes n: "length t = 2 ^ k" and one: "\<And>q s. q < length t \<Longrightarrow> t ! q = Some s \<Longrightarrow> matches s \<Longrightarrow> q = p"
    and p: "p < length t" "t ! p = Some s" "matches s"
  shows "i < length t \<Longrightarrow> d < fuel \<Longrightarrow> p = (i + d) mod length t \<Longrightarrow> \<forall>m < d. t ! ((i + m) mod length t) \<noteq> None \<Longrightarrow>
    findLoop fuel matches t i = Some (Some p)"
proof (induction fuel arbitrary: i d)
  case (Suc fuel)
  show ?case
  proof (cases "i = p")
    case False
    then obtain d' where d: "d = Suc d'" using Suc.prems by (cases d) auto
    obtain s' where s': "t ! i = Some s'" using Suc.prems(1) Suc.prems(4) [rule_format, of 0] d by auto
    then have "\<not> matches s'" using one [OF Suc.prems(1)] False by blast
    moreover have "findLoop fuel matches t (Suc i mod length t) = Some (Some p)"
    proof (rule Suc.IH [of _ d'])
      show "\<forall>m < d'. t ! ((Suc i mod length t + m) mod length t) \<noteq> None"
        unfolding shift using Suc.prems(4) d by (metis Suc_mono)
    qed (use Suc.prems(2,3) d n in \<open>simp_all add: shift\<close>)
    ultimately show ?thesis using s' n by (simp add: wrap_mod)
  qed (use p in simp)
qed simp

lemma reach_free:
  assumes "i < length t" "None \<in> set t"
  obtains d where "d < length t" "t ! ((i + d) mod length t) = None"
proof -
  obtain e where e: "e < length t" "t ! e = None" using assms(2) by (metis in_set_conv_nth)
  let ?d = "(if i \<le> e then e - i else e + length t - i)"
  have "?d < length t" "(i + ?d) mod length t = e" using e(1) assms(1) by auto
  with e(2) that show thesis by metis
qed

lemma find_correct:
  assumes wf: "wf_index hm t" and h: "h < length t"
    and home: "\<And>s. s \<in> slots t \<Longrightarrow> matches s \<Longrightarrow> hm s = h"
    and unique: "\<And>s s'. s \<in> slots t \<Longrightarrow> s' \<in> slots t \<Longrightarrow> matches s \<Longrightarrow> matches s' \<Longrightarrow> s = s'"
  shows "\<exists>r. findLoop (length t) matches t h = Some r \<and>
    (case r of None \<Rightarrow> \<forall>s \<in> slots t. \<not> matches s | Some p \<Rightarrow> p < length t \<and> (\<exists>s. t ! p = Some s \<and> s \<in> slots t \<and> matches s))"
proof -
  obtain k where n: "length t = 2 ^ k" using wf by (auto simp: wf_index_def)
  have mem: "s \<in> slots t" if "q < length t" "t ! q = Some s" for q s using that by (metis nth_mem slots_def mem_Collect_eq)
  show ?thesis
  proof (cases "\<exists>s \<in> slots t. matches s")
    case True
    then obtain s p where p: "p < length t" "t ! p = Some s" "matches s" by (auto simp: slots_def in_set_conv_nth)
    have one: "q = p" if "q < length t" "t ! q = Some s'" "matches s'" for q s'
      using that unique [OF mem [OF that(1,2)] mem [OF p(1,2)] that(3) p(3)] p(1,2) wf by (auto simp: wf_index_def once_def)
    have "hm s = h" using home [OF mem [OF p(1,2)] p(3)] .
    with wf p(1,2) obtain d where "d < length t" "p = (h + d) mod length t" "\<forall>m < d. t ! ((h + m) mod length t) \<noteq> None"
      by (auto simp: wf_index_def probed_def)
    then have "findLoop (length t) matches t h = Some (Some p)"
      by (intro findLoop_found [where p = p and s = s and d = d]) (use n p h one in auto)
    with p mem [OF p(1,2)] show ?thesis by auto
  next
    case False
    obtain d where d: "d < length t" "t ! ((h + d) mod length t) = None"
      using reach_free [OF h] wf by (auto simp: wf_index_def)
    from findLoop_missing [OF n _ h d] False show ?thesis by auto
  qed
qed

section \<open>Inserting\<close>

lemma freeLoop_spec:
  assumes n: "length t = 2 ^ k"
  shows "i < length t \<Longrightarrow> d < fuel \<Longrightarrow> t ! ((i + d) mod length t) = None \<Longrightarrow>
    \<exists>p m. freeLoop fuel t i = Some p \<and> m \<le> d \<and> p = (i + m) mod length t \<and> t ! p = None \<and> (\<forall>l < m. t ! ((i + l) mod length t) \<noteq> None)"
proof (induction fuel arbitrary: i d)
  case (Suc fuel)
  show ?case
  proof (cases "t ! i = None")
    case True
    with Suc.prems(1) show ?thesis by (intro exI [of _ i] exI [of _ 0]) simp
  next
    case False
    then obtain d' where d: "d = Suc d'" using Suc.prems by (cases d) auto
    have "\<exists>p m. freeLoop fuel t (Suc i mod length t) = Some p \<and> m \<le> d' \<and> p = (Suc i mod length t + m) mod length t \<and> t ! p = None \<and>
        (\<forall>l < m. t ! ((Suc i mod length t + l) mod length t) \<noteq> None)"
      using Suc.prems(2,3) n unfolding d by (intro Suc.IH) (simp_all add: shift)
    then obtain p m where pm: "freeLoop fuel t (Suc i mod length t) = Some p" "m \<le> d'" "p = (i + Suc m) mod length t" "t ! p = None"
      "\<forall>l < m. t ! ((i + Suc l) mod length t) \<noteq> None" unfolding shift by blast
    have "t ! ((i + l) mod length t) \<noteq> None" if "l < Suc m" for l
      using that pm(5) False Suc.prems(1) by (cases l) simp_all
    moreover have "freeLoop (Suc fuel) t i = Some p" using pm(1) False n by (auto simp: wrap_mod)
    ultimately show ?thesis using pm(2-4) d by (metis Suc_le_mono)
  qed
qed simp

lemma slots_update: "p < length t \<Longrightarrow> t ! p = None \<Longrightarrow> slots (t[p := Some s]) = insert s (slots t)"
proof -
  assume p: "p < length t" "t ! p = None"
  have "Some x \<in> set t \<longleftrightarrow> Some x \<in> set (take p t) \<union> set (drop (Suc p) t)" for x
    using p by (subst id_take_nth_drop [OF p(1)]) auto
  then show ?thesis using p by (auto simp: slots_def upd_conv_take_nth_drop)
qed

lemma insert_correct:
  assumes wf: "wf_index hm t" and s: "s \<notin> slots t" "hm s < length t"
  obtains p where "freeLoop (length t) t (hm s) = Some p" "p < length t" "t ! p = None" "slots (t[p := Some s]) = insert s (slots t)"
    "probed hm (t[p := Some s])" "once (t[p := Some s])"
proof -
  obtain k where n: "length t = 2 ^ k" using wf by (auto simp: wf_index_def)
  obtain d where d: "d < length t" "t ! ((hm s + d) mod length t) = None"
    using reach_free [OF s(2)] wf by (auto simp: wf_index_def)
  from freeLoop_spec [OF n s(2) d] obtain p m where p: "freeLoop (length t) t (hm s) = Some p" "m \<le> d" "p = (hm s + m) mod length t"
    "t ! p = None" "\<forall>l < m. t ! ((hm s + l) mod length t) \<noteq> None" by blast
  have pl: "p < length t" using p(3) n by simp
  have more: "t ! q \<noteq> None \<Longrightarrow> t[p := Some s] ! q \<noteq> None" for q by (cases "q = p") (use pl in simp_all)
  have "probed hm (t[p := Some s])"
    unfolding probed_def
  proof (intro allI impI)
    fix q x
    assume q: "q < length (t[p := Some s])" "t[p := Some s] ! q = Some x"
    show "hm x < length (t[p := Some s]) \<and> (\<exists>k < length (t[p := Some s]). q = (hm x + k) mod length (t[p := Some s]) \<and>
        (\<forall>m < k. t[p := Some s] ! ((hm x + m) mod length (t[p := Some s])) \<noteq> None))"
    proof (cases "q = p")
      case True
      with q pl have "x = s" by simp
      with True s(2) p d(1) more show ?thesis by (intro conjI exI [of _ m]) simp_all
    next
      case False
      with q have "q < length t" "t ! q = Some x" by simp_all
      with wf obtain k where "hm x < length t" "k < length t" "q = (hm x + k) mod length t" "\<forall>m < k. t ! ((hm x + m) mod length t) \<noteq> None"
        unfolding wf_index_def probed_def by blast
      with more show ?thesis unfolding length_list_update by blast
    qed
  qed
  moreover have "once (t[p := Some s])"
  proof -
    have old: "x \<in> slots t" if "a < length t" "t ! a = Some x" for a x using that by (metis nth_mem slots_def mem_Collect_eq)
    have "a = b" if "a < length t" "b < length t" "t[p := Some s] ! a = Some x" "t[p := Some s] ! b = Some x" for a b x
      using that old [of a x] old [of b x] s(1) wf by (cases "a = p"; cases "b = p") (auto simp: wf_index_def once_def)
    then show ?thesis by (simp add: once_def)
  qed
  ultimately show thesis using that p(1,4) pl slots_update [OF pl p(4)] by blast
qed

section \<open>Deleting\<close>

text \<open>
  The invariant of the shifting loop, along the free position \<open>e\<close>: with a hole at \<open>i\<close>, every slot can be
  reached except across the hole; what stands between \<open>i\<close> and \<open>j\<close> has its home behind the hole.
\<close>

definition shifting :: "(nat \<Rightarrow> nat) \<Rightarrow> nat \<Rightarrow> nat option list \<Rightarrow> nat \<Rightarrow> nat \<Rightarrow> bool" where
  "shifting hm e t i j \<longleftrightarrow> (let n = length t; l = lin n e; u = t[i := None] in
     e < n \<and> i < n \<and> j < n \<and> u ! e = None \<and> e \<noteq> i \<and> l i \<le> l j \<and> j \<noteq> e \<and> once u \<and>
     (\<forall>p s. p < n \<longrightarrow> u ! p = Some s \<longrightarrow> hm s < n \<and> l (hm s) \<le> l p \<and>
        (\<forall>q < n. l (hm s) \<le> l q \<longrightarrow> l q < l p \<longrightarrow> u ! q \<noteq> None \<or> q = i) \<and>
        (l i < l p \<longrightarrow> l p \<le> l j \<longrightarrow> l i < l (hm s))))"

lemma shiftingD:
  assumes "shifting hm e t i j"
  shows "e < length t" "i < length t" "j < length t" "t[i := None] ! e = None" "e \<noteq> i" "lin (length t) e i \<le> lin (length t) e j" "j \<noteq> e"
    "once (t[i := None])"
    and "\<And>p s. p < length t \<Longrightarrow> t[i := None] ! p = Some s \<Longrightarrow> hm s < length t \<and> lin (length t) e (hm s) \<le> lin (length t) e p"
    and "\<And>p s q. p < length t \<Longrightarrow> t[i := None] ! p = Some s \<Longrightarrow> q < length t \<Longrightarrow> lin (length t) e (hm s) \<le> lin (length t) e q \<Longrightarrow>
       lin (length t) e q < lin (length t) e p \<Longrightarrow> t[i := None] ! q \<noteq> None \<or> q = i"
    and "\<And>p s. p < length t \<Longrightarrow> t[i := None] ! p = Some s \<Longrightarrow> lin (length t) e i < lin (length t) e p \<Longrightarrow>
       lin (length t) e p \<le> lin (length t) e j \<Longrightarrow> lin (length t) e i < lin (length t) e (hm s)"
  using assms unfolding shifting_def Let_def by blast+

lemma next_position:
  assumes "length t = 2 ^ k" "shifting hm e t i j"
  shows "wrap (length t) (j + 1) < length t" "lin (length t) e (wrap (length t) (j + 1)) = Suc (lin (length t) e j)"
    "wrap (length t) (j + 1) \<noteq> i"
proof -
  note d = shiftingD [OF assms(2)]
  have w: "wrap (length t) (j + 1) = Suc j mod length t" using assms(1) by (simp add: wrap_mod)
  show "wrap (length t) (j + 1) < length t" unfolding w using assms(1) by simp
  show l: "lin (length t) e (wrap (length t) (j + 1)) = Suc (lin (length t) e j)" unfolding w by (rule lin_succ [OF d(3,1,7)])
  show "wrap (length t) (j + 1) \<noteq> i" using l d(6) by auto
qed

lemma shifting_done:
  assumes n: "length t = 2 ^ k" and sh: "shifting hm e t i j" and free: "t ! wrap (length t) (j + 1) = None"
  shows "probed hm (t[i := None])"
proof -
  let ?n = "length t" let ?l = "lin (length t) e" let ?u = "t[i := None]" let ?j = "wrap (length t) (j + 1)"
  note d = shiftingD [OF sh] and j = next_position [OF n sh]
  have "?u ! q \<noteq> None"
    if p: "p < ?n" "?u ! p = Some s" and q: "q < ?n" "?l (hm s) \<le> ?l q" "?l q < ?l p" for p s q
  proof (rule ccontr)
    assume "\<not> ?u ! q \<noteq> None"
    with d(10) [OF p q] have qi: "q = i" by blast
    have "\<not> ?l p \<le> ?l j" using d(11) [OF p] q(2,3) qi by (meson leD)
    moreover have "p \<noteq> ?j" using p(2) free j(3) by auto
    then have "?l p \<noteq> ?l ?j" using lin_inj [OF p(1) j(1) d(1)] by simp
    ultimately have "?l ?j < ?l p" using j(2) by simp
    then have "?u ! ?j \<noteq> None" using d(10) [OF p j(1)] q(2) qi d(6) j(2,3) by fastforce
    with free j(3) show False by simp
  qed
  with d(9) show ?thesis using probed_lin [of e "t[i := None]" hm] d(1,4) by auto
qed

lemma shifting_keep:
  assumes n: "length t = 2 ^ k" and sh: "shifting hm e t i j" and s: "t ! wrap (length t) (j + 1) = Some s"
    and stay: "lin (length t) e i < lin (length t) e (hm s)"
  shows "shifting hm e t i (wrap (length t) (j + 1))"
proof -
  let ?l = "lin (length t) e" let ?j = "wrap (length t) (j + 1)"
  note d = shiftingD [OF sh] and j = next_position [OF n sh]
  have je: "?j \<noteq> e" using s d(4) d(5) by auto
  have last: "?l i < ?l (hm x)" if "p < length t" "t[i := None] ! p = Some x" "?l i < ?l p" "?l p \<le> ?l ?j" for p x
  proof (cases "?l p \<le> ?l j")
    case True
    with d(11) that show ?thesis by blast
  next
    case False
    then have "?l p = ?l ?j" using that(4) j(2) by simp
    then have "p = ?j" using lin_inj [OF that(1) j(1) d(1)] by simp
    with that(2) s stay j(3) show ?thesis by auto
  qed
  show ?thesis unfolding shifting_def Let_def using d j je last by auto
qed

lemma shifting_move:
  assumes n: "length t = 2 ^ k" and sh: "shifting hm e t i j" and s: "t ! wrap (length t) (j + 1) = Some s"
    and move: "\<not> lin (length t) e i < lin (length t) e (hm s)"
  shows "shifting hm e (t[i := t ! wrap (length t) (j + 1)]) (wrap (length t) (j + 1)) (wrap (length t) (j + 1))"
    "slots (t[i := t ! wrap (length t) (j + 1), wrap (length t) (j + 1) := None]) = slots (t[i := None])"
proof -
  let ?l = "lin (length t) e" let ?j = "wrap (length t) (j + 1)" let ?u = "t[i := None]"
  let ?v = "t[i := t ! ?j, ?j := None]"
  note d = shiftingD [OF sh] and j = next_position [OF n sh]
  have je: "?j \<noteq> e" using s d(4) d(5) by auto
  have v: "?v ! p = (if p = ?j then None else if p = i then Some s else ?u ! p)" if "p < length t" for p
    using that s j(1,3) by (simp add: nth_list_update)
  have uj: "?u ! ?j = Some s" using s j(3) by simp
  have hs: "hm s < length t" "?l (hm s) \<le> ?l i" using d(9) [OF j(1) uj] move by simp_all
  show "slots ?v = slots ?u"
  proof -
    have "Some x \<in> set ?v \<longleftrightarrow> Some x \<in> set ?u" for x
    proof -
      have "Some x \<in> set ?v \<longleftrightarrow> (\<exists>p < length t. ?v ! p = Some x)" by (auto simp: in_set_conv_nth)
      also have "\<dots> \<longleftrightarrow> (\<exists>p < length t. ?u ! p = Some x)"
        using v uj d(2) j(1,3) by (metis nth_list_update_eq option.distinct(1))
      finally show ?thesis by (auto simp: in_set_conv_nth)
    qed
    then show ?thesis by (simp add: slots_def)
  qed
  have once: "once ?v"
  proof -
    have "p = q" if pq: "p < length t" "q < length t" "?v ! p = Some x" "?v ! q = Some x" for p q x
    proof -
      let ?f = "\<lambda>p. if p = i then ?j else p"
      have "?u ! ?f p = Some x" "?u ! ?f q = Some x" "?f p < length t" "?f q < length t"
        using pq v [OF pq(1)] v [OF pq(2)] uj j(1) by (auto split: if_splits)
      then have "?f p = ?f q" using d(8) unfolding once_def length_list_update by blast
      with v [OF pq(1)] v [OF pq(2)] pq show ?thesis by (auto split: if_splits)
    qed
    then show ?thesis by (simp add: once_def)
  qed
  have slot: "hm x < length t \<and> ?l (hm x) \<le> ?l p \<and> (\<forall>q < length t. ?l (hm x) \<le> ?l q \<longrightarrow> ?l q < ?l p \<longrightarrow> ?v ! q \<noteq> None \<or> q = ?j)"
    if p: "p < length t" "?v ! p = Some x" for p x
  proof (cases "p = i")
    case True
    have "x = s" using p v [OF p(1)] True j(3) by simp
    moreover have "?v ! q \<noteq> None \<or> q = ?j" if "q < length t" "?l (hm s) \<le> ?l q" "?l q < ?l i" for q
      using d(10) [OF j(1) uj that(1,2)] that v [OF that(1)] d(6) j(2) by auto
    ultimately show ?thesis using hs True by simp
  next
    case False
    then have pu: "?u ! p = Some x" using p v [OF p(1)] by (auto split: if_splits)
    have "?v ! q \<noteq> None \<or> q = ?j" if "q < length t" "?l (hm x) \<le> ?l q" "?l q < ?l p" for q
      using d(10) [OF p(1) pu that] v [OF that(1)] by auto
    with d(9) [OF p(1) pu] show ?thesis by blast
  qed
  show "shifting hm e (t[i := t ! ?j]) ?j ?j"
    unfolding shifting_def Let_def length_list_update using once slot d(1,4,5) v [OF d(1)] j(1) je by auto
qed

lemma eraseLoop_correct:
  assumes "length t = 2 ^ k" "shifting hm e t i j" "lin (length t) e e - lin (length t) e j \<le> fuel"
  shows "\<exists>t'. eraseLoop fuel hm t i j = Some t' \<and> length t' = length t \<and> probed hm t' \<and> once t' \<and> slots t' = slots (t[i := None]) \<and> t' ! e = None"
  using assms
proof (induction fuel arbitrary: t i j)
  case 0
  note d = shiftingD [OF 0(2)]
  have "lin (length t) e j < lin (length t) e e"
    using lin_bound [OF d(3,1)] lin_self [of "length t" e] lin_inj [OF d(3,1,1)] d(7) by (simp add: le_neq_implies_less)
  with 0(3) show ?case by simp
next
  case (Suc fuel)
  let ?j = "wrap (length t) (j + 1)" let ?l = "lin (length t) e"
  note d = shiftingD [OF Suc.prems(2)] and j = next_position [OF Suc.prems(1,2)]
  have less: "?l e - ?l ?j \<le> fuel" using Suc.prems(3) j(2) by simp
  show ?case
  proof (cases "t ! ?j")
    case None
    with shifting_done [OF Suc.prems(1,2)] d(4,8) show ?thesis by simp
  next
    case (Some s)
    have "t[i := None] ! ?j = Some s" using Some j(3) by simp
    note hs = d(9) [OF j(1) this]
    have st: "staysPut i ?j (hm s) \<longleftrightarrow> ?l i < ?l (hm s)"
      by (rule staysPut_lin [OF d(2) j(1) _ d(1)]) (use hs j(2) d(6) in auto)
    show ?thesis
    proof (cases "?l i < ?l (hm s)")
      case True
      from Suc.IH [OF Suc.prems(1) shifting_keep [OF Suc.prems(1,2) Some True] less] True Some st show ?thesis by (simp add: Let_def)
    next
      case False
      note mv = shifting_move [OF Suc.prems(1,2) Some False]
      have "\<exists>t'. eraseLoop fuel hm (t[i := t ! ?j]) ?j ?j = Some t' \<and> length t' = length (t[i := t ! ?j]) \<and> probed hm t' \<and> once t' \<and>
          slots t' = slots (t[i := t ! ?j, ?j := None]) \<and> t' ! e = None"
        by (rule Suc.IH) (use Suc.prems(1) mv(1) less in simp_all)
      with False Some st mv(2) show ?thesis by (simp add: Let_def)
    qed
  qed
qed

lemma erase_correct:
  assumes wf: "wf_index hm t" and i: "i < length t" "t ! i = Some s"
  obtains t' where "eraseLoop (length t) hm t i i = Some t'" "wf_index hm t'" "length t' = length t" "slots t' = slots t - {s}"
proof -
  obtain k where n: "length t = 2 ^ k" using wf by (auto simp: wf_index_def)
  obtain e where e: "e < length t" "t ! e = None" using wf by (metis in_set_conv_nth wf_index_def)
  let ?l = "lin (length t) e"
  have ei: "e \<noteq> i" using e i by auto
  have u: "t[i := None] ! p = (if p = i then None else t ! p)" if "p < length t" for p using that by (simp add: nth_list_update)
  have "p = q" if pq: "p < length t" "q < length t" "t[i := None] ! p = Some x" "t[i := None] ! q = Some x" for p q x
    using pq u [OF pq(1)] u [OF pq(2)] wf unfolding wf_index_def once_def by (metis option.distinct(1))
  then have "once (t[i := None])" by (simp add: once_def)
  moreover have "hm x < length t \<and> ?l (hm x) \<le> ?l p \<and> (\<forall>q < length t. ?l (hm x) \<le> ?l q \<longrightarrow> ?l q < ?l p \<longrightarrow> t[i := None] ! q \<noteq> None \<or> q = i)"
    if p: "p < length t" "t[i := None] ! p = Some x" for p x
  proof -
    have "t ! p = Some x" using p u [OF p(1)] by (auto split: if_splits)
    with wf p(1) e show ?thesis using u by (auto simp: wf_index_def probed_lin [OF e])
  qed
  ultimately have sh: "shifting hm e t i i"
    unfolding shifting_def Let_def using e i(1) ei u [OF e(1)] by auto
  have "?l e - ?l i \<le> length t" using lin_bound [OF e(1,1)] by simp
  from eraseLoop_correct [OF n sh this] obtain t' where t': "eraseLoop (length t) hm t i i = Some t'" "length t' = length t"
    "probed hm t'" "once t'" "slots t' = slots (t[i := None])" "t' ! e = None" by blast
  have "None \<in> set t'" using t'(2,6) e(1) by (metis nth_mem)
  then have "wf_index hm t'" using t' n by (auto simp: wf_index_def)
  moreover have "slots (t[i := None]) = slots t - {s}"
  proof -
    have only: "p = i" if "p < length t" "t ! p = Some s" for p using wf i that unfolding wf_index_def once_def by blast
    have "Some x \<in> set (t[i := None]) \<longleftrightarrow> (\<exists>p < length t. p \<noteq> i \<and> t ! p = Some x)" for x
      using u by (auto simp: in_set_conv_nth split: if_splits)
    also have "(\<exists>p < length t. p \<noteq> i \<and> t ! p = Some x) \<longleftrightarrow> Some x \<in> set t \<and> x \<noteq> s" for x
      using only i unfolding in_set_conv_nth by (metis option.inject)
    finally have "Some x \<in> set (t[i := None]) \<longleftrightarrow> Some x \<in> set t \<and> x \<noteq> s" for x .
    then show ?thesis by (auto simp: slots_def)
  qed
  ultimately show thesis using that t' by simp
qed

end
