(* ===== verification/Bep42.thy ===== *)
theory Bep42
  imports Endpoint
begin

text \<open>
  \<^verbatim>\<open>dhtcore/src/Crc32c.cpp\<close> and \<^verbatim>\<open>dhtcore/src/Bep42.cpp\<close>: the table-driven CRC-32C and the node
  identifiers BEP 42 derives from an address. The random bytes and the three random low bits that
  \<open>generate\<close> draws are arguments.
\<close>

section \<open>CRC-32C\<close>

definition crcStep :: "32 word \<Rightarrow> 32 word" where
  "crcStep c = (if c AND 1 \<noteq> 0 then drop_bit 1 c XOR 0x82F63B78 else drop_bit 1 c)"

text \<open>The inner loop of \<open>makeTable\<close>: eight rounds.\<close>

definition tableEntry :: "32 word \<Rightarrow> 32 word" where
  "tableEntry i = (crcStep ^^ 8) i"

definition makeTable :: "32 word list" where
  "makeTable = map (\<lambda>i. tableEntry (of_nat i)) [0..<256]"

definition crcByte :: "32 word \<Rightarrow> byte \<Rightarrow> 32 word" where
  "crcByte crc ch = makeTable ! unat ((crc XOR ucast ch) AND 0xFF) XOR drop_bit 8 crc"

definition crc32c :: "bytes \<Rightarrow> 32 word" where
  "crc32c data = foldl crcByte 0xFFFFFFFF data XOR 0xFFFFFFFF"

text \<open>The definition of the checksum: one division step per message bit, no table.\<close>

definition crcByteRef :: "32 word \<Rightarrow> byte \<Rightarrow> 32 word" where
  "crcByteRef crc ch = (crcStep ^^ 8) (crc XOR ucast ch)"

definition crc32cRef :: "bytes \<Rightarrow> 32 word" where
  "crc32cRef data = foldl crcByteRef 0xFFFFFFFF data XOR 0xFFFFFFFF"

lemma odd_bit0: "(c :: 32 word) AND 1 \<noteq> 0 \<longleftrightarrow> bit c 0"
  by (simp add: and_one_eq bit_0 odd_iff_mod_2_eq_one)

lemma crcStep_linear: "crcStep (a XOR b) = crcStep a XOR crcStep b"
  unfolding crcStep_def odd_bit0
  by (auto simp: bit_xor_iff drop_bit_xor xor.assoc xor.left_commute xor.commute)

lemma crcSteps_linear: "(crcStep ^^ n) (a XOR b) = (crcStep ^^ n) a XOR (crcStep ^^ n) b"
  by (induction n) (simp_all add: crcStep_linear)

lemma crcSteps_shift: "\<forall>i < n. \<not> bit c i \<Longrightarrow> (crcStep ^^ n) c = drop_bit n c"
proof (induction n arbitrary: c)
  case (Suc n)
  then have "crcStep c = drop_bit 1 c" by (simp add: crcStep_def odd_bit0)
  moreover have "\<forall>i < n. \<not> bit (drop_bit 1 c) i" using Suc.prems by (simp add: bit_drop_bit_eq)
  ultimately show ?case using Suc.IH [of "drop_bit 1 c"]
    by (simp only: funpow_Suc_right o_apply drop_bit_drop_bit) simp
qed simp

lemma word_split_low: "(c :: 32 word) = (c AND m) XOR (c AND NOT m)"
  by (rule bit_word_eqI) (auto simp: bit_xor_iff bit_and_iff bit_not_iff)

lemma crcStep8: "(crcStep ^^ 8) c = tableEntry (c AND 0xFF) XOR drop_bit 8 c"
proof -
  let ?m = "mask 8 :: 32 word"
  have "(crcStep ^^ 8) c = (crcStep ^^ 8) (c AND ?m) XOR (crcStep ^^ 8) (c AND NOT ?m)"
    by (subst word_split_low [of c ?m]) (rule crcSteps_linear)
  also have "(crcStep ^^ 8) (c AND NOT ?m) = drop_bit 8 (c AND NOT ?m)"
    by (rule crcSteps_shift) (auto simp: bit_and_iff bit_not_iff bit_mask_iff)
  also have "\<dots> = drop_bit 8 c"
    by (rule bit_word_eqI) (auto simp: bit_drop_bit_eq bit_and_iff bit_not_iff bit_mask_iff dest: bit_imp_le_length)
  finally show ?thesis by (simp add: tableEntry_def mask_eq_exp_minus_1)
qed

lemma low_byte_less: "unat ((c :: 32 word) AND 0xFF) < 256"
proof -
  have "c AND 0xFF \<le> 0xFF" by (rule word_and_le1)
  then show ?thesis by (simp add: word_le_nat_alt)
qed

lemma makeTable_nth: "i < 256 \<Longrightarrow> makeTable ! i = tableEntry (of_nat i)"
  by (simp add: makeTable_def)

lemma crcByte_ref: "crcByte crc ch = crcByteRef crc ch"
proof -
  let ?x = "crc XOR ucast ch"
  have "drop_bit 8 ?x = drop_bit 8 crc"
    by (rule bit_word_eqI) (auto simp: bit_drop_bit_eq bit_xor_iff bit_ucast_iff byte_bit_high)
  then show ?thesis
    by (simp add: crcByteRef_def crcStep8 crcByte_def makeTable_nth low_byte_less)
qed

lemma crc32c_ref: "crc32c data = crc32cRef data"
  unfolding crc32c_def crc32cRef_def crcByte_ref ..


section \<open>Identifiers derived from an address\<close>

datatype Status = Unknown | Compliant | NonCompliant | Exempt

definition statusName :: "Status \<Rightarrow> string" where
  "statusName s = (case s of Unknown \<Rightarrow> ''unknown'' | Compliant \<Rightarrow> ''compliant''
     | NonCompliant \<Rightarrow> ''noncompliant'' | Exempt \<Rightarrow> ''exempt'')"

definition mask4 :: bytes where
  "mask4 = [0x03, 0x0f, 0x3f, 0xff]"

definition mask6 :: bytes where
  "mask6 = [0x01, 0x03, 0x07, 0x0f, 0x1f, 0x3f, 0x7f, 0xff]"

text \<open>The masked address prefix with the three selector bits in its first byte.\<close>

definition maskedPrefix :: "qt_net \<Rightarrow> host_address \<Rightarrow> byte \<Rightarrow> bytes" where
  "maskedPrefix Q raw rand =
     (let a = normalizeAddress Q raw;
          ip = (if isIPv4Protocol a then map2 (AND) (be32 (toIPv4Address a)) mask4
                else map2 (AND) (take 8 (toIPv6Address Q a)) mask6)
      in ip[0 := ip ! 0 OR push_bit 5 (rand AND 0x7)])"

definition prefixCrc :: "qt_net \<Rightarrow> host_address \<Rightarrow> byte \<Rightarrow> 32 word" where
  "prefixCrc Q raw rand = crc32c (maskedPrefix Q raw rand)"

definition isExempt :: "qt_net \<Rightarrow> host_address \<Rightarrow> bool" where
  "isExempt Q a = isLocalAddress Q a"

definition generateId :: "qt_net \<Rightarrow> node_id \<Rightarrow> byte \<Rightarrow> host_address \<Rightarrow> byte \<Rightarrow> node_id" where
  "generateId Q rnd low a rand =
     (let crc = prefixCrc Q a rand
      in rnd[0 := ucast (drop_bit 24 crc),
             1 := ucast (drop_bit 16 crc),
             2 := ucast (drop_bit 8 crc AND 0xf8) OR low,
             19 := rand])"

definition isCompliant :: "qt_net \<Rightarrow> node_id \<Rightarrow> host_address \<Rightarrow> bool" where
  "isCompliant Q nid a =
     (let crc = prefixCrc Q a (nid ! 19)
      in nid ! 0 = ucast (drop_bit 24 crc)
         \<and> nid ! 1 = ucast (drop_bit 16 crc)
         \<and> (nid ! 2 AND 0xf8) = ucast (drop_bit 8 crc AND 0xf8))"

definition checkBep42 :: "qt_net \<Rightarrow> node_id \<Rightarrow> host_address \<Rightarrow> Status" where
  "checkBep42 Q nid a =
     (if a = NullAddress then Unknown
      else if isExempt Q a then Exempt
      else if isCompliant Q nid a then Compliant else NonCompliant)"

lemma generateId_length [simp]: "length (generateId Q rnd low a rand) = length rnd"
  by (simp add: generateId_def Let_def)

lemma generateId_nths:
  assumes "wf_id rnd"
  shows "generateId Q rnd low a rand ! 0 = ucast (drop_bit 24 (prefixCrc Q a rand))"
    and "generateId Q rnd low a rand ! Suc 0 = ucast (drop_bit 16 (prefixCrc Q a rand))"
    and "generateId Q rnd low a rand ! 2 = ucast (drop_bit 8 (prefixCrc Q a rand) AND 0xf8) OR low"
    and "generateId Q rnd low a rand ! 19 = rand"
  using assms by (simp_all add: generateId_def Let_def wf_id_def id_Size_def)

lemma bit_0xf8: "bit (0xf8 :: byte) n \<longleftrightarrow> 3 \<le> n \<and> n < 8"
proof -
  have "(0xf8 :: byte) = push_bit 3 (mask 5)" by (simp add: mask_eq_exp_minus_1)
  then show ?thesis by (simp only: bit_push_bit_iff bit_mask_iff) (auto dest: bit_imp_le_length)
qed

lemma low_bits_masked: "low < 8 \<Longrightarrow> (low :: byte) AND 0xf8 = 0"
proof -
  assume "low < 8"
  then have "low = take_bit 3 low"
    by (simp add: word_unat_eq_iff unsigned_take_bit_eq take_bit_eq_mod word_less_nat_alt unat_mod)
  moreover have "take_bit 3 low AND 0xf8 = 0"
    by (rule bit_word_eqI) (simp only: bit_and_iff bit_take_bit_iff bit_0xf8 bit_0_eq bot_apply, auto)
  ultimately show ?thesis by simp
qed

lemma ucast_masked: "(ucast ((x :: 32 word) AND 0xf8) :: byte) AND 0xf8 = ucast (x AND 0xf8)"
  by (simp add: unsigned_and_eq and.assoc)

text \<open>an identifier that \<open>generate\<close> derives from an address is compliant with it, whatever random
  bytes, low bits and selector byte it was given.\<close>

theorem generateId_compliant:
  assumes "wf_id rnd" "low < 8"
  shows "isCompliant Q (generateId Q rnd low a rand) a \<and> wf_id (generateId Q rnd low a rand)"
  using assms low_bits_masked [OF assms(2)] ucast_masked [of "drop_bit 8 (prefixCrc Q a rand)"]
  by (simp add: isCompliant_def Let_def generateId_nths bit.conj_disj_distrib2) (simp add: wf_id_def)

theorem generateId_compliant_witness:
  "isCompliant qt_doc (generateId qt_doc (replicate 20 7) 5 (V4 (ip4 124 31 75 21)) 1) (V4 (ip4 124 31 75 21))
   \<and> wf_id (generateId qt_doc (replicate 20 7) 5 (V4 (ip4 124 31 75 21)) 1)"
  by (rule generateId_compliant) (simp_all add: wf_id_def id_Size_def)

text \<open>What compliance means bit by bit: the first 21 bits of the identifier are the first 21 bits of the
  checksum of the masked address, selected by the identifier's last byte.\<close>

lemma crc_byte_bits:
  "(b :: byte) = ucast (drop_bit m (crc :: 32 word)) \<longleftrightarrow> (\<forall>i < 8. bit b (7 - i) = bit crc (m + 7 - i))"
proof -
  have "bit (ucast (drop_bit m crc) :: byte) (7 - i) = bit crc (m + 7 - i)" if "i < 8" for i
    using that by (simp add: bit_ucast_iff bit_drop_bit_eq less_Suc_eq_le [of _ 7, simplified])
  then show ?thesis by (simp add: byte_eq_iff [of b])
qed

lemma crc_high_bits:
  "(b AND 0xf8 :: byte) = ucast (drop_bit 8 (crc :: 32 word) AND 0xf8) \<longleftrightarrow>
   (\<forall>i < 5. bit b (7 - i) = bit crc (15 - i))"
proof -
  have u: "ucast (drop_bit 8 crc AND 0xf8) = (ucast (drop_bit 8 crc) :: byte) AND 0xf8"
    by (simp add: unsigned_and_eq)
  have e: "bit (x AND 0xf8 :: byte) (7 - i) \<longleftrightarrow> bit x (7 - i) \<and> i < 5" if "i < 8" for x i
    by (simp only: bit_and_iff bit_0xf8) (use that in auto)
  have lt: "i < 8" if "i < 5" for i :: nat using that by simp
  have "(b AND 0xf8 = ucast (drop_bit 8 crc AND 0xf8)) =
      (\<forall>i < 8. (bit b (7 - i) \<and> i < 5) = (bit (ucast (drop_bit 8 crc) :: byte) (7 - i) \<and> i < 5))"
    unfolding u by (subst byte_eq_iff) (simp only: e cong: imp_cong)
  also have "\<dots> = (\<forall>i < 5. bit b (7 - i) = bit (ucast (drop_bit 8 crc) :: byte) (7 - i))"
    using lt by blast
  also have "\<dots> = (\<forall>i < 5. bit b (7 - i) = bit crc (15 - i))"
    by (simp add: bit_ucast_iff bit_drop_bit_eq less_Suc_eq_le [of _ 7, simplified])
  finally show ?thesis .
qed

lemma all_less_split: "(\<forall>k < m + n. P k) \<longleftrightarrow> (\<forall>k < m. P k) \<and> (\<forall>i < n. P (m + i))" for m n :: nat
proof (intro iffI conjI allI impI)
  fix k assume *: "(\<forall>k < m. P k) \<and> (\<forall>i < n. P (m + i))" and k: "k < m + n"
  show "P k"
  proof (cases "k < m")
    case False
    with k have "k = m + (k - m)" "k - m < n" by auto
    with * show ?thesis by metis
  qed (use * in simp)
qed auto

text \<open>An identifier is compliant with an address exactly when its first 21 bits are the first 21 bits
  of the CRC-32C of the masked address prefix that the identifier's last byte selects.\<close>

theorem isCompliant_iff_bits:
  "isCompliant Q nid a \<longleftrightarrow>
     map (idBit nid) [0..<21] = map (\<lambda>k. bit (crc32cRef (maskedPrefix Q a (nid ! 19))) (31 - k)) [0..<21]"
proof -
  let ?c = "prefixCrc Q a (nid ! 19)"
  have c: "?c = crc32cRef (maskedPrefix Q a (nid ! 19))" by (simp add: prefixCrc_def crc32c_ref)
  have div: "(8 + i) div 8 = Suc 0" "(16 + i) div 8 = 2" "(8 + i) mod 8 = i" "(16 + i) mod 8 = i" if "i < 8" for i :: nat
    using that by presburger+
  have "(\<forall>k < 21. idBit nid k = bit ?c (31 - k)) \<longleftrightarrow>
     (\<forall>i < 8. idBit nid i = bit ?c (31 - i)) \<and> (\<forall>i < 8. idBit nid (8 + i) = bit ?c (31 - (8 + i)))
     \<and> (\<forall>i < 5. idBit nid (16 + i) = bit ?c (31 - (16 + i)))"
    using all_less_split [of 8 "8 + 5" "\<lambda>k. idBit nid k = bit ?c (31 - k)"]
      all_less_split [of 8 5 "\<lambda>k. idBit nid (8 + k) = bit ?c (31 - (8 + k))"] by (simp add: add.assoc [symmetric])
  also have "\<dots> \<longleftrightarrow> isCompliant Q nid a"
    by (simp add: isCompliant_def Let_def crc_byte_bits crc_high_bits idBit_def div)
  finally show ?thesis
    unfolding c by (simp only: map_eq_conv set_upt atLeastLessThan_iff le0 simp_thms Ball_def)
qed

end
