(* ===== verification/NodeCatalog.thy ===== *)
theory NodeCatalog
  imports Probing Bep42
begin

text \<open>
  \<^verbatim>\<open>dhtcore/include/dhtcore/NodeCatalog.h\<close>, \<^verbatim>\<open>dhtcore/src/NodeCatalog.cpp\<close>: every node the scan knows, in
  stable slots, with the index of \<open>Probing\<close> over them. Slots are numbers and \<open>NoSlot\<close> is \<open>None\<close>; Qt's hash of a
  key, with the catalogue's seed, is the argument \<open>H\<close>; the random draws of \<open>pickVictim\<close> are the argument
  \<open>rnd\<close>, a number per draw which \<open>bounded\<close> reduces below the number of entries. Memory accounting is left out.
\<close>

section \<open>Entries\<close>

datatype entry_state = NewEntry | Responsive | Silent | Gone | Unroutable

record catalog_entry =
  ce_address :: bytes
  ce_port :: "16 word"
  ce_state :: entry_state
  ce_failures :: "8 word"
  ce_id :: node_id
  ce_version :: bytes
  ce_versionLength :: "8 word"
  ce_bep42 :: "8 word"
  ce_rttMs :: "16 word"
  ce_sightings :: "16 word"
  ce_inUse :: bool
  ce_selfListShare :: "8 word"
  ce_generation :: "32 word"
  ce_firstSeen :: "32 word"
  ce_lastListed :: "32 word"
  ce_lastQueried :: "32 word"
  ce_lastAnswered :: "32 word"
  ce_answeringSince :: "32 word"
  ce_flags :: "32 word"

definition NoRtt :: "16 word" where "NoRtt = 0xffff"
definition NoShare :: "8 word" where "NoShare = 0xff"

definition emptyEntry :: catalog_entry where
  "emptyEntry = \<lparr>ce_address = replicate 16 0, ce_port = 0, ce_state = NewEntry, ce_failures = 0, ce_id = nullId,
     ce_version = replicate 4 0, ce_versionLength = 0, ce_bep42 = 0, ce_rttMs = NoRtt, ce_sightings = 0, ce_inUse = False,
     ce_selfListShare = NoShare, ce_generation = 0, ce_firstSeen = 0, ce_lastListed = 0, ce_lastQueried = 0,
     ce_lastAnswered = 0, ce_answeringSince = 0, ce_flags = 0\<rparr>"

text \<open>Flag bits, by their position in the word.\<close>

datatype entry_flag = Tested51 | Has51 | Tested44 | Has44 | Tested32 | Has32 | TestedIp | SendsIp | TestedUnknown
  | Answers204 | AnswersOther | ListsBogons | FeatureQueued | AnswersError | Rejoined | TestedPeers | InventsPeers

fun flagBit :: "entry_flag \<Rightarrow> nat" where
  "flagBit Tested51 = 0"
| "flagBit Has51 = 1"
| "flagBit Tested44 = 2"
| "flagBit Has44 = 3"
| "flagBit Tested32 = 4"
| "flagBit Has32 = 5"
| "flagBit TestedIp = 6"
| "flagBit SendsIp = 7"
| "flagBit TestedUnknown = 8"
| "flagBit Answers204 = 9"
| "flagBit AnswersOther = 10"
| "flagBit ListsBogons = 11"
| "flagBit FeatureQueued = 12"
| "flagBit AnswersError = 15"
| "flagBit Rejoined = 16"
| "flagBit TestedPeers = 17"
| "flagBit InventsPeers = 18"

definition flagMask :: "entry_flag \<Rightarrow> 32 word" where
  "flagMask f = push_bit (flagBit f) 1"

definition TriesShift :: nat where "TriesShift = 13"
definition SampleCountShift :: nat where "SampleCountShift = 19"
definition MaxSampleCount :: int where "MaxSampleCount = 2 ^ 13 - 1"

definition has :: "entry_flag \<Rightarrow> catalog_entry \<Rightarrow> bool" where
  "has f e \<longleftrightarrow> ce_flags e AND flagMask f \<noteq> 0"

definition setFlag :: "entry_flag \<Rightarrow> bool \<Rightarrow> catalog_entry \<Rightarrow> catalog_entry" where
  "setFlag f on e = e\<lparr>ce_flags := (if on then ce_flags e OR flagMask f else ce_flags e AND NOT (flagMask f))\<rparr>"

definition featureTries :: "catalog_entry \<Rightarrow> int" where
  "featureTries e = uint (drop_bit TriesShift (ce_flags e) AND 3)"

definition setFeatureTries :: "int \<Rightarrow> catalog_entry \<Rightarrow> catalog_entry" where
  "setFeatureTries tries e = e\<lparr>ce_flags := (ce_flags e AND NOT (push_bit TriesShift 3))
     OR push_bit TriesShift (of_int (max 0 (min tries 3)))\<rparr>"

definition sampleCount :: "catalog_entry \<Rightarrow> 32 word" where
  "sampleCount e = drop_bit SampleCountShift (ce_flags e)"

definition setSampleCount :: "int \<Rightarrow> catalog_entry \<Rightarrow> catalog_entry" where
  "setSampleCount n e = e\<lparr>ce_flags := (ce_flags e AND (push_bit SampleCountShift 1 - 1))
     OR push_bit SampleCountShift (of_int (max 0 (min n MaxSampleCount)))\<rparr>"

definition featuresDone :: "catalog_entry \<Rightarrow> bool" where
  "featuresDone e \<longleftrightarrow> has Tested51 e \<and> has Tested44 e \<and> has TestedPeers e \<and> has TestedUnknown e"

definition mappedPrefix :: bytes where
  "mappedPrefix = replicate 10 0 @ [0xff, 0xff]"

definition isIPv4Entry :: "catalog_entry \<Rightarrow> bool" where
  "isIPv4Entry e \<longleftrightarrow> take 12 (ce_address e) = mappedPrefix"

definition entryFamily :: "catalog_entry \<Rightarrow> Family" where
  "entryFamily e = (if isIPv4Entry e then IPv4 else IPv6)"

definition hostAddress :: "catalog_entry \<Rightarrow> host_address" where
  "hostAddress e =
     (if isIPv4Entry e then V4 (from32 (drop 12 (ce_address e)))
      else V6 (ce_address e) '''')"

definition entryEndpoint :: "qt_net \<Rightarrow> catalog_entry \<Rightarrow> endpoint" where
  "entryEndpoint Q e = mkEndpoint Q (hostAddress e) (ce_port e)"

definition versionBytes :: "catalog_entry \<Rightarrow> bytes" where
  "versionBytes e =
     (let n = unat (ce_versionLength e)
      in take n (ce_version e) @ replicate (n - min n (length (ce_version e))) 0)"

definition setVersion :: "bytes \<Rightarrow> catalog_entry \<Rightarrow> catalog_entry" where
  "setVersion v e = e\<lparr>ce_versionLength := of_nat (min (length v) 254),
     ce_version := take 4 v @ replicate (4 - min (length v) 4) 0\<rparr>"

definition versionKey :: "catalog_entry \<Rightarrow> 64 word" where
  "versionKey e = push_bit 32 (ucast (ce_versionLength e)) OR push_bit 24 (ucast (ce_version e ! 0))
     OR push_bit 16 (ucast (ce_version e ! 1)) OR push_bit 8 (ucast (ce_version e ! 2)) OR ucast (ce_version e ! 3)"

definition versionKeyFor :: "bytes \<Rightarrow> 64 word" where
  "versionKeyFor v = versionKey (setVersion v emptyEntry)"

definition versionBytesForKey :: "64 word \<Rightarrow> bytes" where
  "versionBytesForKey key =
     (let len = nat (sint (ucast (drop_bit 32 key) :: 32 word))
      in map (\<lambda>i. if i < 4 then ucast (drop_bit (24 - 8 * i) key AND 0xff) else 0) [0..<len])"

section \<open>The catalogue\<close>

definition MaxCap :: int where "MaxCap = 50000000"
definition TickMs :: int where "TickMs = 100"
definition InitialTableSize :: nat where "InitialTableSize = 1024"
definition VictimSample :: nat where "VictimSample = 16"

fun evictionRank :: "entry_state \<Rightarrow> int" where
  "evictionRank Unroutable = 4"
| "evictionRank Silent = 3"
| "evictionRank Gone = 3"
| "evictionRank NewEntry = 2"
| "evictionRank Responsive = 1"

definition lastSign :: "catalog_entry \<Rightarrow> 32 word" where
  "lastSign e = max (ce_lastAnswered e) (max (ce_lastListed e) (ce_firstSeen e))"

record catalog_ref =
  ref_slot :: "nat option"
  ref_generation :: "32 word"

record catalog =
  nc_entries :: "catalog_entry list"
  nc_free :: "nat list"
  nc_table :: "nat option list"
  nc_size :: int
  nc_cap :: int
  nc_evicted :: int
  nc_epochMs :: int
  nc_nextGeneration :: "32 word"
  nc_counts :: "entry_state \<Rightarrow> int"

definition newCatalog :: "int \<Rightarrow> int \<Rightarrow> catalog" where
  "newCatalog cap now = \<lparr>nc_entries = [], nc_free = [], nc_table = [], nc_size = 0, nc_cap = max 0 (min cap MaxCap),
     nc_evicted = 0, nc_epochMs = now, nc_nextGeneration = 1, nc_counts = (\<lambda>_. 0)\<rparr>"

definition clearCatalog :: "int \<Rightarrow> catalog \<Rightarrow> catalog" where
  "clearCatalog now c = c\<lparr>nc_entries := [], nc_free := [], nc_table := [], nc_size := 0, nc_evicted := 0,
     nc_counts := (\<lambda>_. 0), nc_epochMs := now\<rparr>"

definition setCap :: "int \<Rightarrow> catalog \<Rightarrow> catalog" where
  "setCap cap c = c\<lparr>nc_cap := max 0 (min cap MaxCap)\<rparr>"

definition stamp :: "int \<Rightarrow> catalog \<Rightarrow> 32 word" where
  "stamp now c = of_int (max 0 ((now - nc_epochMs c) div TickMs) + 1)"

definition ageMs :: "32 word \<Rightarrow> int \<Rightarrow> catalog \<Rightarrow> int" where
  "ageMs earlier now c = (if earlier = 0 then 2 ^ 63 - 1 else (uint (stamp now c) - uint earlier) * TickMs)"

definition refTo :: "nat \<Rightarrow> catalog \<Rightarrow> catalog_ref" where
  "refTo s c = \<lparr>ref_slot = Some s, ref_generation = ce_generation (nc_entries c ! s)\<rparr>"

definition isCurrent :: "catalog_ref \<Rightarrow> catalog \<Rightarrow> bool" where
  "isCurrent r c =
     (case ref_slot r of
        None \<Rightarrow> False
      | Some s \<Rightarrow> s < length (nc_entries c) \<and> ce_inUse (nc_entries c ! s) \<and> ce_generation (nc_entries c ! s) = ref_generation r)"

definition setState :: "nat \<Rightarrow> entry_state \<Rightarrow> catalog \<Rightarrow> catalog" where
  "setState s st c =
     (let e = nc_entries c ! s
      in if ce_state e = st then c
         else let counts1 = (nc_counts c)(ce_state e := nc_counts c (ce_state e) - 1);
                  counts2 = counts1(st := counts1 st + 1)
              in c\<lparr>nc_counts := counts2, nc_entries := (nc_entries c)[s := e\<lparr>ce_state := st\<rparr>]\<rparr>)"

definition keyOfEndpoint :: "qt_net \<Rightarrow> endpoint \<Rightarrow> bytes" where
  "keyOfEndpoint Q e =
     (if isIPv4Protocol (address e) then mappedPrefix @ be32 (toIPv4Address (address e))
      else toIPv6Address Q (address e)) @ be16 (port e)"

definition keyOfEntry :: "catalog_entry \<Rightarrow> bytes" where
  "keyOfEntry e = ce_address e @ be16 (ce_port e)"

definition homeOf :: "(bytes \<Rightarrow> nat) \<Rightarrow> catalog_entry list \<Rightarrow> nat \<Rightarrow> nat \<Rightarrow> nat" where
  "homeOf H es n s = wrap n (H (keyOfEntry (es ! s)))"

definition findIndex :: "(bytes \<Rightarrow> nat) \<Rightarrow> bytes \<Rightarrow> catalog \<Rightarrow> nat option" where
  "findIndex H key c =
     (let t = nc_table c
      in if t = [] then None
         else case findLoop (length t) (\<lambda>s. keyOfEntry (nc_entries c ! s) = key) t (wrap (length t) (H key)) of
                None \<Rightarrow> None | Some r \<Rightarrow> r)"

definition findSlot :: "qt_net \<Rightarrow> (bytes \<Rightarrow> nat) \<Rightarrow> endpoint \<Rightarrow> catalog \<Rightarrow> nat option" where
  "findSlot Q H e c = (case findIndex H (keyOfEndpoint Q e) c of None \<Rightarrow> None | Some i \<Rightarrow> nc_table c ! i)"

definition insertIndex :: "(bytes \<Rightarrow> nat) \<Rightarrow> catalog_entry list \<Rightarrow> nat \<Rightarrow> nat option list \<Rightarrow> nat option list" where
  "insertIndex H es s t = (case freeLoop (length t) t (homeOf H es (length t) s) of None \<Rightarrow> t | Some i \<Rightarrow> t[i := Some s])"

definition eraseIndex :: "(bytes \<Rightarrow> nat) \<Rightarrow> nat \<Rightarrow> catalog \<Rightarrow> catalog" where
  "eraseIndex H s c =
     (case findIndex H (keyOfEntry (nc_entries c ! s)) c of
        None \<Rightarrow> c
      | Some i \<Rightarrow> case eraseLoop (length (nc_table c)) (homeOf H (nc_entries c) (length (nc_table c))) (nc_table c) i i of
                    None \<Rightarrow> c | Some t \<Rightarrow> c\<lparr>nc_table := t\<rparr>)"

definition growTable :: "(bytes \<Rightarrow> nat) \<Rightarrow> catalog \<Rightarrow> catalog" where
  "growTable H c =
     (let n = (if nc_table c = [] then InitialTableSize else length (nc_table c) * 2);
          used = filter (\<lambda>s. ce_inUse (nc_entries c ! s)) [0..<length (nc_entries c)]
      in c\<lparr>nc_table := fold (insertIndex H (nc_entries c)) used (replicate n None)\<rparr>)"

definition allocate :: "catalog \<Rightarrow> nat \<times> catalog" where
  "allocate c =
     (if nc_free c \<noteq> [] then (List.last (nc_free c), c\<lparr>nc_free := butlast (nc_free c)\<rparr>)
      else (length (nc_entries c), c\<lparr>nc_entries := nc_entries c @ [emptyEntry]\<rparr>))"

text \<open>\<open>consider\<close> of \<open>pickVictim\<close>: the best slot so far with its rank and last sign.\<close>

definition considerSlot :: "catalog_entry list \<Rightarrow> nat \<Rightarrow> nat option \<times> int \<times> 32 word \<Rightarrow> nat option \<times> int \<times> 32 word" where
  "considerSlot es s acc =
     (case acc of (best, bestRank, bestSign) \<Rightarrow>
        let e = es ! s; rank = evictionRank (ce_state e); sign = lastSign e
        in if \<not> ce_inUse e then acc
           else if rank > bestRank \<or> (rank = bestRank \<and> sign < bestSign) then (Some s, rank, sign) else acc)"

fun sampleVictims :: "(nat \<Rightarrow> nat) \<Rightarrow> catalog_entry list \<Rightarrow> nat \<Rightarrow> nat \<Rightarrow> nat \<Rightarrow> nat option \<times> int \<times> 32 word \<Rightarrow> nat option \<times> int \<times> 32 word" where
  "sampleVictims rnd es 0 drawn found acc = acc"
| "sampleVictims rnd es (Suc left) drawn found acc =
     (if found \<ge> VictimSample then acc
      else let s = rnd drawn mod length es
           in if ce_inUse (es ! s) then sampleVictims rnd es left (drawn + 1) (found + 1) (considerSlot es s acc)
              else sampleVictims rnd es left (drawn + 1) found acc)"

definition pickVictim :: "(nat \<Rightarrow> nat) \<Rightarrow> catalog \<Rightarrow> nat option" where
  "pickVictim rnd c =
     (let es = nc_entries c; none = (None, - 1, 0);
          scan = (\<lambda>acc. fst (fold (considerSlot es) [0..<length es] acc))
      in if length es \<le> VictimSample * 4 then scan none
         else let acc = sampleVictims rnd es (VictimSample * 8) 0 0 none
              in if fst acc = None then scan acc else fst acc)"

definition release :: "(bytes \<Rightarrow> nat) \<Rightarrow> nat \<Rightarrow> catalog \<Rightarrow> catalog" where
  "release H s c =
     (let c1 = eraseIndex H s c; e = nc_entries c1 ! s
      in c1\<lparr>nc_counts := (nc_counts c1)(ce_state e := nc_counts c1 (ce_state e) - 1), nc_size := nc_size c1 - 1,
            nc_entries := (nc_entries c1)[s := e\<lparr>ce_inUse := False\<rparr>], nc_free := nc_free c1 @ [s]\<rparr>)"

definition evictOne :: "(bytes \<Rightarrow> nat) \<Rightarrow> (nat \<Rightarrow> nat) \<Rightarrow> catalog \<Rightarrow> catalog" where
  "evictOne H rnd c =
     (case pickVictim rnd c of
        None \<Rightarrow> c
      | Some v \<Rightarrow> let c1 = release H v c in c1\<lparr>nc_evicted := nc_evicted c1 + 1\<rparr>)"

fun trimLoop :: "(bytes \<Rightarrow> nat) \<Rightarrow> (nat \<Rightarrow> nat \<Rightarrow> nat) \<Rightarrow> nat \<Rightarrow> int \<Rightarrow> catalog \<Rightarrow> int \<times> catalog" where
  "trimLoop H rnds 0 evicted c = (evicted, c)"
| "trimLoop H rnds (Suc left) evicted c =
     (if nc_size c > nc_cap c then trimLoop H rnds left (evicted + 1) (evictOne H (rnds left) c) else (evicted, c))"

definition trim :: "(bytes \<Rightarrow> nat) \<Rightarrow> (nat \<Rightarrow> nat \<Rightarrow> nat) \<Rightarrow> int \<Rightarrow> catalog \<Rightarrow> int \<times> catalog" where
  "trim H rnds maxEvictions c = trimLoop H rnds (nat maxEvictions) 0 c"

definition newEntry :: "bytes \<Rightarrow> 16 word \<Rightarrow> 32 word \<Rightarrow> 32 word \<Rightarrow> catalog_entry" where
  "newEntry key p generation seen = emptyEntry\<lparr>ce_address := take 16 key, ce_port := p, ce_inUse := True,
     ce_generation := generation, ce_firstSeen := seen\<rparr>"

definition upsert :: "qt_net \<Rightarrow> (bytes \<Rightarrow> nat) \<Rightarrow> (nat \<Rightarrow> nat) \<Rightarrow> endpoint \<Rightarrow> int \<Rightarrow> catalog \<Rightarrow> nat option \<times> bool \<times> catalog" where
  "upsert Q H rnd e now c =
     (let key = keyOfEndpoint Q e
      in case findIndex H key c of
           Some i \<Rightarrow> (nc_table c ! i, False, c)
         | None \<Rightarrow>
             if nc_cap c \<le> 0 then (None, False, c)
             else let c1 = (if nc_size c \<ge> nc_cap c then evictOne H rnd c else c);
                      c2 = (if nat (nc_size c1 + 1) * 2 > length (nc_table c1) then growTable H c1 else c1);
                      (s, c3) = allocate c2;
                      c4 = c3\<lparr>nc_entries := (nc_entries c3)[s := newEntry key (port e) (nc_nextGeneration c3) (stamp now c3)],
                             nc_nextGeneration := (if nc_nextGeneration c3 + 1 = 0 then 1 else nc_nextGeneration c3 + 1),
                             nc_counts := (nc_counts c3)(NewEntry := nc_counts c3 NewEntry + 1), nc_size := nc_size c3 + 1\<rparr>
                  in (Some s, True, c4\<lparr>nc_table := insertIndex H (nc_entries c4) s (nc_table c4)\<rparr>))"

section \<open>Invariant\<close>

definition usedSlots :: "catalog_entry list \<Rightarrow> nat set" where
  "usedSlots es = {s. s < length es \<and> ce_inUse (es ! s)}"

definition slotKey :: "catalog_entry list \<Rightarrow> nat \<Rightarrow> bytes" where
  "slotKey es s = keyOfEntry (es ! s)"

text \<open>The index holds exactly the slots in use, and no two of them have the same address and port.\<close>

definition wf_catIndex :: "(bytes \<Rightarrow> nat) \<Rightarrow> catalog_entry list \<Rightarrow> nat option list \<Rightarrow> bool" where
  "wf_catIndex H es t \<longleftrightarrow> (t = [] \<or> wf_index (homeOf H es (length t)) t) \<and> slots t = usedSlots es \<and> inj_on (slotKey es) (usedSlots es)"

definition wf_slots :: "catalog \<Rightarrow> bool" where
  "wf_slots c \<longleftrightarrow> distinct (nc_free c) \<and> set (nc_free c) = {..<length (nc_entries c)} - usedSlots (nc_entries c) \<and>
     nc_size c = int (card (usedSlots (nc_entries c))) \<and> 2 * card (usedSlots (nc_entries c)) \<le> length (nc_table c) \<and>
     (\<forall>st. nc_counts c st = int (card {s \<in> usedSlots (nc_entries c). ce_state (nc_entries c ! s) = st})) \<and>
     0 \<le> nc_cap c \<and> nc_cap c \<le> MaxCap"

definition wf_catalog :: "(bytes \<Rightarrow> nat) \<Rightarrow> catalog \<Rightarrow> bool" where
  "wf_catalog H c \<longleftrightarrow> wf_catIndex H (nc_entries c) (nc_table c) \<and> wf_slots c"

text \<open>The abstract catalogue: a finite map from addresses with ports to slots, read off the entries.\<close>

definition catMap :: "catalog \<Rightarrow> bytes \<Rightarrow> nat option" where
  "catMap c k = List.find (\<lambda>s. ce_inUse (nc_entries c ! s) \<and> slotKey (nc_entries c) s = k) [0..<length (nc_entries c)]"

lemma finite_usedSlots [simp]: "finite (usedSlots es)"
  by (simp add: usedSlots_def)

lemma wf_newCatalog: "wf_catalog H (newCatalog cap now)"
  by (simp add: wf_catalog_def wf_catIndex_def wf_slots_def newCatalog_def slots_def usedSlots_def MaxCap_def)

lemma catMap_Some:
  assumes "inj_on (slotKey (nc_entries c)) (usedSlots (nc_entries c))"
  shows "catMap c k = Some s \<longleftrightarrow> s \<in> usedSlots (nc_entries c) \<and> slotKey (nc_entries c) s = k"
proof -
  have "\<not> (ce_inUse (nc_entries c ! j) \<and> slotKey (nc_entries c) j = k)" if "s \<in> usedSlots (nc_entries c)" "slotKey (nc_entries c) s = k" "j < s" for j
    using assms that by (auto simp: usedSlots_def inj_on_def dest: less_trans)
  then show ?thesis unfolding catMap_def find_Some_iff by (auto simp: usedSlots_def intro!: exI [of _ s])
qed

lemma catMap_None: "catMap c k = None \<longleftrightarrow> (\<forall>s \<in> usedSlots (nc_entries c). slotKey (nc_entries c) s \<noteq> k)"
  by (auto simp: catMap_def find_None_iff usedSlots_def)

subsection \<open>The index\<close>

lemma wrap_less: "length t = 2 ^ k \<Longrightarrow> wrap (length t) x < length t"
  by (simp add: wrap_mod)

lemma wf_index_home: "wf_index hm t \<Longrightarrow> wrap (length t) x < length t"
  unfolding wf_index_def using wrap_less by blast

lemma probed_cong: "(\<And>s. s \<in> slots t \<Longrightarrow> hm' s = hm s) \<Longrightarrow> probed hm' t = probed hm t"
  unfolding probed_def slots_def by (metis (mono_tags, lifting) mem_Collect_eq nth_mem)

lemma wf_index_cong: "(\<And>s. s \<in> slots t \<Longrightarrow> hm' s = hm s) \<Longrightarrow> wf_index hm' t = wf_index hm t"
  using probed_cong [of t hm' hm] by (simp add: wf_index_def)

lemma findIndex_spec:
  assumes wf: "wf_catIndex H (nc_entries c) (nc_table c)"
  shows "case findIndex H k c of
      None \<Rightarrow> \<forall>s \<in> usedSlots (nc_entries c). slotKey (nc_entries c) s \<noteq> k
    | Some i \<Rightarrow> i < length (nc_table c) \<and> (\<exists>s \<in> usedSlots (nc_entries c). nc_table c ! i = Some s \<and> slotKey (nc_entries c) s = k)"
proof (cases "nc_table c = []")
  case True
  with wf show ?thesis by (simp add: findIndex_def wf_catIndex_def slots_def)
next
  case False
  let ?t = "nc_table c" let ?es = "nc_entries c"
  have ix: "wf_index (homeOf H ?es (length ?t)) ?t" and sl: "slots ?t = usedSlots ?es" and inj: "inj_on (slotKey ?es) (usedSlots ?es)"
    using wf False by (auto simp: wf_catIndex_def)
  have "\<exists>r. findLoop (length ?t) (\<lambda>s. keyOfEntry (?es ! s) = k) ?t (wrap (length ?t) (H k)) = Some r \<and>
    (case r of None \<Rightarrow> \<forall>s \<in> slots ?t. \<not> keyOfEntry (?es ! s) = k | Some p \<Rightarrow> p < length ?t \<and>
       (\<exists>s. ?t ! p = Some s \<and> s \<in> slots ?t \<and> keyOfEntry (?es ! s) = k))"
    by (rule find_correct [OF ix wf_index_home [OF ix]])
      (use inj in \<open>auto simp: homeOf_def sl slotKey_def inj_on_def\<close>)
  with False show ?thesis by (auto simp: findIndex_def sl slotKey_def split: option.splits)
qed

text \<open>A table with fewer slots than positions has a free one.\<close>

lemma full_card: "once t \<Longrightarrow> None \<notin> set t \<Longrightarrow> card (slots t) = length t"
proof -
  assume once: "once t" and full: "None \<notin> set t"
  have some: "t ! p = Some (the (t ! p))" if "p < length t" for p using full that by (metis nth_mem option.collapse)
  have "slots t = (\<lambda>p. the (t ! p)) ` {..<length t}"
    using some by (force simp: slots_def in_set_conv_nth)
  moreover have "inj_on (\<lambda>p. the (t ! p)) {..<length t}"
    using once some by (auto simp: inj_on_def once_def) metis
  ultimately show ?thesis by (simp add: card_image)
qed

lemma insertIndex_spec:
  assumes wf: "wf_index (homeOf H es (length t)) t" and s: "s \<notin> slots t" and room: "Suc (card (slots t)) < length t"
  shows "wf_index (homeOf H es (length t)) (insertIndex H es s t) \<and> slots (insertIndex H es s t) = insert s (slots t) \<and>
    length (insertIndex H es s t) = length t"
proof -
  have h: "homeOf H es (length t) s < length t" unfolding homeOf_def by (rule wf_index_home [OF wf])
  obtain p where p: "freeLoop (length t) t (homeOf H es (length t) s) = Some p" "p < length t" "t ! p = None"
    "slots (t[p := Some s]) = insert s (slots t)" "probed (homeOf H es (length t)) (t[p := Some s])" "once (t[p := Some s])"
    by (rule insert_correct [OF wf s h])
  have "finite (slots t)"
    by (rule finite_subset [of _ "the ` set t"]) (force simp: slots_def)+
  then have "card (slots (t[p := Some s])) < length (t[p := Some s])" using p(4) s room by simp
  then have "None \<in> set (t[p := Some s])" using full_card [OF p(6)] by (intro ccontr [of "None \<in> _"]) simp
  with p wf show ?thesis by (auto simp: insertIndex_def wf_index_def)
qed

lemma empty_index: "wf_index hm (replicate (2 ^ k) None)"
  by (auto simp: wf_index_def probed_def once_def)

lemma rebuild_index:
  assumes "distinct ss" "2 * length ss < length t" "length t = 2 ^ k" "wf_index (homeOf H es (length t)) t" "slots t \<inter> set ss = {}"
    "2 * (card (slots t) + length ss) < length t" "finite (slots t)"
  shows "wf_index (homeOf H es (length t)) (fold (insertIndex H es) ss t) \<and> slots (fold (insertIndex H es) ss t) = slots t \<union> set ss \<and>
    length (fold (insertIndex H es) ss t) = length t"
  using assms
proof (induction ss arbitrary: t)
  case (Cons s ss)
  have "Suc (card (slots t)) < length t" using Cons.prems by simp
  note ins = insertIndex_spec [OF Cons.prems(4) _ this, of s]
  have s: "s \<notin> slots t" using Cons.prems(5) by auto
  have "card (slots (insertIndex H es s t)) = Suc (card (slots t))" using ins [OF s] s Cons.prems(7) by simp
  with Cons.IH [of "insertIndex H es s t"] ins [OF s] Cons.prems show ?case by auto
qed simp

subsection \<open>Releasing a slot\<close>

lemma usedSlots_release: "s < length es \<Longrightarrow> usedSlots (es[s := (es ! s)\<lparr>ce_inUse := False\<rparr>]) = usedSlots es - {s}"
  by (auto simp: usedSlots_def nth_list_update split: if_splits)

lemma slotKey_release: "slotKey (es[s := (es ! s)\<lparr>ce_inUse := b\<rparr>]) = slotKey es"
  by (cases "s < length es") (auto simp: slotKey_def keyOfEntry_def nth_list_update fun_eq_iff list_update_beyond)

lemma homeOf_slotKey: "homeOf H es n s = wrap n (H (slotKey es s))"
  by (simp add: homeOf_def slotKey_def)

lemma card_state_remove:
  assumes "s \<in> A" "finite A"
  shows "int (card {x \<in> A - {s}. f x = st}) = int (card {x \<in> A. f x = st}) - of_bool (f s = st)"
proof (cases "f s = st")
  case True
  have "{x \<in> A - {s}. f x = st} = {x \<in> A. f x = st} - {s}" by auto
  moreover have "s \<in> {x \<in> A. f x = st}" using True assms by simp
  ultimately show ?thesis using True assms(2) card_Suc_Diff1 [of "{x \<in> A. f x = st}" s] by simp
next
  case False
  then have "{x \<in> A - {s}. f x = st} = {x \<in> A. f x = st}" by auto
  with False show ?thesis by simp
qed

lemma eraseIndex_spec:
  assumes wf: "wf_catIndex H (nc_entries c) (nc_table c)" and s: "s \<in> usedSlots (nc_entries c)"
  obtains t where "eraseIndex H s c = c\<lparr>nc_table := t\<rparr>" "wf_index (homeOf H (nc_entries c) (length t)) t"
    "length t = length (nc_table c)" "slots t = usedSlots (nc_entries c) - {s}"
proof -
  let ?es = "nc_entries c" let ?t = "nc_table c"
  have ix: "wf_index (homeOf H ?es (length ?t)) ?t" and sl: "slots ?t = usedSlots ?es" and inj: "inj_on (slotKey ?es) (usedSlots ?es)"
    using wf s by (auto simp: wf_catIndex_def slots_def)
  obtain i where f: "findIndex H (slotKey ?es s) c = Some i" and i: "i < length ?t" "?t ! i = Some s"
    using findIndex_spec [OF wf, of "slotKey ?es s"] s inj_onD [OF inj] by (auto split: option.splits)
  obtain t where "eraseLoop (length ?t) (homeOf H ?es (length ?t)) ?t i i = Some t" "wf_index (homeOf H ?es (length ?t)) t"
    "length t = length ?t" "slots t = slots ?t - {s}" by (rule erase_correct [OF ix i])
  with f sl that [of t] show thesis by (simp add: eraseIndex_def slotKey_def)
qed

lemma release_spec:
  assumes wf: "wf_catalog H c" and s: "s \<in> usedSlots (nc_entries c)"
  shows "wf_catalog H (release H s c)" "usedSlots (nc_entries (release H s c)) = usedSlots (nc_entries c) - {s}"
    "slotKey (nc_entries (release H s c)) = slotKey (nc_entries c)" "nc_cap (release H s c) = nc_cap c"
    "nc_size (release H s c) = nc_size c - 1"
proof -
  let ?es = "nc_entries c" let ?es' = "?es[s := (?es ! s)\<lparr>ce_inUse := False\<rparr>]"
  have w: "wf_catIndex H ?es (nc_table c)" "wf_slots c" using wf by (simp_all add: wf_catalog_def)
  have sl: "s < length ?es" using s by (simp add: usedSlots_def)
  obtain t where t: "eraseIndex H s c = c\<lparr>nc_table := t\<rparr>" "wf_index (homeOf H ?es (length t)) t"
    "length t = length (nc_table c)" "slots t = usedSlots ?es - {s}" by (rule eraseIndex_spec [OF w(1) s])
  have r: "nc_entries (release H s c) = ?es'" "nc_table (release H s c) = t" "nc_free (release H s c) = nc_free c @ [s]"
    "nc_counts (release H s c) = (nc_counts c)(ce_state (?es ! s) := nc_counts c (ce_state (?es ! s)) - 1)"
    by (simp_all add: release_def t(1) Let_def)
  show cap: "nc_cap (release H s c) = nc_cap c" "nc_size (release H s c) = nc_size c - 1" by (simp_all add: release_def t(1) Let_def)
  have u: "usedSlots ?es' = usedSlots ?es - {s}" by (rule usedSlots_release [OF sl])
  then show "usedSlots (nc_entries (release H s c)) = usedSlots ?es - {s}" by (simp add: r(1))
  show "slotKey (nc_entries (release H s c)) = slotKey ?es" by (simp add: r(1) slotKey_release)
  have homes: "homeOf H ?es' = homeOf H ?es" by (simp add: fun_eq_iff homeOf_slotKey slotKey_release)
  have "wf_catIndex H ?es' t" using w(1) t u by (auto simp: wf_catIndex_def homes slotKey_release inj_on_diff)
  moreover have "card (usedSlots ?es) = Suc (card (usedSlots ?es - {s}))" by (rule card_Suc_Diff1 [OF finite_usedSlots s, symmetric])
  moreover have "(\<lambda>x. ce_state (?es' ! x)) = (\<lambda>x. ce_state (?es ! x))" using sl by (auto simp: fun_eq_iff nth_list_update)
  moreover have "int (card {x \<in> usedSlots ?es - {s}. ce_state (?es ! x) = st}) =
      int (card {x \<in> usedSlots ?es. ce_state (?es ! x) = st}) - of_bool (ce_state (?es ! s) = st)" for st
    by (rule card_state_remove [OF s finite_usedSlots])
  ultimately show "wf_catalog H (release H s c)"
    using w(2) s sl t(3) by (auto simp: wf_catalog_def wf_slots_def r u cap fun_eq_iff)
qed

subsection \<open>Choosing a victim\<close>

definition victimAcc :: "catalog_entry list \<Rightarrow> nat option \<times> int \<times> 32 word \<Rightarrow> bool" where
  "victimAcc es acc \<longleftrightarrow> (case fst acc of None \<Rightarrow> fst (snd acc) = - 1 | Some v \<Rightarrow> v \<in> usedSlots es)"

lemma evictionRank_pos: "0 < evictionRank st"
  by (cases st) simp_all

lemma considerSlot_acc:
  "s < length es \<Longrightarrow> victimAcc es acc \<Longrightarrow> victimAcc es (considerSlot es s acc) \<and>
     (ce_inUse (es ! s) \<or> fst acc \<noteq> None \<longrightarrow> fst (considerSlot es s acc) \<noteq> None)"
  using evictionRank_pos [of "ce_state (es ! s)"]
  by (auto simp: considerSlot_def victimAcc_def usedSlots_def Let_def split: prod.splits option.splits)

lemma scan_acc:
  "(\<And>s. s \<in> set ss \<Longrightarrow> s < length es) \<Longrightarrow> victimAcc es acc \<Longrightarrow> victimAcc es (fold (considerSlot es) ss acc) \<and>
     ((\<exists>s \<in> set ss. ce_inUse (es ! s)) \<or> fst acc \<noteq> None \<longrightarrow> fst (fold (considerSlot es) ss acc) \<noteq> None)"
proof (induction ss arbitrary: acc)
  case (Cons s ss)
  then have "s < length es" by simp
  note step = considerSlot_acc [OF this Cons.prems(2)]
  have "victimAcc es (fold (considerSlot es) ss (considerSlot es s acc)) \<and>
     ((\<exists>s \<in> set ss. ce_inUse (es ! s)) \<or> fst (considerSlot es s acc) \<noteq> None \<longrightarrow> fst (fold (considerSlot es) ss (considerSlot es s acc)) \<noteq> None)"
    by (rule Cons.IH) (use Cons.prems(1) step in auto)
  with step show ?case by auto
qed simp

lemma sample_acc: "es \<noteq> [] \<Longrightarrow> victimAcc es acc \<Longrightarrow> victimAcc es (sampleVictims rnd es left drawn found acc)"
proof (induction left arbitrary: drawn found acc)
  case (Suc left)
  then show ?case using considerSlot_acc [of "rnd drawn mod length es" es acc] by (auto simp: Let_def)
qed simp

lemma pickVictim_used:
  assumes "usedSlots (nc_entries c) \<noteq> {}"
  shows "\<exists>v \<in> usedSlots (nc_entries c). pickVictim rnd c = Some v"
proof -
  let ?es = "nc_entries c"
  have ex: "\<exists>s \<in> set [0..<length ?es]. ce_inUse (?es ! s)" and ne: "?es \<noteq> []" using assms by (auto simp: usedSlots_def)
  have start: "victimAcc ?es (None, - 1, 0)" by (simp add: victimAcc_def)
  have scan: "\<exists>v \<in> usedSlots ?es. fst (fold (considerSlot ?es) [0..<length ?es] acc) = Some v" if "victimAcc ?es acc" for acc
    using scan_acc [of "[0..<length ?es]" ?es acc] that ex by (auto simp: victimAcc_def split: option.splits)
  show ?thesis
  proof (cases "length ?es \<le> VictimSample * 4")
    case True
    with scan [OF start] show ?thesis by (simp add: pickVictim_def Let_def)
  next
    case False
    have acc: "victimAcc ?es (sampleVictims rnd ?es (VictimSample * 8) 0 0 (None, - 1, 0))" by (rule sample_acc [OF ne start])
    show ?thesis
      using False scan [OF acc] acc
      by (cases "fst (sampleVictims rnd ?es (VictimSample * 8) 0 0 (None, - 1, 0))") (auto simp: pickVictim_def Let_def victimAcc_def)
  qed
qed

lemma evictOne_spec:
  assumes wf: "wf_catalog H c" and ne: "usedSlots (nc_entries c) \<noteq> {}"
  obtains v where "v \<in> usedSlots (nc_entries c)" "wf_catalog H (evictOne H rnd c)"
    "usedSlots (nc_entries (evictOne H rnd c)) = usedSlots (nc_entries c) - {v}"
    "slotKey (nc_entries (evictOne H rnd c)) = slotKey (nc_entries c)" "nc_cap (evictOne H rnd c) = nc_cap c"
    "nc_size (evictOne H rnd c) = nc_size c - 1"
proof -
  obtain v where v: "v \<in> usedSlots (nc_entries c)" "pickVictim rnd c = Some v" using pickVictim_used [OF ne] by blast
  note r = release_spec [OF wf v(1)]
  have "wf_catalog H (evictOne H rnd c)" using r(1) by (simp add: evictOne_def v(2) Let_def wf_catalog_def wf_slots_def)
  with r v that [of v] show thesis by (simp add: evictOne_def Let_def)
qed

subsection \<open>Growing and adding\<close>

lemma growTable_spec:
  assumes wf: "wf_catalog H c"
  shows "wf_catIndex H (nc_entries c) (nc_table (growTable H c))" "2 * Suc (card (usedSlots (nc_entries c))) \<le> length (nc_table (growTable H c))"
    "growTable H c = c\<lparr>nc_table := nc_table (growTable H c)\<rparr>"
proof -
  let ?es = "nc_entries c" let ?n = "if nc_table c = [] then InitialTableSize else length (nc_table c) * 2"
  let ?ss = "filter (\<lambda>s. ce_inUse (?es ! s)) [0..<length ?es]"
  have w: "wf_catIndex H ?es (nc_table c)" "2 * card (usedSlots ?es) \<le> length (nc_table c)"
    using wf by (simp_all add: wf_catalog_def wf_slots_def)
  have inj: "inj_on (slotKey ?es) (usedSlots ?es)" using w(1) by (simp add: wf_catIndex_def)
  obtain k where k: "?n = 2 ^ k"
  proof (cases "nc_table c = []")
    case True
    with that [of 10] show thesis by (simp add: InitialTableSize_def)
  next
    case False
    with w(1) obtain j where "length (nc_table c) = 2 ^ j" by (auto simp: wf_catIndex_def wf_index_def)
    with False that [of "Suc j"] show thesis by simp
  qed
  have ss: "distinct ?ss" "set ?ss = usedSlots ?es" by (auto simp: usedSlots_def)
  have len: "length ?ss = card (usedSlots ?es)" using distinct_card [OF ss(1)] ss(2) by simp
  have room: "2 * Suc (card (usedSlots ?es)) \<le> ?n"
  proof (cases "nc_table c = []")
    case True
    with w(2) show ?thesis by (simp add: InitialTableSize_def)
  next
    case False
    then obtain m where "length (nc_table c) = Suc m" by (cases "nc_table c") simp_all
    moreover from this w(2) have "card (usedSlots ?es) \<le> m" by simp
    ultimately show ?thesis using False by simp
  qed
  define t0 where "t0 = replicate (2 ^ k) (None :: nat option)"
  have t0: "length t0 = 2 ^ k" "slots t0 = {}" "wf_index hm t0" for hm by (auto simp: t0_def slots_def empty_index)
  have "wf_index (homeOf H ?es (length t0)) (fold (insertIndex H ?es) ?ss t0) \<and> slots (fold (insertIndex H ?es) ?ss t0) = slots t0 \<union> set ?ss \<and>
      length (fold (insertIndex H ?es) ?ss t0) = length t0"
    by (rule rebuild_index) (use ss len room k t0 in auto)
  then have t: "wf_index (homeOf H ?es (2 ^ k)) (nc_table (growTable H c))" "slots (nc_table (growTable H c)) = usedSlots ?es"
    "length (nc_table (growTable H c)) = 2 ^ k"
    using t0(1,2) ss(2) by (simp_all add: growTable_def Let_def k t0_def)
  then show "wf_catIndex H ?es (nc_table (growTable H c))" using inj by (simp add: wf_catIndex_def)
  show "2 * Suc (card (usedSlots ?es)) \<le> length (nc_table (growTable H c))" using room t(3) k by simp
  show "growTable H c = c\<lparr>nc_table := nc_table (growTable H c)\<rparr>" by (simp add: growTable_def Let_def)
qed

text \<open>A slot that is not in use: taken from the free list, or new at the end.\<close>

lemma allocate_spec:
  assumes wf: "wf_slots c" and a: "allocate c = (s, c')"
  obtains es where "c' = c\<lparr>nc_free := nc_free c', nc_entries := es\<rparr>" "s < length es" "s \<notin> usedSlots (nc_entries c)"
    "usedSlots es = usedSlots (nc_entries c)" "distinct (nc_free c')" "set (nc_free c') = {..<length es} - usedSlots (nc_entries c) - {s}"
    "\<And>x. x \<in> usedSlots (nc_entries c) \<Longrightarrow> es ! x = nc_entries c ! x"
proof (cases "nc_free c = []")
  case True
  then have full: "{..<length (nc_entries c)} - usedSlots (nc_entries c) = {}" using wf by (auto simp: wf_slots_def)
  have s: "s = length (nc_entries c)" "c' = c\<lparr>nc_entries := nc_entries c @ [emptyEntry]\<rparr>"
    using a True by (auto simp: allocate_def)
  show thesis
  proof (rule that [of "nc_entries c @ [emptyEntry]"])
    show "usedSlots (nc_entries c @ [emptyEntry]) = usedSlots (nc_entries c)"
      by (auto simp: usedSlots_def nth_append emptyEntry_def less_Suc_eq)
    show "set (nc_free c') = {..<length (nc_entries c @ [emptyEntry])} - usedSlots (nc_entries c) - {s}"
      using full True s by (auto simp: usedSlots_def less_Suc_eq)
  qed (use s True in \<open>auto simp: usedSlots_def nth_append\<close>)
next
  case False
  have s: "s = List.last (nc_free c)" "c' = c\<lparr>nc_free := butlast (nc_free c)\<rparr>" using a False by (auto simp: allocate_def)
  have f: "distinct (nc_free c)" "set (nc_free c) = {..<length (nc_entries c)} - usedSlots (nc_entries c)" using wf by (simp_all add: wf_slots_def)
  have "nc_free c = butlast (nc_free c) @ [s]" using False s by simp
  then have "distinct (butlast (nc_free c) @ [s])" "set (nc_free c) = insert s (set (butlast (nc_free c)))" using f(1) by (metis, metis Un_insert_right boolean_algebra.disj_zero_right list.simps(15) set_append set_empty)
  then have d: "distinct (butlast (nc_free c))" "set (butlast (nc_free c)) = set (nc_free c) - {s}" "s \<in> set (nc_free c)" by auto
  show thesis
    by (rule that [of "nc_entries c"]) (use s f d in auto)
qed

lemma usedSlots_fill: "s < length es \<Longrightarrow> s \<notin> usedSlots es \<Longrightarrow> ce_inUse e \<Longrightarrow> usedSlots (es[s := e]) = insert s (usedSlots es)"
  by (auto simp: usedSlots_def nth_list_update split: if_splits)

lemma fill_spec:
  assumes wf: "wf_catIndex H (nc_entries c) (nc_table c)" "wf_slots c" "2 * Suc (card (usedSlots (nc_entries c))) \<le> length (nc_table c)"
    and a: "allocate c = (s, c3)" and e: "ce_inUse e" "ce_state e = NewEntry" and fresh: "\<forall>x \<in> usedSlots (nc_entries c). slotKey (nc_entries c) x \<noteq> keyOfEntry e"
    and c': "nc_entries c' = (nc_entries c3)[s := e]" "nc_table c' = insertIndex H (nc_entries c') s (nc_table c)" "nc_free c' = nc_free c3"
      "nc_size c' = nc_size c + 1" "nc_counts c' = (nc_counts c)(NewEntry := nc_counts c NewEntry + 1)" "nc_cap c' = nc_cap c"
  shows "wf_catalog H c'" "usedSlots (nc_entries c') = insert s (usedSlots (nc_entries c))" "s \<notin> usedSlots (nc_entries c)"
    "slotKey (nc_entries c') s = keyOfEntry e" "\<forall>x \<in> usedSlots (nc_entries c). slotKey (nc_entries c') x = slotKey (nc_entries c) x"
proof -
  let ?U = "usedSlots (nc_entries c)" let ?es' = "nc_entries c'" let ?t = "nc_table c" let ?n = "length (nc_table c)"
  obtain es where es: "c3 = c\<lparr>nc_free := nc_free c3, nc_entries := es\<rparr>" "s < length es" "s \<notin> ?U"
    "usedSlots es = ?U" "distinct (nc_free c3)" "set (nc_free c3) = {..<length es} - ?U - {s}"
    "\<And>x. x \<in> ?U \<Longrightarrow> es ! x = nc_entries c ! x" by (rule allocate_spec [OF wf(2) a]) blast
  have e3: "nc_entries c3 = es" using arg_cong [OF es(1), of nc_entries] by simp
  show sU: "s \<notin> ?U" by (rule es(3))
  show U: "usedSlots ?es' = insert s ?U" using usedSlots_fill [of s es e] es(2-4) e(1) by (simp add: c'(1) e3)
  have old: "?es' ! x = nc_entries c ! x" if "x \<in> ?U" for x using that es(3,7) by (metis c'(1) e3 nth_list_update_neq)
  have new: "?es' ! s = e" using es(2) by (simp add: c'(1) e3)
  then show ks: "slotKey ?es' s = keyOfEntry e" by (simp add: slotKey_def)
  show ko: "\<forall>x \<in> ?U. slotKey ?es' x = slotKey (nc_entries c) x" using old by (simp add: slotKey_def)
  have ne: "?t \<noteq> []" using wf(3) by auto
  have ix: "wf_index (homeOf H (nc_entries c) ?n) ?t" and sl: "slots ?t = ?U" and inj: "inj_on (slotKey (nc_entries c)) ?U"
    using wf(1) ne by (auto simp: wf_catIndex_def)
  have ix': "wf_index (homeOf H ?es' ?n) ?t"
    using wf_index_cong [of ?t "homeOf H ?es' ?n" "homeOf H (nc_entries c) ?n"] ix ko by (simp add: sl homeOf_slotKey)
  have "s \<notin> slots ?t" "Suc (card (slots ?t)) < ?n" using sl sU wf(3) by auto
  note ins = insertIndex_spec [OF ix' this]
  have "inj_on (slotKey ?es') (insert s ?U)"
    using inj ko ks fresh sU by (simp add: inj_on_def) metis
  then have cat: "wf_catIndex H ?es' (nc_table c')" using ins U sl by (simp add: wf_catIndex_def c'(2))
  have cnt: "int (card {x \<in> insert s ?U. ce_state (?es' ! x) = st}) = int (card {x \<in> ?U. ce_state (nc_entries c ! x) = st}) + of_bool (st = NewEntry)" for st
  proof -
    have "{x \<in> insert s ?U. ce_state (?es' ! x) = st} = {x \<in> ?U. ce_state (nc_entries c ! x) = st} \<union> (if st = NewEntry then {s} else {})"
      using old new e(2) by (auto simp: insert_Collect)
    then show ?thesis using sU by simp
  qed
  have "set (nc_free c') = {..<length ?es'} - insert s ?U" using es(6) by (auto simp: c' e3)
  then show "wf_catalog H c'"
    using cat wf(2,3) es(5) sU ins unfolding wf_catalog_def wf_slots_def U cnt by (simp add: c')
qed

lemma upsert_known:
  assumes wf: "wf_catalog H c" and k: "catMap c (keyOfEndpoint Q e) = Some s"
  shows "upsert Q H rnd e now c = (Some s, False, c)"
proof -
  have w: "wf_catIndex H (nc_entries c) (nc_table c)" using wf by (simp add: wf_catalog_def)
  then have inj: "inj_on (slotKey (nc_entries c)) (usedSlots (nc_entries c))" by (simp add: wf_catIndex_def)
  have s: "s \<in> usedSlots (nc_entries c)" "slotKey (nc_entries c) s = keyOfEndpoint Q e" using k catMap_Some [OF inj] by auto
  with findIndex_spec [OF w, of "keyOfEndpoint Q e"] obtain i where "findIndex H (keyOfEndpoint Q e) c = Some i" "nc_table c ! i = Some s"
    using inj_onD [OF inj] by (auto split: option.splits)
  then show ?thesis by (simp add: upsert_def)
qed

lemma keyOfEndpoint_length:
  "wf_endpoint Q e \<Longrightarrow> length (qt_nullIPv6 Q) = 16 \<Longrightarrow> length (keyOfEndpoint Q e) = 18"
  by (cases "address e")
    (simp_all add: keyOfEndpoint_def mappedPrefix_def wf_endpoint_def wf_address_def toIPv6Address_def isIPv4Protocol_def)

lemma upsert_new:
  assumes wf: "wf_catalog H c" and k: "catMap c (keyOfEndpoint Q e) = None" and cap: "0 < nc_cap c"
    and len: "length (keyOfEndpoint Q e) = 18"
  obtains s c' V where "upsert Q H rnd e now c = (Some s, True, c')" "wf_catalog H c'" "V \<subseteq> usedSlots (nc_entries c)"
    "V = {} \<longleftrightarrow> nc_size c < nc_cap c" "card V \<le> 1" "s \<notin> usedSlots (nc_entries c) - V"
    "usedSlots (nc_entries c') = insert s (usedSlots (nc_entries c) - V)" "slotKey (nc_entries c') s = keyOfEndpoint Q e"
    "\<forall>x \<in> usedSlots (nc_entries c) - V. slotKey (nc_entries c') x = slotKey (nc_entries c) x"
proof -
  let ?k = "keyOfEndpoint Q e"
  have w: "wf_catIndex H (nc_entries c) (nc_table c)" "wf_slots c" using wf by (simp_all add: wf_catalog_def)
  have none: "findIndex H ?k c = None"
    using findIndex_spec [OF w(1), of ?k] k by (auto simp: catMap_None split: option.splits)
  define c1 where "c1 = (if nc_size c \<ge> nc_cap c then evictOne H rnd c else c)"
  define c2 where "c2 = (if nat (nc_size c1 + 1) * 2 > length (nc_table c1) then growTable H c1 else c1)"
  obtain s c3 where a: "allocate c2 = (s, c3)" by (cases "allocate c2")
  obtain V where c1: "wf_catalog H c1" "usedSlots (nc_entries c1) = usedSlots (nc_entries c) - V" "V \<subseteq> usedSlots (nc_entries c)"
    "V = {} \<longleftrightarrow> nc_size c < nc_cap c" "card V \<le> 1" "slotKey (nc_entries c1) = slotKey (nc_entries c)" "nc_cap c1 = nc_cap c"
  proof (cases "nc_size c \<ge> nc_cap c")
    case True
    with cap w(2) have "usedSlots (nc_entries c) \<noteq> {}" by (auto simp: wf_slots_def)
    from evictOne_spec [OF wf this, of rnd] obtain v where "v \<in> usedSlots (nc_entries c)" "wf_catalog H (evictOne H rnd c)"
      "usedSlots (nc_entries (evictOne H rnd c)) = usedSlots (nc_entries c) - {v}"
      "slotKey (nc_entries (evictOne H rnd c)) = slotKey (nc_entries c)" "nc_cap (evictOne H rnd c) = nc_cap c" by metis
    with True that [of "{v}"] show thesis by (simp add: c1_def)
  next
    case False
    with wf that [of "{}"] show thesis by (simp add: c1_def)
  qed
  have w1: "wf_catIndex H (nc_entries c1) (nc_table c1)" "wf_slots c1" using c1(1) by (simp_all add: wf_catalog_def)
  have c2: "wf_catIndex H (nc_entries c1) (nc_table c2)" "2 * Suc (card (usedSlots (nc_entries c1))) \<le> length (nc_table c2)"
    "c2 = c1\<lparr>nc_table := nc_table c2\<rparr>"
  proof -
    have sz: "nat (nc_size c1 + 1) = Suc (card (usedSlots (nc_entries c1)))" using w1(2) by (simp add: wf_slots_def)
    show "wf_catIndex H (nc_entries c1) (nc_table c2)" "2 * Suc (card (usedSlots (nc_entries c1))) \<le> length (nc_table c2)"
      "c2 = c1\<lparr>nc_table := nc_table c2\<rparr>"
      using growTable_spec [OF c1(1)] w1(1) sz by (auto simp: c2_def)
  qed
  have ent: "nc_entries c2 = nc_entries c1" "nc_size c2 = nc_size c1" "nc_counts c2 = nc_counts c1" "nc_cap c2 = nc_cap c1" "nc_free c2 = nc_free c1"
    by (subst c2(3); simp)+
  have w2: "wf_slots c2" using w1(2) c2(2) unfolding wf_slots_def by (simp add: ent)
  define ne where "ne = newEntry ?k (port e) (nc_nextGeneration c3) (stamp now c3)"
  define c4 where "c4 = c3\<lparr>nc_entries := (nc_entries c3)[s := ne],
                             nc_nextGeneration := (if nc_nextGeneration c3 + 1 = 0 then 1 else nc_nextGeneration c3 + 1),
                             nc_counts := (nc_counts c3)(NewEntry := nc_counts c3 NewEntry + 1), nc_size := nc_size c3 + 1\<rparr>"
  define c5 where "c5 = c4\<lparr>nc_table := insertIndex H (nc_entries c4) s (nc_table c4)\<rparr>"
  have up: "upsert Q H rnd e now c = (Some s, True, c5)"
    using cap none by (simp add: upsert_def Let_def c1_def [symmetric] c2_def [symmetric] a ne_def c4_def c5_def)
  have kn: "keyOfEntry ne = ?k"
    using len by (simp add: ne_def newEntry_def keyOfEntry_def keyOfEndpoint_def)
  have c3: "nc_table c3 = nc_table c2" "nc_size c3 = nc_size c2" "nc_counts c3 = nc_counts c2" "nc_cap c3 = nc_cap c2"
    using a by (auto simp: allocate_def split: if_splits)
  have fresh: "\<forall>x \<in> usedSlots (nc_entries c2). slotKey (nc_entries c2) x \<noteq> keyOfEntry ne"
    using k by (simp add: ent c1(2,6) kn catMap_None)
  note fill = fill_spec [where c = c2 and c' = c5 and e = ne, OF _ w2 _ a _ _ fresh]
  have "wf_catalog H c5" "usedSlots (nc_entries c5) = insert s (usedSlots (nc_entries c2))" "s \<notin> usedSlots (nc_entries c2)"
    "slotKey (nc_entries c5) s = keyOfEntry ne" "\<forall>x \<in> usedSlots (nc_entries c2). slotKey (nc_entries c5) x = slotKey (nc_entries c2) x"
    by (rule fill; use c2 ent c3 in \<open>simp add: c5_def c4_def ne_def newEntry_def emptyEntry_def\<close>)+
  with up c1(2-6) ent(1) kn show thesis by (intro that [of s c5 V]) simp_all
qed

section \<open>The packed flag word\<close>

lemma has_bit: "has f e \<longleftrightarrow> bit (ce_flags e) (flagBit f)"
  unfolding has_def flagMask_def by (simp only: bit_iff_and_push_bit_not_eq_0)

lemma flagBit_inj: "flagBit f = flagBit g \<Longrightarrow> f = g"
  by (cases f; cases g) simp_all

lemma flagBit_other: "flagBit f < 19" "flagBit f \<noteq> 13" "flagBit f \<noteq> 14"
  by (cases f; simp)+

lemma setFlag_bit: "bit (ce_flags (setFlag f b e)) i \<longleftrightarrow> (if i = flagBit f then b else bit (ce_flags e) i)"
proof -
  have "flagBit f < 32" by (cases f) simp_all
  then show ?thesis by (cases "i < 32") (auto simp: setFlag_def flagMask_def bit_simps dest: bit_imp_le_length)
qed

lemma clamp_bits:
  fixes v :: int
  assumes "0 \<le> v" "v < 2 ^ n" "n \<le> 32"
  shows "bit (of_int v :: 32 word) i \<longleftrightarrow> i < n \<and> bit v i"
proof -
  have "take_bit n v = v" using assms by (simp add: take_bit_int_eq_self)
  then have "bit v i \<longleftrightarrow> i < n \<and> bit v i" by (metis bit_take_bit_iff)
  moreover have "bit (of_int v :: 32 word) i \<longleftrightarrow> i < 32 \<and> bit v i" by (simp add: bit_of_int_iff)
  ultimately show ?thesis using assms(3) by auto
qed
 
lemma setFeatureTries_bit:
  "bit (ce_flags (setFeatureTries n e)) i \<longleftrightarrow>
     (if i = 13 \<or> i = 14 then bit (max 0 (min n 3)) (i - 13) else bit (ce_flags e) i)"
proof -
  define v where "v = max 0 (min n 3)"
  have v: "bit (of_int v :: 32 word) j \<longleftrightarrow> j < 2 \<and> bit v j" for j by (rule clamp_bits) (auto simp: v_def)
  have m: "(3 :: 32 word) = mask 2" by (simp add: mask_eq_exp_minus_1)
  have f: "bit (ce_flags e) i \<Longrightarrow> i < 32" using bit_imp_le_length [of "ce_flags e" i] by simp
  have "bit (ce_flags (setFeatureTries n e)) i \<longleftrightarrow> i < 32 \<and> (bit (ce_flags e) i \<and> \<not> (13 \<le> i \<and> i - 13 < 2) \<or> 13 \<le> i \<and> i - 13 < 2 \<and> bit v (i - 13))"
    unfolding setFeatureTries_def TriesShift_def m v_def [symmetric]
    by (cases "i < 32") (simp_all add: bit_or_iff bit_and_iff bit_not_iff bit_push_bit_iff bit_mask_iff v conj_commute)
  moreover have "13 \<le> i \<and> i - 13 < 2 \<longleftrightarrow> i = 13 \<or> i = 14" by auto
  ultimately show ?thesis unfolding v_def [symmetric] using f by auto
qed

lemma setSampleCount_bit:
  "bit (ce_flags (setSampleCount n e)) i \<longleftrightarrow> (if i < 19 then bit (ce_flags e) i else i < 32 \<and> bit (max 0 (min n MaxSampleCount)) (i - 19))"
proof -
  define v where "v = max 0 (min n MaxSampleCount)"
  have v: "bit (of_int v :: 32 word) j \<longleftrightarrow> j < 13 \<and> bit v j" for j by (rule clamp_bits) (auto simp: v_def MaxSampleCount_def)
  have m: "push_bit SampleCountShift 1 - 1 = (mask 19 :: 32 word)" by (simp add: SampleCountShift_def mask_eq_exp_minus_1 push_bit_eq_mult)
  have f: "bit (ce_flags e) i \<Longrightarrow> i < 32" using bit_imp_le_length [of "ce_flags e" i] by simp
  have "bit (ce_flags (setSampleCount n e)) i \<longleftrightarrow> i < 32 \<and> (bit (ce_flags e) i \<and> i < 19 \<or> 19 \<le> i \<and> i - 19 < 13 \<and> bit v (i - 19))"
    unfolding setSampleCount_def m v_def [symmetric] unfolding SampleCountShift_def
    by (cases "i < 32") (simp_all add: bit_or_iff bit_and_iff bit_push_bit_iff bit_mask_iff v conj_commute)
  then show ?thesis unfolding v_def [symmetric] using f by auto
qed

lemma tries_bits: "bit (drop_bit TriesShift w AND 3) j \<longleftrightarrow> j < 2 \<and> bit w (13 + j)" for w :: "32 word"
proof -
  have m: "(3 :: 32 word) = mask 2" by (simp add: mask_eq_exp_minus_1)
  show ?thesis unfolding m TriesShift_def by (auto simp: bit_and_iff bit_drop_bit_eq bit_mask_iff)
qed

lemma tries_cong: "bit (ce_flags e') 13 = bit (ce_flags e) 13 \<Longrightarrow> bit (ce_flags e') 14 = bit (ce_flags e) 14 \<Longrightarrow> featureTries e' = featureTries e"
proof -
  assume a: "bit (ce_flags e') 13 = bit (ce_flags e) 13" "bit (ce_flags e') 14 = bit (ce_flags e) 14"
  have "drop_bit TriesShift (ce_flags e') AND 3 = drop_bit TriesShift (ce_flags e) AND 3"
    using a by (intro bit_word_eqI) (auto simp: tries_bits less_2_cases_iff)
  then show ?thesis by (simp add: featureTries_def)
qed

lemma tries_set: "featureTries (setFeatureTries n e) = max 0 (min n 3)"
proof -
  define v where "v = max 0 (min n 3)"
  have v: "0 \<le> v" "v < 2 ^ 2" by (auto simp: v_def)
  have "drop_bit TriesShift (ce_flags (setFeatureTries n e)) AND 3 = of_int v"
    by (rule bit_word_eqI) (use clamp_bits [OF v] in \<open>auto simp: tries_bits setFeatureTries_bit less_2_cases_iff simp flip: v_def\<close>)
  moreover have "uint (of_int v :: 32 word) = v" using v by (simp add: uint_word_of_int)
  ultimately show ?thesis by (simp add: featureTries_def v_def)
qed

lemma count_cong: "(\<And>i. 19 \<le> i \<Longrightarrow> bit (ce_flags e') i = bit (ce_flags e) i) \<Longrightarrow> sampleCount e' = sampleCount e"
  unfolding sampleCount_def SampleCountShift_def by (intro bit_word_eqI) (simp add: bit_drop_bit_eq)

lemma count_set: "uint (sampleCount (setSampleCount n e)) = max 0 (min n MaxSampleCount)"
proof -
  define v where "v = max 0 (min n MaxSampleCount)"
  have v: "0 \<le> v" "v < 2 ^ 13" by (auto simp: v_def MaxSampleCount_def)
  have "sampleCount (setSampleCount n e) = of_int v"
    unfolding sampleCount_def SampleCountShift_def
    by (rule bit_word_eqI) (use clamp_bits [OF v] in \<open>auto simp: bit_drop_bit_eq setSampleCount_bit simp flip: v_def\<close>)
  moreover have "uint (of_int v :: 32 word) = v" using v by (simp add: uint_word_of_int)
  ultimately show ?thesis by (simp add: v_def)
qed

section \<open>Properties\<close>

text \<open>C27: The probing search of the index agrees with a scan of all entries: \<open>find\<close> returns the slot in use with the
  endpoint's address and port, and nothing exactly when there is none, in every well-formed catalogue and for every hash
  function; the loop always ends.\<close>

theorem catalog_find_refines:
  assumes "wf_catalog H c"
  shows "findSlot Q H e c = catMap c (keyOfEndpoint Q e)"
proof -
  have w: "wf_catIndex H (nc_entries c) (nc_table c)" using assms by (simp add: wf_catalog_def)
  then have inj: "inj_on (slotKey (nc_entries c)) (usedSlots (nc_entries c))" by (simp add: wf_catIndex_def)
  show ?thesis
  proof (cases "findIndex H (keyOfEndpoint Q e) c")
    case None
    with findIndex_spec [OF w, of "keyOfEndpoint Q e"] show ?thesis by (simp add: findSlot_def catMap_None [symmetric])
  next
    case (Some i)
    with findIndex_spec [OF w, of "keyOfEndpoint Q e"] obtain s where "s \<in> usedSlots (nc_entries c)" "nc_table c ! i = Some s"
      "slotKey (nc_entries c) s = keyOfEndpoint Q e" by auto
    with Some show ?thesis using catMap_Some [OF inj, of "keyOfEndpoint Q e" s] by (simp add: findSlot_def)
  qed
qed

theorem catalog_find_refines_witness:
  "findSlot qt_doc (\<lambda>_. 7) nullEndpoint (newCatalog 10 0) = catMap (newCatalog 10 0) (keyOfEndpoint qt_doc nullEndpoint)"
  by (rule catalog_find_refines [OF wf_newCatalog])

lemma catMap_cong:
  assumes "inj_on (slotKey (nc_entries c)) (usedSlots (nc_entries c))" "inj_on (slotKey (nc_entries c')) (usedSlots (nc_entries c'))"
    "\<And>s. s \<in> usedSlots (nc_entries c') \<and> slotKey (nc_entries c') s = k \<longleftrightarrow> s \<in> usedSlots (nc_entries c) \<and> slotKey (nc_entries c) s = k"
  shows "catMap c' k = catMap c k"
  using catMap_Some [OF assms(1), of k] catMap_Some [OF assms(2), of k] assms(3) by (metis not_None_eq)

lemma wf_catalog_inj: "wf_catalog H c \<Longrightarrow> inj_on (slotKey (nc_entries c)) (usedSlots (nc_entries c))"
  by (simp add: wf_catalog_def wf_catIndex_def)



text \<open>States the scan can bring a catalogue to. The rule \<open>edited\<close> is what \<open>at(slot)\<close> is used for: any change of an entry that
  keeps its address, port, state and use.\<close>

inductive catReachable :: "qt_net \<Rightarrow> (bytes \<Rightarrow> nat) \<Rightarrow> catalog \<Rightarrow> bool" for Q H where
  created: "catReachable Q H (newCatalog cap now)"
| cleared: "catReachable Q H c \<Longrightarrow> catReachable Q H (clearCatalog now c)"
| capSet: "catReachable Q H c \<Longrightarrow> catReachable Q H (setCap cap c)"
| trimmed: "catReachable Q H c \<Longrightarrow> catReachable Q H (snd (trim H rnds n c))"
| upserted: "catReachable Q H c \<Longrightarrow> wf_endpoint Q e \<Longrightarrow> catReachable Q H (snd (snd (upsert Q H rnd e now c)))"
| stateSet: "catReachable Q H c \<Longrightarrow> s \<in> usedSlots (nc_entries c) \<Longrightarrow> catReachable Q H (setState s st c)"
| edited: "catReachable Q H c \<Longrightarrow> keyOfEntry (f e) = keyOfEntry e \<Longrightarrow> ce_state (f e) = ce_state e \<Longrightarrow> ce_inUse (f e) = ce_inUse e \<Longrightarrow>
    e = nc_entries c ! s \<Longrightarrow> s < length (nc_entries c) \<Longrightarrow> catReachable Q H (c\<lparr>nc_entries := (nc_entries c)[s := f e]\<rparr>)"

lemma trimLoop_wf: "wf_catalog H c \<Longrightarrow> wf_catalog H (snd (trimLoop H rnds n evicted c))"
proof (induction n arbitrary: evicted c)
  case (Suc n)
  show ?case
  proof (cases "nc_size c > nc_cap c")
    case True
    with Suc.prems have "usedSlots (nc_entries c) \<noteq> {}" by (auto simp: wf_catalog_def wf_slots_def)
    then have "wf_catalog H (evictOne H (rnds n) c)" by (rule evictOne_spec [OF Suc.prems])
    with Suc.IH True show ?thesis by simp
  qed (use Suc.prems in simp)
qed simp

lemma same_entries_wf:
  assumes wf: "wf_catalog H c" and len: "length es = length (nc_entries c)"
    and same: "\<And>s. s < length es \<Longrightarrow> ce_inUse (es ! s) = ce_inUse (nc_entries c ! s) \<and> keyOfEntry (es ! s) = keyOfEntry (nc_entries c ! s)"
    and counts: "\<And>st. counts st = int (card {s \<in> usedSlots (nc_entries c). ce_state (es ! s) = st})"
  shows "wf_catalog H (c\<lparr>nc_counts := counts, nc_entries := es\<rparr>)"
proof -
  have u: "usedSlots es = usedSlots (nc_entries c)" using len same by (auto simp: usedSlots_def)
  have k: "\<forall>s \<in> usedSlots (nc_entries c). slotKey es s = slotKey (nc_entries c) s"
    using len same by (auto simp: usedSlots_def slotKey_def)
  have "wf_index (homeOf H es n) (nc_table c) = wf_index (homeOf H (nc_entries c) n) (nc_table c)" if "slots (nc_table c) = usedSlots (nc_entries c)" for n
    by (rule wf_index_cong) (use that k in \<open>simp add: homeOf_slotKey\<close>)
  moreover have "inj_on (slotKey es) (usedSlots (nc_entries c)) = inj_on (slotKey (nc_entries c)) (usedSlots (nc_entries c))"
    by (rule inj_on_cong) (use k in simp)
  ultimately show ?thesis using wf counts len by (simp add: wf_catalog_def wf_catIndex_def wf_slots_def u)
qed

lemma setState_wf:
  assumes wf: "wf_catalog H c" and s: "s \<in> usedSlots (nc_entries c)"
  shows "wf_catalog H (setState s st c)"
proof (cases "ce_state (nc_entries c ! s) = st")
  case False
  let ?es = "nc_entries c" let ?es' = "(nc_entries c)[s := (nc_entries c ! s)\<lparr>ce_state := st\<rparr>]" let ?U = "usedSlots (nc_entries c)"
  have sl: "s < length ?es" using s by (simp add: usedSlots_def)
  define counts where "counts = (let counts1 = (nc_counts c)(ce_state (?es ! s) := nc_counts c (ce_state (?es ! s)) - 1) in counts1(st := counts1 st + 1))"
  have "counts x = int (card {y \<in> ?U. ce_state (?es' ! y) = x})" for x
  proof -
    have rm: "int (card {y \<in> ?U - {s}. ce_state (?es ! y) = x}) = nc_counts c x - of_bool (ce_state (?es ! s) = x)"
      using card_state_remove [OF s finite_usedSlots, of "\<lambda>y. ce_state (?es ! y)" x] wf by (simp add: wf_catalog_def wf_slots_def)
    have "{y \<in> ?U. ce_state (?es' ! y) = x} = {y \<in> ?U - {s}. ce_state (?es ! y) = x} \<union> (if x = st then {s} else {})"
      using s sl by (auto simp: nth_list_update)
    then have "int (card {y \<in> ?U. ce_state (?es' ! y) = x}) = int (card {y \<in> ?U - {s}. ce_state (?es ! y) = x}) + of_bool (x = st)" by simp
    with rm False show ?thesis by (auto simp: counts_def Let_def)
  qed
  then have "wf_catalog H (c\<lparr>nc_counts := counts, nc_entries := ?es'\<rparr>)"
    by (intro same_entries_wf [OF wf]) (use sl in \<open>auto simp: nth_list_update keyOfEntry_def\<close>)
  with False show ?thesis by (simp add: setState_def Let_def counts_def)
qed (use wf in \<open>simp add: setState_def Let_def\<close>)

text \<open>C28: In every state the scan can reach, the index holds exactly the slots in use, each once and reachable by probing, no two
  slots in use have the same address and port, the free list is the rest, at most half the index is filled, and the size
  and the counts by state are exact.\<close>

theorem catalog_invariant:
  assumes "catReachable Q H c" "length (qt_nullIPv6 Q) = 16"
  shows "wf_catalog H c"
  using assms(1)
proof (induction rule: catReachable.induct)
  case (upserted c e rnd now)
  obtain r added c' where u: "upsert Q H rnd e now c = (r, added, c')" by (metis prod_cases3)
  show ?case
  proof (cases "catMap c (keyOfEndpoint Q e)")
    case None
    show ?thesis
    proof (cases "0 < nc_cap c")
      case True
      show ?thesis
        by (rule upsert_new [OF upserted.IH None True keyOfEndpoint_length [OF upserted.hyps(2) assms(2)], of rnd now]) (use u in simp)
    next
      case False
      have "findIndex H (keyOfEndpoint Q e) c = None"
        using findIndex_spec [of H c "keyOfEndpoint Q e"] upserted.IH None by (auto simp: catMap_None wf_catalog_def split: option.splits)
      with False upserted.IH show ?thesis by (simp add: upsert_def)
    qed
  qed (use upsert_known [OF upserted.IH] upserted.IH in simp)
next
  case (edited c f e s)
  let ?es = "(nc_entries c)[s := f e]"
  have same: "ce_state (?es ! x) = ce_state (nc_entries c ! x)" for x
    using edited.hyps by (cases "x = s") simp_all
  have "wf_catalog H (c\<lparr>nc_counts := nc_counts c, nc_entries := ?es\<rparr>)"
    by (rule same_entries_wf [OF edited.IH])
      (use edited.hyps edited.IH same in \<open>auto simp: wf_catalog_def wf_slots_def nth_list_update\<close>)
  then show ?case by simp
qed (simp_all add: wf_newCatalog setState_wf trim_def trimLoop_wf,
  simp_all add: wf_catalog_def wf_slots_def wf_catIndex_def clearCatalog_def setCap_def slots_def usedSlots_def MaxCap_def)

theorem catalog_invariant_witness:
  "wf_catalog (\<lambda>k. length k) (setCap 1 (snd (snd (upsert qt_doc (\<lambda>k. length k) (\<lambda>_. 0) nullEndpoint 5 (newCatalog 3 0)))))"
proof (rule catalog_invariant [of qt_doc])
  show "catReachable qt_doc (\<lambda>k. length k) (setCap 1 (snd (snd (upsert qt_doc (\<lambda>k. length k) (\<lambda>_. 0) nullEndpoint 5 (newCatalog 3 0)))))"
    by (intro capSet upserted created) (simp add: wf_endpoint_def wf_address_def nullEndpoint_def)
qed (simp add: qt_doc_def)

text \<open>The flag word of an entry packs seventeen flags, a two-bit try counter and a 13-bit sample count: setting any of them
  saturates it to its width, reads back, and changes none of the others.\<close>

theorem catalog_flags_independent:
  "has g (setFlag f b e) = (if g = f then b else has g e) \<and> featureTries (setFlag f b e) = featureTries e \<and>
   sampleCount (setFlag f b e) = sampleCount e \<and>
   featureTries (setFeatureTries n e) = max 0 (min n 3) \<and> has g (setFeatureTries n e) = has g e \<and>
   sampleCount (setFeatureTries n e) = sampleCount e \<and>
   uint (sampleCount (setSampleCount n e)) = max 0 (min n 8191) \<and> has g (setSampleCount n e) = has g e \<and>
   featureTries (setSampleCount n e) = featureTries e"
proof (intro conjI)
  show "has g (setFlag f b e) = (if g = f then b else has g e)" by (auto simp: has_bit setFlag_bit dest: flagBit_inj)
  show "featureTries (setFlag f b e) = featureTries e"
    by (rule tries_cong) (use flagBit_other(2,3) [of f] in \<open>auto simp: setFlag_bit\<close>)
  show "sampleCount (setFlag f b e) = sampleCount e"
    by (rule count_cong) (use flagBit_other(1) [of f] in \<open>simp add: setFlag_bit\<close>)
  show "has g (setFeatureTries n e) = has g e" using flagBit_other(2,3) [of g] by (simp add: has_bit setFeatureTries_bit)
  show "sampleCount (setFeatureTries n e) = sampleCount e" by (rule count_cong) (simp add: setFeatureTries_bit)
  show "has g (setSampleCount n e) = has g e" using flagBit_other(1) [of g] by (simp add: has_bit setSampleCount_bit)
  show "featureTries (setSampleCount n e) = featureTries e" by (rule tries_cong) (simp_all add: setSampleCount_bit)
  show "uint (sampleCount (setSampleCount n e)) = max 0 (min n 8191)" using count_set [of n e] by (simp add: MaxSampleCount_def)
qed (rule tries_set)

end
