(* ===== verification/Inbound.thy ===== *)
theory Inbound
  imports NodeCatalog Krpc
begin

text \<open>
  \<^verbatim>\<open>dhtcore/include/dhtcore/Inbound.h\<close>, \<^verbatim>\<open>dhtcore/src/Inbound.cpp\<close>: who queries us, by address. The summary for
  the user interface, which groups addresses by client name, is not modelled.
\<close>

definition MaxAddresses :: nat where "MaxAddresses = 500000"

record querier =
  qr_versionKey :: "64 word"
  qr_readOnly :: bool
  qr_ipv4 :: bool

record inbound_tally =
  ib_queriers :: "(bytes \<times> querier) list"
  ib_methods :: "(bytes \<times> int) list"
  ib_queries :: int
  ib_untracked :: int

definition emptyTally :: inbound_tally where
  "emptyTally = \<lparr>ib_queriers = [], ib_methods = [], ib_queries = 0, ib_untracked = 0\<rparr>"

definition knownMethods :: "bytes list" where
  "knownMethods = map ascii [''ping'', ''find_node'', ''get_peers'', ''announce_peer'', ''get'', ''put'', ''sample_infohashes'']"

definition methodLabel :: "bytes \<Rightarrow> bytes" where
  "methodLabel meth = (if meth \<in> set knownMethods then meth else ascii ''other'')"

definition addressKey :: "qt_net \<Rightarrow> host_address \<Rightarrow> bytes" where
  "addressKey Q a = (if isIPv4Protocol a then mappedPrefix @ be32 (toIPv4Address a) else toIPv6Address Q a)"

definition seenQuery :: "message \<Rightarrow> querier \<Rightarrow> querier" where
  "seenQuery msg q =
     (let q1 = q\<lparr>qr_readOnly := qr_readOnly q \<or> readOnly msg\<rparr>
      in if msg_version msg \<noteq> [] \<or> qr_versionKey q1 = 0 then q1\<lparr>qr_versionKey := versionKeyFor (msg_version msg)\<rparr> else q1)"

definition recordInbound :: "qt_net \<Rightarrow> endpoint \<Rightarrow> message \<Rightarrow> inbound_tally \<Rightarrow> inbound_tally" where
  "recordInbound Q from msg s =
     (let label = methodLabel (msg_method msg);
          s1 = s\<lparr>ib_queries := ib_queries s + 1,
                 ib_methods := AList.update label ((case map_of (ib_methods s) label of None \<Rightarrow> 0 | Some n \<Rightarrow> n) + 1) (ib_methods s)\<rparr>;
          k = addressKey Q (address from);
          v4 = isIPv4Protocol (address from)
      in case map_of (ib_queriers s1) k of
           Some q \<Rightarrow> s1\<lparr>ib_queriers := AList.update k (seenQuery msg q) (ib_queriers s1)\<rparr>
         | None \<Rightarrow>
             if length (ib_queriers s1) \<ge> MaxAddresses then s1\<lparr>ib_untracked := ib_untracked s1 + 1\<rparr>
             else s1\<lparr>ib_queriers := AList.update k (seenQuery msg \<lparr>qr_versionKey = 0, qr_readOnly = False, qr_ipv4 = v4\<rparr>) (ib_queriers s1)\<rparr>)"

definition clearInbound :: "inbound_tally \<Rightarrow> inbound_tally" where
  "clearInbound s = emptyTally"

section \<open>Bounds\<close>

definition wf_tally :: "inbound_tally \<Rightarrow> bool" where
  "wf_tally s \<longleftrightarrow> distinct (map fst (ib_queriers s)) \<and> length (ib_queriers s) \<le> MaxAddresses \<and>
     distinct (map fst (ib_methods s)) \<and> fst ` set (ib_methods s) \<subseteq> insert (ascii ''other'') (set knownMethods) \<and>
     alist_total (\<lambda>n. n) (ib_methods s) = ib_queries s"

lemma alist_total_bump:
  "distinct (map fst xs) \<Longrightarrow>
   alist_total (\<lambda>n. n) (AList.update k ((case map_of xs k of None \<Rightarrow> 0 | Some n \<Rightarrow> n) + 1) xs) = alist_total (\<lambda>n. n) xs + 1"
proof (cases "map_of xs k")
  case None
  then show ?thesis by (simp add: map_fst_update_new)
next
  case (Some n)
  assume "distinct (map fst xs)"
  from alist_total_update [OF Some this, of "\<lambda>n. n" "n + 1"] Some show ?thesis by simp
qed

lemma recordInbound_wf:
  assumes wf: "wf_tally s"
  shows "wf_tally (recordInbound Q from msg s)"
proof -
  let ?k = "addressKey Q (address from)"
  have meth: "distinct (map fst (AList.update (methodLabel m) v (ib_methods s))) \<and>
     fst ` set (AList.update (methodLabel m) v (ib_methods s)) \<subseteq> insert (ascii ''other'') (set knownMethods)" for m v
    using wf unfolding keys_update by (simp add: wf_tally_def distinct_update methodLabel_def)
  show ?thesis
  proof (cases "map_of (ib_queriers s) ?k")
    case None
    then have "?k \<notin> fst ` set (ib_queriers s)" by (simp add: map_of_eq_None_iff)
    then show ?thesis using wf meth alist_total_bump [of "ib_methods s"]
      by (simp add: recordInbound_def Let_def wf_tally_def None map_fst_update_new [OF None])
  next
    case (Some q)
    have "length (AList.update ?k x (ib_queriers s)) = length (ib_queriers s)" for x by (simp add: length_update Some)
    then show ?thesis using wf meth alist_total_bump [of "ib_methods s"]
      by (simp add: recordInbound_def Let_def wf_tally_def Some distinct_update)
  qed
qed

end
