(* ===== verification/DhtNode.thy ===== *)
theory DhtNode
  imports RoutingTable Lookup Inbound
begin

text \<open>
  \<^verbatim>\<open>dhtcore/include/dhtcore/DhtNode.h\<close>, \<^verbatim>\<open>dhtcore/src/DhtNode.cpp\<close>: a node on one address family, which puts
  the other components together. The state is one record. What comes from outside is the record \<open>env\<close>: the
  time, Qt's network predicates, the cryptographic functions, whether the socket takes a datagram, the random
  values, and the answer of the sibling node for the other family.

  Callbacks are data (\<open>node_cb\<close>, \<open>done_action\<close>). \<open>RpcManager\<close> runs a callback as the last thing it does with a
  reply, so the model takes the callbacks it hands over and runs them on the node's state (\<open>deliver\<close>). A
  lookup asks for queries and the node sends them when the lookup's step is over; the \<open>onSent\<close> hooks that run inside
  change nothing but the time a query left. Datagrams the node answers with are recorded in \<open>n_out\<close>, those of its
  own queries in \<open>out_wire\<close> of the RPC manager.
\<close>

section \<open>State\<close>

record node_config =
  cfg_family :: Family
  cfg_allowLocal :: bool
  cfg_bep42 :: bool
  cfg_readOnly :: bool
  cfg_hostLimit :: host_limit
  cfg_lookupSlowAfterMs :: int
  cfg_lookupTimeoutMs :: int
  cfg_version :: bytes

datatype seed_source = Injected | Bootstrap
datatype seed_state = Querying | SeedResponded | NoResponse

record seed =
  sd_source :: seed_source
  sd_state :: seed_state
  sd_lastAttempt :: int
  sd_rttMs :: int
  sd_id :: node_id
  sd_hasId :: bool
  sd_version :: bytes

definition emptySeed :: seed where
  "emptySeed = \<lparr>sd_source = Injected, sd_state = Querying, sd_lastAttempt = 0, sd_rttMs = - 1, sd_id = nullId,
     sd_hasId = False, sd_version = []\<rparr>"

record put_request =
  pr_target :: node_id
  pr_value :: bytes
  pr_isMutable :: bool
  pr_publicKey :: bytes
  pr_salt :: bytes
  pr_signature :: bytes
  pr_sequence :: int
  pr_cas :: "int option"

text \<open>What runs when a query ends or leaves. Lookups and writes are named by their position in the node's lists.\<close>

datatype node_cb = PlainCb | SeedCb endpoint | LookupCb nat endpoint | LookupSent nat endpoint | WriteCb nat | ProbeCb nat

datatype done_action = NoAction | ReportTo nat | PutTo put_request nat | AnnounceTo node_id "16 word" bool nat

text \<open>The shared counters of one \<open>put\<close> or \<open>announce\<close>.\<close>

record write_state =
  ws_pending :: int
  ws_accepted :: int
  ws_attempted :: int
  ws_report :: nat

datatype report = ProbeReport nat rpc_reply | LookupReport nat lookup_result | WriteReport nat int int

record node_stats =
  st_packetsIn :: int
  st_packetsOut :: int
  st_bytesIn :: int
  st_bytesOut :: int
  st_queriesIn :: int
  st_queriesOut :: int
  st_responsesIn :: int
  st_errorsIn :: int
  st_timeouts :: int
  st_malformedIn :: int
  st_rateLimited :: int
  st_readOnlyDropped :: int

definition noStats :: node_stats where
  "noStats = \<lparr>st_packetsIn = 0, st_packetsOut = 0, st_bytesIn = 0, st_bytesOut = 0, st_queriesIn = 0, st_queriesOut = 0,
     st_responsesIn = 0, st_errorsIn = 0, st_timeouts = 0, st_malformedIn = 0, st_rateLimited = 0, st_readOnlyDropped = 0\<rparr>"

record dht_node =
  n_config :: node_config
  n_bound :: bool
  n_id :: node_id
  n_table :: routing_table
  n_tokens :: token_manager
  n_voter :: ip_voter
  n_limiter :: rate_limiter
  n_replyRtts :: "int list"
  n_seeds :: "(endpoint \<times> seed) list"
  n_recentVerifications :: "(endpoint \<times> int) list"
  n_lookups :: "(lookup \<times> done_action) list"
  n_selfLookup :: "nat option"
  n_refreshLookup :: "nat option"
  n_writes :: "write_state list"
  n_rpc :: "node_cb rpc_manager"
  n_storage :: peer_storage
  n_items :: item_storage
  n_inbound :: "inbound_tally option"
  n_stats :: node_stats
  n_out :: "(bytes \<times> endpoint) list"
  n_changes :: nat
  n_reports :: "report list"

record env =
  e_now :: int
  e_Q :: qt_net
  e_C :: crypto
  e_sendOk :: "bytes \<Rightarrow> endpoint \<Rightarrow> bool"
  e_secret1 :: bytes
  e_secret2 :: bytes
  e_draw :: "nat \<Rightarrow> nat"
  e_shuffle :: "node_id list \<Rightarrow> node_id list"
  e_randomId :: node_id
  e_lowBits :: byte
  e_randomByte :: byte
  e_sibling :: "(node_id \<Rightarrow> compact_node list) option"

definition MaintenanceIntervalMs :: int where "MaintenanceIntervalMs = 5000"
definition PingIntervalMs :: int where "PingIntervalMs = 60 * 1000"
definition BucketRefreshMs :: int where "BucketRefreshMs = 15 * 60 * 1000"
definition VerificationWindowMs :: int where "VerificationWindowMs = 10 * 60 * 1000"
definition MaxPendingVerifications :: nat where "MaxPendingVerifications = 2000"
definition SampleIntervalSeconds :: int where "SampleIntervalSeconds = 6 * 60 * 60"
definition MaxSamples :: int where "MaxSamples = 20"
definition MinSamples :: nat where "MinSamples = 32"
definition MaxRttSamples :: nat where "MaxRttSamples = 256"

definition emitChanged :: "dht_node \<Rightarrow> dht_node" where
  "emitChanged n = n\<lparr>n_changes := n_changes n + 1\<rparr>"

definition modifyStats :: "(node_stats \<Rightarrow> node_stats) \<Rightarrow> dht_node \<Rightarrow> dht_node" where
  "modifyStats f n = n\<lparr>n_stats := f (n_stats n)\<rparr>"

text \<open>The constructor followed by a successful \<open>bind\<close>, so \<open>m_rpc\<close> is set from here on; \<open>n_bound\<close> is the state of the
  socket.\<close>

definition newNode :: "node_config \<Rightarrow> node_id \<Rightarrow> peer_storage \<Rightarrow> item_storage \<Rightarrow> inbound_tally option \<Rightarrow> 16 word \<Rightarrow> contact_budget option \<Rightarrow> dht_node" where
  "newNode cfg nid storage items inbound firstId budget =
     \<lparr>n_config = cfg, n_bound = True, n_id = nid, n_table = newTable nid True, n_tokens = newTokenManager, n_voter = newVoter,
      n_limiter = \<lparr>m_rate = 20, m_burst = 40, m_limits = []\<rparr>, n_replyRtts = [], n_seeds = [], n_recentVerifications = [],
      n_lookups = [], n_selfLookup = None, n_refreshLookup = None, n_writes = [],
      n_rpc = setBudget budget (setHostLimit (cfg_hostLimit cfg) (setReadOnly (cfg_readOnly cfg) (newRpcManager firstId))),
      n_storage = storage, n_items = items, n_inbound = inbound, n_stats = noStats, n_out = [], n_changes = 0, n_reports = []\<rparr>"

definition closeNode :: "dht_node \<Rightarrow> dht_node" where
  "closeNode n = n\<lparr>n_rpc := cancelAll (n_rpc n), n_bound := False\<rparr>"

definition nodeSetReadOnly :: "bool \<Rightarrow> dht_node \<Rightarrow> dht_node" where
  "nodeSetReadOnly ro n =
     (if cfg_readOnly (n_config n) = ro then n
      else emitChanged (n\<lparr>n_config := (n_config n)\<lparr>cfg_readOnly := ro\<rparr>, n_rpc := setReadOnly ro (n_rpc n)\<rparr>))"

definition setId :: "env \<Rightarrow> node_id \<Rightarrow> dht_node \<Rightarrow> dht_node" where
  "setId E nid n = emitChanged (n\<lparr>n_id := nid, n_table := rebuild (e_Q E) nid (e_now E) (n_table n)\<rparr>)"

section \<open>Sending\<close>

definition canWrite :: "env \<Rightarrow> dht_node \<Rightarrow> bytes \<Rightarrow> endpoint \<Rightarrow> bool" where
  "canWrite E n data to \<longleftrightarrow> n_bound n \<and> e_sendOk E data to"

definition sendDatagram :: "env \<Rightarrow> bytes \<Rightarrow> endpoint \<Rightarrow> dht_node \<Rightarrow> dht_node" where
  "sendDatagram E data to n =
     (if \<not> canWrite E n data to then n
      else modifyStats (\<lambda>s. s\<lparr>st_packetsOut := st_packetsOut s + 1, st_bytesOut := st_bytesOut s + int (length data)\<rparr>)
             (n\<lparr>n_out := n_out n @ [(data, to)]\<rparr>))"

text \<open>The hooks the RPC manager ran, and the datagrams it wrote through \<open>sendDatagram\<close>.\<close>

definition runHook :: "env \<Rightarrow> node_cb \<Rightarrow> dht_node \<Rightarrow> dht_node" where
  "runHook E cb n =
     (case cb of
        LookupSent i e \<Rightarrow>
          if i < length (n_lookups n)
          then n\<lparr>n_lookups := (n_lookups n)[i := (onSent (e_now E) e (fst (n_lookups n ! i)), snd (n_lookups n ! i))]\<rparr> else n
      | _ \<Rightarrow> n)"

definition withRpc :: "env \<Rightarrow> (node_cb rpc_manager \<Rightarrow> node_cb rpc_manager) \<Rightarrow> dht_node \<Rightarrow> dht_node" where
  "withRpc E f n =
     (let old = n_rpc n; new = f old;
          written = drop (length (out_wire old)) (out_wire new);
          n1 = modifyStats (\<lambda>s. s\<lparr>st_packetsOut := st_packetsOut s + int (length written),
                 st_bytesOut := st_bytesOut s + sum_list (map (\<lambda>(d, e). int (length d)) written)\<rparr>) (n\<lparr>n_rpc := new\<rparr>)
      in fold (runHook E) (drop (length (out_hooks old)) (out_hooks new)) n1)"

definition sendQuery :: "env \<Rightarrow> endpoint \<Rightarrow> bytes \<Rightarrow> bdict \<Rightarrow> node_cb \<Rightarrow> int \<Rightarrow> node_cb option \<Rightarrow> dht_node \<Rightarrow> dht_node" where
  "sendQuery E to meth arguments cb timeoutMs hook n =
     withRpc E (query (canWrite E n) (e_now E)
               \<lparr>q_to = to, q_method = meth, q_arguments = insert_or_assign (ascii ''id'') (mkString (toBytes (n_id n))) arguments,
                q_version = cfg_version (n_config n), q_callback = Some cb, q_timeoutMs = timeoutMs, q_onSent = hook\<rparr>)
       (modifyStats (\<lambda>s. s\<lparr>st_queriesOut := st_queriesOut s + 1\<rparr>) n)"

definition sendResponse :: "env \<Rightarrow> message \<Rightarrow> endpoint \<Rightarrow> bdict \<Rightarrow> dht_node \<Rightarrow> dht_node" where
  "sendResponse E msg to values n =
     (let values' = insert_or_assign (ascii ''id'') (mkString (toBytes (n_id n))) values;
          requester = (if cfg_bep42 (n_config n) then to else nullEndpoint)
      in sendDatagram E (encodeResponse (e_Q E) (transactionId msg) values' (cfg_version (n_config n)) requester) to n)"

definition sendError :: "env \<Rightarrow> bytes \<Rightarrow> endpoint \<Rightarrow> int \<Rightarrow> bytes \<Rightarrow> dht_node \<Rightarrow> dht_node" where
  "sendError E tid to code reason n = sendDatagram E (encodeError tid code reason (cfg_version (n_config n))) to n"

section \<open>Incoming queries\<close>

definition closestNodes :: "node_id \<Rightarrow> nat \<Rightarrow> dht_node \<Rightarrow> compact_node list" where
  "closestNodes target k n = map (\<lambda>x. \<lparr>cn_id = rn_id x, cn_endpoint = rn_endpoint x\<rparr>) (closest (n_table n) target k False)"

definition wants :: "Family \<Rightarrow> bvalue \<Rightarrow> bool \<times> bool" where
  "wants fam args =
     (case listAt args (ascii ''want'') of
        None \<Rightarrow> (fam = IPv4, fam = IPv6)
      | Some w \<Rightarrow>
          let any4 = list_ex (\<lambda>v. toString v = ascii ''n4'') (toList w);
              any6 = list_ex (\<lambda>v. toString v = ascii ''n6'') (toList w)
          in if any4 \<or> any6 then (any4, any6) else (fam = IPv4, fam = IPv6))"

definition fillNodes :: "env \<Rightarrow> node_id \<Rightarrow> Family \<Rightarrow> bytes \<Rightarrow> dht_node \<Rightarrow> bdict \<Rightarrow> bdict" where
  "fillNodes E target fam k n out =
     (case (if cfg_family (n_config n) = fam then Some (\<lambda>t. closestNodes t K n) else e_sibling E) of
        None \<Rightarrow> out
      | Some f \<Rightarrow> if f target = [] then out else insert_or_assign k (mkString (encodeNodes (e_Q E) (f target) fam)) out)"

definition nodesFor :: "env \<Rightarrow> node_id \<Rightarrow> bvalue \<Rightarrow> dht_node \<Rightarrow> bdict" where
  "nodesFor E target args n =
     (let (want4, want6) = wants (cfg_family (n_config n)) args;
          out4 = (if want4 then fillNodes E target IPv4 (ascii ''nodes'') n [] else [])
      in if want6 then fillNodes E target IPv6 (ascii ''nodes6'') n out4 else out4)"

definition idArg :: "bvalue \<Rightarrow> bytes \<Rightarrow> node_id option" where
  "idArg args k = fromBytes (case stringAt args k of Some b \<Rightarrow> b | None \<Rightarrow> [])"

definition isRouter :: "endpoint \<Rightarrow> dht_node \<Rightarrow> bool" where
  "isRouter e n = (case map_of (n_seeds n) e of None \<Rightarrow> False | Some s \<Rightarrow> sd_source s = Bootstrap)"

definition maybeVerify :: "env \<Rightarrow> node_id \<Rightarrow> endpoint \<Rightarrow> dht_node \<Rightarrow> dht_node" where
  "maybeVerify E nid from n =
     (if \<not> isUsableRemote (e_Q E) from (cfg_allowLocal (n_config n)) \<or> \<not> wouldAccept (n_table n) nid then n
      else if (case map_of (n_recentVerifications n) from of None \<Rightarrow> False | Some t \<Rightarrow> e_now E - t < VerificationWindowMs) then n
      else if length (n_recentVerifications n) \<ge> MaxPendingVerifications then n
      else sendQuery E from (ascii ''ping'') [] PlainCb DefaultTimeoutMs None
             (n\<lparr>n_recentVerifications := AList.update from (e_now E) (n_recentVerifications n)\<rparr>))"

definition tokenOf :: "env \<Rightarrow> endpoint \<Rightarrow> dht_node \<Rightarrow> bytes \<times> dht_node" where
  "tokenOf E from n =
     (let (tok, tm) = generateToken (e_C E) (e_Q E) (e_secret1 E) (e_secret2 E) (address from) (e_now E) (n_tokens n)
      in (tok, n\<lparr>n_tokens := tm\<rparr>))"

text \<open>\<open>!token || !m_tokens.validate(...)\<close>: whether the token is good, and the state with the secrets rotated.\<close>

definition checkToken :: "env \<Rightarrow> bvalue \<Rightarrow> endpoint \<Rightarrow> dht_node \<Rightarrow> bool \<times> dht_node" where
  "checkToken E args from n =
     (case stringAt args (ascii ''token'') of
        None \<Rightarrow> (False, n)
      | Some tok \<Rightarrow>
          let (ok, tm) = validateToken (e_C E) (e_Q E) (e_secret1 E) (e_secret2 E) tok (address from) (e_now E) (n_tokens n)
          in (ok, n\<lparr>n_tokens := tm\<rparr>))"

definition answerFindNode :: "env \<Rightarrow> message \<Rightarrow> endpoint \<Rightarrow> dht_node \<Rightarrow> dht_node" where
  "answerFindNode E msg from n =
     (case idArg (body msg) (ascii ''target'') of
        None \<Rightarrow> sendError E (transactionId msg) from ProtocolError (ascii ''missing or invalid target'') n
      | Some target \<Rightarrow> sendResponse E msg from (nodesFor E target (body msg) n) n)"

definition answerGetPeers :: "env \<Rightarrow> message \<Rightarrow> endpoint \<Rightarrow> dht_node \<Rightarrow> dht_node" where
  "answerGetPeers E msg from n =
     (case idArg (body msg) (ascii ''info_hash'') of
        None \<Rightarrow> sendError E (transactionId msg) from ProtocolError (ascii ''missing or invalid info_hash'') n
      | Some infohash \<Rightarrow>
          let values = nodesFor E infohash (body msg) n;
              (tok, n1) = tokenOf E from n;
              values1 = insert_or_assign (ascii ''token'') (mkString tok) values;
              maxPeers = (if cfg_family (n_config n) = IPv4 then 100 else 50);
              ps = storedPeers (e_Q E) (e_draw E) infohash (cfg_family (n_config n)) maxPeers (n_storage n);
              values2 = (if ps = [] then values1
                         else insert_or_assign (ascii ''values'') (mkList (map (\<lambda>p. mkString (toCompact (e_Q E) p)) ps)) values1)
          in sendResponse E msg from values2 n1)"

definition answerAnnounce :: "env \<Rightarrow> message \<Rightarrow> endpoint \<Rightarrow> dht_node \<Rightarrow> dht_node" where
  "answerAnnounce E msg from n =
     (case idArg (body msg) (ascii ''info_hash'') of
        None \<Rightarrow> sendError E (transactionId msg) from ProtocolError (ascii ''missing or invalid info_hash'') n
      | Some infohash \<Rightarrow>
          let (ok, n1) = checkToken E (body msg) from n
          in if \<not> ok then sendError E (transactionId msg) from ProtocolError (ascii ''invalid token'') n1
             else let implied = (case integerAt (body msg) (ascii ''implied_port'') of Some i \<Rightarrow> i = 1 | None \<Rightarrow> False);
                      p = (if implied then uint (port from) else case integerAt (body msg) (ascii ''port'') of Some i \<Rightarrow> i | None \<Rightarrow> 0)
                  in if p < 1 \<or> p > 65535 then sendError E (transactionId msg) from ProtocolError (ascii ''invalid port'') n1
                     else emitChanged (sendResponse E msg from []
                            (n1\<lparr>n_storage := announce infohash (mkEndpoint (e_Q E) (address from) (of_int p)) (e_now E) (n_storage n1)\<rparr>)))"

definition handleGet :: "env \<Rightarrow> message \<Rightarrow> endpoint \<Rightarrow> dht_node \<Rightarrow> dht_node" where
  "handleGet E msg from n =
     (case idArg (body msg) (ascii ''target'') of
        None \<Rightarrow> sendError E (transactionId msg) from ProtocolError (ascii ''missing or invalid target'') n
      | Some target \<Rightarrow>
          let values = nodesFor E target (body msg) n;
              (tok, n1) = tokenOf E from n;
              values1 = insert_or_assign (ascii ''token'') (mkString tok) values;
              values2 =
                (case immutableItem target (n_items n) of
                   Some it \<Rightarrow> insert_or_assign (ascii ''v'') (preEncoded (ii_value it)) values1
                 | None \<Rightarrow>
                     (case mutableItem target (n_items n) of
                        None \<Rightarrow> values1
                      | Some it \<Rightarrow>
                          let w1 = insert_or_assign (ascii ''k'') (mkString (mi_publicKey it)) values1;
                              w2 = insert_or_assign (ascii ''seq'') (mkInt (mi_sequence it)) w1
                          in (case integerAt (body msg) (ascii ''seq'') of
                                Some known \<Rightarrow> if mi_sequence it > known
                                  then insert_or_assign (ascii ''sig'') (mkString (mi_signature it)) (insert_or_assign (ascii ''v'') (preEncoded (mi_value it)) w2)
                                  else w2
                              | None \<Rightarrow> insert_or_assign (ascii ''sig'') (mkString (mi_signature it)) (insert_or_assign (ascii ''v'') (preEncoded (mi_value it)) w2))))
          in sendResponse E msg from values2 n1)"

definition answerSample :: "env \<Rightarrow> message \<Rightarrow> endpoint \<Rightarrow> dht_node \<Rightarrow> dht_node" where
  "answerSample E msg from n =
     (case idArg (body msg) (ascii ''target'') of
        None \<Rightarrow> sendError E (transactionId msg) from ProtocolError (ascii ''missing or invalid target'') n
      | Some target \<Rightarrow>
          let values = nodesFor E target (body msg) n;
              samples = concat (map toBytes (sampleInfohashes (e_shuffle E) MaxSamples (n_storage n)));
              v1 = insert_or_assign (ascii ''samples'') (mkString samples) values;
              v2 = insert_or_assign (ascii ''num'') (mkInt (int (length (m_entries (n_storage n))))) v1;
              v3 = insert_or_assign (ascii ''interval'') (mkInt SampleIntervalSeconds) v2
          in sendResponse E msg from v3 n)"

text \<open>The part of \<open>handlePut\<close> for a mutable item, once the sizes of its fields are known to be right.\<close>

definition storeMutable :: "env \<Rightarrow> message \<Rightarrow> endpoint \<Rightarrow> bytes \<Rightarrow> bytes \<Rightarrow> bytes \<Rightarrow> int \<Rightarrow> bytes \<Rightarrow> dht_node \<Rightarrow> dht_node" where
  "storeMutable E msg from raw k salt sequence signature n =
     (let tid = transactionId msg in
      case verify (e_C E) signature (signingBuffer salt sequence raw) k of
        None \<Rightarrow> sendError E tid from ProtocolError (ascii ''mutable items are not supported by this node yet'') n
      | Some False \<Rightarrow> sendError E tid from InvalidSignature (ascii ''invalid signature'') n
      | Some True \<Rightarrow>
          let item = \<lparr>mi_target = mutableTarget (e_C E) k salt, mi_publicKey = k, mi_salt = salt, mi_signature = signature,
                mi_value = raw, mi_sequence = sequence, mi_storedAt = 0\<rparr>;
              (result, items) = putMutable item (integerAt (body msg) (ascii ''cas'')) (e_now E) (n_items n);
              n1 = n\<lparr>n_items := items\<rparr>
          in (case result of
                CasMismatch \<Rightarrow> sendError E tid from CasMismatchCode (ascii ''CAS hash mismatch, re-read value and try again'') n1
              | SequenceTooLow \<Rightarrow> sendError E tid from SequenceTooLowCode (ascii ''sequence number less than current'') n1
              | TooBig \<Rightarrow> sendError E tid from MessageTooBig (ascii ''message (v field) too big'') n1
              | SaltTooLong \<Rightarrow> sendError E tid from SaltTooLongCode (ascii ''salt (salt field) too long'') n1
              | _ \<Rightarrow> emitChanged (sendResponse E msg from [] n1)))"

definition handlePut :: "env \<Rightarrow> message \<Rightarrow> endpoint \<Rightarrow> bytes \<Rightarrow> dht_node \<Rightarrow> dht_node" where
  "handlePut E msg from datagram n =
     (let args = body msg; tid = transactionId msg; (ok, n1) = checkToken E args from n
      in if \<not> ok then sendError E tid from ProtocolError (ascii ''invalid token'') n1
         else let raw = (case find_key args (ascii ''v'') of None \<Rightarrow> [] | Some v \<Rightarrow> rawSpan v datagram)
         in if raw = [] then sendError E tid from ProtocolError (ascii ''missing or unreadable v'') n1
         else if length raw > MaxValueBytes then sendError E tid from MessageTooBig (ascii ''message (v field) too big'') n1
         else case stringAt args (ascii ''k'') of
                None \<Rightarrow> emitChanged (sendResponse E msg from []
                   (n1\<lparr>n_items := snd (putImmutable (immutableTarget (e_C E) raw) raw (e_now E) (n_items n1))\<rparr>))
              | Some k \<Rightarrow>
                  let salt = (case stringAt args (ascii ''salt'') of Some s \<Rightarrow> s | None \<Rightarrow> [])
                  in if length k \<noteq> PublicKeyBytes then sendError E tid from ProtocolError (ascii ''invalid k'') n1
                     else if length salt > MaxSaltBytes then sendError E tid from SaltTooLongCode (ascii ''salt (salt field) too long'') n1
                     else (case (integerAt args (ascii ''seq''), stringAt args (ascii ''sig'')) of
                             (Some sequence, Some signature) \<Rightarrow>
                               if length signature \<noteq> SignatureBytes
                               then sendError E tid from ProtocolError (ascii ''mutable put needs seq and sig'') n1
                               else storeMutable E msg from raw k salt sequence signature n1
                           | _ \<Rightarrow> sendError E tid from ProtocolError (ascii ''mutable put needs seq and sig'') n1))"

definition dispatch :: "env \<Rightarrow> message \<Rightarrow> endpoint \<Rightarrow> bytes \<Rightarrow> dht_node \<Rightarrow> dht_node" where
  "dispatch E msg from datagram n =
     (let m = msg_method msg
      in if m = ascii ''ping'' then sendResponse E msg from [] n
         else if m = ascii ''find_node'' then answerFindNode E msg from n
         else if m = ascii ''get_peers'' then answerGetPeers E msg from n
         else if m = ascii ''announce_peer'' then answerAnnounce E msg from n
         else if m = ascii ''get'' then handleGet E msg from n
         else if m = ascii ''sample_infohashes'' then answerSample E msg from n
         else if m = ascii ''put'' then handlePut E msg from datagram n
         else sendError E (transactionId msg) from MethodUnknown (ascii ''Method Unknown'') n)"

definition noteQuerier :: "env \<Rightarrow> message \<Rightarrow> endpoint \<Rightarrow> node_id \<Rightarrow> dht_node \<Rightarrow> dht_node" where
  "noteQuerier E msg from sid n =
     (if readOnly msg \<or> sid = n_id n then n
      else let (known, rt) = queriedBy sid from (e_now E) (n_table n); n1 = n\<lparr>n_table := rt\<rparr>
           in if known then n1 else maybeVerify E sid from n1)"

definition handleQuery :: "env \<Rightarrow> message \<Rightarrow> endpoint \<Rightarrow> bytes \<Rightarrow> dht_node \<Rightarrow> dht_node" where
  "handleQuery E msg from datagram n =
     (let n1 = n\<lparr>n_inbound := map_option (recordInbound (e_Q E) from msg) (n_inbound n)\<rparr>;
          (ok, lim) = allow (address from) (e_now E) (n_limiter n1);
          n2 = n1\<lparr>n_limiter := lim\<rparr>
      in if \<not> ok then modifyStats (\<lambda>s. s\<lparr>st_rateLimited := st_rateLimited s + 1\<rparr>) n2
         else let n3 = modifyStats (\<lambda>s. s\<lparr>st_queriesIn := st_queriesIn s + 1\<rparr>) n2
         in if cfg_readOnly (n_config n3) then modifyStats (\<lambda>s. s\<lparr>st_readOnlyDropped := st_readOnlyDropped s + 1\<rparr>) n3
         else case senderId msg of
                None \<Rightarrow> sendError E (transactionId msg) from ProtocolError (ascii ''missing or invalid id'') n3
              | Some sid \<Rightarrow> dispatch E msg from datagram (noteQuerier E msg from sid n3))"

section \<open>Lookups\<close>

definition replyRttQuantile :: "rat \<Rightarrow> dht_node \<Rightarrow> int" where
  "replyRttQuantile quantile n =
     (let rtts = n_replyRtts n
      in if length rtts < MinSamples then - 1
         else sort rtts ! min (length rtts - 1) (nat \<lfloor>quantile * of_nat (length rtts)\<rfloor>))"

text \<open>Sends what a lookup has asked for beyond the first \<open>k\<close> queries.\<close>

definition sendAsked :: "env \<Rightarrow> nat \<Rightarrow> asked list \<Rightarrow> dht_node \<Rightarrow> dht_node" where
  "sendAsked E i qs n =
     fold (\<lambda>q m. sendQuery E (a_to q) (a_method q) (a_arguments q) (LookupCb i (a_to q)) (a_timeoutMs q) (Some (LookupSent i (a_to q))) m) qs n"

definition putArguments :: "put_request \<Rightarrow> bytes \<Rightarrow> bdict" where
  "putArguments r token =
     (let a1 = emplace (ascii ''token'') (mkString token) [];
          a2 = emplace (ascii ''v'') (preEncoded (pr_value r)) a1
      in if \<not> pr_isMutable r then a2
         else let a3 = emplace (ascii ''k'') (mkString (pr_publicKey r)) a2;
                  a4 = emplace (ascii ''seq'') (mkInt (pr_sequence r)) a3;
                  a5 = emplace (ascii ''sig'') (mkString (pr_signature r)) a4;
                  a6 = (if pr_salt r \<noteq> [] then emplace (ascii ''salt'') (mkString (pr_salt r)) a5 else a5)
              in (case pr_cas r of None \<Rightarrow> a6 | Some c \<Rightarrow> emplace (ascii ''cas'') (mkInt c) a6))"

definition announceArguments :: "node_id \<Rightarrow> 16 word \<Rightarrow> bool \<Rightarrow> bytes \<Rightarrow> bdict" where
  "announceArguments infohash p implied token =
     (let a1 = emplace (ascii ''info_hash'') (mkString (toBytes infohash)) [];
          a2 = emplace (ascii ''port'') (mkInt (uint p)) a1;
          a3 = emplace (ascii ''token'') (mkString token) a2
      in if implied then emplace (ascii ''implied_port'') (mkInt 1) a3 else a3)"

text \<open>The writes that follow a lookup: one query to each of the closest nodes that gave a token.\<close>

definition writeTo :: "env \<Rightarrow> bytes \<Rightarrow> (bytes \<Rightarrow> bdict) \<Rightarrow> nat \<Rightarrow> contact list \<Rightarrow> dht_node \<Rightarrow> dht_node" where
  "writeTo E meth argsFor done cs n =
     (let targets = filter (\<lambda>c. ct_token c \<noteq> []) cs; w = length (n_writes n); k = int (length targets)
      in if targets = [] then n\<lparr>n_reports := n_reports n @ [WriteReport done 0 0]\<rparr>
         else fold (\<lambda>c. sendQuery E (ct_endpoint c) meth (argsFor (ct_token c)) (WriteCb w) DefaultTimeoutMs None) targets
                (n\<lparr>n_writes := n_writes n @ [\<lparr>ws_pending = k, ws_accepted = 0, ws_attempted = k, ws_report = done\<rparr>]\<rparr>))"

definition lookupDone :: "env \<Rightarrow> done_action \<Rightarrow> lookup_result \<Rightarrow> dht_node \<Rightarrow> dht_node" where
  "lookupDone E act r n =
     emitChanged
       (case act of
          NoAction \<Rightarrow> n
        | ReportTo d \<Rightarrow> n\<lparr>n_reports := n_reports n @ [LookupReport d r]\<rparr>
        | PutTo req d \<Rightarrow> writeTo E (ascii ''put'') (putArguments req) d (r_closest r) n
        | AnnounceTo infohash p implied d \<Rightarrow>
            writeTo E (ascii ''announce_peer'') (announceArguments infohash p implied) d (r_closest r) n)"

text \<open>Runs an operation of lookup \<open>i\<close>, sends the queries it asked for, and what follows when it has finished.\<close>

definition driveLookup :: "env \<Rightarrow> nat \<Rightarrow> (lookup \<Rightarrow> lookup) \<Rightarrow> dht_node \<Rightarrow> dht_node" where
  "driveLookup E i f n =
     (if length (n_lookups n) \<le> i then n
      else let l = fst (n_lookups n ! i); act = snd (n_lookups n ! i); l' = f l;
               n1 = sendAsked E i (drop (length (l_asked l)) (l_asked l')) (n\<lparr>n_lookups := (n_lookups n)[i := (l', act)]\<rparr>)
           in if l_finished l' \<and> \<not> l_finished l
              then (case l_result l' of None \<Rightarrow> n1 | Some r \<Rightarrow> lookupDone E act r n1) else n1)"

definition notSent :: "endpoint \<Rightarrow> bool" where
  "notSent e = False"

definition lookupTimeout :: "dht_node \<Rightarrow> int" where
  "lookupTimeout n =
     (let p95 = replyRttQuantile (95 / 100) n
      in if cfg_lookupTimeoutMs (n_config n) > 0 then cfg_lookupTimeoutMs (n_config n)
         else if p95 > 0 then max 800 (min (2 * p95) DefaultTimeoutMs)
         else QueryTimeoutMs)"

definition lookupSlow :: "int \<Rightarrow> dht_node \<Rightarrow> int" where
  "lookupSlow timeout n =
     (if cfg_lookupSlowAfterMs (n_config n) > 0 then cfg_lookupSlowAfterMs (n_config n)
      else max 300 (min (timeout div 2) SlowAfterMs))"

definition startLookup :: "env \<Rightarrow> lookup_kind \<Rightarrow> node_id \<Rightarrow> done_action \<Rightarrow> compact_node list \<Rightarrow> bytes \<Rightarrow> dht_node \<Rightarrow> nat \<times> dht_node" where
  "startLookup E kind target act extra salt n =
     (let cfg = n_config n; timeout = lookupTimeout n;
          l0 = setTimeouts (lookupSlow timeout n) timeout (setSalt salt (newLookup kind target (cfg_family cfg) (n_id n) (cfg_allowLocal cfg)));
          near = map (\<lambda>x. \<lparr>cn_id = rn_id x, cn_endpoint = rn_endpoint x\<rparr>) (closest (n_table n) target (lookupK * 2) False);
          l1 = fold (\<lambda>c l. addCandidate (e_Q E) notSent (e_now E) (cn_id c) (cn_endpoint c) 0 l) (near @ extra) l0;
          i = length (n_lookups n)
      in (i, driveLookup E i (start notSent (e_now E)) (n\<lparr>n_lookups := n_lookups n @ [(l1, act)]\<rparr>)))"

definition findNode :: "env \<Rightarrow> node_id \<Rightarrow> nat \<Rightarrow> dht_node \<Rightarrow> dht_node" where
  "findNode E target d n = snd (startLookup E FindNode target (ReportTo d) [] [] n)"

definition getPeers :: "env \<Rightarrow> node_id \<Rightarrow> nat \<Rightarrow> dht_node \<Rightarrow> dht_node" where
  "getPeers E infohash d n = snd (startLookup E GetPeers infohash (ReportTo d) [] [] n)"

definition getItem :: "env \<Rightarrow> node_id \<Rightarrow> bytes \<Rightarrow> nat \<Rightarrow> dht_node \<Rightarrow> dht_node" where
  "getItem E target salt d n = snd (startLookup E GetItem target (ReportTo d) [] salt n)"

definition putItem :: "env \<Rightarrow> put_request \<Rightarrow> nat \<Rightarrow> dht_node \<Rightarrow> dht_node" where
  "putItem E r d n = snd (startLookup E GetItem (pr_target r) (PutTo r d) [] (pr_salt r) n)"

definition announceTo :: "env \<Rightarrow> node_id \<Rightarrow> 16 word \<Rightarrow> bool \<Rightarrow> nat \<Rightarrow> dht_node \<Rightarrow> dht_node" where
  "announceTo E infohash p implied d n = snd (startLookup E GetPeers infohash (AnnounceTo infohash p implied d) [] [] n)"

definition probe :: "env \<Rightarrow> endpoint \<Rightarrow> bytes \<Rightarrow> bdict \<Rightarrow> nat \<Rightarrow> int \<Rightarrow> dht_node \<Rightarrow> dht_node" where
  "probe E to meth arguments d timeoutMs n = sendQuery E to meth arguments (ProbeCb d) timeoutMs None n"

section \<open>Replies\<close>

definition adoptExternalAddress :: "env \<Rightarrow> host_address \<Rightarrow> dht_node \<Rightarrow> dht_node" where
  "adoptExternalAddress E a n =
     (let n1 = emitChanged n
      in if \<not> cfg_bep42 (n_config n1) \<or> isExempt (e_Q E) a \<or> isCompliant (e_Q E) (n_id n1) a then n1
         else let n2 = setId E (generateId (e_Q E) (e_randomId E) (e_lowBits E) a (e_randomByte E)) n1
              in snd (startLookup E FindNode (n_id n2) NoAction [] [] n2))"

definition noteRtt :: "rpc_reply \<Rightarrow> dht_node \<Rightarrow> dht_node" where
  "noteRtt reply n =
     (if rr_status reply = ResponseReply \<and> rr_rttMs reply \<ge> 0
      then let rtts = n_replyRtts n @ [rr_rttMs reply]
           in n\<lparr>n_replyRtts := drop (length rtts - MaxRttSamples) rtts\<rparr>
      else n)"

definition countVote :: "env \<Rightarrow> rpc_reply \<Rightarrow> dht_node \<Rightarrow> dht_node" where
  "countVote E reply n =
     (case reportedAddress (rr_message reply) of
        None \<Rightarrow> n
      | Some reported \<Rightarrow>
          if family (e_Q E) reported \<noteq> cfg_family (n_config n) then n
          else let (moved, v) = addVote (e_Q E) (address (rr_from reply)) (address reported) (e_now E) (n_voter n);
                   n1 = n\<lparr>n_voter := v\<rparr>
               in if moved then adoptExternalAddress E (m_consensus v) n1 else n1)"

definition onRpcReply :: "env \<Rightarrow> rpc_reply \<Rightarrow> dht_node \<Rightarrow> dht_node" where
  "onRpcReply E reply n =
     (let n0 = noteRtt reply n
      in case rr_status reply of
           Timeout \<Rightarrow> modifyStats (\<lambda>s. s\<lparr>st_timeouts := st_timeouts s + 1\<rparr>) (n0\<lparr>n_table := rt_failed (rr_from reply) (e_now E) (n_table n0)\<rparr>)
         | ErrorReply \<Rightarrow> modifyStats (\<lambda>s. s\<lparr>st_errorsIn := st_errorsIn s + 1\<rparr>) n0
         | Throttled \<Rightarrow> n0
         | ResponseReply \<Rightarrow>
             let msg = rr_message reply;
                 n1 = countVote E reply (modifyStats (\<lambda>s. s\<lparr>st_responsesIn := st_responsesIn s + 1\<rparr>) n0)
             in (case senderId msg of
                   None \<Rightarrow> modifyStats (\<lambda>s. s\<lparr>st_malformedIn := st_malformedIn s + 1\<rparr>) n1
                 | Some sid \<Rightarrow>
                     if \<not> isRouter (rr_from reply) n1 \<and> \<not> readOnly msg
                     then n1\<lparr>n_table := snd (heardFrom (e_Q E) sid (rr_from reply) (msg_version msg) (rr_rttMs reply) (e_now E) (n_table n1))\<rparr>
                     else n1))"

definition lookupActive :: "nat option \<Rightarrow> dht_node \<Rightarrow> bool" where
  "lookupActive i n = (case i of None \<Rightarrow> False | Some j \<Rightarrow> j < length (n_lookups n) \<and> \<not> l_done (fst (n_lookups n ! j)))"

definition seedReply :: "env \<Rightarrow> endpoint \<Rightarrow> rpc_reply \<Rightarrow> dht_node \<Rightarrow> dht_node" where
  "seedReply E e reply n =
     (case map_of (n_seeds n) e of
        None \<Rightarrow> n
      | Some sd \<Rightarrow>
          if rr_status reply = Timeout \<or> rr_status reply = Throttled
          then emitChanged (n\<lparr>n_seeds := AList.update e (sd\<lparr>sd_state := NoResponse\<rparr>) (n_seeds n)\<rparr>)
          else let sd1 = sd\<lparr>sd_state := SeedResponded, sd_rttMs := rr_rttMs reply, sd_version := msg_version (rr_message reply)\<rparr>;
                   sd2 = (case senderId (rr_message reply) of None \<Rightarrow> sd1 | Some i \<Rightarrow> sd1\<lparr>sd_id := i, sd_hasId := True\<rparr>);
                   n1 = n\<lparr>n_seeds := AList.update e sd2 (n_seeds n)\<rparr>
               in emitChanged
                    (if rr_status reply \<noteq> ResponseReply then n1
                     else let found = foundNodes (e_Q E) (cfg_family (n_config n1)) (body (rr_message reply))
                          in if lookupActive (n_selfLookup n1) n1
                             then fold (\<lambda>c. driveLookup E (the (n_selfLookup n1)) (addCandidate (e_Q E) notSent (e_now E) (cn_id c) (cn_endpoint c) 0)) found n1
                             else let (i, n2) = startLookup E FindNode (n_id n1) NoAction found [] n1 in n2\<lparr>n_selfLookup := Some i\<rparr>))"

definition addSeed :: "env \<Rightarrow> endpoint \<Rightarrow> seed_source \<Rightarrow> dht_node \<Rightarrow> dht_node" where
  "addSeed E e source n =
     (if \<not> isValid e \<or> family (e_Q E) e \<noteq> cfg_family (n_config n) then n
      else let sd = (case map_of (n_seeds n) e of None \<Rightarrow> emptySeed | Some s \<Rightarrow> s);
               sd1 = (if source = Injected then sd\<lparr>sd_source := Injected\<rparr>
                      else if sd_state sd = Querying \<and> sd_lastAttempt sd = 0 then sd\<lparr>sd_source := source\<rparr> else sd);
               sd2 = sd1\<lparr>sd_state := Querying, sd_lastAttempt := e_now E\<rparr>
           in sendQuery E e (ascii ''find_node'') (emplace (ascii ''target'') (mkString (toBytes (n_id n))) []) (SeedCb e) DefaultTimeoutMs None
                (emitChanged (n\<lparr>n_seeds := AList.update e sd2 (n_seeds n)\<rparr>)))"

definition writeReply :: "nat \<Rightarrow> rpc_reply \<Rightarrow> dht_node \<Rightarrow> dht_node" where
  "writeReply w reply n =
     (if length (n_writes n) \<le> w then n
      else let ws = n_writes n ! w;
               ws1 = (if rr_status reply = ResponseReply then ws\<lparr>ws_accepted := ws_accepted ws + 1\<rparr> else ws);
               ws2 = ws1\<lparr>ws_pending := ws_pending ws1 - 1\<rparr>;
               n1 = n\<lparr>n_writes := (n_writes n)[w := ws2]\<rparr>
           in if ws_pending ws2 = 0 then n1\<lparr>n_reports := n_reports n1 @ [WriteReport (ws_report ws2) (ws_accepted ws2) (ws_attempted ws2)]\<rparr> else n1)"

definition deliver :: "env \<Rightarrow> node_cb \<times> rpc_reply \<Rightarrow> dht_node \<Rightarrow> dht_node" where
  "deliver E cbr n =
     (case cbr of (cb, reply) \<Rightarrow>
        let n1 = onRpcReply E reply n
        in (case cb of
              SeedCb e \<Rightarrow> seedReply E e reply n1
            | LookupCb i e \<Rightarrow> driveLookup E i (onReply (e_Q E) (e_C E) notSent (e_now E) e reply) n1
            | WriteCb w \<Rightarrow> writeReply w reply n1
            | ProbeCb d \<Rightarrow> n1\<lparr>n_reports := n_reports n1 @ [ProbeReport d reply]\<rparr>
            | _ \<Rightarrow> n1))"

definition postReport :: "node_cb \<Rightarrow> rpc_reply \<Rightarrow> node_cb rpc_manager \<Rightarrow> node_cb rpc_manager" where
  "postReport cb reply s = s\<lparr>out_reports := out_reports s @ [(cb, reply)]\<rparr>"

definition deliverReply :: "env \<Rightarrow> message \<Rightarrow> bytes \<Rightarrow> endpoint \<Rightarrow> dht_node \<Rightarrow> dht_node" where
  "deliverReply E msg datagram from n =
     (let old = n_rpc n; rpc = snd (handleReply postReport (e_now E) msg datagram from old)
      in fold (deliver E) (drop (length (out_reports old)) (out_reports rpc)) (n\<lparr>n_rpc := rpc\<lparr>out_reports := out_reports old\<rparr>\<rparr>))"

definition handleDatagram :: "env \<Rightarrow> bytes \<Rightarrow> endpoint \<Rightarrow> dht_node \<Rightarrow> dht_node" where
  "handleDatagram E data from n =
     (case parsed_message (parse (e_Q E) data) of
        None \<Rightarrow> modifyStats (\<lambda>s. s\<lparr>st_malformedIn := st_malformedIn s + 1\<rparr>) n
      | Some msg \<Rightarrow>
          if msg_type msg = Query then handleQuery E msg from data n
          else deliverReply E msg data from n)"

definition onReadyRead :: "env \<Rightarrow> (bytes \<times> host_address \<times> 16 word) list \<Rightarrow> dht_node \<Rightarrow> dht_node" where
  "onReadyRead E datagrams n =
     fold (\<lambda>(data, a, p) m. handleDatagram E data (mkEndpoint (e_Q E) a p)
             (modifyStats (\<lambda>s. s\<lparr>st_packetsIn := st_packetsIn s + 1, st_bytesIn := st_bytesIn s + int (length data)\<rparr>) m)) datagrams n"

text \<open>The timers of \<open>RpcManager\<close> and of a lookup, and the reports \<open>RpcManager\<close> posts to the event loop. Each callback of
  \<open>expire\<close> runs before the next transaction is looked at.\<close>

definition onDrainTimer :: "env \<Rightarrow> dht_node \<Rightarrow> dht_node" where
  "onDrainTimer E n = withRpc E (drain (canWrite E n) (e_now E)) n"

definition expireQuery :: "env \<Rightarrow> bytes \<Rightarrow> dht_node \<Rightarrow> dht_node" where
  "expireQuery E tid n =
     (let old = n_rpc n; rpc = expireOne postReport tid old
      in fold (deliver E) (drop (length (out_reports old)) (out_reports rpc)) (n\<lparr>n_rpc := rpc\<lparr>out_reports := out_reports old\<rparr>\<rparr>))"

definition onExpireTimer :: "env \<Rightarrow> dht_node \<Rightarrow> dht_node" where
  "onExpireTimer E n =
     (let n1 = n\<lparr>n_rpc := pruneIfDue (e_now E) (n_rpc n)\<rparr>
      in fold (expireQuery E) (expiredIds (e_now E) (n_rpc n1)) n1)"

definition deliverPosted :: "env \<Rightarrow> dht_node \<Rightarrow> dht_node" where
  "deliverPosted E n =
     (case out_reports (n_rpc n) of
        [] \<Rightarrow> n
      | r # rs \<Rightarrow> deliver E r (n\<lparr>n_rpc := (n_rpc n)\<lparr>out_reports := rs\<rparr>\<rparr>))"

definition onSlowTimer :: "env \<Rightarrow> nat \<Rightarrow> dht_node \<Rightarrow> dht_node" where
  "onSlowTimer E i n = driveLookup E i (checkSlow notSent (e_now E)) n"

section \<open>Maintenance\<close>

definition pingStale :: "env \<Rightarrow> dht_node \<Rightarrow> dht_node" where
  "pingStale E n =
     fold (\<lambda>x m. sendQuery E (rn_endpoint x) (ascii ''ping'') [] PlainCb DefaultTimeoutMs None
             (m\<lparr>n_table := markPinged (rn_endpoint x) (e_now E) (n_table m)\<rparr>))
       (nodesNeedingPing (n_table n) (e_now E) 3 PingIntervalMs) n"

definition refreshBucket :: "env \<Rightarrow> dht_node \<Rightarrow> dht_node" where
  "refreshBucket E n =
     (if rt_size (n_table n) > 0 \<and> \<not> lookupActive (n_refreshLookup n) n
      then (case staleBucket (n_table n) (e_now E) BucketRefreshMs of
              None \<Rightarrow> n
            | Some b \<Rightarrow>
                let n1 = n\<lparr>n_table := touchBucket (int b) (e_now E) (n_table n)\<rparr>;
                    (i, n2) = startLookup E FindNode (randomIdInBucket (e_randomId E) (n_table n1) (int b)) NoAction [] [] n1
                in n2\<lparr>n_refreshLookup := Some i\<rparr>)
      else n)"

definition onMaintenance :: "env \<Rightarrow> dht_node \<Rightarrow> dht_node" where
  "onMaintenance E n =
     (let n1 = refreshBucket E (pingStale E n)
      in n1\<lparr>n_limiter := pruneLimiter (e_now E) (n_limiter n1),
            n_recentVerifications := filter (\<lambda>(e, t). \<not> e_now E - t \<ge> VerificationWindowMs) (n_recentVerifications n1)\<rparr>)"

definition activeLookups :: "dht_node \<Rightarrow> nat" where
  "activeLookups n = length (filter (\<lambda>(l, a). \<not> l_done l) (n_lookups n))"

end
