(* ===== verification/TableKeys.thy ===== *)
theory TableKeys
  imports RoutingTable
begin

text \<open>
  Which nodes the routing table knows, as pairs of identifier and endpoint over the nodes and the replacement
  caches. Only \<open>heardFrom\<close> adds a pair, and only that of the node heard from; every other operation of
  \<^verbatim>\<open>RoutingTable.cpp\<close> keeps the pairs or drops some. The lemmas serve the theory of the node.
\<close>

definition nodeKey :: "routing_node \<Rightarrow> node_id \<times> endpoint" where
  "nodeKey x = (rn_id x, rn_endpoint x)"

definition entryKeys :: "routing_table \<Rightarrow> (node_id \<times> endpoint) set" where
  "entryKeys rt = nodeKey ` allEntries rt"

lemma entryKeys_newTable [simp]: "entryKeys (newTable self restrict) = {}"
  by (simp add: entryKeys_def allEntries_def newTable_def emptyBucket_def entries_def)

lemma entryKeys_modifyBucket:
  assumes i: "i < length (m_buckets rt)" and f: "nodeKey ` set (entries (f (m_buckets rt ! i))) \<subseteq> A \<union> nodeKey ` set (entries (m_buckets rt ! i))"
  shows "entryKeys (modifyBucket i f rt) \<subseteq> A \<union> entryKeys rt"
proof -
  have "allEntries (modifyBucket i f rt) \<subseteq> set (entries (f (m_buckets rt ! i))) \<union> allEntries rt"
    unfolding allEntries_def modifyBucket_def
    using set_update_subset_insert [of "m_buckets rt" i "f (m_buckets rt ! i)"] by auto
  moreover have "set (entries (m_buckets rt ! i)) \<subseteq> allEntries rt"
    using nth_mem [OF i] unfolding allEntries_def by blast
  ultimately show ?thesis unfolding entryKeys_def using f by blast
qed

lemma modifyNode_keys:
  assumes "j < length (nodes b)" "nodeKey (f (nodes b ! j)) \<in> A \<union> nodeKey ` set (entries b)"
  shows "nodeKey ` set (entries (modifyNode j f b)) \<subseteq> A \<union> nodeKey ` set (entries b)"
  using assms set_update_subset_insert [of "nodes b" j "f (nodes b ! j)"] by (auto simp: entries_def modifyNode_def)

lemma modifyNode_same_key:
  assumes "j < length (nodes b)" "nodeKey (f (nodes b ! j)) = nodeKey (nodes b ! j)"
  shows "nodeKey ` set (entries (modifyNode j f b)) \<subseteq> nodeKey ` set (entries b)"
  using modifyNode_keys [OF assms(1), of f "{}"] assms by (simp add: entries_def)

lemma eraseEndpoint_keys: "nodeKey ` set (entries (eraseEndpoint ep b)) \<subseteq> nodeKey ` set (entries b)"
  by (auto simp: eraseEndpoint_def entries_def)

lemma dropReplacements_keys: "entryKeys (dropReplacements P rt) \<subseteq> entryKeys rt"
  using entries_dropReplacements [of _ P rt] by (auto simp: entryKeys_def)

lemma insertLoop_keys: "m_buckets rt \<noteq> [] \<Longrightarrow> entryKeys (snd (insertLoop node now rt)) \<subseteq> {nodeKey node} \<union> entryKeys rt"
proof (induction node now rt rule: insertLoop.induct)
  case (1 node now rt)
  let ?i = "bucketIndexFor rt (rn_id node)"
  have i: "?i < length (m_buckets rt)" using "1.prems" by (cases "m_buckets rt") (simp_all add: bucketIndexFor_def)
  show ?case
  proof (cases rule: insertLoop_cases [where rt = rt and node = node and now = now])
    case add
    have "entryKeys (modifyBucket ?i (\<lambda>b. b\<lparr>nodes := nodes b @ [node], lastChanged := now\<rparr>) rt) \<subseteq> {nodeKey node} \<union> entryKeys rt"
      by (rule entryKeys_modifyBucket [OF i]) (auto simp: entries_def)
    with add show ?thesis by simp
  next
    case split
    have "m_buckets (rt_split rt) \<noteq> []" by (simp add: rt_split_def Let_def)
    with split 1 show ?thesis by (simp add: entryKeys_def allEntries_split)
  next
    case (replace j)
    have "nodeKey ` set (entries (modifyNode j (\<lambda>_. node) b)) \<subseteq> {nodeKey node} \<union> nodeKey ` set (entries b)" for b
      using modifyNode_entries [of j node b] by auto
    then have "entryKeys (modifyBucket ?i (\<lambda>b. (modifyNode j (\<lambda>_. node) b)\<lparr>lastChanged := now\<rparr>) rt) \<subseteq> {nodeKey node} \<union> entryKeys rt"
      by (intro entryKeys_modifyBucket [OF i]) simp
    with replace show ?thesis by simp
  next
    case cache
    have "entryKeys (modifyBucket ?i (cacheNode node) rt) \<subseteq> {nodeKey node} \<union> entryKeys rt"
      by (rule entryKeys_modifyBucket [OF i]) (use cacheNode_entries [of node "m_buckets rt ! ?i"] in auto)
    with cache show ?thesis by simp
  qed
qed

lemma insertLoop_frame:
  "m_self (snd (insertLoop node now rt)) = m_self rt \<and> (m_buckets rt \<noteq> [] \<longrightarrow> m_buckets (snd (insertLoop node now rt)) \<noteq> [])"
proof (induction node now rt rule: insertLoop.induct)
  case (1 node now rt)
  have split: "m_self (rt_split rt) = m_self rt" "m_buckets (rt_split rt) \<noteq> []" by (simp_all add: rt_split_def Let_def)
  have kept: "m_buckets (modifyBucket i f rt) = [] \<longleftrightarrow> m_buckets rt = []" for i f by (simp add: modifyBucket_def)
  show ?case
    by (cases rule: insertLoop_cases [where rt = rt and node = node and now = now]) (use 1 split in \<open>auto simp: kept\<close>)
qed

lemma rt_insert_frame:
  "m_self (snd (rt_insert Q n now rt)) = m_self rt"
  "m_buckets rt \<noteq> [] \<Longrightarrow> m_buckets (snd (rt_insert Q n now rt)) \<noteq> []"
  using insertLoop_frame [of n now rt] rt_insert_cases [of Q n now rt] by auto

lemma rt_insert_keys: "m_buckets rt \<noteq> [] \<Longrightarrow> entryKeys (snd (rt_insert Q node now rt)) \<subseteq> {nodeKey node} \<union> entryKeys rt"
  using insertLoop_keys [of rt node now] rt_insert_cases [of Q node now rt] by auto

lemma heardNew_keys:
  assumes ne: "m_buckets rt \<noteq> []"
  shows "entryKeys (snd (heardNew Q nid ep version rtt now rt)) \<subseteq> {(nid, ep)} \<union> entryKeys rt"
proof -
  let ?i = "bucketIndexFor rt nid"
  have i: "?i < length (m_buckets rt)" using ne by (cases "m_buckets rt") (simp_all add: bucketIndexFor_def)
  show ?thesis
  proof (cases "find_index (\<lambda>n. rn_id n = nid) (nodes (m_buckets rt ! ?i))")
    case None
    have "m_buckets (dropReplacements P rt) \<noteq> []" for P using ne by (simp add: dropReplacements_def)
    note new = rt_insert_keys [OF this, where node = "freshNode nid ep version rtt now"]
    have "nodeKey (freshNode nid ep version rtt now) = (nid, ep)" by (simp add: freshNode_def nodeKey_def)
    with None new dropReplacements_keys [of _ rt] show ?thesis by (simp add: heardNew_def Let_def) blast
  next
    case (Some j)
    from find_index_SomeD [OF Some] have j: "j < length (nodes (m_buckets rt ! ?i))" "rn_id (nodes (m_buckets rt ! ?i) ! j) = nid" by auto
    let ?f = "\<lambda>n. n\<lparr>rn_endpoint := ep, lastResponse := now, failCount := 0, rttMs := rtt, rn_version := version\<rparr>"
    have "nodeKey ` set (entries (modifyNode j ?f (m_buckets rt ! ?i))) \<subseteq> {(nid, ep)} \<union> nodeKey ` set (entries (m_buckets rt ! ?i))"
      by (rule modifyNode_keys [OF j(1)]) (simp add: nodeKey_def j(2))
    then have "entryKeys (modifyBucket ?i (\<lambda>b. (modifyNode j ?f b)\<lparr>lastChanged := now\<rparr>) rt) \<subseteq> {(nid, ep)} \<union> entryKeys rt"
      by (intro entryKeys_modifyBucket [OF i]) simp
    with Some show ?thesis by (auto simp: heardNew_def Let_def)
  qed
qed

text \<open>Updates of one located node that keep its key.\<close>

lemma located_keys:
  assumes "locate rt ep = Some (i, j)" "\<And>n. nodeKey (f n) = nodeKey n"
  shows "entryKeys (modifyBucket i (modifyNode j f) rt) \<subseteq> entryKeys rt"
    "entryKeys (modifyBucket i (\<lambda>b. (modifyNode j f b)\<lparr>lastChanged := now\<rparr>) rt) \<subseteq> entryKeys rt"
proof -
  note at = locate_SomeD [OF assms(1)]
  note same = modifyNode_same_key [OF at(2), of f, OF assms(2)]
  show "entryKeys (modifyBucket i (modifyNode j f) rt) \<subseteq> entryKeys rt"
    using entryKeys_modifyBucket [OF at(1), of "modifyNode j f" "{}"] same by simp
  show "entryKeys (modifyBucket i (\<lambda>b. (modifyNode j f b)\<lparr>lastChanged := now\<rparr>) rt) \<subseteq> entryKeys rt"
    using entryKeys_modifyBucket [OF at(1), of "\<lambda>b. (modifyNode j f b)\<lparr>lastChanged := now\<rparr>" "{}"] same by simp
qed

lemma erase_keys:
  "i < length (m_buckets rt) \<Longrightarrow> entryKeys (modifyBucket i (eraseEndpoint ep) rt) \<subseteq> entryKeys rt"
  using entryKeys_modifyBucket [of i rt "eraseEndpoint ep" "{}"] eraseEndpoint_keys [of ep] by simp

lemma heardFrom_keys:
  assumes ne: "m_buckets rt \<noteq> []"
  shows "entryKeys (snd (heardFrom Q nid ep version rtt now rt)) \<subseteq> {(nid, ep)} \<union> entryKeys rt"
proof (cases "locate rt ep")
  case None
  with heardNew_keys [OF ne] show ?thesis by (auto simp: heardFrom_def)
next
  case (Some p)
  obtain i j where p: "p = (i, j)" by (cases p)
  note loc = Some [unfolded p]
  have "entryKeys (modifyBucket i (\<lambda>b. (modifyNode j (refreshed version rtt now) b)\<lparr>lastChanged := now\<rparr>) rt) \<subseteq> entryKeys rt"
    by (rule located_keys(2) [OF loc]) (simp add: refreshed_def nodeKey_def)
  moreover have "m_buckets (modifyBucket i (eraseEndpoint ep) rt) \<noteq> []" using ne by (simp add: modifyBucket_def)
  note heardNew_keys [OF this, of Q nid ep version rtt now]
  ultimately show ?thesis using loc erase_keys [OF locate_SomeD(1) [OF loc], of ep] by (auto simp: heardFrom_def)
qed

lemma queriedBy_keys: "entryKeys (snd (queriedBy nid ep now rt)) \<subseteq> entryKeys rt"
proof (cases "locate rt ep")
  case (Some p)
  then show ?thesis using located_keys(1) [of rt ep "fst p" "snd p" "\<lambda>n. n\<lparr>lastQuery := now\<rparr>"]
    by (auto simp: queriedBy_def nodeKey_def split: prod.splits)
qed (simp add: queriedBy_def)

lemma markPinged_keys: "entryKeys (markPinged ep now rt) \<subseteq> entryKeys rt"
proof (cases "locate rt ep")
  case (Some p)
  then show ?thesis using located_keys(1) [of rt ep "fst p" "snd p" "\<lambda>n. n\<lparr>lastPingSent := now\<rparr>"]
    by (auto simp: markPinged_def nodeKey_def split: prod.splits)
qed (simp add: markPinged_def)

lemma touchBucket_keys: "entryKeys (touchBucket index now rt) \<subseteq> entryKeys rt"
  using entryKeys_modifyBucket [of "nat index" rt "\<lambda>b. b\<lparr>lastChanged := now\<rparr>" "{}"]
  by (simp add: touchBucket_def nat_less_iff)

lemma promote_keys:
  assumes "replacements b \<noteq> []" "j < length (nodes b)"
  shows "nodeKey ` set (entries (promote j now b)) \<subseteq> nodeKey ` set (entries b)"
proof -
  let ?k = "max_index lastResponse (replacements b)"
  have "replacements b ! ?k \<in> set (replacements b)" using max_index_bound [OF assms(1)] by simp
  then have "set (entries (promote j now b)) \<subseteq> set (entries b)"
    using set_update_subset_insert [of "nodes b" j "replacements b ! ?k"] set_remove_nth [of ?k "replacements b"]
    by (auto simp: promote_def Let_def entries_def modifyNode_def)
  then show ?thesis by blast
qed

lemma rt_failed_keys: "entryKeys (rt_failed ep now rt) \<subseteq> entryKeys rt"
proof (cases "locate rt ep")
  case None
  with dropReplacements_keys show ?thesis by (simp add: rt_failed_def)
next
  case (Some p)
  obtain i j where p: "p = (i, j)" by (cases p)
  note loc = Some [unfolded p]
  note at = locate_SomeD [OF loc]
  let ?rt1 = "modifyBucket i (modifyNode j (\<lambda>n. n\<lparr>failCount := failCount n + 1\<rparr>)) rt"
  have one: "entryKeys ?rt1 \<subseteq> entryKeys rt" by (rule located_keys(1) [OF loc]) (simp add: nodeKey_def)
  have i: "i < length (m_buckets ?rt1)" "j < length (nodes (m_buckets ?rt1 ! i))"
    using at by (simp_all add: modifyBucket_def modifyNode_def)
  have "entryKeys (modifyBucket i (promote j now) ?rt1) \<subseteq> entryKeys ?rt1" if "replacements (m_buckets ?rt1 ! i) \<noteq> []"
    using entryKeys_modifyBucket [OF i(1), of "promote j now" "{}"] promote_keys [OF that i(2)] by simp
  with loc one erase_keys [OF i(1), of ep] show ?thesis by (auto simp: rt_failed_def Let_def)
qed

lemma inserts_keys:
  "m_buckets rt \<noteq> [] \<Longrightarrow> entryKeys (fold (\<lambda>n t. snd (rt_insert Q n now t)) ns rt) \<subseteq> nodeKey ` set ns \<union> entryKeys rt"
proof (induction ns arbitrary: rt)
  case (Cons n ns)
  have ne: "m_buckets (snd (rt_insert Q n now rt)) \<noteq> []" using Cons.prems by (rule rt_insert_frame)
  from Cons.IH [OF ne] rt_insert_keys [OF Cons.prems, of Q n now] show ?case by auto
qed simp

lemma inserts_self: "m_self (fold (\<lambda>n t. snd (rt_insert Q n now t)) ns rt) = m_self rt"
  by (induction ns arbitrary: rt) (simp_all add: rt_insert_frame)

lemma rebuild_self [simp]: "m_self (rebuild Q newSelf now rt) = newSelf"
  by (simp add: rebuild_def Let_def inserts_self)

lemma dropReplacements_self [simp]: "m_self (dropReplacements P rt) = m_self rt"
  by (simp add: dropReplacements_def)

lemma heardNew_self: "m_self (snd (heardNew Q nid ep version rtt now rt)) = m_self rt"
  by (auto simp: heardNew_def Let_def rt_insert_frame split: option.splits)

lemma heardFrom_self [simp]: "m_self (snd (heardFrom Q nid ep version rtt now rt)) = m_self rt"
  by (auto simp: heardFrom_def heardNew_self split: option.splits)

lemma table_self [simp]:
  "m_self (snd (queriedBy nid ep now rt)) = m_self rt" "m_self (markPinged ep now rt) = m_self rt"
  "m_self (touchBucket index now rt) = m_self rt" "m_self (rt_failed ep now rt) = m_self rt"
  by (auto simp: queriedBy_def markPinged_def touchBucket_def rt_failed_def Let_def split: option.splits)

lemma rebuild_keys: "entryKeys (rebuild Q newSelf now rt) \<subseteq> entryKeys rt"
proof -
  let ?ns = "concat (map nodes (m_buckets rt))" and ?cs = "concat (map replacements (m_buckets rt))"
  let ?rt0 = "rt\<lparr>m_self := newSelf, m_buckets := [emptyBucket\<lparr>lastChanged := now\<rparr>]\<rparr>"
  have "entryKeys ?rt0 = {}" by (simp add: entryKeys_def allEntries_def emptyBucket_def entries_def)
  moreover have "entryKeys (fold (\<lambda>n t. snd (rt_insert Q n now t)) (?ns @ ?cs) ?rt0) \<subseteq> nodeKey ` set (?ns @ ?cs) \<union> entryKeys ?rt0"
    by (rule inserts_keys) simp
  moreover have "set (?ns @ ?cs) \<subseteq> allEntries rt" by (auto simp: allEntries_def entries_def)
  then have "nodeKey ` set (?ns @ ?cs) \<subseteq> entryKeys rt" unfolding entryKeys_def by (rule image_mono)
  ultimately show ?thesis by (simp only: rebuild_def Let_def fold_append comp_apply Un_empty_right)
qed

end
