(* ===== verification/NodeCorrect.thy ===== *)
theory NodeCorrect
  imports DhtNode TableKeys
begin

text \<open>
  The theorems about the node of theory \<open>DhtNode\<close>: an invariant over all its components that every event keeps,
  what a query from the network can and cannot change, and where entries of the routing table come from.
\<close>

section \<open>Frames\<close>

text \<open>The operations that send change the statistics, the datagrams written and the RPC manager, and, through the
  \<open>onSent\<close> hooks, the send times of lookups.\<close>

lemma emitChanged_simps [simp]:
  "n_config (emitChanged n) = n_config n" "n_bound (emitChanged n) = n_bound n" "n_id (emitChanged n) = n_id n"
  "n_table (emitChanged n) = n_table n" "n_tokens (emitChanged n) = n_tokens n" "n_voter (emitChanged n) = n_voter n"
  "n_limiter (emitChanged n) = n_limiter n" "n_replyRtts (emitChanged n) = n_replyRtts n" "n_seeds (emitChanged n) = n_seeds n"
  "n_recentVerifications (emitChanged n) = n_recentVerifications n" "n_lookups (emitChanged n) = n_lookups n"
  "n_selfLookup (emitChanged n) = n_selfLookup n" "n_refreshLookup (emitChanged n) = n_refreshLookup n"
  "n_writes (emitChanged n) = n_writes n" "n_rpc (emitChanged n) = n_rpc n" "n_storage (emitChanged n) = n_storage n"
  "n_items (emitChanged n) = n_items n" "n_inbound (emitChanged n) = n_inbound n" "n_stats (emitChanged n) = n_stats n"
  "n_out (emitChanged n) = n_out n" "n_reports (emitChanged n) = n_reports n"
  by (simp_all add: emitChanged_def)

lemma modifyStats_simps [simp]:
  "n_config (modifyStats f n) = n_config n" "n_bound (modifyStats f n) = n_bound n" "n_id (modifyStats f n) = n_id n"
  "n_table (modifyStats f n) = n_table n" "n_tokens (modifyStats f n) = n_tokens n" "n_voter (modifyStats f n) = n_voter n"
  "n_limiter (modifyStats f n) = n_limiter n" "n_replyRtts (modifyStats f n) = n_replyRtts n" "n_seeds (modifyStats f n) = n_seeds n"
  "n_recentVerifications (modifyStats f n) = n_recentVerifications n" "n_lookups (modifyStats f n) = n_lookups n"
  "n_selfLookup (modifyStats f n) = n_selfLookup n" "n_refreshLookup (modifyStats f n) = n_refreshLookup n"
  "n_writes (modifyStats f n) = n_writes n" "n_rpc (modifyStats f n) = n_rpc n" "n_storage (modifyStats f n) = n_storage n"
  "n_items (modifyStats f n) = n_items n" "n_inbound (modifyStats f n) = n_inbound n" "n_changes (modifyStats f n) = n_changes n"
  "n_out (modifyStats f n) = n_out n" "n_reports (modifyStats f n) = n_reports n"
  by (simp_all add: modifyStats_def)

section \<open>Invariant\<close>

definition wf_verifications :: "(endpoint \<times> int) list \<Rightarrow> bool" where
  "wf_verifications vs \<longleftrightarrow> distinct (map fst vs) \<and> length vs \<le> MaxPendingVerifications"

text \<open>Every stored item is what its key promises: an immutable item hashes to its key, and a mutable one carries a valid
  signature by the public key that gives its key.\<close>

definition authentic :: "crypto \<Rightarrow> item_storage \<Rightarrow> bool" where
  "authentic C s \<longleftrightarrow> (\<forall>(k, it) \<in> set (m_immutable s). immutableTarget C (ii_value it) = k) \<and>
     (\<forall>(k, it) \<in> set (m_mutable s). mutableTarget C (mi_publicKey it) (mi_salt it) = k \<and>
        verify C (mi_signature it) (signingBuffer (mi_salt it) (mi_sequence it) (mi_value it)) (mi_publicKey it) = Some True)"

lemma authentic_makeRoom: "authentic C s \<Longrightarrow> authentic C (makeRoom s)"
  by (auto simp: authentic_def makeRoom_def Let_def split: prod.splits dest!: set_delete_subset [THEN subsetD])

lemma set_AList_update: "p \<in> set (AList.update k v xs) \<Longrightarrow> p = (k, v) \<or> p \<in> set xs"
  by (induction xs) (auto split: if_splits)

lemma putImmutable_authentic:
  assumes "authentic C s"
  shows "authentic C (snd (putImmutable (immutableTarget C raw) raw now s))"
proof (cases "map_of (m_immutable s) (immutableTarget C raw)")
  case None
  with authentic_makeRoom [OF assms] assms show ?thesis
    by (auto simp: authentic_def putImmutable_def Let_def dest!: set_AList_update)
next
  case (Some it)
  from map_of_SomeD [OF Some] assms have "immutableTarget C (ii_value it) = immutableTarget C raw" by (auto simp: authentic_def)
  with Some assms show ?thesis by (auto simp: authentic_def putImmutable_def dest!: set_AList_update)
qed

lemma putMutable_authentic:
  assumes s: "authentic C s" and item: "mutableTarget C (mi_publicKey item) (mi_salt item) = mi_target item"
    "verify C (mi_signature item) (signingBuffer (mi_salt item) (mi_sequence item) (mi_value item)) (mi_publicKey item) = Some True"
  shows "authentic C (snd (putMutable item cas now s))"
proof (cases "map_of (m_mutable s) (mi_target item)")
  case None
  with authentic_makeRoom [OF s] assms show ?thesis
    by (auto simp: authentic_def putMutable_def Let_def dest!: set_AList_update)
next
  case (Some it)
  from map_of_SomeD [OF Some] s have "mutableTarget C (mi_publicKey it) (mi_salt it) = mi_target item"
    "verify C (mi_signature it) (signingBuffer (mi_salt it) (mi_sequence it) (mi_value it)) (mi_publicKey it) = Some True"
    by (auto simp: authentic_def)
  with Some assms show ?thesis by (auto simp: authentic_def putMutable_def dest!: set_AList_update)
qed

definition wf_node :: "qt_net \<Rightarrow> crypto \<Rightarrow> dht_node \<Rightarrow> bool" where
  "wf_node Q C n \<longleftrightarrow>
     wf_id (n_id n) \<and> wf_table (n_table n) \<and> m_self (n_table n) = n_id n \<and> wf_voter (n_voter n) \<and> wf_rpc (n_rpc n) \<and>
     wf_peers (n_storage n) \<and> wf_items (n_items n) \<and> authentic C (n_items n) \<and> pred_option wf_tally (n_inbound n) \<and>
     wf_verifications (n_recentVerifications n) \<and> distinct (map fst (n_seeds n)) \<and> length (n_replyRtts n) \<le> MaxRttSamples \<and>
     list_all (\<lambda>(l, act). wf_lookup Q C l) (n_lookups n)"

text \<open>What the environment of one event must satisfy: the random identifier has twenty bytes, and the clock has not
  reached the largest 64-bit number.\<close>

definition wf_env :: "qt_net \<Rightarrow> crypto \<Rightarrow> env \<Rightarrow> bool" where
  "wf_env Q C E \<longleftrightarrow> e_Q E = Q \<and> e_C E = C \<and> wf_id (e_randomId E) \<and> e_now E < int64_max"

named_theorems node_wf

lemma wf_nodeD:
  assumes "wf_node Q C n"
  shows "wf_id (n_id n)" "wf_table (n_table n)" "m_self (n_table n) = n_id n" "wf_voter (n_voter n)" "wf_rpc (n_rpc n)"
    "wf_peers (n_storage n)" "wf_items (n_items n)" "authentic C (n_items n)" "wf_verifications (n_recentVerifications n)" "distinct (map fst (n_seeds n))"
  using assms by (simp_all add: wf_node_def)

lemma node_frame [simp]:
  "wf_node Q C (emitChanged n) = wf_node Q C n" "wf_node Q C (modifyStats f n) = wf_node Q C n"
  "wf_node Q C (n\<lparr>n_out := x1\<rparr>) = wf_node Q C n" "wf_node Q C (n\<lparr>n_reports := x2\<rparr>) = wf_node Q C n"
  "wf_node Q C (n\<lparr>n_limiter := x3\<rparr>) = wf_node Q C n" "wf_node Q C (n\<lparr>n_tokens := x4\<rparr>) = wf_node Q C n"
  "wf_node Q C (n\<lparr>n_writes := x5\<rparr>) = wf_node Q C n" "wf_node Q C (n\<lparr>n_selfLookup := x6\<rparr>) = wf_node Q C n"
  "wf_node Q C (n\<lparr>n_refreshLookup := x7\<rparr>) = wf_node Q C n" "wf_node Q C (n\<lparr>n_config := x8\<rparr>) = wf_node Q C n"
  "wf_node Q C (n\<lparr>n_bound := x9\<rparr>) = wf_node Q C n"
  by (simp_all add: wf_node_def)

lemma wf_set:
  assumes "wf_node Q C n"
  shows "wf_table rt \<Longrightarrow> m_self rt = n_id n \<Longrightarrow> wf_node Q C (n\<lparr>n_table := rt\<rparr>)"
    "wf_rpc s \<Longrightarrow> wf_node Q C (n\<lparr>n_rpc := s\<rparr>)" "wf_voter v \<Longrightarrow> wf_node Q C (n\<lparr>n_voter := v\<rparr>)"
    "wf_peers ps \<Longrightarrow> wf_node Q C (n\<lparr>n_storage := ps\<rparr>)" "wf_items is \<Longrightarrow> authentic C is \<Longrightarrow> wf_node Q C (n\<lparr>n_items := is\<rparr>)"
    "wf_verifications vs \<Longrightarrow> wf_node Q C (n\<lparr>n_recentVerifications := vs\<rparr>)"
    "distinct (map fst ss) \<Longrightarrow> wf_node Q C (n\<lparr>n_seeds := ss\<rparr>)" "length rs \<le> MaxRttSamples \<Longrightarrow> wf_node Q C (n\<lparr>n_replyRtts := rs\<rparr>)"
    "pred_option wf_tally t \<Longrightarrow> wf_node Q C (n\<lparr>n_inbound := t\<rparr>)"
    "list_all (\<lambda>(l, act). wf_lookup Q C l) ls \<Longrightarrow> wf_node Q C (n\<lparr>n_lookups := ls\<rparr>)"
  using assms by (simp_all add: wf_node_def)

lemma wf_lookupD: "wf_node Q C n \<Longrightarrow> i < length (n_lookups n) \<Longrightarrow> wf_lookup Q C (fst (n_lookups n ! i))"
  by (simp add: wf_node_def list_all_length case_prod_beta)

lemma wf_set_lookup:
  assumes "wf_node Q C n" "wf_lookup Q C l"
  shows "wf_node Q C (n\<lparr>n_lookups := (n_lookups n)[i := (l, act)]\<rparr>)"
proof (rule wf_set(10) [OF assms(1)])
  have "list_all (\<lambda>(l, act). wf_lookup Q C l) (n_lookups n)" using assms(1) by (simp add: wf_node_def)
  with assms(2) show "list_all (\<lambda>(l, act). wf_lookup Q C l) ((n_lookups n)[i := (l, act)])"
    using set_update_subset_insert [of "n_lookups n" i "(l, act)"] by (auto simp: list_all_iff)
qed

lemma wf_fold: "(\<And>x m. x \<in> set xs \<Longrightarrow> wf_node Q C m \<Longrightarrow> wf_node Q C (f x m)) \<Longrightarrow> wf_node Q C n \<Longrightarrow> wf_node Q C (fold f xs n)"
  by (induction xs arbitrary: n) simp_all

subsection \<open>Sending\<close>

lemma sendDatagram_wf [simp]: "wf_node Q C (sendDatagram E d to n) = wf_node Q C n"
  by (simp add: sendDatagram_def)

lemma sendResponse_wf [simp]: "wf_node Q C (sendResponse E msg to values n) = wf_node Q C n"
  by (simp add: sendResponse_def Let_def)

lemma sendError_wf [simp]: "wf_node Q C (sendError E tid to code reason n) = wf_node Q C n"
  by (simp add: sendError_def)

lemma runHook_wf: "wf_node Q C n \<Longrightarrow> wf_node Q C (runHook E cb n)"
  by (auto simp: runHook_def wf_set_lookup onSent_wf wf_lookupD split: node_cb.splits)

lemma withRpc_wf: "wf_node Q C n \<Longrightarrow> (\<And>s. wf_rpc s \<Longrightarrow> wf_rpc (f s)) \<Longrightarrow> wf_node Q C (withRpc E f n)"
  unfolding withRpc_def Let_def by (rule wf_fold) (simp_all add: runHook_wf wf_set wf_nodeD)

lemma sendQuery_wf [node_wf]: "wf_node Q C n \<Longrightarrow> wf_node Q C (sendQuery E to meth arguments cb timeoutMs hook n)"
  unfolding sendQuery_def by (rule withRpc_wf) (simp_all add: query_wf)

subsection \<open>Incoming queries\<close>

lemma tokenOf_wf: "wf_node Q C n \<Longrightarrow> wf_node Q C (snd (tokenOf E from n))"
  by (simp add: tokenOf_def split: prod.splits)

lemma checkToken_wf: "wf_node Q C n \<Longrightarrow> wf_node Q C (snd (checkToken E args from n))"
  by (simp add: checkToken_def Let_def split: prod.splits option.splits)

lemma maybeVerify_wf [node_wf]:
  assumes "wf_node Q C n"
  shows "wf_node Q C (maybeVerify E nid from n)"
proof -
  let ?vs = "AList.update from (e_now E) (n_recentVerifications n)"
  have "wf_node Q C (n\<lparr>n_recentVerifications := ?vs\<rparr>)" if "length (n_recentVerifications n) < MaxPendingVerifications"
    using assms that
    by (intro wf_set(6)) (simp_all add: wf_node_def wf_verifications_def distinct_update length_update)
  then show ?thesis using assms by (simp add: maybeVerify_def sendQuery_wf)
qed

lemma answerAnnounce_wf [node_wf]:
  assumes "wf_node Q C n"
  shows "wf_node Q C (answerAnnounce E msg from n)"
proof -
  obtain ok n1 where ct: "checkToken E (body msg) from n = (ok, n1)" by (cases "checkToken E (body msg) from n")
  then have "wf_node Q C n1" using checkToken_wf [OF assms, of E "body msg" "from"] by simp
  then have "wf_node Q C (n1\<lparr>n_storage := announce ih e now (n_storage n1)\<rparr>)" for ih e now
    by (intro wf_set(4)) (simp_all add: announce_wf wf_nodeD)
  then show ?thesis using assms \<open>wf_node Q C n1\<close> by (simp add: answerAnnounce_def ct Let_def split: option.splits)
qed

lemma storeMutable_wf [node_wf]:
  assumes "wf_node Q C n" "wf_env Q C E"
  shows "wf_node Q C (storeMutable E msg from raw k salt sequence signature n)"
proof -
  have "wf_node Q C (n\<lparr>n_items := snd (putMutable item cas (e_now E) (n_items n))\<rparr>)"
    if "mutableTarget C (mi_publicKey item) (mi_salt item) = mi_target item"
      "verify C (mi_signature item) (signingBuffer (mi_salt item) (mi_sequence item) (mi_value item)) (mi_publicKey item) = Some True" for item cas
    using assms that by (intro wf_set(5) putMutable_authentic) (simp_all add: putMutable_wf wf_nodeD wf_env_def)
  moreover have "e_C E = C" using assms(2) by (simp add: wf_env_def)
  ultimately show ?thesis using assms by (simp add: storeMutable_def Let_def case_prod_beta split: option.splits bool.splits PutResult.splits)
qed

lemma handlePut_wf [node_wf]:
  assumes "wf_node Q C n" "wf_env Q C E"
  shows "wf_node Q C (handlePut E msg from datagram n)"
proof -
  obtain ok n1 where ct: "checkToken E (body msg) from n = (ok, n1)" by (cases "checkToken E (body msg) from n")
  then have n1: "wf_node Q C n1" using checkToken_wf [OF assms(1), of E "body msg" "from"] by simp
  then have "wf_node Q C (n1\<lparr>n_items := snd (putImmutable (immutableTarget (e_C E) raw) raw (e_now E) (n_items n1))\<rparr>)" for raw
    using assms(2) by (intro wf_set(5)) (simp_all add: putImmutable_wf putImmutable_authentic wf_nodeD wf_env_def)
  then show ?thesis using n1 storeMutable_wf [OF n1 assms(2)] by (simp add: handlePut_def ct Let_def split: option.splits)
qed

lemma dispatch_wf [node_wf]: "wf_node Q C n \<Longrightarrow> wf_env Q C E \<Longrightarrow> wf_node Q C (dispatch E msg from datagram n)"
  by (simp add: dispatch_def Let_def node_wf)
    (simp add: answerFindNode_def answerGetPeers_def handleGet_def answerSample_def Let_def case_prod_beta tokenOf_wf split: option.split)

lemma noteQuerier_wf [node_wf]:
  assumes "wf_node Q C n"
  shows "wf_node Q C (noteQuerier E msg from sid n)"
proof -
  have "wf_node Q C (n\<lparr>n_table := snd (queriedBy sid from (e_now E) (n_table n))\<rparr>)"
    using assms by (intro wf_set(1)) (simp_all add: queriedBy_wf wf_nodeD)
  then show ?thesis using assms by (simp add: noteQuerier_def Let_def case_prod_beta node_wf)
qed

lemma handleQuery_wf [node_wf]:
  assumes "wf_node Q C n" "wf_env Q C E"
  shows "wf_node Q C (handleQuery E msg from datagram n)"
proof -
  have wf_tally_inbound: "pred_option wf_tally (map_option (recordInbound (e_Q E) from msg) (n_inbound n))"
    using assms(1) by (cases "n_inbound n") (simp_all add: wf_node_def recordInbound_wf)
  have "wf_node Q C (n\<lparr>n_inbound := map_option (recordInbound (e_Q E) from msg) (n_inbound n)\<rparr>)"
    using wf_tally_inbound by (rule wf_set(9) [OF assms(1)])
  then show ?thesis using assms by (simp add: handleQuery_def Let_def case_prod_beta node_wf split: option.split)
qed

subsection \<open>Lookups and replies\<close>

lemma sendAsked_wf [node_wf]: "wf_node Q C n \<Longrightarrow> wf_node Q C (sendAsked E i qs n)"
  unfolding sendAsked_def by (rule wf_fold) (simp_all add: node_wf)

lemma writeTo_wf [node_wf]: "wf_node Q C n \<Longrightarrow> wf_node Q C (writeTo E meth argsFor d cs n)"
  unfolding writeTo_def Let_def by (auto intro: wf_fold simp: node_wf)

lemma lookupDone_wf [node_wf]: "wf_node Q C n \<Longrightarrow> wf_node Q C (lookupDone E act r n)"
  by (cases act) (simp_all add: lookupDone_def node_wf)

lemma driveLookup_wf:
  assumes "wf_node Q C n" "\<And>l. wf_lookup Q C l \<Longrightarrow> wf_lookup Q C (f l)"
  shows "wf_node Q C (driveLookup E i f n)"
proof (cases "i < length (n_lookups n)")
  case True
  have "wf_node Q C (n\<lparr>n_lookups := (n_lookups n)[i := (f (fst (n_lookups n ! i)), act)]\<rparr>)" for act
    by (intro wf_set_lookup assms wf_lookupD True)
  then show ?thesis using assms(1) by (simp add: driveLookup_def Let_def node_wf split: option.split)
qed (simp add: driveLookup_def assms(1))

lemma closest_ids: "wf_table rt \<Longrightarrow> x \<in> set (closest rt target k b) \<Longrightarrow> wf_id (rn_id x)"
  by (auto simp: closest_def dest!: in_set_takeD dest: wf_ids [OF _ allNodes_entries])

lemma addCandidates_wf:
  "(\<forall>c \<in> set cs. wf_id (cn_id c)) \<Longrightarrow> wf_lookup Q C l \<Longrightarrow>
   wf_lookup Q C (fold (\<lambda>c l. addCandidate Q sentNow now (cn_id c) (cn_endpoint c) 0 l) cs l)"
  by (induction cs arbitrary: l) (simp_all add: addCandidate_wf)

lemma startLookup_wf:
  assumes n: "wf_node Q C n" and "wf_env Q C E" and "wf_id target" and "\<forall>c \<in> set extra. wf_id (cn_id c)"
  shows "wf_node Q C (snd (startLookup E kind target act extra salt n))"
proof -
  let ?cs = "map (\<lambda>x. \<lparr>cn_id = rn_id x, cn_endpoint = rn_endpoint x\<rparr>) (closest (n_table n) target (lookupK * 2) False) @ extra"
  let ?l0 = "setTimeouts (lookupSlow (lookupTimeout n) n) (lookupTimeout n)
    (setSalt salt (newLookup kind target (cfg_family (n_config n)) (n_id n) (cfg_allowLocal (n_config n))))"
  have Q: "e_Q E = Q" using assms(2) by (simp add: wf_env_def)
  have "wf_lookup Q C (fold (\<lambda>c l. addCandidate Q notSent (e_now E) (cn_id c) (cn_endpoint c) 0 l) ?cs ?l0)"
    using assms wf_nodeD(2) [OF n] by (intro addCandidates_wf setTimeouts_wf setSalt_new_wf) (auto dest: closest_ids)
  then have "wf_node Q C (n\<lparr>n_lookups := n_lookups n @ [(fold (\<lambda>c l. addCandidate Q notSent (e_now E) (cn_id c) (cn_endpoint c) 0 l) ?cs ?l0, act)]\<rparr>)"
    using n by (intro wf_set(10)) (simp_all add: wf_node_def)
  then show ?thesis by (simp add: startLookup_def Let_def Q) (rule driveLookup_wf, simp_all add: start_wf)
qed

lemma setId_wf: "wf_node Q C n \<Longrightarrow> wf_id nid \<Longrightarrow> wf_node Q C (setId E nid n)"
  by (simp add: setId_def wf_node_def rebuild_wf)

lemma adoptExternalAddress_wf:
  assumes "wf_node Q C n" "wf_env Q C E"
  shows "wf_node Q C (adoptExternalAddress E a n)"
proof -
  let ?id = "generateId (e_Q E) (e_randomId E) (e_lowBits E) a (e_randomByte E)"
  have "wf_id ?id" using assms(2) by (simp add: wf_env_def wf_id_def)
  then have "wf_node Q C (setId E ?id (emitChanged n))" "wf_id (n_id (setId E ?id (emitChanged n)))"
    using assms(1) by (simp_all add: setId_wf) (simp add: setId_def)
  then show ?thesis using assms by (simp add: adoptExternalAddress_def Let_def startLookup_wf)
qed

lemma noteRtt_wf: "wf_node Q C n \<Longrightarrow> wf_node Q C (noteRtt reply n)"
  by (simp add: noteRtt_def Let_def wf_set)

lemma countVote_wf:
  assumes "wf_node Q C n" "wf_env Q C E"
  shows "wf_node Q C (countVote E reply n)"
proof -
  have "wf_node Q C (n\<lparr>n_voter := snd (addVote (e_Q E) v r (e_now E) (n_voter n))\<rparr>)" for v r
    using assms by (intro wf_set(3)) (simp_all add: addVote_wf wf_nodeD)
  then show ?thesis using assms by (simp add: countVote_def Let_def case_prod_beta adoptExternalAddress_wf split: option.split)
qed

lemma senderId_wf: "senderId msg = Some sid \<Longrightarrow> wf_id sid"
  by (auto simp: senderId_def bind_eq_Some_conv wf_fromBytes)

lemma onRpcReply_wf:
  assumes "wf_node Q C n" "wf_env Q C E"
  shows "wf_node Q C (onRpcReply E reply n)"
proof (cases "rr_status reply")
  case ResponseReply
  let ?n1 = "countVote E reply (modifyStats (\<lambda>s. s\<lparr>st_responsesIn := st_responsesIn s + 1\<rparr>) (noteRtt reply n))"
  have n1: "wf_node Q C ?n1" using assms by (simp add: countVote_wf noteRtt_wf)
  then have "wf_node Q C (?n1\<lparr>n_table := snd (heardFrom (e_Q E) sid ep v rtt now (n_table ?n1))\<rparr>)" if "wf_id sid" for sid ep v rtt now
    using that by (intro wf_set(1)) (simp_all add: heardFrom_wf wf_nodeD)
  with n1 ResponseReply show ?thesis by (simp add: onRpcReply_def Let_def senderId_wf split: option.split)
next
  case Timeout
  have n0: "wf_node Q C (noteRtt reply n)" by (rule noteRtt_wf [OF assms(1)])
  then have "wf_node Q C ((noteRtt reply n)\<lparr>n_table := rt_failed (rr_from reply) (e_now E) (n_table (noteRtt reply n))\<rparr>)"
    by (intro wf_set(1)) (simp_all add: rt_failed_wf wf_nodeD)
  with Timeout show ?thesis by (simp add: onRpcReply_def Let_def)
qed (simp_all add: onRpcReply_def noteRtt_wf assms(1))

lemma seedReply_wf:
  assumes n: "wf_node Q C n" and E: "wf_env Q C E"
  shows "wf_node Q C (seedReply E e reply n)"
proof -
  have set: "wf_node Q C (n\<lparr>n_seeds := AList.update e sd (n_seeds n)\<rparr>)" for sd
    using n by (intro wf_set(7)) (simp_all add: distinct_update wf_nodeD)
  have Q: "e_Q E = Q" using E by (simp add: wf_env_def)
  have found: "\<forall>c \<in> set (foundNodes Q fam bdy). wf_id (cn_id c)" for fam bdy by (simp add: foundNodes_wf)
  have go: "wf_node Q C m \<Longrightarrow> wf_node Q C (fold (\<lambda>c. driveLookup E i (addCandidate (e_Q E) notSent (e_now E) (cn_id c) (cn_endpoint c) 0)) (foundNodes Q fam bdy) m)" for m i fam bdy
    by (rule wf_fold) (auto intro!: driveLookup_wf simp: addCandidate_wf Q foundNodes_wf)
  have self: "wf_id (n_id n)" by (rule wf_nodeD(1) [OF n])
  show ?thesis
    using n by (simp add: seedReply_def Let_def set case_prod_beta go [unfolded Q] Q startLookup_wf E self found split: option.split)
qed

lemma deliver_wf [node_wf]:
  assumes "wf_node Q C n" "wf_env Q C E"
  shows "wf_node Q C (deliver E cbr n)"
proof -
  obtain cb reply where cbr: "cbr = (cb, reply)" by (cases cbr)
  have n1: "wf_node Q C (onRpcReply E reply n)" using assms by (rule onRpcReply_wf)
  have "wf_node Q C (writeReply w reply m) = wf_node Q C m" for w m by (simp add: writeReply_def Let_def)
  moreover have "wf_node Q C (driveLookup E i (onReply (e_Q E) (e_C E) notSent (e_now E) e reply) (onRpcReply E reply n))" for i e
    using assms(2) by (intro driveLookup_wf n1) (simp add: wf_env_def onReply_wf)
  ultimately show ?thesis using n1 assms(2) by (simp add: deliver_def cbr Let_def seedReply_wf split: node_cb.split)
qed

lemma postReport_wf [simp]: "wf_rpc (postReport cb r s) = wf_rpc s" "wf_rpc (s\<lparr>out_reports := x\<rparr>) = wf_rpc s"
  by (simp_all add: postReport_def wf_rpc_def wf_pendings_def wf_queues_def)

lemma delivers_wf: "wf_env Q C E \<Longrightarrow> wf_node Q C n \<Longrightarrow> wf_node Q C (fold (deliver E) rs n)"
  by (rule wf_fold) (simp_all add: deliver_wf)

lemma deliverReply_wf [node_wf]: "wf_node Q C n \<Longrightarrow> wf_env Q C E \<Longrightarrow> wf_node Q C (deliverReply E msg datagram from n)"
  by (simp add: deliverReply_def Let_def delivers_wf wf_set wf_nodeD handleReply_wf)

lemma handleDatagram_wf [node_wf]: "wf_node Q C n \<Longrightarrow> wf_env Q C E \<Longrightarrow> wf_node Q C (handleDatagram E data from n)"
  by (simp add: handleDatagram_def Let_def node_wf split: option.split)

lemma onReadyRead_wf: "wf_node Q C n \<Longrightarrow> wf_env Q C E \<Longrightarrow> wf_node Q C (onReadyRead E datagrams n)"
  unfolding onReadyRead_def by (rule wf_fold) (auto simp: node_wf)

lemma expireQuery_wf: "wf_node Q C n \<Longrightarrow> wf_env Q C E \<Longrightarrow> wf_node Q C (expireQuery E tid n)"
  by (simp add: expireQuery_def Let_def delivers_wf wf_set wf_nodeD expireOne_wf)

lemma onExpireTimer_wf: "wf_node Q C n \<Longrightarrow> wf_env Q C E \<Longrightarrow> wf_node Q C (onExpireTimer E n)"
  unfolding onExpireTimer_def Let_def
  by (rule wf_fold) (simp_all add: expireQuery_wf wf_set wf_nodeD pruneIfDue_wf)

lemma deliverPosted_wf: "wf_node Q C n \<Longrightarrow> wf_env Q C E \<Longrightarrow> wf_node Q C (deliverPosted E n)"
  by (simp add: deliverPosted_def deliver_wf wf_set wf_nodeD split: list.split)

lemma onMaintenance_wf:
  assumes n: "wf_node Q C n" and E: "wf_env Q C E"
  shows "wf_node Q C (onMaintenance E n)"
proof -
  have ping: "wf_node Q C (pingStale E n)"
    unfolding pingStale_def using n by (intro wf_fold sendQuery_wf wf_set(1)) (simp_all add: markPinged_wf wf_nodeD)
  have refresh: "wf_node Q C (refreshBucket E m)" if m: "wf_node Q C m" for m
  proof -
    have "wf_node Q C (m\<lparr>n_table := touchBucket b (e_now E) (n_table m)\<rparr>)" for b
      using m by (intro wf_set(1)) (simp_all add: touchBucket_wf wf_nodeD)
    moreover have "wf_id (randomIdInBucket (e_randomId E) rt b)" for rt b
      using E by (simp add: randomIdInBucket_def wf_env_def wf_randomWithPrefix)
    ultimately show ?thesis using m E by (simp add: refreshBucket_def Let_def case_prod_beta startLookup_wf split: option.split)
  qed
  have keep: "wf_verifications (filter P vs)" if "wf_verifications vs" for P vs
    using that le_trans [OF length_filter_le] by (auto simp: wf_verifications_def distinct_map_filter)
  let ?m = "refreshBucket E (pingStale E n)"
  have "wf_node Q C (?m\<lparr>n_recentVerifications := filter P (n_recentVerifications ?m)\<rparr>)" for P
    using refresh [OF ping] by (intro wf_set(6) keep) (simp_all add: wf_nodeD)
  then show ?thesis using node_frame(5) by (simp add: onMaintenance_def Let_def wf_node_def)
qed

subsection \<open>Reachable states\<close>

text \<open>The events of a node. The storages belong to the engine, which shares them with the node of the other family: they
  may change at any time to anything that keeps their own invariants.\<close>

inductive nodeStep :: "qt_net \<Rightarrow> crypto \<Rightarrow> dht_node \<Rightarrow> dht_node \<Rightarrow> bool" for Q C where
  read: "wf_env Q C E \<Longrightarrow> nodeStep Q C n (onReadyRead E datagrams n)"
| drained: "wf_env Q C E \<Longrightarrow> nodeStep Q C n (onDrainTimer E n)"
| expired: "wf_env Q C E \<Longrightarrow> nodeStep Q C n (onExpireTimer E n)"
| posted: "wf_env Q C E \<Longrightarrow> nodeStep Q C n (deliverPosted E n)"
| slow: "wf_env Q C E \<Longrightarrow> nodeStep Q C n (onSlowTimer E i n)"
| maintained: "wf_env Q C E \<Longrightarrow> nodeStep Q C n (onMaintenance E n)"
| seeded: "wf_env Q C E \<Longrightarrow> nodeStep Q C n (addSeed E e source n)"
| probed: "wf_env Q C E \<Longrightarrow> nodeStep Q C n (probe E to meth arguments d timeoutMs n)"
| found: "wf_env Q C E \<Longrightarrow> wf_id target \<Longrightarrow> nodeStep Q C n (findNode E target d n)"
| peersGot: "wf_env Q C E \<Longrightarrow> wf_id target \<Longrightarrow> nodeStep Q C n (getPeers E target d n)"
| itemGot: "wf_env Q C E \<Longrightarrow> wf_id target \<Longrightarrow> nodeStep Q C n (getItem E target salt d n)"
| itemPut: "wf_env Q C E \<Longrightarrow> wf_id (pr_target r) \<Longrightarrow> nodeStep Q C n (putItem E r d n)"
| announced: "wf_env Q C E \<Longrightarrow> wf_id target \<Longrightarrow> nodeStep Q C n (announceTo E target p implied d n)"
| renamed: "wf_env Q C E \<Longrightarrow> wf_id nid \<Longrightarrow> nodeStep Q C n (setId E nid n)"
| switched: "nodeStep Q C n (nodeSetReadOnly ro n)"
| shared: "wf_peers ps \<Longrightarrow> wf_items its \<Longrightarrow> authentic C its \<Longrightarrow> nodeStep Q C n (n\<lparr>n_storage := ps, n_items := its\<rparr>)"
| budgeted: "nodeStep Q C n (n\<lparr>n_rpc := setBudget b (n_rpc n)\<rparr>)"
| closed: "nodeStep Q C n (closeNode n)"

inductive nodeReachable :: "qt_net \<Rightarrow> crypto \<Rightarrow> dht_node \<Rightarrow> bool" for Q C where
  created: "wf_id nid \<Longrightarrow> nodeReachable Q C (newNode cfg nid emptyPeerStorage emptyItemStorage (Some emptyTally) firstId budget)"
| stepped: "nodeReachable Q C n \<Longrightarrow> nodeStep Q C n n' \<Longrightarrow> nodeReachable Q C n'"

lemma addSeed_wf: "wf_node Q C n \<Longrightarrow> wf_node Q C (addSeed E e source n)"
  by (simp add: addSeed_def Let_def sendQuery_wf wf_set distinct_update wf_nodeD)

lemma nodeStep_wf: "nodeStep Q C n n' \<Longrightarrow> wf_node Q C n \<Longrightarrow> wf_node Q C n'"
proof (induction rule: nodeStep.induct)
  case (shared ps its n)
  then show ?case by (simp add: wf_node_def)
qed (simp_all add: onReadyRead_wf onDrainTimer_def withRpc_wf drain_wf onExpireTimer_wf deliverPosted_wf onSlowTimer_def driveLookup_wf
    checkSlow_wf onMaintenance_wf addSeed_wf probe_def sendQuery_wf findNode_def getPeers_def getItem_def putItem_def announceTo_def
    startLookup_wf setId_wf nodeSetReadOnly_def wf_set wf_nodeD closeNode_def cancelAll_wf)

lemma newTable_self [simp]: "m_self (newTable self restrict) = self"
  by (simp add: newTable_def)

lemma wf_newNode: "wf_id nid \<Longrightarrow> wf_node Q C (newNode cfg nid emptyPeerStorage emptyItemStorage (Some emptyTally) firstId budget)"
  by (simp add: newNode_def wf_node_def wf_newTable wf_newRpcManager wf_voter_def newVoter_def wf_items_def authentic_def
      emptyItemStorage_def wf_tally_def emptyTally_def wf_verifications_def)

lemma nodeReachable_wf: "nodeReachable Q C n \<Longrightarrow> wf_node Q C n"
  by (induction rule: nodeReachable.induct) (simp_all add: wf_newNode nodeStep_wf)

section \<open>What an event leaves alone\<close>

text \<open>Sending, lookups and their bookkeeping change only the RPC manager, the counters, the datagrams written, the
  lookups, the writes and what is reported to the callers.\<close>

definition sameCore :: "dht_node \<Rightarrow> dht_node \<Rightarrow> bool" where
  "sameCore n n' \<longleftrightarrow> n_config n' = n_config n \<and> n_bound n' = n_bound n \<and> n_id n' = n_id n \<and> n_table n' = n_table n \<and>
     n_tokens n' = n_tokens n \<and> n_voter n' = n_voter n \<and> n_limiter n' = n_limiter n \<and> n_seeds n' = n_seeds n \<and>
     n_storage n' = n_storage n \<and> n_items n' = n_items n \<and> n_inbound n' = n_inbound n"

lemma sameCore_refl [simp]: "sameCore n n"
  by (simp add: sameCore_def)

lemma sameCore_trans: "sameCore n n1 \<Longrightarrow> sameCore n1 n2 \<Longrightarrow> sameCore n n2"
  by (simp add: sameCore_def)

lemma sameCore_fold: "(\<And>x m. sameCore m (f x m)) \<Longrightarrow> sameCore n (fold f xs n)"
  by (induction xs arbitrary: n) (auto intro: sameCore_trans)

lemma sameCore_updates [simp]:
  "sameCore m (emitChanged n) = sameCore m n" "sameCore m (modifyStats f n) = sameCore m n" "sameCore m (n\<lparr>n_out := x1\<rparr>) = sameCore m n"
  "sameCore m (n\<lparr>n_rpc := x2\<rparr>) = sameCore m n" "sameCore m (n\<lparr>n_lookups := x3\<rparr>) = sameCore m n" "sameCore m (n\<lparr>n_writes := x4\<rparr>) = sameCore m n"
  "sameCore m (n\<lparr>n_reports := x5\<rparr>) = sameCore m n" "sameCore m (n\<lparr>n_selfLookup := x6\<rparr>) = sameCore m n"
  "sameCore m (n\<lparr>n_replyRtts := x7\<rparr>) = sameCore m n" "sameCore m (n\<lparr>n_recentVerifications := x8\<rparr>) = sameCore m n"
  by (simp_all add: sameCore_def)

lemma sendDatagram_same: "sameCore n (sendDatagram E d to n)"
  by (simp add: sendDatagram_def)

lemma send_same [simp]: "sameCore n (sendResponse E msg to values n)" "sameCore n (sendError E tid to code reason n)"
  by (simp_all add: sendResponse_def sendError_def Let_def sendDatagram_same)

lemma runHook_same: "sameCore n (runHook E cb n)"
  by (simp add: runHook_def split: node_cb.split)

lemma withRpc_same: "sameCore n (withRpc E f n)"
proof -
  have "sameCore n (modifyStats g (n\<lparr>n_rpc := s\<rparr>))" for g s by simp
  then show ?thesis unfolding withRpc_def Let_def by (rule sameCore_trans) (rule sameCore_fold, rule runHook_same)
qed

lemma sendQuery_same: "sameCore n (sendQuery E to meth arguments cb timeoutMs hook n)"
  unfolding sendQuery_def by (rule sameCore_trans [OF _ withRpc_same]) simp

lemma sendAsked_same: "sameCore n (sendAsked E i qs n)"
  unfolding sendAsked_def by (rule sameCore_fold) (rule sendQuery_same)

lemma writeTo_same: "sameCore n (writeTo E meth argsFor d cs n)"
proof -
  have "sameCore m (fold (\<lambda>c. sendQuery E (ct_endpoint c) meth (argsFor (ct_token c)) cb DefaultTimeoutMs None) ts m)" for m cb and ts :: "contact list"
    by (rule sameCore_fold) (rule sendQuery_same)
  then have "sameCore n (fold (\<lambda>c. sendQuery E (ct_endpoint c) meth (argsFor (ct_token c)) cb DefaultTimeoutMs None) ts (n\<lparr>n_writes := ws\<rparr>))" for cb ws and ts :: "contact list"
    by (rule sameCore_trans [rotated]) simp
  then show ?thesis by (simp add: writeTo_def Let_def)
qed

lemma lookupDone_same: "sameCore n (lookupDone E act r n)"
  by (cases act) (simp_all add: lookupDone_def writeTo_same)

lemma driveLookup_same: "sameCore n (driveLookup E i f n)"
proof -
  have "sameCore n (sendAsked E i qs (n\<lparr>n_lookups := ls\<rparr>))" for qs ls by (rule sameCore_trans [OF _ sendAsked_same]) simp
  from this sameCore_trans [OF this lookupDone_same] show ?thesis by (simp add: driveLookup_def Let_def split: option.split)
qed

lemma startLookup_same: "sameCore n (snd (startLookup E kind target act extra salt n))"
  unfolding startLookup_def Let_def snd_conv by (rule sameCore_trans [OF _ driveLookup_same]) simp

lemma sameCoreD:
  assumes "sameCore n n'"
  shows "n_table n' = n_table n" "n_seeds n' = n_seeds n" "n_storage n' = n_storage n" "n_items n' = n_items n"
    "n_tokens n' = n_tokens n" "n_config n' = n_config n" "n_id n' = n_id n"
  using assms by (simp_all add: sameCore_def)

section \<open>Where routing table entries come from\<close>

lemma adoptExternalAddress_keys:
  "entryKeys (n_table (adoptExternalAddress E a n)) \<subseteq> entryKeys (n_table n)" "n_seeds (adoptExternalAddress E a n) = n_seeds n"
proof -
  have "n_table (setId E nid n) = rebuild (e_Q E) nid (e_now E) (n_table n)" for nid n by (simp add: setId_def)
  moreover have "n_seeds (setId E nid n) = n_seeds n" for nid n by (simp add: setId_def)
  ultimately show "entryKeys (n_table (adoptExternalAddress E a n)) \<subseteq> entryKeys (n_table n)" "n_seeds (adoptExternalAddress E a n) = n_seeds n"
    by (simp_all add: adoptExternalAddress_def Let_def sameCoreD [OF startLookup_same] rebuild_keys)
qed

lemma countVote_keys:
  "entryKeys (n_table (countVote E reply n)) \<subseteq> entryKeys (n_table n)" "n_seeds (countVote E reply n) = n_seeds n"
proof -
  have "entryKeys (n_table (adoptExternalAddress E a (n\<lparr>n_voter := v\<rparr>))) \<subseteq> entryKeys (n_table n)" for a v
    using adoptExternalAddress_keys(1) [of E a "n\<lparr>n_voter := v\<rparr>"] by simp
  then show "entryKeys (n_table (countVote E reply n)) \<subseteq> entryKeys (n_table n)"
    by (simp add: countVote_def Let_def case_prod_beta split: option.split)
  show "n_seeds (countVote E reply n) = n_seeds n"
    by (simp add: countVote_def Let_def case_prod_beta adoptExternalAddress_keys(2) split: option.split)
qed

text \<open>The entry a reply may add.\<close>

definition learnable :: "rpc_reply \<Rightarrow> dht_node \<Rightarrow> (node_id \<times> endpoint) set" where
  "learnable reply n =
     (case senderId (rr_message reply) of
        None \<Rightarrow> {}
      | Some sid \<Rightarrow> if rr_status reply = ResponseReply \<and> \<not> readOnly (rr_message reply) \<and> \<not> isRouter (rr_from reply) n
                    then {(sid, rr_from reply)} else {})"

lemma noteRtt_same: "sameCore n (noteRtt reply n)"
  by (simp add: noteRtt_def Let_def)

lemma onRpcReply_seeds: "n_seeds (onRpcReply E reply n) = n_seeds n"
  by (simp add: onRpcReply_def Let_def countVote_keys(2) sameCoreD [OF noteRtt_same] split: reply_status.split option.split)

lemma onRpcReply_keys:
  assumes wf: "wf_node Q C n" and E: "wf_env Q C E"
  shows "entryKeys (n_table (onRpcReply E reply n)) \<subseteq> learnable reply n \<union> entryKeys (n_table n)"
proof (cases "rr_status reply")
  case ResponseReply
  let ?n1 = "countVote E reply (modifyStats (\<lambda>s. s\<lparr>st_responsesIn := st_responsesIn s + 1\<rparr>) (noteRtt reply n))"
  have "entryKeys (n_table ?n1) \<subseteq> entryKeys (n_table (noteRtt reply n))"
    using countVote_keys(1) [of E reply "modifyStats (\<lambda>s. s\<lparr>st_responsesIn := st_responsesIn s + 1\<rparr>) (noteRtt reply n)"] by simp
  then have keys: "entryKeys (n_table ?n1) \<subseteq> entryKeys (n_table n)" by (simp add: sameCoreD [OF noteRtt_same])
  have "wf_node Q C ?n1" using assms by (simp add: countVote_wf noteRtt_wf)
  then have "m_buckets (n_table ?n1) \<noteq> []" by (auto simp: wf_node_def wf_table_def)
  then have heard: "entryKeys (snd (heardFrom (e_Q E) sid ep v rtt now (n_table ?n1))) \<subseteq> {(sid, ep)} \<union> entryKeys (n_table n)" for sid ep v rtt now
    using heardFrom_keys [of "n_table ?n1" "e_Q E" sid ep v rtt now] keys by blast
  have "isRouter e ?n1 = isRouter e n" for e
    by (simp add: isRouter_def countVote_keys(2) sameCoreD [OF noteRtt_same])
  with heard keys ResponseReply show ?thesis
    by (cases "senderId (rr_message reply)") (auto simp: onRpcReply_def Let_def learnable_def split: if_splits)
next
  case Timeout
  then show ?thesis using rt_failed_keys [of "rr_from reply" "e_now E" "n_table n"]
    by (auto simp: onRpcReply_def Let_def sameCoreD [OF noteRtt_same])
qed (auto simp: onRpcReply_def Let_def sameCoreD [OF noteRtt_same])

lemma seedReply_table: "n_table (seedReply E e reply n) = n_table n"
proof -
  have "sameCore m (fold (\<lambda>c. driveLookup E i (addCandidate (e_Q E) notSent (e_now E) (cn_id c) (cn_endpoint c) 0)) cs m)" for m i and cs :: "compact_node list"
    by (rule sameCore_fold) (rule driveLookup_same)
  from sameCoreD(1) [OF this] show ?thesis
    by (simp add: seedReply_def Let_def case_prod_beta sameCoreD [OF startLookup_same] split: option.split)
qed

lemma deliver_keys:
  assumes "wf_node Q C n" "wf_env Q C E"
  shows "entryKeys (n_table (deliver E (cb, reply) n)) \<subseteq> learnable reply n \<union> entryKeys (n_table n)"
proof -
  have "n_table (writeReply w reply m) = n_table m" for w m by (simp add: writeReply_def Let_def)
  then have "n_table (deliver E (cb, reply) n) = n_table (onRpcReply E reply n)"
    by (simp add: deliver_def Let_def seedReply_table sameCoreD [OF driveLookup_same] split: node_cb.split)
  with onRpcReply_keys [OF assms] show ?thesis by simp
qed

lemma send_frame [simp]:
  "n_table (sendResponse E msg to values n) = n_table n" "n_table (sendError E tid to code reason n) = n_table n"
  "n_storage (sendResponse E msg to values n) = n_storage n" "n_storage (sendError E tid to code reason n) = n_storage n"
  "n_items (sendResponse E msg to values n) = n_items n" "n_items (sendError E tid to code reason n) = n_items n"
  by (simp_all add: sameCoreD [OF send_same(1)] sameCoreD [OF send_same(2)])

lemma token_frame [simp]:
  "n_table (snd (tokenOf E from n)) = n_table n" "n_table (snd (checkToken E args from n)) = n_table n"
  "n_storage (snd (tokenOf E from n)) = n_storage n" "n_storage (snd (checkToken E args from n)) = n_storage n"
  "n_items (snd (tokenOf E from n)) = n_items n" "n_items (snd (checkToken E args from n)) = n_items n"
  "n_rpc (snd (tokenOf E from n)) = n_rpc n" "n_rpc (snd (checkToken E args from n)) = n_rpc n"
  "n_out (snd (tokenOf E from n)) = n_out n" "n_out (snd (checkToken E args from n)) = n_out n"
  by (simp_all add: tokenOf_def checkToken_def Let_def case_prod_beta split: option.split)

lemmas answer_defs = answerFindNode_def answerGetPeers_def answerAnnounce_def handleGet_def answerSample_def

lemma handlePut_table [simp]: "n_table (handlePut E msg from datagram n) = n_table n"
  by (simp add: handlePut_def storeMutable_def Let_def case_prod_beta split: option.split bool.split PutResult.split)

lemma dispatch_table: "n_table (dispatch E msg from datagram n) = n_table n"
  by (simp add: dispatch_def Let_def) (simp add: answer_defs Let_def case_prod_beta split: option.split)

lemma maybeVerify_same: "sameCore n (maybeVerify E nid from n)"
proof -
  have "sameCore n (sendQuery E to meth args cb timeoutMs hook (n\<lparr>n_recentVerifications := vs\<rparr>))" for to meth args cb timeoutMs hook vs
    by (rule sameCore_trans [OF _ sendQuery_same]) simp
  then show ?thesis by (simp add: maybeVerify_def)
qed

lemma noteQuerier_keys: "entryKeys (n_table (noteQuerier E msg from sid n)) \<subseteq> entryKeys (n_table n)"
  using queriedBy_keys [of sid "from" "e_now E" "n_table n"]
  by (simp add: noteQuerier_def Let_def case_prod_beta sameCoreD [OF maybeVerify_same])

lemma handleQuery_keys: "entryKeys (n_table (handleQuery E msg from datagram n)) \<subseteq> entryKeys (n_table n)"
proof -
  have "entryKeys (n_table (noteQuerier E msg from sid (modifyStats f (n\<lparr>n_inbound := ib, n_limiter := lim\<rparr>)))) \<subseteq> entryKeys (n_table n)" for sid f ib lim
    using noteQuerier_keys [of E msg "from" sid "modifyStats f (n\<lparr>n_inbound := ib, n_limiter := lim\<rparr>)"] by simp
  then show ?thesis by (simp add: handleQuery_def Let_def case_prod_beta dispatch_table split: option.split)
qed

text \<open>The entry a datagram may add: that of the sender of a response to a query that is outstanding with exactly this
  endpoint.\<close>

definition solicited :: "qt_net \<Rightarrow> bytes \<Rightarrow> endpoint \<Rightarrow> dht_node \<Rightarrow> (node_id \<times> endpoint) set" where
  "solicited Q data from n =
     {(sid, from) | sid msg p. parsed_message (parse Q data) = Some msg \<and> msg_type msg = Response \<and>
        map_of (m_pending (n_rpc n)) (transactionId msg) = Some p \<and> p_to p = from \<and>
        senderId msg = Some sid \<and> \<not> readOnly msg \<and> \<not> isRouter from n}"

lemma deliverReply_keys:
  assumes wf: "wf_node Q C n" and E: "wf_env Q C E"
    and msg: "parsed_message (parse Q data) = Some msg" "msg_type msg \<noteq> Query"
  shows "entryKeys (n_table (deliverReply E msg data from n)) \<subseteq> solicited Q data from n \<union> entryKeys (n_table n)"
proof (cases "\<exists>p cb. map_of (m_pending (n_rpc n)) (transactionId msg) = Some p \<and> p_to p = from \<and> p_callback p = Some cb")
  case False
  then show ?thesis by (auto simp: deliverReply_def handleReply_def Let_def split: option.splits)
next
  case True
  then obtain p cb where p: "map_of (m_pending (n_rpc n)) (transactionId msg) = Some p" "p_to p = from" "p_callback p = Some cb" by blast
  define reply where "reply = \<lparr>rr_status = (if msg_type msg = ErrorMessage then ErrorReply else ResponseReply),
    rr_message = msg, rr_datagram = data, rr_request = p_request p, rr_from = from, rr_rttMs = e_now E - p_sentAt p\<rparr>"
  let ?n = "n\<lparr>n_rpc := (n_rpc n)\<lparr>m_pending := AList.delete (transactionId msg) (m_pending (n_rpc n))\<rparr>\<rparr>"
  have "(n_rpc n)\<lparr>m_pending := x, out_reports := out_reports (n_rpc n)\<rparr> = (n_rpc n)\<lparr>m_pending := x\<rparr>" for x by simp
  then have "deliverReply E msg data from n = deliver E (cb, reply) ?n"
    using p by (simp add: deliverReply_def handleReply_def Let_def postReport_def reply_def)
  moreover have "wf_node Q C ?n" using wf by (intro wf_set(2)) (simp_all add: wf_nodeD forget_wf)
  moreover have "learnable reply ?n \<subseteq> solicited Q data from n"
    using msg p by (cases "msg_type msg") (auto simp: learnable_def solicited_def reply_def isRouter_def split: option.splits if_splits)
  ultimately show ?thesis using deliver_keys [of Q C ?n E cb reply] E by auto
qed

text \<open>C1: nobody gets into the routing table, neither as a node nor as a replacement, by sending a query or an unsolicited
  response, whatever address they send from: a datagram adds at most the sender of a response to a query that is
  outstanding with that very endpoint, and not if the response is marked read-only or the endpoint is a bootstrap
  router.\<close>

theorem table_entries_solicited:
  assumes "nodeReachable Q C n" "wf_env Q C E"
  shows "entryKeys (n_table (handleDatagram E data from n)) \<subseteq> solicited Q data from n \<union> entryKeys (n_table n)"
proof (cases "parsed_message (parse Q data)")
  case None
  then show ?thesis using assms(2) by (simp add: handleDatagram_def wf_env_def)
next
  case (Some msg)
  with nodeReachable_wf [OF assms(1)] assms(2) deliverReply_keys [of Q C n E data msg "from"] handleQuery_keys [of E msg "from" data n]
  show ?thesis by (auto simp: handleDatagram_def wf_env_def)
qed

text \<open>BEP 43. A read-only node answers no query and learns nothing from it: handling a query changes nothing but
  the rate limiter, the counters and the tally of who queries us.\<close>

theorem read_only_silent:
  assumes "cfg_readOnly (n_config n)"
  shows "\<exists>lim st ib. handleQuery E msg from datagram n = n\<lparr>n_limiter := lim, n_stats := st, n_inbound := ib\<rparr>"
proof -
  have "\<exists>lim st ib. modifyStats g (n\<lparr>n_inbound := x, n_limiter := y\<rparr>) = n\<lparr>n_limiter := lim, n_stats := st, n_inbound := ib\<rparr>" for g x y
    by (rule exI [of _ y], rule exI [of _ "g (n_stats n)"], rule exI [of _ x]) (simp add: modifyStats_def)
  moreover have "modifyStats h (modifyStats g m) = modifyStats (\<lambda>st. h (g st)) m" for h g m by (simp add: modifyStats_def)
  ultimately show ?thesis using assms by (simp add: handleQuery_def Let_def case_prod_beta)
qed

section \<open>What a query can write and send\<close>

text \<open>The token of the message is one the node would give to this address now.\<close>

definition tokenGood :: "env \<Rightarrow> message \<Rightarrow> endpoint \<Rightarrow> dht_node \<Rightarrow> bool" where
  "tokenGood E msg from n \<longleftrightarrow>
     (case stringAt (body msg) (ascii ''token'') of
        None \<Rightarrow> False
      | Some tok \<Rightarrow> fst (validateToken (e_C E) (e_Q E) (e_secret1 E) (e_secret2 E) tok (address from) (e_now E) (n_tokens n)))"

lemma checkToken_good: "fst (checkToken E (body msg) from n) = tokenGood E msg from n"
  by (simp add: checkToken_def tokenGood_def Let_def case_prod_beta split: option.split)

lemma handlePut_writes:
  "n_storage (handlePut E msg from datagram n) = n_storage n"
  "\<not> tokenGood E msg from n \<Longrightarrow> n_items (handlePut E msg from datagram n) = n_items n"
proof -
  show "n_storage (handlePut E msg from datagram n) = n_storage n"
    by (simp add: handlePut_def storeMutable_def Let_def case_prod_beta split: option.split bool.split PutResult.split)
  show "n_items (handlePut E msg from datagram n) = n_items n" if "\<not> tokenGood E msg from n"
    using that by (simp add: handlePut_def Let_def case_prod_beta checkToken_good)
qed

lemma answerAnnounce_writes:
  "n_items (answerAnnounce E msg from n) = n_items n"
  "n_storage (answerAnnounce E msg from n) = n_storage n \<or> tokenGood E msg from n \<and>
     (\<exists>ih p. n_storage (answerAnnounce E msg from n) = announce ih (mkEndpoint (e_Q E) (address from) p) (e_now E) (n_storage n))"
  by (auto simp: answerAnnounce_def Let_def case_prod_beta checkToken_good split: option.split)

text \<open>Other queries write nothing.\<close>

lemma dispatch_writes:
  assumes "msg_method msg \<noteq> ascii ''announce_peer''"
  shows "n_storage (dispatch E msg from datagram n) = n_storage n"
    "\<not> (msg_method msg = ascii ''put'' \<and> tokenGood E msg from n) \<Longrightarrow> n_items (dispatch E msg from datagram n) = n_items n"
  using assms
  by (simp_all add: dispatch_def Let_def handlePut_writes)
    (simp_all add: answerFindNode_def answerGetPeers_def handleGet_def answerSample_def Let_def case_prod_beta split: option.split)

lemma dispatch_announce:
  "msg_method msg = ascii ''announce_peer'' \<Longrightarrow> dispatch E msg from datagram n = answerAnnounce E msg from n"
  by (simp add: dispatch_def Let_def ascii_def)

text \<open>What has happened to the storages when the query is dispatched: nothing, and the token is judged as before.\<close>

lemma noteQuerier_frame:
  "n_storage (noteQuerier E msg from sid n) = n_storage n" "n_items (noteQuerier E msg from sid n) = n_items n"
  "n_tokens (noteQuerier E msg from sid n) = n_tokens n"
  by (simp_all add: noteQuerier_def Let_def case_prod_beta sameCoreD [OF maybeVerify_same])

lemma handleQuery_dispatched:
  obtains (dropped) "n_storage (handleQuery E msg from datagram n) = n_storage n" "n_items (handleQuery E msg from datagram n) = n_items n"
  | (dispatched) m where "handleQuery E msg from datagram n = dispatch E msg from datagram m"
      "n_storage m = n_storage n" "n_items m = n_items n" "n_tokens m = n_tokens n"
proof -
  let ?m = "modifyStats (\<lambda>s. s\<lparr>st_queriesIn := st_queriesIn s + 1\<rparr>) (n\<lparr>n_inbound := map_option (recordInbound (e_Q E) from msg) (n_inbound n),
    n_limiter := snd (allow (address from) (e_now E) (n_limiter n))\<rparr>)"
  show thesis
  proof (cases "fst (allow (address from) (e_now E) (n_limiter n)) \<and> \<not> cfg_readOnly (n_config n) \<and> senderId msg \<noteq> None")
    case True
    then obtain sid where sid: "senderId msg = Some sid" by blast
    have "handleQuery E msg from datagram n = dispatch E msg from datagram (noteQuerier E msg from sid ?m)"
      using True sid by (simp add: handleQuery_def Let_def case_prod_beta)
    then show thesis by (rule dispatched) (simp_all add: noteQuerier_frame)
  next
    case False
    then show thesis by (intro dropped) (auto simp: handleQuery_def Let_def case_prod_beta split: option.split)
  qed
qed

text \<open>C4: a query changes what the node stores only with a token that the node would give to the sender's address: peers
  only by \<open>announce_peer\<close>, which can only announce the sender's own address, and items only by \<open>put\<close>.\<close>

theorem writes_need_token:
  assumes changed: "n_storage (handleQuery E msg from datagram n) \<noteq> n_storage n \<or> n_items (handleQuery E msg from datagram n) \<noteq> n_items n"
  shows "tokenGood E msg from n \<and>
    (n_items (handleQuery E msg from datagram n) \<noteq> n_items n \<longrightarrow> msg_method msg = ascii ''put'') \<and>
    (n_storage (handleQuery E msg from datagram n) \<noteq> n_storage n \<longrightarrow> msg_method msg = ascii ''announce_peer'' \<and>
      (\<exists>ih p. n_storage (handleQuery E msg from datagram n) = announce ih (mkEndpoint (e_Q E) (address from) p) (e_now E) (n_storage n)))"
proof (cases rule: handleQuery_dispatched [of E msg "from" datagram n])
  case dropped
  with changed show ?thesis by simp
next
  case (dispatched m)
  have tok: "tokenGood E msg from m = tokenGood E msg from n" unfolding tokenGood_def dispatched(4) ..
  show ?thesis
  proof (cases "msg_method msg = ascii ''announce_peer''")
    case True
    with changed answerAnnounce_writes [of E msg "from" m] dispatched(2,3) tok show ?thesis
      unfolding dispatched(1) dispatch_announce [OF True] by auto
  next
    case False
    with changed dispatch_writes [OF False, where E = E and datagram = datagram and n = m] dispatched(2,3) tok show ?thesis
      unfolding dispatched(1) by auto
  qed
qed

section \<open>Where the answer goes\<close>

lemma query_wire:
  "out_wire (query sendOk now q s) = out_wire s \<or> (\<exists>d. out_wire (query sendOk now q s) = out_wire s @ [(d, q_to q)])"
proof -
  obtain go s1 where g: "mayGoNow (q_to q) now s = (go, s1)" by (cases "mayGoNow (q_to q) now s")
  have "out_wire s1 = out_wire s" using mayGoNow_same [OF g] by simp
  with send_wire [of sendOk now q s1] show ?thesis by (auto simp: query_def g Let_def split: option.splits)
qed

lemma runHook_out [simp]: "n_out (runHook E cb n) = n_out n" "n_rpc (runHook E cb n) = n_rpc n"
  by (simp_all add: runHook_def split: node_cb.split)

lemma withRpc_out: "n_out (withRpc E f n) = n_out n" "n_rpc (withRpc E f n) = f (n_rpc n)"
proof -
  have "n_out (fold (runHook E) hs m) = n_out m \<and> n_rpc (fold (runHook E) hs m) = n_rpc m" for hs m
    by (induction hs arbitrary: m) simp_all
  then show "n_out (withRpc E f n) = n_out n" "n_rpc (withRpc E f n) = f (n_rpc n)" by (simp_all add: withRpc_def Let_def)
qed

text \<open>At most one answer, and at most one ping, both to the sender.\<close>

definition answersOnly :: "endpoint \<Rightarrow> (bytes \<times> endpoint) list \<Rightarrow> (bytes \<times> endpoint) list \<Rightarrow> bool" where
  "answersOnly e old new \<longleftrightarrow> new = old \<or> (\<exists>d. new = old @ [(d, e)])"

lemma answersOnly_refl [simp]: "answersOnly e xs xs"
  by (simp add: answersOnly_def)

lemma sendDatagram_out: "answersOnly to (n_out n) (n_out (sendDatagram E d to n))" "n_rpc (sendDatagram E d to n) = n_rpc n"
  by (simp_all add: sendDatagram_def answersOnly_def)

lemma send_out [simp]:
  "answersOnly to (n_out n) (n_out (sendResponse E msg to values n))" "answersOnly to (n_out n) (n_out (sendError E tid to code reason n))"
  "n_rpc (sendResponse E msg to values n) = n_rpc n" "n_rpc (sendError E tid to code reason n) = n_rpc n"
  by (simp_all add: sendResponse_def sendError_def Let_def sendDatagram_out)

lemma dispatch_out: "answersOnly from (n_out n) (n_out (dispatch E msg from datagram n))" "n_rpc (dispatch E msg from datagram n) = n_rpc n"
proof -
  have out: "n_out m = n_out n \<Longrightarrow> answersOnly from (n_out n) (n_out (sendResponse E msg from v m))"
    "n_out m = n_out n \<Longrightarrow> answersOnly from (n_out n) (n_out (sendError E tid from code reason m))" for m v tid code reason
    using send_out(1) [of "from" m E msg v] send_out(2) [of "from" m E tid code reason] by simp_all
  have put: "answersOnly from (n_out n) (n_out (handlePut E msg from datagram n))" "n_rpc (handlePut E msg from datagram n) = n_rpc n"
    by (simp_all add: handlePut_def storeMutable_def Let_def case_prod_beta out split: option.split bool.split PutResult.split)
  show "answersOnly from (n_out n) (n_out (dispatch E msg from datagram n))" "n_rpc (dispatch E msg from datagram n) = n_rpc n"
    by (simp_all add: dispatch_def Let_def put) (simp_all add: answer_defs Let_def case_prod_beta out split: option.split)
qed

lemma sendQuery_out:
  "n_out (sendQuery E to meth args cb timeoutMs hook n) = n_out n"
  "answersOnly to (out_wire (n_rpc n)) (out_wire (n_rpc (sendQuery E to meth args cb timeoutMs hook n)))"
  using query_wire [of "canWrite E n" "e_now E" "\<lparr>q_to = to, q_method = meth, q_arguments = insert_or_assign (ascii ''id'') (mkString (toBytes (n_id n))) args,
      q_version = cfg_version (n_config n), q_callback = Some cb, q_timeoutMs = timeoutMs, q_onSent = hook\<rparr>" "n_rpc n"]
  by (simp_all add: sendQuery_def withRpc_out answersOnly_def)

lemma maybeVerify_out:
  "n_out (maybeVerify E nid from n) = n_out n" "answersOnly from (out_wire (n_rpc n)) (out_wire (n_rpc (maybeVerify E nid from n)))"
proof -
  have "answersOnly from (out_wire (n_rpc n)) (out_wire (n_rpc (sendQuery E from meth args cb timeoutMs hook (n\<lparr>n_recentVerifications := vs\<rparr>))))"
    for meth args cb timeoutMs hook vs
    using sendQuery_out(2) [of "from" "n\<lparr>n_recentVerifications := vs\<rparr>" E meth args cb timeoutMs hook] by simp
  then show "n_out (maybeVerify E nid from n) = n_out n" "answersOnly from (out_wire (n_rpc n)) (out_wire (n_rpc (maybeVerify E nid from n)))"
    by (simp_all add: maybeVerify_def sendQuery_out(1))
qed

lemma noteQuerier_out:
  "n_out (noteQuerier E msg from sid n) = n_out n" "answersOnly from (out_wire (n_rpc n)) (out_wire (n_rpc (noteQuerier E msg from sid n)))"
proof -
  have "answersOnly from (out_wire (n_rpc n)) (out_wire (n_rpc (maybeVerify E sid from (n\<lparr>n_table := rt\<rparr>))))" for rt
    using maybeVerify_out(2) [of "from" "n\<lparr>n_table := rt\<rparr>" E sid] by simp
  then show "n_out (noteQuerier E msg from sid n) = n_out n" "answersOnly from (out_wire (n_rpc n)) (out_wire (n_rpc (noteQuerier E msg from sid n)))"
    by (simp_all add: noteQuerier_def Let_def case_prod_beta maybeVerify_out(1))
qed

text \<open>C5: whatever a query says, the node writes at most one answer and at most one ping of its own because of it, and
  both go to the endpoint the query came from. A query thus cannot make the node send anything to a third party.\<close>

theorem answers_only_sender:
  "answersOnly from (n_out n) (n_out (handleQuery E msg from datagram n)) \<and>
   answersOnly from (out_wire (n_rpc n)) (out_wire (n_rpc (handleQuery E msg from datagram n)))"
proof -
  let ?m = "modifyStats (\<lambda>s. s\<lparr>st_queriesIn := st_queriesIn s + 1\<rparr>) (n\<lparr>n_inbound := map_option (recordInbound (e_Q E) from msg) (n_inbound n),
    n_limiter := snd (allow (address from) (e_now E) (n_limiter n))\<rparr>)"
  have err: "answersOnly from (n_out n) (n_out (sendError E tid from code reason ?m))" for tid code reason
    using send_out(2) [of "from" ?m E tid code reason] by simp
  have ans: "answersOnly from (n_out n) (n_out (dispatch E msg from datagram (noteQuerier E msg from sid ?m)))" for sid
    using dispatch_out(1) [of "from" "noteQuerier E msg from sid ?m" E msg datagram] by (simp add: noteQuerier_out)
  have ping: "answersOnly from (out_wire (n_rpc n)) (out_wire (n_rpc (dispatch E msg from datagram (noteQuerier E msg from sid ?m))))" for sid
    using noteQuerier_out(2) [of "from" ?m E msg sid] by (simp add: dispatch_out(2))
  show ?thesis using err ans ping by (simp add: handleQuery_def Let_def case_prod_beta split: option.split)
qed

text \<open>C2: in every state a node can reach, whatever datagrams, timers and requests brought it there, all its parts are
  well formed together: the routing table is built around the node's own identifier and keeps its bounds, the RPC
  manager, the lookups, the stored peers and items, the votes on our address and the tally of queriers keep their
  invariants, at most 2000 senders await verification, and at most 256 round trips are remembered.\<close>

theorem node_invariant: "nodeReachable Q C n \<Longrightarrow> wf_node Q C n"
  by (rule nodeReachable_wf)

text \<open>C3: BEP 44. Nothing a node stores and hands out was forged: in every reachable state an immutable item hashes to the
  key it is stored under, and a mutable item is stored under the hash of its public key and salt and carries a
  signature of exactly its salt, sequence number and value that verifies under that key.\<close>

theorem stored_items_authentic:
  assumes "nodeReachable Q C n"
  shows "(\<forall>k it. immutableItem k (n_items n) = Some it \<longrightarrow> immutableTarget C (ii_value it) = k) \<and>
    (\<forall>k it. mutableItem k (n_items n) = Some it \<longrightarrow> mutableTarget C (mi_publicKey it) (mi_salt it) = k \<and>
      verify C (mi_signature it) (signingBuffer (mi_salt it) (mi_sequence it) (mi_value it)) (mi_publicKey it) = Some True)"
  using wf_nodeD(8) [OF nodeReachable_wf [OF assms]]
  by (auto simp: authentic_def immutableItem_def mutableItem_def dest!: map_of_SomeD)

text \<open>What a put that is acknowledged has stored.\<close>

definition putErrors :: "int set" where
  "putErrors = {ProtocolError, MessageTooBig, SaltTooLongCode, InvalidSignature, CasMismatchCode, SequenceTooLowCode}"

definition storedByPut :: "env \<Rightarrow> message \<Rightarrow> bytes \<Rightarrow> item_storage \<Rightarrow> bool" where
  "storedByPut E msg datagram items \<longleftrightarrow>
     (\<exists>v. find_key (body msg) (ascii ''v'') = Some v \<and> rawSpan v datagram \<noteq> [] \<and> length (rawSpan v datagram) \<le> MaxValueBytes \<and>
        (case stringAt (body msg) (ascii ''k'') of
           None \<Rightarrow> (\<exists>it. immutableItem (immutableTarget (e_C E) (rawSpan v datagram)) items = Some it \<and> ii_storedAt it = e_now E)
         | Some k \<Rightarrow> (\<exists>salt sequence it. mutableItem (mutableTarget (e_C E) k salt) items = Some it \<and> mi_storedAt it = e_now E \<and>
             integerAt (body msg) (ascii ''seq'') = Some sequence \<and> mi_sequence it = sequence)))"

lemma putImmutable_stored:
  "length raw \<le> MaxValueBytes \<Longrightarrow> \<exists>it. immutableItem t (snd (putImmutable t raw now s)) = Some it \<and> ii_storedAt it = now"
  by (simp add: putImmutable_def immutableItem_def Let_def update_conv split: option.split)

lemma putMutable_outcome:
  "fst (putMutable item cas now s) \<notin> {Stored, Refreshed} \<Longrightarrow> snd (putMutable item cas now s) = s"
  "fst (putMutable item cas now s) \<in> {Stored, Refreshed} \<Longrightarrow>
    \<exists>it. mutableItem (mi_target item) (snd (putMutable item cas now s)) = Some it \<and> mi_storedAt it = now \<and> mi_sequence it = mi_sequence item"
  by (auto simp: putMutable_def mutableItem_def Let_def update_conv split: option.splits if_splits)

definition refusedPut :: "env \<Rightarrow> message \<Rightarrow> endpoint \<Rightarrow> dht_node \<Rightarrow> dht_node \<Rightarrow> bool" where
  "refusedPut E msg from n n' \<longleftrightarrow> n_items n' = n_items n \<and>
     (\<exists>code reason m. code \<in> putErrors \<and> n' = sendError E (transactionId msg) from code reason m)"

lemma refusedPutI:
  "n_items m = n_items n \<Longrightarrow> code \<in> putErrors \<Longrightarrow> refusedPut E msg from n (sendError E (transactionId msg) from code reason m)"
  by (auto simp: refusedPut_def)

lemma storeMutable_outcome:
  assumes n'_def: "n' = storeMutable E msg from raw k salt sequence signature n"
  shows "refusedPut E msg from n n' \<or>
    (\<exists>m it. n' = emitChanged (sendResponse E msg from [] m) \<and> mutableItem (mutableTarget (e_C E) k salt) (n_items n') = Some it \<and>
       mi_storedAt it = e_now E \<and> mi_sequence it = sequence)"
proof (cases "verify (e_C E) signature (signingBuffer salt sequence raw) k = Some True")
  case False
  then show ?thesis
    by (cases "verify (e_C E) signature (signingBuffer salt sequence raw) k")
      (auto simp: n'_def storeMutable_def putErrors_def intro!: refusedPutI split: bool.splits)
next
  case True
  let ?item = "\<lparr>mi_target = mutableTarget (e_C E) k salt, mi_publicKey = k, mi_salt = salt, mi_signature = signature,
    mi_value = raw, mi_sequence = sequence, mi_storedAt = 0\<rparr>"
  obtain res items where put: "putMutable ?item (integerAt (body msg) (ascii ''cas'')) (e_now E) (n_items n) = (res, items)"
    by (cases "putMutable ?item (integerAt (body msg) (ascii ''cas'')) (e_now E) (n_items n)")
  note out = putMutable_outcome [of ?item "integerAt (body msg) (ascii ''cas'')" "e_now E" "n_items n", unfolded put]
  have n': "n' = (case res of
      CasMismatch \<Rightarrow> sendError E (transactionId msg) from CasMismatchCode (ascii ''CAS hash mismatch, re-read value and try again'') (n\<lparr>n_items := items\<rparr>)
    | SequenceTooLow \<Rightarrow> sendError E (transactionId msg) from SequenceTooLowCode (ascii ''sequence number less than current'') (n\<lparr>n_items := items\<rparr>)
    | TooBig \<Rightarrow> sendError E (transactionId msg) from MessageTooBig (ascii ''message (v field) too big'') (n\<lparr>n_items := items\<rparr>)
    | SaltTooLong \<Rightarrow> sendError E (transactionId msg) from SaltTooLongCode (ascii ''salt (salt field) too long'') (n\<lparr>n_items := items\<rparr>)
    | _ \<Rightarrow> emitChanged (sendResponse E msg from [] (n\<lparr>n_items := items\<rparr>)))"
    by (simp add: n'_def storeMutable_def True put Let_def)
  show ?thesis
  proof (cases "res \<in> {Stored, Refreshed}")
    case True
    with out(2) n' show ?thesis by auto
  next
    case False
    with out(1) have "items = n_items n" by simp
    with False show ?thesis unfolding n'
      by (cases res) (auto simp: putErrors_def intro!: refusedPutI)
  qed
qed


section \<open>An example node\<close>

definition demoConfig :: node_config where
  "demoConfig = \<lparr>cfg_family = IPv4, cfg_allowLocal = False, cfg_bep42 = True, cfg_readOnly = False, cfg_hostLimit = defaultHostLimit,
     cfg_lookupSlowAfterMs = 0, cfg_lookupTimeoutMs = 0, cfg_version = []\<rparr>"

definition demoNode :: dht_node where
  "demoNode = newNode demoConfig nullId emptyPeerStorage emptyItemStorage (Some emptyTally) 0 None"

definition demoEnv :: env where
  "demoEnv = \<lparr>e_now = 1000, e_Q = qt_doc, e_C = plainCrypto, e_sendOk = (\<lambda>d e. True), e_secret1 = [1, 2, 3], e_secret2 = [4, 5, 6],
     e_draw = (\<lambda>i. i), e_shuffle = (\<lambda>xs. xs), e_randomId = nullId, e_lowBits = 0, e_randomByte = 0, e_sibling = None\<rparr>"

definition demoSender :: endpoint where
  "demoSender = \<lparr>address = V4 0x05060708, port = 6881\<rparr>"

text \<open>An announce of ours by \<open>demoSender\<close>, with the token the node gives to its address.\<close>

definition demoAnnounce :: message where
  "demoAnnounce = emptyMessage\<lparr>msg_type := Query, transactionId := [97, 97], msg_method := ascii ''announce_peer'',
     body := mkDict [(ascii ''id'', mkString (replicate 20 7)), (ascii ''implied_port'', mkInt 1), (ascii ''info_hash'', mkString (replicate 20 9)),
       (ascii ''token'', mkString (tokenFor plainCrypto qt_doc [1, 2, 3] (V4 0x05060708)))]\<rparr>"

lemma demo_wf: "wf_env qt_doc plainCrypto demoEnv"
  by (simp add: wf_env_def demoEnv_def wf_id_def nullId_def int64_max_def)

lemma demo_reachable: "nodeReachable qt_doc plainCrypto demoNode"
  unfolding demoNode_def by (rule nodeReachable.created) (simp add: wf_id_def nullId_def)

theorem table_entries_solicited_witness:
  "entryKeys (n_table (handleDatagram demoEnv (ascii ''d1:ad2:id20:abcdefghij0123456789e1:q4:ping1:t2:aa1:y1:qe'') demoSender demoNode))
    \<subseteq> solicited qt_doc (ascii ''d1:ad2:id20:abcdefghij0123456789e1:q4:ping1:t2:aa1:y1:qe'') demoSender demoNode \<union> entryKeys (n_table demoNode)"
  by (rule table_entries_solicited [OF demo_reachable demo_wf])

theorem read_only_silent_witness:
  "\<exists>lim st ib. handleQuery demoEnv demoAnnounce demoSender [] (nodeSetReadOnly True demoNode)
     = (nodeSetReadOnly True demoNode)\<lparr>n_limiter := lim, n_stats := st, n_inbound := ib\<rparr>"
  by (rule read_only_silent) (simp add: nodeSetReadOnly_def demoNode_def newNode_def demoConfig_def)

theorem node_invariant_witness: "wf_node qt_doc plainCrypto (onReadyRead demoEnv [([100, 101], V4 0x05060708, 6881)] demoNode)"
  by (rule node_invariant, rule nodeReachable.stepped [OF demo_reachable], rule nodeStep.read [OF demo_wf])

text \<open>A node with one stored item.\<close>

definition demoItems :: item_storage where
  "demoItems = snd (putImmutable (immutableTarget plainCrypto (ascii ''2:hi'')) (ascii ''2:hi'') 1000 emptyItemStorage)"

lemma demoItems_reachable: "nodeReachable qt_doc plainCrypto (demoNode\<lparr>n_storage := emptyPeerStorage, n_items := demoItems\<rparr>)"
proof (rule nodeReachable.stepped [OF demo_reachable], rule nodeStep.shared)
  have empty: "wf_items emptyItemStorage" "authentic plainCrypto emptyItemStorage"
    by (simp_all add: wf_items_def authentic_def emptyItemStorage_def)
  show "wf_items demoItems" using empty(1) by (simp add: demoItems_def putImmutable_wf int64_max_def)
  show "authentic plainCrypto demoItems" using empty(2) by (simp add: demoItems_def putImmutable_authentic)
qed simp

theorem stored_items_authentic_witness:
  "\<exists>it. immutableItem (immutableTarget plainCrypto (ascii ''2:hi'')) demoItems = Some it \<and>
     immutableTarget plainCrypto (ii_value it) = immutableTarget plainCrypto (ascii ''2:hi'')"
proof -
  obtain it where "immutableItem (immutableTarget plainCrypto (ascii ''2:hi'')) demoItems = Some it"
    using putImmutable_stored [of "ascii ''2:hi''"] by (fastforce simp: demoItems_def MaxValueBytes_def)
  with stored_items_authentic [OF demoItems_reachable] show ?thesis by simp
qed

lemma demo_args:
  "senderId demoAnnounce = Some (replicate 20 7)" "msg_method demoAnnounce = ascii ''announce_peer''"
  "idArg (body demoAnnounce) (ascii ''info_hash'') = Some (replicate 20 9)"
  "integerAt (body demoAnnounce) (ascii ''implied_port'') = Some 1"
  "stringAt (body demoAnnounce) (ascii ''token'') = Some (tokenFor plainCrypto qt_doc [1, 2, 3] (V4 0x05060708))"
  by (simp_all add: demoAnnounce_def senderId_def idArg_def stringAt_def integerAt_def find_key_def
      ascii_def fromBytes_def id_Size_def)

lemma demo_announced:
  "n_storage (handleQuery demoEnv demoAnnounce demoSender [] demoNode)
    = announce (replicate 20 9) (mkEndpoint qt_doc (V4 0x05060708) 6881) 1000 emptyPeerStorage"
proof -
  have allowed: "fst (allow (address demoSender) (e_now demoEnv) (n_limiter demoNode))" "\<not> cfg_readOnly (n_config demoNode)"
    by (simp_all add: allow_def demoNode_def newNode_def demoEnv_def demoConfig_def Let_def)
  obtain m where m: "handleQuery demoEnv demoAnnounce demoSender [] demoNode = answerAnnounce demoEnv demoAnnounce demoSender m"
    "n_storage m = emptyPeerStorage" "n_tokens m = newTokenManager"
  proof -
    let ?m = "modifyStats (\<lambda>s. s\<lparr>st_queriesIn := st_queriesIn s + 1\<rparr>) (demoNode\<lparr>n_inbound := map_option (recordInbound (e_Q demoEnv) demoSender demoAnnounce) (n_inbound demoNode),
      n_limiter := snd (allow (address demoSender) (e_now demoEnv) (n_limiter demoNode))\<rparr>)"
    show thesis
      by (rule that [of "noteQuerier demoEnv demoAnnounce demoSender (replicate 20 7) ?m"])
        (use allowed in \<open>simp_all add: handleQuery_def Let_def case_prod_beta demo_args dispatch_announce noteQuerier_frame\<close>,
          simp_all add: demoNode_def newNode_def)
  qed
  have "fst (checkToken demoEnv (body demoAnnounce) demoSender m)"
    by (simp add: checkToken_def demo_args m(3) validateToken_def Let_def newTokenManager_def rotateIfNeeded_def demoEnv_def demoSender_def)
  then show ?thesis
    unfolding m(1) by (simp add: answerAnnounce_def demo_args Let_def case_prod_beta m(2)) (simp add: demoSender_def demoEnv_def)
qed

theorem writes_need_token_witness: "tokenGood demoEnv demoAnnounce demoSender demoNode"
proof -
  let ?s = "announce (replicate 20 9) (mkEndpoint qt_doc (V4 0x05060708) 6881) 1000 emptyPeerStorage"
  have "map_of (m_entries ?s) (replicate 20 9) \<noteq> None"
    using announce_lookup [OF wf_emptyPeerStorage] by (metis option.distinct(1))
  then have "?s \<noteq> n_storage demoNode" by (auto simp: demoNode_def newNode_def emptyPeerStorage_def)
  then show ?thesis
    using writes_need_token [where E = demoEnv and msg = demoAnnounce and datagram = "[]" and n = demoNode] demo_announced by metis
qed

end
