(* ===== verification/Crawler.thy ===== *)
theory Crawler
  imports DhtNode
begin

text \<open>
  \<^verbatim>\<open>dhtcore/include/dhtcore/Crawler.h\<close>, \<^verbatim>\<open>dhtcore/src/Crawler.cpp\<close>: the scan of the whole network over the node catalogue.
  The crawler's state holds the nodes it sends through, so that a query it asks for is a \<open>probe\<close> or a lookup of
  theory \<open>DhtNode\<close> and the backlog it looks at is that of the node's RPC manager. A callback is an entry of
  \<open>k_calls\<close>: its number is what the node reports with the reply, and it runs once. What comes from outside is the
  record \<open>crawl_env\<close>; random identifiers and eviction draws are numbered by \<open>k_draws\<close>. The statistics passes,
  the history samples and the size and lookup trackers, which only read the state, are left out.
\<close>

definition BacklogQueued :: int where "BacklogQueued = 2000"
definition BacklogPending :: int where "BacklogPending = DefaultMaxPending - 5000"
definition SeedIntervalMs :: int where "SeedIntervalMs = 5 * 1000"
definition TrimPerTick :: int where "TrimPerTick = 20000"
definition DeferredScanPerTick :: nat where "DeferredScanPerTick = 2000"
definition CrawlTickMs :: int where "CrawlTickMs = 20"
definition MinBatch :: int where "MinBatch = 4"
definition MaxBatch :: int where "MaxBatch = 4000"
definition NeighbourhoodBits :: int where "NeighbourhoodBits = 24"
definition MaxQueuedPerHost :: nat where "MaxQueuedPerHost = 2"
definition MaxEstimates :: int where "MaxEstimates = 6"
definition FeatureShareDivisor :: int where "FeatureShareDivisor = 4"
definition FeatureTries :: int where "FeatureTries = 2"
definition UnknownMethod :: bytes where "UnknownMethod = ascii ''dhtinspector_unknown''"

record crawl_config =
  cc_revisitIntervalMs :: int
  cc_silentRevisitIntervalMs :: int
  cc_retryDelayMs :: int
  cc_failuresToGiveUp :: int
  cc_queryTimeoutMs :: int
  cc_sizeEstimateIntervalMs :: int
  cc_allowLocal :: bool

datatype crawl_call = ScanCall catalog_ref | FeatureCall catalog_ref entry_flag | WidenCall Family | EstimateCall Family

record crawler =
  k_catalog :: catalog
  k_config :: crawl_config
  k_v4 :: "dht_node option"
  k_v6 :: "dht_node option"
  k_fresh :: "catalog_ref list"
  k_retry :: "catalog_ref list"
  k_revisit :: "catalog_ref list"
  k_revisitSilent :: "catalog_ref list"
  k_deferred :: "(catalog_ref \<times> bool) list"
  k_features :: "catalog_ref list"
  k_widening :: "Family \<Rightarrow> bool"
  k_estimating :: "Family \<Rightarrow> int"
  k_calls :: "(nat \<times> crawl_call) list"
  k_nextCall :: nat
  k_draws :: nat
  k_nextEstimateMs :: int
  k_monitoring :: bool
  k_batch :: int
  k_lastTickFull :: bool
  k_lastSendFailures :: int
  k_lastSeedMs :: int
  k_outstanding :: int
  k_queries :: int
  k_answers :: int
  k_errors :: int
  k_timeouts :: int
  k_notSent :: int
  k_featureQueries :: int
  k_randomLookups :: int
  k_lookupsWithInventedPeers :: int

record crawl_env =
  x_now :: int
  x_Q :: qt_net
  x_node :: "Family \<Rightarrow> env"
  x_H :: "bytes \<Rightarrow> nat"
  x_evict :: "nat \<Rightarrow> nat \<Rightarrow> nat"
  x_trim :: "nat \<Rightarrow> nat \<Rightarrow> nat"
  x_ids :: "nat \<Rightarrow> node_id"
  x_elapsed :: int

definition newCrawler :: "catalog \<Rightarrow> crawl_config \<Rightarrow> dht_node option \<Rightarrow> dht_node option \<Rightarrow> crawler" where
  "newCrawler cat cfg v4 v6 =
     \<lparr>k_catalog = cat, k_config = cfg, k_v4 = v4, k_v6 = v6, k_fresh = [], k_retry = [], k_revisit = [], k_revisitSilent = [],
      k_deferred = [], k_features = [], k_widening = (\<lambda>_. False), k_estimating = (\<lambda>_. 0), k_calls = [], k_nextCall = 0, k_draws = 0,
      k_nextEstimateMs = 0, k_monitoring = False, k_batch = 16, k_lastTickFull = False, k_lastSendFailures = 0, k_lastSeedMs = 0,
      k_outstanding = 0, k_queries = 0, k_answers = 0, k_errors = 0, k_timeouts = 0, k_notSent = 0, k_featureQueries = 0,
      k_randomLookups = 0, k_lookupsWithInventedPeers = 0\<rparr>"

definition nodeFor :: "Family \<Rightarrow> crawler \<Rightarrow> dht_node option" where
  "nodeFor fam k = (if fam = IPv4 then k_v4 k else k_v6 k)"

definition withNode :: "Family \<Rightarrow> (dht_node \<Rightarrow> dht_node) \<Rightarrow> crawler \<Rightarrow> crawler" where
  "withNode fam f k = (if fam = IPv4 then k\<lparr>k_v4 := map_option f (k_v4 k)\<rparr> else k\<lparr>k_v6 := map_option f (k_v6 k)\<rparr>)"

definition isOwnId :: "node_id \<Rightarrow> crawler \<Rightarrow> bool" where
  "isOwnId i k \<longleftrightarrow> map_option n_id (k_v4 k) = Some i \<or> map_option n_id (k_v6 k) = Some i"

definition nodeBacklogged :: "dht_node option \<Rightarrow> bool" where
  "nodeBacklogged n =
     (case n of None \<Rightarrow> False | Some m \<Rightarrow> m_queuedTotal (n_rpc m) > BacklogQueued \<or> int (length (m_pending (n_rpc m))) > BacklogPending)"

definition backlogged :: "crawler \<Rightarrow> bool" where
  "backlogged k \<longleftrightarrow> nodeBacklogged (k_v4 k) \<or> nodeBacklogged (k_v6 k)"

definition crawlSendFailures :: "crawler \<Rightarrow> int" where
  "crawlSendFailures k =
     (case k_v4 k of None \<Rightarrow> 0 | Some n \<Rightarrow> m_sendFailures (n_rpc n)) + (case k_v6 k of None \<Rightarrow> 0 | Some n \<Rightarrow> m_sendFailures (n_rpc n))"

text \<open>A registered callback and its number; a random identifier; a change of a catalogue entry in place.\<close>

definition newCall :: "crawl_call \<Rightarrow> crawler \<Rightarrow> nat \<times> crawler" where
  "newCall call k = (k_nextCall k, k\<lparr>k_calls := (k_nextCall k, call) # k_calls k, k_nextCall := k_nextCall k + 1\<rparr>)"

definition drawId :: "crawl_env \<Rightarrow> crawler \<Rightarrow> node_id \<times> crawler" where
  "drawId X k = (x_ids X (k_draws k), k\<lparr>k_draws := k_draws k + 1\<rparr>)"

definition entryOf :: "nat \<Rightarrow> crawler \<Rightarrow> catalog_entry" where
  "entryOf s k = nc_entries (k_catalog k) ! s"

definition updEntry :: "nat \<Rightarrow> (catalog_entry \<Rightarrow> catalog_entry) \<Rightarrow> crawler \<Rightarrow> crawler" where
  "updEntry s f k = k\<lparr>k_catalog := (k_catalog k)\<lparr>nc_entries := (nc_entries (k_catalog k))[s := f (entryOf s k)]\<rparr>\<rparr>"

definition crawlRef :: "nat \<Rightarrow> crawler \<Rightarrow> catalog_ref" where
  "crawlRef s k = refTo s (k_catalog k)"

section \<open>Learning of nodes\<close>

fun problemCode :: "AddressProblem \<Rightarrow> 8 word" where
  "problemCode NoProblem = 0"
| "problemCode ZeroPort = 1"
| "problemCode Unspecified = 2"
| "problemCode Local = 3"
| "problemCode Multicast = 4"
| "problemCode Reserved = 5"

definition seenListed :: "32 word \<Rightarrow> catalog_entry \<Rightarrow> catalog_entry" where
  "seenListed t e = e\<lparr>ce_lastListed := t, ce_sightings := (if ce_sightings e < 0xffff then ce_sightings e + 1 else ce_sightings e)\<rparr>"

text \<open>The part of \<open>learn\<close> for a node that is new to the catalogue.\<close>

definition learnNew :: "crawl_env \<Rightarrow> compact_node \<Rightarrow> nat \<Rightarrow> crawler \<Rightarrow> crawler" where
  "learnNew X c s k =
     (let k1 = updEntry s (\<lambda>e. e\<lparr>ce_id := cn_id c\<rparr>) k;
          problem = addressProblem (x_Q X) (cn_endpoint c) (cc_allowLocal (k_config k))
      in if problem \<noteq> NoProblem
         then let k2 = updEntry s (\<lambda>e. e\<lparr>ce_failures := problemCode problem\<rparr>) k1
              in k2\<lparr>k_catalog := setState s Unroutable (k_catalog k2)\<rparr>
         else k1\<lparr>k_fresh := k_fresh k1 @ [crawlRef s k1]\<rparr>)"

definition learnNode :: "crawl_env \<Rightarrow> compact_node \<Rightarrow> crawler \<Rightarrow> crawler" where
  "learnNode X c k =
     (if nodeFor (family (x_Q X) (cn_endpoint c)) k = None \<or> isOwnId (cn_id c) k then k
      else let (slot, added, cat) = upsert (x_Q X) (x_H X) (x_evict X (k_draws k)) (cn_endpoint c) (x_now X) (k_catalog k);
               k1 = k\<lparr>k_catalog := cat, k_draws := k_draws k + 1\<rparr>
           in case slot of
                None \<Rightarrow> k1
              | Some s \<Rightarrow> let k2 = updEntry s (seenListed (stamp (x_now X) cat)) k1
                          in if added then learnNew X c s k2 else k2)"

definition seedFrom :: "crawl_env \<Rightarrow> Family \<Rightarrow> crawler \<Rightarrow> crawler" where
  "seedFrom X fam k =
     (case nodeFor fam k of
        None \<Rightarrow> k
      | Some n \<Rightarrow>
          let start = closestNodes (n_id n) 8 n @ concat (map (\<lambda>i. closestNodes (x_ids X (k_draws k + i)) 8 n) [0..<8])
          in fold (learnNode X) start (k\<lparr>k_draws := k_draws k + 8\<rparr>))"

definition crawlSeed :: "crawl_env \<Rightarrow> crawler \<Rightarrow> crawler" where
  "crawlSeed X k = seedFrom X IPv6 (seedFrom X IPv4 (k\<lparr>k_lastSeedMs := x_now X\<rparr>))"

text \<open>The subnet an address is judged in (\<^verbatim>\<open>Sybil.cpp\<close>), and Qt's test whether an address lies in it.\<close>

definition subnetOf :: "qt_net \<Rightarrow> host_address \<Rightarrow> host_address \<times> nat" where
  "subnetOf Q a =
     (if isIPv4Protocol a then (V4 (toIPv4Address a AND 0xffffff00), 24)
      else (V6 (take 6 (toIPv6Address Q a) @ replicate 10 0) [], 48))"

definition isInSubnet :: "qt_net \<Rightarrow> host_address \<Rightarrow> host_address \<times> nat \<Rightarrow> bool" where
  "isInSubnet Q a subnet =
     (case subnet of (base, bits) \<Rightarrow>
        if isIPv4Protocol base then isIPv4Protocol a \<and> inSubnet (toIPv4Address a) (toIPv4Address base, bits)
        else isIPv6Protocol a \<and> take (bits div 8) (toIPv6Address Q a) = take (bits div 8) (toIPv6Address Q base))"

definition noteListing :: "qt_net \<Rightarrow> bool \<Rightarrow> compact_node list \<Rightarrow> catalog_entry \<Rightarrow> catalog_entry" where
  "noteListing Q allowLocal listed e =
     (let subnet = subnetOf Q (hostAddress e);
          same = filter (\<lambda>c. family Q (cn_endpoint c) = entryFamily e) listed;
          sameFamily = int (length same);
          own = int (length (filter (\<lambda>c. isInSubnet Q (address (cn_endpoint c)) subnet) same));
          bogons = list_ex (\<lambda>c. \<not> isUsableRemote Q (cn_endpoint c) allowLocal) listed;
          e1 = (if sameFamily > 0 then e\<lparr>ce_selfListShare := of_int ((own * 100 + sameFamily div 2) div sameFamily)\<rparr> else e)
      in setFlag ListsBogons (bogons \<or> has ListsBogons e1) e1)"

definition learnFrom :: "crawl_env \<Rightarrow> catalog_ref \<Rightarrow> rpc_reply \<Rightarrow> crawler \<Rightarrow> crawler" where
  "learnFrom X r reply k =
     (let listed = foundNodes (x_Q X) IPv4 (body (rr_message reply)) @ foundNodes (x_Q X) IPv6 (body (rr_message reply));
          k1 = (if listed \<noteq> [] \<and> isCurrent r (k_catalog k)
                then updEntry (the (ref_slot r)) (noteListing (x_Q X) (cc_allowLocal (k_config k)) listed) k else k)
      in fold (learnNode X) listed k1)"

section \<open>Lookups for random targets\<close>

definition widenOne :: "crawl_env \<Rightarrow> Family \<Rightarrow> crawler \<Rightarrow> crawler" where
  "widenOne X fam k =
     (if nodeFor fam k = None \<or> k_widening k fam then k
      else let (target, k1) = drawId X (k\<lparr>k_widening := (k_widening k)(fam := True)\<rparr>);
               (d, k2) = newCall (WidenCall fam) k1
           in withNode fam (findNode (x_node X fam) target d) k2)"

definition widen :: "crawl_env \<Rightarrow> crawler \<Rightarrow> crawler" where
  "widen X k = widenOne X IPv6 (widenOne X IPv4 k)"

definition estimateOne :: "crawl_env \<Rightarrow> Family \<Rightarrow> crawler \<Rightarrow> crawler" where
  "estimateOne X fam k =
     (if nodeFor fam k = None \<or> k_estimating k fam \<ge> MaxEstimates then k
      else let (target, k1) = drawId X (k\<lparr>k_estimating := (k_estimating k)(fam := k_estimating k fam + 1)\<rparr>);
               (d, k2) = newCall (EstimateCall fam) k1
           in withNode fam (getPeers (x_node X fam) target d) k2)"

definition estimateSize :: "crawl_env \<Rightarrow> crawler \<Rightarrow> crawler" where
  "estimateSize X k = estimateOne X IPv6 (estimateOne X IPv4 k)"

definition markInventor :: "crawl_env \<Rightarrow> endpoint \<Rightarrow> crawler \<Rightarrow> crawler" where
  "markInventor X source k =
     (case findSlot (x_Q X) (x_H X) source (k_catalog k) of None \<Rightarrow> k | Some s \<Rightarrow> updEntry s (setFlag InventsPeers True) k)"

definition recordLookup :: "crawl_env \<Rightarrow> lookup_result \<Rightarrow> crawler \<Rightarrow> crawler" where
  "recordLookup X r k =
     (let k1 = (if r_kind r = GetPeers
                then k\<lparr>k_randomLookups := k_randomLookups k + 1,
                       k_lookupsWithInventedPeers := k_lookupsWithInventedPeers k + (if r_sightings r = [] then 0 else 1)\<rparr> else k);
          k2 = fold (\<lambda>(peer, source). markInventor X source) (r_sightings r) k1
      in fold (\<lambda>c. learnNode X \<lparr>cn_id = ct_id c, cn_endpoint = ct_endpoint c\<rparr>) (r_closest r) k2)"

section \<open>Asking\<close>

text \<open>The queues hold references in the order their nodes were asked; those that are no longer current are dropped when they
  come up.\<close>

fun takeDue :: "catalog \<Rightarrow> int \<Rightarrow> int \<Rightarrow> catalog_ref list \<Rightarrow> nat option \<times> catalog_ref list" where
  "takeDue c now minAgeMs [] = (None, [])"
| "takeDue c now minAgeMs (r # rs) =
     (if \<not> isCurrent r c then takeDue c now minAgeMs rs
      else if minAgeMs > 0 \<and> ageMs (ce_lastQueried (nc_entries c ! the (ref_slot r))) now c < minAgeMs then (None, r # rs)
      else (ref_slot r, rs))"

fun dueIn :: "catalog \<Rightarrow> int \<Rightarrow> int \<Rightarrow> catalog_ref list \<Rightarrow> bool" where
  "dueIn c now minAgeMs [] = False"
| "dueIn c now minAgeMs (r # rs) =
     (if isCurrent r c then ageMs (ce_lastQueried (nc_entries c ! the (ref_slot r))) now c \<ge> minAgeMs else dueIn c now minAgeMs rs)"

definition anyDue :: "int \<Rightarrow> crawler \<Rightarrow> bool" where
  "anyDue now k \<longleftrightarrow> dueIn (k_catalog k) now (cc_retryDelayMs (k_config k)) (k_retry k)
     \<or> dueIn (k_catalog k) now (cc_revisitIntervalMs (k_config k)) (k_revisit k)
     \<or> dueIn (k_catalog k) now (cc_silentRevisitIntervalMs (k_config k)) (k_revisitSilent k)"

definition hostBusy :: "catalog_entry \<Rightarrow> crawler \<Rightarrow> bool" where
  "hostBusy e k = (case nodeFor (entryFamily e) k of None \<Rightarrow> False | Some n \<Rightarrow> queuedFor (hostAddress e) (n_rpc n) \<ge> MaxQueuedPerHost)"

definition sendProbe :: "crawl_env \<Rightarrow> nat \<Rightarrow> bytes \<Rightarrow> bdict \<Rightarrow> crawl_call \<Rightarrow> crawler \<Rightarrow> crawler" where
  "sendProbe X s meth arguments call k =
     (let e = entryOf s k; (d, k1) = newCall call (k\<lparr>k_outstanding := k_outstanding k + 1\<rparr>)
      in withNode (entryFamily e)
           (probe (x_node X (entryFamily e)) (entryEndpoint (x_Q X) e) meth arguments d (cc_queryTimeoutMs (k_config k))) k1)"

definition crawlAsk :: "crawl_env \<Rightarrow> nat \<Rightarrow> bool \<Rightarrow> crawler \<Rightarrow> crawler" where
  "crawlAsk X s firstContact k =
     (let k1 = updEntry s (\<lambda>e. e\<lparr>ce_lastQueried := stamp (x_now X) (k_catalog k)\<rparr>) k;
          (rid, k2) = drawId X k1;
          target = (if firstContact then randomWithPrefix rid (ce_id (entryOf s k2)) NeighbourhoodBits False else rid);
          k3 = k2\<lparr>k_queries := k_queries k2 + 1\<rparr>
      in sendProbe X s (ascii ''find_node'') (emplace (ascii ''target'') (mkString (toBytes target)) []) (ScanCall (crawlRef s k3)) k3)"

fun dispatchDeferred :: "crawl_env \<Rightarrow> int \<Rightarrow> nat \<Rightarrow> int \<Rightarrow> crawler \<Rightarrow> int \<times> crawler" where
  "dispatchDeferred X budget 0 sent k = (sent, k)"
| "dispatchDeferred X budget (Suc left) sent k =
     (if sent \<ge> budget then (sent, k)
      else case k_deferred k of
        [] \<Rightarrow> (sent, k)
      | (r, firstContact) # rest \<Rightarrow>
          let k1 = k\<lparr>k_deferred := rest\<rparr>
          in if \<not> isCurrent r (k_catalog k1) then dispatchDeferred X budget left sent k1
             else if hostBusy (entryOf (the (ref_slot r)) k1) k1
               then dispatchDeferred X budget left sent (k1\<lparr>k_deferred := rest @ [(r, firstContact)]\<rparr>)
             else dispatchDeferred X budget left (sent + 1) (crawlAsk X (the (ref_slot r)) firstContact k1))"

text \<open>The choice of \<open>dispatchNext\<close>: the slot, whether it is a first contact, and the queues that are left.\<close>

definition takeNext :: "int \<Rightarrow> crawler \<Rightarrow> (nat \<times> bool) option \<times> crawler" where
  "takeNext now k =
     (let c = k_catalog k; cfg = k_config k; (s1, q1) = takeDue c now 0 (k_fresh k); k1 = k\<lparr>k_fresh := q1\<rparr>
      in case s1 of Some s \<Rightarrow> (Some (s, True), k1)
       | None \<Rightarrow> let (s2, q2) = takeDue c now (cc_retryDelayMs cfg) (k_retry k1); k2 = k1\<lparr>k_retry := q2\<rparr>
      in case s2 of Some s \<Rightarrow> (Some (s, False), k2)
       | None \<Rightarrow> let (s3, q3) = takeDue c now (cc_revisitIntervalMs cfg) (k_revisit k2); k3 = k2\<lparr>k_revisit := q3\<rparr>
      in case s3 of Some s \<Rightarrow> (Some (s, False), k3)
       | None \<Rightarrow> let (s4, q4) = takeDue c now (cc_silentRevisitIntervalMs cfg) (k_revisitSilent k3); k4 = k3\<lparr>k_revisitSilent := q4\<rparr>
      in (map_option (\<lambda>s. (s, False)) s4, k4))"

definition dispatchNext :: "crawl_env \<Rightarrow> crawler \<Rightarrow> bool \<times> crawler" where
  "dispatchNext X k =
     (let (next, k1) = takeNext (x_now X) k
      in case next of
           None \<Rightarrow> (False, k1)
         | Some (s, first) \<Rightarrow>
             let e = entryOf s k1
             in if ce_state e = Unroutable \<or> nodeFor (entryFamily e) k1 = None then (True, k1)
                else if hostBusy e k1 then (True, k1\<lparr>k_deferred := k_deferred k1 @ [(crawlRef s k1, first)]\<rparr>)
                else (True, crawlAsk X s first k1))"

text \<open>The loops of \<open>tick\<close> around \<open>dispatchNext\<close>, up to \<open>left\<close> more.\<close>

fun dispatchMany :: "crawl_env \<Rightarrow> nat \<Rightarrow> int \<Rightarrow> crawler \<Rightarrow> int \<times> crawler" where
  "dispatchMany X 0 sent k = (sent, k)"
| "dispatchMany X (Suc left) sent k =
     (if backlogged k then (sent, k)
      else let (more, k1) = dispatchNext X k
           in if more then dispatchMany X left (sent + 1) k1 else (sent, k1))"

section \<open>Feature checks\<close>

definition queueFeatures :: "catalog_ref \<Rightarrow> crawler \<Rightarrow> crawler" where
  "queueFeatures r k =
     (let s = the (ref_slot r); e = entryOf s k
      in if featuresDone e \<or> has FeatureQueued e then k
         else let k1 = updEntry s (setFlag FeatureQueued True) k in k1\<lparr>k_features := k_features k1 @ [r]\<rparr>)"

definition wantBoth :: bvalue where
  "wantBoth = mkList [mkString (ascii ''n4''), mkString (ascii ''n6'')]"

definition targetArguments :: "bytes \<Rightarrow> node_id \<Rightarrow> bdict" where
  "targetArguments key target = emplace (ascii ''want'') wantBoth (emplace key (mkString (toBytes target)) [])"

definition askFeature :: "crawl_env \<Rightarrow> nat \<Rightarrow> crawler \<Rightarrow> crawler" where
  "askFeature X s k =
     (let e = entryOf s k;
          check = (if \<not> has Tested51 e then Tested51 else if \<not> has Tested44 e then Tested44
                   else if \<not> has TestedPeers e then TestedPeers else TestedUnknown);
          meth = (if check = Tested51 then ascii ''sample_infohashes'' else if check = Tested44 then ascii ''get''
                  else if check = TestedPeers then ascii ''get_peers'' else UnknownMethod);
          (target, k1) = (if check = TestedUnknown then (nullId, k) else drawId X k);
          arguments = (if check = TestedUnknown then []
                       else targetArguments (if check = TestedPeers then ascii ''info_hash'' else ascii ''target'') target);
          k2 = k1\<lparr>k_featureQueries := k_featureQueries k1 + 1\<rparr>
      in sendProbe X s meth arguments (FeatureCall (crawlRef s k2) check) k2)"

fun dispatchFeatures :: "crawl_env \<Rightarrow> int \<Rightarrow> nat \<Rightarrow> int \<Rightarrow> crawler \<Rightarrow> int \<times> crawler" where
  "dispatchFeatures X budget 0 sent k = (sent, k)"
| "dispatchFeatures X budget (Suc left) sent k =
     (if sent \<ge> budget then (sent, k)
      else case k_features k of
        [] \<Rightarrow> (sent, k)
      | r # rest \<Rightarrow>
          let k1 = k\<lparr>k_features := rest\<rparr>; s = the (ref_slot r); e = entryOf s k1
          in if \<not> isCurrent r (k_catalog k1) then dispatchFeatures X budget left sent k1
             else if ce_state e \<noteq> Responsive \<or> featuresDone e \<or> nodeFor (entryFamily e) k1 = None
               then dispatchFeatures X budget left sent (updEntry s (setFlag FeatureQueued False) k1)
             else if hostBusy e k1 then dispatchFeatures X budget left sent (k1\<lparr>k_features := rest @ [r]\<rparr>)
             else dispatchFeatures X budget left (sent + 1) (askFeature X s k1))"

section \<open>Replies\<close>

fun bep42Code :: "Status \<Rightarrow> 8 word" where
  "bep42Code Unknown = 0"
| "bep42Code Compliant = 1"
| "bep42Code NonCompliant = 2"
| "bep42Code Exempt = 3"

definition noteResponse :: "rpc_reply \<Rightarrow> catalog_entry \<Rightarrow> catalog_entry" where
  "noteResponse reply e = setFlag SendsIp (reportedAddress (rr_message reply) \<noteq> None) (setFlag TestedIp True e)"

definition answered :: "qt_net \<Rightarrow> 32 word \<Rightarrow> rpc_reply \<Rightarrow> catalog_entry \<Rightarrow> catalog_entry" where
  "answered Q t reply e =
     (let e1 = e\<lparr>ce_failures := 0, ce_lastAnswered := t\<rparr>;
          e2 = (if ce_state e \<noteq> Responsive then setFlag Rejoined (ce_state e = Gone) (e1\<lparr>ce_answeringSince := t\<rparr>) else e1);
          e3 = setVersion (msg_version (rr_message reply)) (e2\<lparr>ce_rttMs := of_int (max 0 (min (rr_rttMs reply) (uint NoRtt - 1)))\<rparr>);
          e4 = (case senderId (rr_message reply) of
                  None \<Rightarrow> e3
                | Some i \<Rightarrow> e3\<lparr>ce_id := i, ce_bep42 := bep42Code (checkBep42 Q i (hostAddress e))\<rparr>)
      in if rr_status reply = ResponseReply then noteResponse reply e4 else e4)"

definition scanTimeout :: "catalog_ref \<Rightarrow> crawler \<Rightarrow> crawler" where
  "scanTimeout r k =
     (let s = the (ref_slot r);
          k1 = updEntry s (\<lambda>e. e\<lparr>ce_failures := (if ce_failures e < 255 then ce_failures e + 1 else ce_failures e)\<rparr>)
                 (k\<lparr>k_timeouts := k_timeouts k + 1\<rparr>);
          e = entryOf s k1
      in if uint (ce_failures e) \<ge> cc_failuresToGiveUp (k_config k1)
         then let k2 = k1\<lparr>k_catalog := setState s (if ce_lastAnswered e \<noteq> 0 then Gone else Silent) (k_catalog k1)\<rparr>
              in k2\<lparr>k_revisitSilent := k_revisitSilent k2 @ [r]\<rparr>
         else k1\<lparr>k_retry := k_retry k1 @ [r]\<rparr>)"

definition countReply :: "reply_status \<Rightarrow> crawler \<Rightarrow> crawler" where
  "countReply st k =
     (if st = Timeout then k\<lparr>k_timeouts := k_timeouts k + 1\<rparr>
      else if st = ResponseReply then k\<lparr>k_answers := k_answers k + 1\<rparr> else k\<lparr>k_errors := k_errors k + 1\<rparr>)"

definition scanAnswer :: "crawl_env \<Rightarrow> catalog_ref \<Rightarrow> rpc_reply \<Rightarrow> crawler \<Rightarrow> crawler" where
  "scanAnswer X r reply k =
     (let s = the (ref_slot r);
          k1 = updEntry s (answered (x_Q X) (stamp (x_now X) (k_catalog k)) reply) (countReply (rr_status reply) k);
          k2 = k1\<lparr>k_catalog := setState s Responsive (k_catalog k1)\<rparr>
      in queueFeatures r (k2\<lparr>k_revisit := k_revisit k2 @ [r]\<rparr>))"

definition crawlReply :: "crawl_env \<Rightarrow> catalog_ref \<Rightarrow> rpc_reply \<Rightarrow> crawler \<Rightarrow> crawler" where
  "crawlReply X r reply k =
     (let k1 = k\<lparr>k_outstanding := k_outstanding k - 1\<rparr>; current = isCurrent r (k_catalog k1)
      in if rr_status reply = Throttled
         then let k2 = k1\<lparr>k_notSent := k_notSent k1 + 1\<rparr> in if current then k2\<lparr>k_retry := k_retry k2 @ [r]\<rparr> else k2
         else let k2 = (if \<not> current then countReply (rr_status reply) k1
                        else if rr_status reply = Timeout then scanTimeout r k1 else scanAnswer X r reply k1)
              in if rr_status reply = ResponseReply then learnFrom X r reply k2 else k2)"

text \<open>What an answered check tells about the node.\<close>

definition featureFound :: "qt_net \<Rightarrow> entry_flag \<Rightarrow> rpc_reply \<Rightarrow> catalog_entry \<Rightarrow> catalog_entry" where
  "featureFound Q check reply e =
     (let m = rr_message reply; response = (rr_status reply = ResponseReply)
      in if check = Tested51 then
           let found = response \<and> (stringAt (body m) (ascii ''samples'') \<noteq> None \<or> integerAt (body m) (ascii ''num'') \<noteq> None);
               e1 = setFlag Has51 found e
           in if found then setSampleCount (case integerAt (body m) (ascii ''num'') of None \<Rightarrow> 0 | Some n \<Rightarrow> n) e1 else e1
         else if check = Tested44 then setFlag Has44 (response \<and> stringAt (body m) (ascii ''token'') \<noteq> None) e
         else if check = TestedPeers then
           (if response \<and> decodePeers Q (listAt (body m) (ascii ''values'')) (entryFamily e) \<noteq> [] then setFlag InventsPeers True e else e)
         else let is204 = (\<not> response \<and> errorCode m = MethodUnknown)
              in setFlag AnswersError (\<not> is204 \<and> \<not> response) (setFlag AnswersOther (\<not> is204) (setFlag Answers204 is204 e)))"

definition featureAnswered :: "qt_net \<Rightarrow> entry_flag \<Rightarrow> rpc_reply \<Rightarrow> catalog_entry \<Rightarrow> catalog_entry" where
  "featureAnswered Q check reply e =
     (let e1 = setFeatureTries 0 (setFlag check True e);
          e2 = (if rr_status reply = ResponseReply then noteResponse reply e1 else e1);
          other = (if isIPv4Entry e2 then ascii ''nodes6'' else ascii ''nodes'');
          e3 = (if rr_status reply = ResponseReply \<and> check \<noteq> TestedUnknown
                then let e' = setFlag Tested32 True e2
                     in setFlag Has32 (stringAt (body (rr_message reply)) other \<noteq> None \<or> has Has32 e') e'
                else e2)
      in featureFound Q check reply e3)"

definition featureTimedOut :: "entry_flag \<Rightarrow> catalog_entry \<Rightarrow> catalog_entry" where
  "featureTimedOut check e =
     (let e1 = setFeatureTries (featureTries e + 1) e
      in if featureTries e1 \<ge> FeatureTries then setFeatureTries 0 (setFlag check True e1) else e1)"

definition onFeatureReply :: "crawl_env \<Rightarrow> catalog_ref \<Rightarrow> entry_flag \<Rightarrow> rpc_reply \<Rightarrow> crawler \<Rightarrow> crawler" where
  "onFeatureReply X r check reply k =
     (let k1 = k\<lparr>k_outstanding := k_outstanding k - 1\<rparr>; s = the (ref_slot r)
      in if \<not> isCurrent r (k_catalog k1) then k1
         else let k2 = (case rr_status reply of
                          Throttled \<Rightarrow> k1
                        | Timeout \<Rightarrow> updEntry s (featureTimedOut check) k1
                        | _ \<Rightarrow> updEntry s (featureAnswered (x_Q X) check reply) k1);
                  k3 = (if featuresDone (entryOf s k2) then updEntry s (setFlag FeatureQueued False) k2
                        else k2\<lparr>k_features := k_features k2 @ [r]\<rparr>)
              in if rr_status reply = ResponseReply then learnFrom X r reply k3 else k3)"

text \<open>The callbacks: the report of a node runs the callback with its number, once.\<close>

definition runCall :: "crawl_env \<Rightarrow> report \<Rightarrow> crawler \<Rightarrow> crawler" where
  "runCall X rep k =
     (case rep of
        ProbeReport d reply \<Rightarrow>
          (let k1 = k\<lparr>k_calls := AList.delete d (k_calls k)\<rparr>
           in case map_of (k_calls k) d of
                Some (ScanCall r) \<Rightarrow> crawlReply X r reply k1
              | Some (FeatureCall r check) \<Rightarrow> onFeatureReply X r check reply k1
              | _ \<Rightarrow> k)
      | LookupReport d result \<Rightarrow>
          (let k1 = k\<lparr>k_calls := AList.delete d (k_calls k)\<rparr>
           in case map_of (k_calls k) d of
                Some (WidenCall fam) \<Rightarrow> recordLookup X result (k1\<lparr>k_widening := (k_widening k1)(fam := False)\<rparr>)
              | Some (EstimateCall fam) \<Rightarrow> recordLookup X result (k1\<lparr>k_estimating := (k_estimating k1)(fam := k_estimating k1 fam - 1)\<rparr>)
              | _ \<Rightarrow> k)
      | WriteReport d accepted attempted \<Rightarrow> k)"

section \<open>The timer\<close>

definition pace :: "crawl_env \<Rightarrow> crawler \<Rightarrow> crawler" where
  "pace X k =
     (let failures = crawlSendFailures k; b = k_batch k
      in k\<lparr>k_batch := (if x_elapsed X > CrawlTickMs * 3 \<or> failures > k_lastSendFailures k then max MinBatch (b div 2)
                       else if k_lastTickFull k then min MaxBatch (b + b div 4 + 1) else b),
           k_lastSendFailures := failures\<rparr>)"

definition dispatchAll :: "crawl_env \<Rightarrow> crawler \<Rightarrow> crawler" where
  "dispatchAll X k =
     (let b = k_batch k; scanShare = b - max 1 (b div FeatureShareDivisor);
          (sent1, k1) = (if backlogged k then (0, k) else dispatchDeferred X scanShare (min (length (k_deferred k)) DeferredScanPerTick) 0 k);
          (sent2, k2) = dispatchMany X (nat (scanShare - sent1)) sent1 k1;
          (more, k3) = (if backlogged k2 then (0, k2)
                        else dispatchFeatures X (b - sent2) (min (length (k_features k2)) DeferredScanPerTick) 0 k2);
          sent3 = sent2 + more;
          (sent4, k4) = dispatchMany X (nat (b - sent3)) sent3 k3
      in k4\<lparr>k_lastTickFull := sent4 \<ge> b\<rparr>)"

definition crawlTick :: "crawl_env \<Rightarrow> crawler \<Rightarrow> crawler" where
  "crawlTick X k =
     (let k1 = pace X k;
          k2 = k1\<lparr>k_catalog := snd (trim (x_H X) (x_trim X) TrimPerTick (k_catalog k1))\<rparr>;
          k3 = (if k_fresh k2 = [] \<and> k_deferred k2 = [] \<and> k_outstanding k2 = 0 \<and> x_now X - k_lastSeedMs k2 \<ge> SeedIntervalMs
                then widen X (crawlSeed X k2) else k2);
          k4 = dispatchAll X k3
      in if cc_sizeEstimateIntervalMs (k_config k4) > 0 \<and> x_now X \<ge> k_nextEstimateMs k4
         then estimateSize X (k4\<lparr>k_nextEstimateMs := x_now X + cc_sizeEstimateIntervalMs (k_config k4)\<rparr>) else k4)"

definition setMonitoring :: "crawl_env \<Rightarrow> bool \<Rightarrow> crawler \<Rightarrow> crawler" where
  "setMonitoring X on k =
     (if on = k_monitoring k then k
      else if on then crawlSeed X (k\<lparr>k_monitoring := True, k_batch := 16, k_lastSendFailures := crawlSendFailures k\<rparr>)
      else k\<lparr>k_monitoring := False\<rparr>)"

datatype crawl_phase = Off | WaitingForNodes | Discovering | Rechecking | UpToDate

definition crawlPhase :: "int \<Rightarrow> crawler \<Rightarrow> crawl_phase" where
  "crawlPhase now k =
     (if \<not> k_monitoring k then Off
      else if k_fresh k \<noteq> [] \<or> k_deferred k \<noteq> [] \<or> nc_counts (k_catalog k) NewEntry > 0 then Discovering
      else if k_outstanding k > 0 \<or> k_features k \<noteq> [] \<or> anyDue now k then Rechecking
      else if nc_size (k_catalog k) = 0 then WaitingForNodes else UpToDate)"

end
