(* ===== verification/CrawlerCorrect.thy ===== *)
theory CrawlerCorrect
  imports Crawler NodeCorrect
begin

text \<open>
  What the scan promises: no node of the catalogue is ever forgotten, and the numbers the crawler keeps beside its queues
  are exact. \<open>planned\<close> is the set of references a node can wait in for its next query, \<open>due\<close> the set of those the
  scan owes one; \<open>unplanned\<close> is their difference, and each operation is shown not to add to it.
\<close>

section \<open>What waits and what is owed\<close>

definition refSet :: "catalog \<Rightarrow> nat set \<Rightarrow> catalog_ref set" where
  "refSet c S = (\<lambda>s. refTo s c) ` S"

definition dueSlots :: "crawler \<Rightarrow> nat set" where
  "dueSlots k = {s \<in> usedSlots (nc_entries (k_catalog k)). ce_state (entryOf s k) \<noteq> Unroutable \<and> nodeFor (entryFamily (entryOf s k)) k \<noteq> None}"

definition flaggedSlots :: "crawler \<Rightarrow> nat set" where
  "flaggedSlots k = {s \<in> usedSlots (nc_entries (k_catalog k)). has FeatureQueued (entryOf s k)}"

definition due :: "crawler \<Rightarrow> catalog_ref set" where
  "due k = refSet (k_catalog k) (dueSlots k)"

definition flagged :: "crawler \<Rightarrow> catalog_ref set" where
  "flagged k = refSet (k_catalog k) (flaggedSlots k)"

definition calling :: "(nat \<times> crawl_call) list \<Rightarrow> catalog_ref set" where
  "calling calls = {r. ScanCall r \<in> snd ` set calls}"

definition checkCalling :: "(nat \<times> crawl_call) list \<Rightarrow> catalog_ref set" where
  "checkCalling calls = {r. \<exists>f. FeatureCall r f \<in> snd ` set calls}"

definition planned :: "crawler \<Rightarrow> catalog_ref set" where
  "planned k = set (k_fresh k) \<union> set (k_retry k) \<union> set (k_revisit k) \<union> set (k_revisitSilent k) \<union> fst ` set (k_deferred k) \<union> calling (k_calls k)"

definition inCheck :: "crawler \<Rightarrow> catalog_ref set" where
  "inCheck k = set (k_features k) \<union> checkCalling (k_calls k)"

definition unplanned :: "crawler \<Rightarrow> catalog_ref set" where
  "unplanned k = due k - planned k"

definition notChecked :: "crawler \<Rightarrow> catalog_ref set" where
  "notChecked k = flagged k - inCheck k"

definition keeps :: "crawler \<Rightarrow> crawler \<Rightarrow> bool" where
  "keeps k k' \<longleftrightarrow> unplanned k' \<subseteq> unplanned k \<and> notChecked k' \<subseteq> notChecked k"

lemma keeps_refl [simp]: "keeps k k"
  by (simp add: keeps_def)

lemma keeps_trans: "keeps k k1 \<Longrightarrow> keeps k1 k2 \<Longrightarrow> keeps k k2"
  by (auto simp: keeps_def)

lemma keeps_fold: "(\<And>x k. keeps k (f x k)) \<Longrightarrow> keeps k (fold f xs k)"
  by (induction xs arbitrary: k) (auto intro: keeps_trans)

lemma calling_simps [simp]:
  "calling [] = {}" "calling ((d, ScanCall r) # calls) = insert r (calling calls)" "calling ((d, FeatureCall r f) # calls) = calling calls"
  "calling ((d, WidenCall fam) # calls) = calling calls" "calling ((d, EstimateCall fam) # calls) = calling calls"
  by (auto simp: calling_def)

lemma checkCalling_simps [simp]:
  "checkCalling [] = {}" "checkCalling ((d, ScanCall r) # calls) = checkCalling calls"
  "checkCalling ((d, FeatureCall r f) # calls) = insert r (checkCalling calls)"
  "checkCalling ((d, WidenCall fam) # calls) = checkCalling calls" "checkCalling ((d, EstimateCall fam) # calls) = checkCalling calls"
  by (auto simp: checkCalling_def)

lemma refTo_eq [simp]: "refTo s c = refTo t c' \<longleftrightarrow> s = t \<and> ce_generation (nc_entries c ! s) = ce_generation (nc_entries c' ! t)"
  by (simp add: refTo_def)

lemma due_current: "r \<in> due k \<Longrightarrow> isCurrent r (k_catalog k)"
  by (auto simp: due_def refSet_def dueSlots_def usedSlots_def isCurrent_def refTo_def)

lemma flagged_current: "r \<in> flagged k \<Longrightarrow> isCurrent r (k_catalog k)"
  by (auto simp: flagged_def refSet_def flaggedSlots_def usedSlots_def isCurrent_def refTo_def)

lemma current_ref: "isCurrent r c \<Longrightarrow> refTo (the (ref_slot r)) c = r \<and> the (ref_slot r) \<in> usedSlots (nc_entries c)"
  by (cases r) (auto simp: isCurrent_def refTo_def usedSlots_def split: option.splits)

lemma current_refTo: "isCurrent (refTo s c) c \<longleftrightarrow> s \<in> usedSlots (nc_entries c)"
  by (simp add: isCurrent_def refTo_def usedSlots_def)

section \<open>Changes of the catalogue\<close>

text \<open>The slots in use afterwards were in use before with the same generation and address, apart from those in both sets;
  outside the first set none became routable, outside the second none became flagged.\<close>

definition refsKept :: "nat set \<Rightarrow> nat set \<Rightarrow> catalog \<Rightarrow> catalog \<Rightarrow> bool" where
  "refsKept A B c c' \<longleftrightarrow> (\<forall>s \<in> usedSlots (nc_entries c').
     (s \<notin> A \<inter> B \<longrightarrow> s \<in> usedSlots (nc_entries c) \<and> ce_generation (nc_entries c' ! s) = ce_generation (nc_entries c ! s) \<and>
        ce_address (nc_entries c' ! s) = ce_address (nc_entries c ! s)) \<and>
     (s \<notin> A \<longrightarrow> ce_state (nc_entries c ! s) = Unroutable \<longrightarrow> ce_state (nc_entries c' ! s) = Unroutable) \<and>
     (s \<notin> B \<longrightarrow> has FeatureQueued (nc_entries c' ! s) \<longrightarrow> has FeatureQueued (nc_entries c ! s)))"

lemma refsKept_refl [simp]: "refsKept A B c c"
  by (simp add: refsKept_def)

lemma refsKept_same: "nc_entries c' = nc_entries c \<Longrightarrow> refsKept A B c c'"
  by (simp add: refsKept_def)

lemma refsKept_trans: "refsKept A B c c1 \<Longrightarrow> refsKept A B c1 c2 \<Longrightarrow> refsKept A B c c2"
  unfolding refsKept_def by (metis (no_types, lifting) Int_iff)

lemma refsKept_mono: "refsKept A B c c1 \<Longrightarrow> A \<subseteq> A' \<Longrightarrow> B \<subseteq> B' \<Longrightarrow> refsKept A' B' c c1"
  unfolding refsKept_def by blast

lemma family_cong: "ce_address e' = ce_address e \<Longrightarrow> entryFamily e' = entryFamily e"
  by (simp add: entryFamily_def isIPv4Entry_def)

lemma refTo_cong: "ce_generation (nc_entries c' ! s) = ce_generation (nc_entries c ! s) \<Longrightarrow> refTo s c' = refTo s c"
  by (simp add: refTo_def)

text \<open>The rule the operations use: what is newly owed is planned, and what was planned still is unless it is no longer owed.\<close>

lemma due_kept:
  assumes kept: "refsKept A B (k_catalog k) (k_catalog k')" and nodes: "\<And>fam. nodeFor fam k' = None \<longleftrightarrow> nodeFor fam k = None"
    and r: "r \<in> due k'" "r \<notin> refSet (k_catalog k') A"
  shows "r \<in> due k"
proof -
  obtain s where s: "r = refTo s (k_catalog k')" "s \<in> dueSlots k'" using r(1) by (auto simp: due_def refSet_def)
  then have sA: "s \<notin> A" using r(2) by (auto simp: refSet_def)
  have u: "s \<in> usedSlots (nc_entries (k_catalog k'))" using s(2) by (simp add: dueSlots_def)
  with kept sA have *: "s \<in> usedSlots (nc_entries (k_catalog k))" "ce_generation (entryOf s k') = ce_generation (entryOf s k)"
    "ce_address (entryOf s k') = ce_address (entryOf s k)" "ce_state (entryOf s k) = Unroutable \<longrightarrow> ce_state (entryOf s k') = Unroutable"
    by (auto simp: refsKept_def entryOf_def)
  with s(2) nodes have "s \<in> dueSlots k" by (auto simp: dueSlots_def dest: family_cong)
  moreover have "r = refTo s (k_catalog k)" using s(1) *(2) by (simp add: refTo_def entryOf_def)
  ultimately show ?thesis by (auto simp: due_def refSet_def)
qed

lemma flagged_kept:
  assumes kept: "refsKept A B (k_catalog k) (k_catalog k')" and r: "r \<in> flagged k'" "r \<notin> refSet (k_catalog k') B"
  shows "r \<in> flagged k"
proof -
  obtain s where s: "r = refTo s (k_catalog k')" "s \<in> flaggedSlots k'" using r(1) by (auto simp: flagged_def refSet_def)
  then have sB: "s \<notin> B" using r(2) by (auto simp: refSet_def)
  have u: "s \<in> usedSlots (nc_entries (k_catalog k'))" using s(2) by (simp add: flaggedSlots_def)
  with kept sB s(2) have *: "s \<in> usedSlots (nc_entries (k_catalog k))" "ce_generation (entryOf s k') = ce_generation (entryOf s k)"
    "has FeatureQueued (entryOf s k)"
    by (auto simp: refsKept_def entryOf_def flaggedSlots_def)
  then have "s \<in> flaggedSlots k" by (simp add: flaggedSlots_def)
  moreover have "r = refTo s (k_catalog k)" using s(1) *(2) by (simp add: refTo_def entryOf_def)
  ultimately show ?thesis by (auto simp: flagged_def refSet_def)
qed

lemma unplanned_kept:
  assumes "refsKept A B (k_catalog k) (k_catalog k')" "\<And>fam. nodeFor fam k' = None \<longleftrightarrow> nodeFor fam k = None"
    "refSet (k_catalog k') A \<inter> due k' \<subseteq> planned k'" "planned k \<inter> due k' \<subseteq> planned k' \<union> R"
  shows "unplanned k' \<subseteq> (unplanned k \<union> R) - planned k'"
  using assms(3,4) due_kept [OF assms(1,2)] by (auto simp: unplanned_def)

lemma notChecked_kept:
  assumes "refsKept A B (k_catalog k) (k_catalog k')"
    "refSet (k_catalog k') B \<inter> flagged k' \<subseteq> inCheck k'" "inCheck k \<inter> flagged k' \<subseteq> inCheck k' \<union> R"
  shows "notChecked k' \<subseteq> (notChecked k \<union> R) - inCheck k'"
  using assms(2,3) flagged_kept [OF assms(1)] by (auto simp: notChecked_def)

lemma keeps_rule:
  assumes "refsKept A B (k_catalog k) (k_catalog k')" "\<And>fam. nodeFor fam k' = None \<longleftrightarrow> nodeFor fam k = None"
    "refSet (k_catalog k') A \<inter> due k' \<subseteq> planned k'" "planned k \<inter> due k' \<subseteq> planned k'"
    "refSet (k_catalog k') B \<inter> flagged k' \<subseteq> inCheck k'" "inCheck k \<inter> flagged k' \<subseteq> inCheck k'"
  shows "keeps k k'"
  using unplanned_kept [OF assms(1-3), of "{}"] notChecked_kept [OF assms(1,5), of "{}"] assms(4,6) by (auto simp: keeps_def)

lemma refSet_empty [simp]: "refSet c {} = {}"
  by (simp add: refSet_def)


lemma refsKept_upd:
  assumes es: "nc_entries c' = (nc_entries c)[s := e']"
    and same: "s \<notin> A \<inter> B \<Longrightarrow> ce_inUse e' \<Longrightarrow> ce_inUse (nc_entries c ! s) \<and> ce_generation e' = ce_generation (nc_entries c ! s) \<and> ce_address e' = ce_address (nc_entries c ! s)"
    and route: "s \<notin> A \<Longrightarrow> ce_inUse e' \<Longrightarrow> ce_state (nc_entries c ! s) = Unroutable \<Longrightarrow> ce_state e' = Unroutable"
    and flag: "s \<notin> B \<Longrightarrow> ce_inUse e' \<Longrightarrow> has FeatureQueued e' \<Longrightarrow> has FeatureQueued (nc_entries c ! s)"
  shows "refsKept A B c c'"
  unfolding refsKept_def
proof
  fix x assume "x \<in> usedSlots (nc_entries c')"
  then show "(x \<notin> A \<inter> B \<longrightarrow> x \<in> usedSlots (nc_entries c) \<and> ce_generation (nc_entries c' ! x) = ce_generation (nc_entries c ! x) \<and>
        ce_address (nc_entries c' ! x) = ce_address (nc_entries c ! x)) \<and>
     (x \<notin> A \<longrightarrow> ce_state (nc_entries c ! x) = Unroutable \<longrightarrow> ce_state (nc_entries c' ! x) = Unroutable) \<and>
     (x \<notin> B \<longrightarrow> has FeatureQueued (nc_entries c' ! x) \<longrightarrow> has FeatureQueued (nc_entries c ! x))"
    using same route flag by (cases "x = s") (auto simp: es usedSlots_def)
qed

lemma eraseIndex_entries [simp]: "nc_entries (eraseIndex H s c) = nc_entries c"
  by (auto simp: eraseIndex_def split: option.splits)

lemma growTable_entries [simp]: "nc_entries (growTable H c) = nc_entries c"
  by (simp add: growTable_def Let_def)

lemma release_kept: "refsKept A B c (release H s c)"
  by (rule refsKept_upd [where s = s and e' = "(nc_entries c ! s)\<lparr>ce_inUse := False\<rparr>"]) (simp_all add: release_def Let_def)

lemma evictOne_kept: "refsKept A B c (evictOne H rnd c)"
proof (cases "pickVictim rnd c")
  case (Some v)
  show ?thesis by (rule refsKept_trans [OF release_kept [of A B c H v] refsKept_same]) (simp add: evictOne_def Some Let_def)
qed (simp add: evictOne_def)

lemma trimLoop_kept: "refsKept A B c (snd (trimLoop H rnds n evicted c))"
  by (induction n arbitrary: evicted c) (auto intro: refsKept_trans [OF evictOne_kept])

lemma trim_kept: "refsKept A B c (snd (trim H rnds n c))"
  by (simp add: trim_def trimLoop_kept)

lemma allocate_kept: "allocate c = (s, c') \<Longrightarrow> refsKept A B c c'"
  by (auto simp: allocate_def refsKept_def usedSlots_def nth_append emptyEntry_def split: if_splits)

lemma setState_entries:
  "nc_entries (setState s st c) = (nc_entries c)[s := (nc_entries c ! s)\<lparr>ce_state := st\<rparr>]"
proof (cases "ce_state (nc_entries c ! s) = st")
  case True
  then have "(nc_entries c)[s := (nc_entries c ! s)\<lparr>ce_state := st\<rparr>] = nc_entries c"
    by (cases "s < length (nc_entries c)") (auto simp: list_update_beyond list_update_same_conv)
  with True show ?thesis by (simp add: setState_def Let_def)
qed (simp add: setState_def Let_def)

lemma setState_kept: "s \<in> A \<or> st = Unroutable \<Longrightarrow> refsKept A B c (setState s st c)"
  by (rule refsKept_upd [OF setState_entries]) (auto simp: has_def)

text \<open>Adding an address touches one slot, whose entry is new and not flagged.\<close>

lemma not_flagged_new [simp]: "\<not> has f (newEntry key p g t)"
  by (simp add: has_def newEntry_def emptyEntry_def)

lemma upsert_kept:
  assumes "upsert Q H rnd e now c = (slot, added, c')"
  shows "if added then \<exists>s. slot = Some s \<and> refsKept {s} {s} c c' \<and> (s \<in> usedSlots (nc_entries c') \<longrightarrow> \<not> has FeatureQueued (nc_entries c' ! s))
     else c' = c"
proof (cases "findIndex H (keyOfEndpoint Q e) c = None \<and> 0 < nc_cap c")
  case True
  define c1 where "c1 = (if nc_size c \<ge> nc_cap c then evictOne H rnd c else c)"
  define c2 where "c2 = (if nat (nc_size c1 + 1) * 2 > length (nc_table c1) then growTable H c1 else c1)"
  obtain s c3 where a: "allocate c2 = (s, c3)" by fastforce
  let ?e = "newEntry (keyOfEndpoint Q e) (port e) (nc_nextGeneration c3) (stamp now c3)"
  have u: "slot = Some s" "added" "nc_entries c' = (nc_entries c3)[s := ?e]"
    using assms True by (auto simp: upsert_def Let_def a c1_def [symmetric] c2_def [symmetric])
  have "refsKept {s} {s} c c3"
    by (rule refsKept_trans [of _ _ c c1 c3, OF _ refsKept_trans [of _ _ c1 c2 c3, OF _ allocate_kept [OF a]]])
      (auto simp: c1_def c2_def evictOne_kept intro: refsKept_same)
  moreover have "refsKept {s} {s} c3 c'" by (rule refsKept_upd [OF u(3)]) auto
  ultimately show ?thesis using u by (auto intro: refsKept_trans simp: usedSlots_def)
qed (use assms in \<open>auto simp: upsert_def Let_def split: option.splits\<close>)

section \<open>Learning keeps everything planned\<close>

lemma updEntry_simps [simp]:
  "k_fresh (updEntry s f k) = k_fresh k" "k_retry (updEntry s f k) = k_retry k" "k_revisit (updEntry s f k) = k_revisit k"
  "k_revisitSilent (updEntry s f k) = k_revisitSilent k" "k_deferred (updEntry s f k) = k_deferred k" "k_features (updEntry s f k) = k_features k"
  "k_calls (updEntry s f k) = k_calls k" "k_v4 (updEntry s f k) = k_v4 k" "k_v6 (updEntry s f k) = k_v6 k"
  "k_nextCall (updEntry s f k) = k_nextCall k" "k_outstanding (updEntry s f k) = k_outstanding k"
  "k_widening (updEntry s f k) = k_widening k" "k_estimating (updEntry s f k) = k_estimating k" "k_batch (updEntry s f k) = k_batch k"
  "k_config (updEntry s f k) = k_config k"
  "nodeFor fam (updEntry s f k) = nodeFor fam k" "planned (updEntry s f k) = planned k" "inCheck (updEntry s f k) = inCheck k"
  by (simp_all add: updEntry_def nodeFor_def planned_def inCheck_def)

lemma updEntry_entries: "nc_entries (k_catalog (updEntry s f k)) = (nc_entries (k_catalog k))[s := f (entryOf s k)]"
  by (simp add: updEntry_def)

text \<open>A change of an entry that moves none of what the plan depends on.\<close>

definition plainEdit :: "(catalog_entry \<Rightarrow> catalog_entry) \<Rightarrow> bool" where
  "plainEdit f \<longleftrightarrow> (\<forall>e. ce_inUse (f e) = ce_inUse e \<and> ce_generation (f e) = ce_generation e \<and> ce_address (f e) = ce_address e \<and>
     ce_state (f e) = ce_state e \<and> (has FeatureQueued (f e) \<longrightarrow> has FeatureQueued e))"

lemma updEntry_kept: "plainEdit f \<Longrightarrow> refsKept A B (k_catalog k) (k_catalog (updEntry s f k))"
  by (rule refsKept_upd [OF updEntry_entries]) (simp_all add: plainEdit_def entryOf_def)

lemma updEntry_keeps: "plainEdit f \<Longrightarrow> keeps k (updEntry s f k)"
  by (rule keeps_rule [of "{}" "{}"]) (simp_all add: updEntry_kept)

lemma has_setFlag [simp]: "has g (setFlag f b e) = (if g = f then b else has g e)"
  using catalog_flags_independent by blast

lemma setFlag_simps [simp]:
  "ce_inUse (setFlag f b e) = ce_inUse e" "ce_generation (setFlag f b e) = ce_generation e" "ce_address (setFlag f b e) = ce_address e"
  "ce_state (setFlag f b e) = ce_state e"
  by (simp_all add: setFlag_def)

lemma has_cong: "ce_flags e' = ce_flags e \<Longrightarrow> has f e' = has f e"
  by (simp add: has_def)

lemma has_updates [simp]:
  "has f (e\<lparr>ce_lastListed := t\<rparr>) = has f e" "has f (e\<lparr>ce_sightings := n\<rparr>) = has f e" "has f (e\<lparr>ce_id := i\<rparr>) = has f e"
  "has f (e\<lparr>ce_failures := b\<rparr>) = has f e" "has f (e\<lparr>ce_lastQueried := t\<rparr>) = has f e" "has f (e\<lparr>ce_selfListShare := b\<rparr>) = has f e"
  "has f (e\<lparr>ce_state := st\<rparr>) = has f e" "has f (e\<lparr>ce_lastAnswered := t\<rparr>) = has f e" "has f (e\<lparr>ce_answeringSince := t\<rparr>) = has f e"
  "has f (e\<lparr>ce_rttMs := r\<rparr>) = has f e" "has f (e\<lparr>ce_bep42 := b\<rparr>) = has f e" "has f (setVersion v e) = has f e"
  by (simp_all add: has_def setVersion_def)

lemma has_other_fields [simp]: "has f (setFeatureTries n e) = has f e" "has f (setSampleCount n e) = has f e"
  using catalog_flags_independent by blast+

lemma plainEdit_simps [simp]:
  "plainEdit (seenListed t)" "plainEdit (\<lambda>e. e\<lparr>ce_id := i\<rparr>)" "plainEdit (\<lambda>e. e\<lparr>ce_failures := fl\<rparr>)" "plainEdit (\<lambda>e. e\<lparr>ce_lastQueried := t\<rparr>)"
  "plainEdit (setFlag InventsPeers b)" "plainEdit (noteListing Q al listed)"
  "plainEdit (\<lambda>e. e\<lparr>ce_failures := (if ce_failures e < 255 then ce_failures e + 1 else ce_failures e)\<rparr>)"
  "plainEdit (setFlag FeatureQueued False)"
  by (simp_all add: plainEdit_def seenListed_def noteListing_def Let_def)

lemma catalog_simps [simp]:
  "nodeFor fam (k\<lparr>k_catalog := c\<rparr>) = nodeFor fam k" "planned (k\<lparr>k_catalog := c\<rparr>) = planned k" "inCheck (k\<lparr>k_catalog := c\<rparr>) = inCheck k"
  by (simp_all add: nodeFor_def planned_def inCheck_def)

lemma keeps_same:
  "k_catalog k' = k_catalog k \<Longrightarrow> (\<And>fam. nodeFor fam k' = None \<longleftrightarrow> nodeFor fam k = None) \<Longrightarrow> planned k \<subseteq> planned k' \<Longrightarrow> inCheck k \<subseteq> inCheck k' \<Longrightarrow>
   keeps k k'"
  by (rule keeps_rule [of "{}" "{}"]) auto

text \<open>Fields the plan does not depend on.\<close>

lemma aside_simps [simp]:
  "planned (k\<lparr>k_draws := a\<rparr>) = planned k" "planned (k\<lparr>k_queries := z\<rparr>) = planned k" "planned (k\<lparr>k_outstanding := z\<rparr>) = planned k"
  "planned (k\<lparr>k_timeouts := z\<rparr>) = planned k" "planned (k\<lparr>k_answers := z\<rparr>) = planned k" "planned (k\<lparr>k_errors := z\<rparr>) = planned k"
  "planned (k\<lparr>k_notSent := z\<rparr>) = planned k" "planned (k\<lparr>k_featureQueries := z\<rparr>) = planned k" "planned (k\<lparr>k_widening := w\<rparr>) = planned k"
  "planned (k\<lparr>k_estimating := en\<rparr>) = planned k" "planned (k\<lparr>k_randomLookups := z\<rparr>) = planned k" "planned (k\<lparr>k_lookupsWithInventedPeers := z\<rparr>) = planned k"
  "planned (k\<lparr>k_batch := z\<rparr>) = planned k" "planned (k\<lparr>k_lastSendFailures := z\<rparr>) = planned k" "planned (k\<lparr>k_lastTickFull := b\<rparr>) = planned k"
  "planned (k\<lparr>k_lastSeedMs := z\<rparr>) = planned k" "planned (k\<lparr>k_nextEstimateMs := z\<rparr>) = planned k" "planned (k\<lparr>k_monitoring := b\<rparr>) = planned k"
  "planned (k\<lparr>k_nextCall := a\<rparr>) = planned k" "planned (k\<lparr>k_v4 := n\<rparr>) = planned k" "planned (k\<lparr>k_v6 := n\<rparr>) = planned k" "planned (k\<lparr>k_features := rs\<rparr>) = planned k"
  "inCheck (k\<lparr>k_draws := a\<rparr>) = inCheck k" "inCheck (k\<lparr>k_queries := z\<rparr>) = inCheck k" "inCheck (k\<lparr>k_outstanding := z\<rparr>) = inCheck k"
  "inCheck (k\<lparr>k_timeouts := z\<rparr>) = inCheck k" "inCheck (k\<lparr>k_answers := z\<rparr>) = inCheck k" "inCheck (k\<lparr>k_errors := z\<rparr>) = inCheck k"
  "inCheck (k\<lparr>k_notSent := z\<rparr>) = inCheck k" "inCheck (k\<lparr>k_featureQueries := z\<rparr>) = inCheck k" "inCheck (k\<lparr>k_widening := w\<rparr>) = inCheck k"
  "inCheck (k\<lparr>k_estimating := en\<rparr>) = inCheck k" "inCheck (k\<lparr>k_randomLookups := z\<rparr>) = inCheck k" "inCheck (k\<lparr>k_lookupsWithInventedPeers := z\<rparr>) = inCheck k"
  "inCheck (k\<lparr>k_batch := z\<rparr>) = inCheck k" "inCheck (k\<lparr>k_lastSendFailures := z\<rparr>) = inCheck k" "inCheck (k\<lparr>k_lastTickFull := b\<rparr>) = inCheck k"
  "inCheck (k\<lparr>k_lastSeedMs := z\<rparr>) = inCheck k" "inCheck (k\<lparr>k_nextEstimateMs := z\<rparr>) = inCheck k" "inCheck (k\<lparr>k_monitoring := b\<rparr>) = inCheck k"
  "inCheck (k\<lparr>k_nextCall := a\<rparr>) = inCheck k" "inCheck (k\<lparr>k_v4 := n\<rparr>) = inCheck k" "inCheck (k\<lparr>k_v6 := n\<rparr>) = inCheck k" "inCheck (k\<lparr>k_fresh := rs\<rparr>) = inCheck k"
  "inCheck (k\<lparr>k_retry := rs\<rparr>) = inCheck k" "inCheck (k\<lparr>k_revisit := rs\<rparr>) = inCheck k" "inCheck (k\<lparr>k_revisitSilent := rs\<rparr>) = inCheck k"
  "inCheck (k\<lparr>k_deferred := ds\<rparr>) = inCheck k"
  by (simp_all add: planned_def inCheck_def)

lemma withNode_simps [simp]:
  "k_catalog (withNode fam f k) = k_catalog k" "nodeFor fam' (withNode fam f k) = None \<longleftrightarrow> nodeFor fam' k = None"
  "planned (withNode fam f k) = planned k" "inCheck (withNode fam f k) = inCheck k"
  by (simp_all add: withNode_def nodeFor_def)

lemma withNode_keeps: "keeps k (withNode fam f k)"
  by (rule keeps_same) simp_all

lemma learnNew_keeps:
  assumes kept: "refsKept {s} {s} c (k_catalog k)" and flag: "s \<in> usedSlots (nc_entries (k_catalog k)) \<Longrightarrow> \<not> has FeatureQueued (entryOf s k)"
    and k0: "k0 = k\<lparr>k_catalog := c\<rparr>"
  shows "keeps k0 (learnNew X cn s k)"
proof -
  let ?k1 = "updEntry s (\<lambda>e. e\<lparr>ce_id := cn_id cn\<rparr>) k"
  have k1: "refsKept {s} {s} c (k_catalog ?k1)" by (rule refsKept_trans [OF kept updEntry_kept]) simp
  have f1: "\<not> has FeatureQueued (entryOf s ?k1)" if "s \<in> usedSlots (nc_entries (k_catalog ?k1))"
    using flag that by (auto simp: updEntry_def entryOf_def usedSlots_def nth_list_update)
  show ?thesis
  proof (cases "addressProblem (x_Q X) (cn_endpoint cn) (cc_allowLocal (k_config k)) = NoProblem")
    case True
    have l: "learnNew X cn s k = ?k1\<lparr>k_fresh := k_fresh k @ [crawlRef s ?k1]\<rparr>" using True by (simp add: learnNew_def Let_def)
    show ?thesis unfolding l k0
      by (rule keeps_rule [of "{s}" "{s}"])
        (use k1 f1 in \<open>auto simp: nodeFor_def refSet_def crawlRef_def planned_def flagged_def flaggedSlots_def entryOf_def inCheck_def\<close>)
  next
    case False
    let ?k2 = "updEntry s (\<lambda>e. e\<lparr>ce_failures := problemCode (addressProblem (x_Q X) (cn_endpoint cn) (cc_allowLocal (k_config k)))\<rparr>) ?k1"
    have l: "learnNew X cn s k = ?k2\<lparr>k_catalog := setState s Unroutable (k_catalog ?k2)\<rparr>" using False by (simp add: learnNew_def Let_def)
    have k2: "refsKept {s} {s} c (setState s Unroutable (k_catalog ?k2))"
      by (rule refsKept_trans [OF k1 refsKept_trans [OF updEntry_kept setState_kept]]) simp_all
    show ?thesis unfolding l k0
      by (rule keeps_rule [of "{s}" "{s}"])
        (use k2 flag in \<open>auto simp: nodeFor_def refSet_def due_def dueSlots_def flagged_def flaggedSlots_def entryOf_def setState_entries updEntry_def
          usedSlots_def refTo_def\<close>)
  qed
qed

lemma aside_keeps [simp]:
  "keeps k (k\<lparr>k_draws := a\<rparr>)" "keeps k (k\<lparr>k_lastSeedMs := z\<rparr>)" "keeps k (k\<lparr>k_nextEstimateMs := z\<rparr>)" "keeps k (k\<lparr>k_monitoring := b\<rparr>)"
  "keeps k (k\<lparr>k_batch := z\<rparr>)" "keeps k (k\<lparr>k_lastSendFailures := z\<rparr>)" "keeps k (k\<lparr>k_lastTickFull := b\<rparr>)"
  by (rule keeps_same; simp add: nodeFor_def)+

lemma newNode_keeps:
  assumes u: "upsert Q H rnd e now (k_catalog k) = (Some s, True, c')"
  shows "keeps k (learnNew X cn s (updEntry s (seenListed t) (k\<lparr>k_catalog := c', k_draws := d\<rparr>)))"
proof -
  let ?k2 = "updEntry s (seenListed t) (k\<lparr>k_catalog := c', k_draws := d\<rparr>)"
  have up: "refsKept {s} {s} (k_catalog k) c'" "s \<in> usedSlots (nc_entries c') \<Longrightarrow> \<not> has FeatureQueued (nc_entries c' ! s)"
    using upsert_kept [OF u] by auto
  have "keeps (?k2\<lparr>k_catalog := k_catalog k\<rparr>) (learnNew X cn s ?k2)"
  proof (rule learnNew_keeps)
    have "refsKept {s} {s} c' (k_catalog ?k2)" using updEntry_kept [of "seenListed t" "{s}" "{s}" "k\<lparr>k_catalog := c', k_draws := d\<rparr>" s] by simp
    then show "refsKept {s} {s} (k_catalog k) (k_catalog ?k2)" by (rule refsKept_trans [OF up(1)])
  qed (use up(2) in \<open>auto simp: updEntry_def entryOf_def usedSlots_def seenListed_def nth_list_update\<close>)
  moreover have "?k2\<lparr>k_catalog := k_catalog k\<rparr> = k\<lparr>k_draws := d\<rparr>" by (simp add: updEntry_def)
  ultimately show ?thesis by (metis aside_keeps(1) keeps_trans)
qed

lemma learnNode_keeps: "keeps k (learnNode X cn k)"
proof (cases "nodeFor (family (x_Q X) (cn_endpoint cn)) k = None \<or> isOwnId (cn_id cn) k")
  case False
  obtain slot added c' where u: "upsert (x_Q X) (x_H X) (x_evict X (k_draws k)) (cn_endpoint cn) (x_now X) (k_catalog k) = (slot, added, c')"
    by (metis prod_cases3)
  let ?k1 = "k\<lparr>k_catalog := c', k_draws := k_draws k + 1\<rparr>" let ?f = "seenListed (stamp (x_now X) c')"
  show ?thesis
  proof (cases added)
    case True
    with upsert_kept [OF u] obtain s where s: "slot = Some s" by auto
    have l: "learnNode X cn k = learnNew X cn s (updEntry s ?f ?k1)" by (simp add: learnNode_def if_not_P [OF False] u Let_def True s)
    show ?thesis unfolding l by (rule newNode_keeps) (use u s True in simp)
  next
    case known: False
    then have c: "c' = k_catalog k" using upsert_kept [OF u] by simp
    then have "keeps k ?k1" by (intro keeps_same) (simp_all add: nodeFor_def)
    moreover have "learnNode X cn k = (case slot of None \<Rightarrow> ?k1 | Some s \<Rightarrow> updEntry s ?f ?k1)"
      by (cases slot) (simp_all add: learnNode_def if_not_P [OF False] u Let_def known)
    ultimately show ?thesis by (auto split: option.splits intro: keeps_trans [OF _ updEntry_keeps])
  qed
qed (simp add: learnNode_def)

lemma seedFrom_keeps: "keeps k (seedFrom X fam k)"
  by (auto simp: seedFrom_def Let_def simp del: fold_append split: option.splits intro: keeps_trans [OF _ keeps_fold [OF learnNode_keeps]])

lemma crawlSeed_keeps: "keeps k (crawlSeed X k)"
  unfolding crawlSeed_def by (rule keeps_trans [OF keeps_trans [OF aside_keeps(2) seedFrom_keeps] seedFrom_keeps])

lemma learnFrom_keeps: "keeps k (learnFrom X r reply k)"
  unfolding learnFrom_def Let_def by (rule keeps_trans [OF _ keeps_fold [OF learnNode_keeps]]) (simp add: updEntry_keeps)

lemma markInventor_keeps: "keeps k (markInventor X source k)"
  by (simp add: markInventor_def updEntry_keeps split: option.splits)

lemma recordLookup_keeps: "keeps k (recordLookup X r k)"
proof -
  have 1: "keeps k (if r_kind r = GetPeers
      then k\<lparr>k_randomLookups := k_randomLookups k + 1,
             k_lookupsWithInventedPeers := k_lookupsWithInventedPeers k + (if r_sightings r = [] then 0 else 1)\<rparr> else k)"
    by (auto intro!: keeps_same simp: nodeFor_def)
  show ?thesis unfolding recordLookup_def Let_def
    by (rule keeps_trans [OF keeps_trans [OF 1 keeps_fold] keeps_fold]) (auto simp: learnNode_keeps markInventor_keeps)
qed

lemma newCall_simps [simp]:
  "k_catalog (snd (newCall call k)) = k_catalog k" "nodeFor fam (snd (newCall call k)) = nodeFor fam k"
  "k_calls (snd (newCall call k)) = (k_nextCall k, call) # k_calls k"
  by (simp_all add: newCall_def nodeFor_def)

lemma newCall_keeps: "keeps k (snd (newCall call k))"
  by (cases call) (auto intro!: keeps_same simp: nodeFor_def newCall_def planned_def inCheck_def)

lemma lookupCall_keeps: "keeps k (k\<lparr>k_widening := w\<rparr>)" "keeps k (k\<lparr>k_estimating := en\<rparr>)"
  by (rule keeps_same; simp add: nodeFor_def)+

lemma widenOne_keeps: "keeps k (widenOne X fam k)"
  unfolding widenOne_def drawId_def Let_def case_prod_beta if_distrib
  by (cases "nodeFor fam k = None \<or> k_widening k fam")
    (simp_all add: keeps_trans [OF lookupCall_keeps(1) keeps_trans [OF aside_keeps(1) keeps_trans [OF newCall_keeps withNode_keeps]]])

lemma estimateOne_keeps: "keeps k (estimateOne X fam k)"
  unfolding estimateOne_def drawId_def Let_def case_prod_beta if_distrib
  by (cases "nodeFor fam k = None \<or> MaxEstimates \<le> k_estimating k fam")
    (simp_all add: keeps_trans [OF lookupCall_keeps(2) keeps_trans [OF aside_keeps(1) keeps_trans [OF newCall_keeps withNode_keeps]]])

lemma widen_keeps: "keeps k (widen X k)"
  unfolding widen_def by (rule keeps_trans [OF widenOne_keeps widenOne_keeps])

lemma estimateSize_keeps: "keeps k (estimateSize X k)"
  unfolding estimateSize_def by (rule keeps_trans [OF estimateOne_keeps estimateOne_keeps])

section \<open>Asking keeps everything planned\<close>

lemma takeDue_spec:
  "takeDue c now m q = (so, q') \<Longrightarrow> (\<forall>r \<in> set q. isCurrent r c \<longrightarrow> r \<in> set q' \<or> (\<exists>s. so = Some s \<and> r = refTo s c)) \<and>
     (so \<noteq> None \<longrightarrow> the so \<in> usedSlots (nc_entries c))"
proof (induction q arbitrary: so q')
  case (Cons r rs)
  then show ?case
    by (auto split: if_splits dest: current_ref simp: isCurrent_def)
      (auto simp: refTo_def usedSlots_def split: option.splits)
qed simp

definition takenRefs :: "catalog \<Rightarrow> (nat \<times> bool) option \<Rightarrow> catalog_ref set" where
  "takenRefs c next = (case next of None \<Rightarrow> {} | Some (s, first) \<Rightarrow> {refTo s c})"

lemma takeNext_spec:
  assumes "takeNext now k = (next, k1)"
  shows "(\<exists>q1 q2 q3 q4. k1 = k\<lparr>k_fresh := q1, k_retry := q2, k_revisit := q3, k_revisitSilent := q4\<rparr>) \<and>
    (\<forall>r \<in> planned k. isCurrent r (k_catalog k) \<longrightarrow> r \<in> planned k1 \<union> takenRefs (k_catalog k) next)"
proof -
  let ?c = "k_catalog k" let ?cfg = "k_config k"
  obtain s1 q1 where 1: "takeDue ?c now 0 (k_fresh k) = (s1, q1)" by fastforce
  obtain s2 q2 where 2: "takeDue ?c now (cc_retryDelayMs ?cfg) (k_retry k) = (s2, q2)" by fastforce
  obtain s3 q3 where 3: "takeDue ?c now (cc_revisitIntervalMs ?cfg) (k_revisit k) = (s3, q3)" by fastforce
  obtain s4 q4 where 4: "takeDue ?c now (cc_silentRevisitIntervalMs ?cfg) (k_revisitSilent k) = (s4, q4)" by fastforce
  note sp = takeDue_spec [OF 1] takeDue_spec [OF 2] takeDue_spec [OF 3] takeDue_spec [OF 4]
  have "(next, k1) = (if s1 \<noteq> None then (Some (the s1, True), k\<lparr>k_fresh := q1\<rparr>)
     else if s2 \<noteq> None then (Some (the s2, False), k\<lparr>k_fresh := q1, k_retry := q2\<rparr>)
     else if s3 \<noteq> None then (Some (the s3, False), k\<lparr>k_fresh := q1, k_retry := q2, k_revisit := q3\<rparr>)
     else (map_option (\<lambda>s. (s, False)) s4, k\<lparr>k_fresh := q1, k_retry := q2, k_revisit := q3, k_revisitSilent := q4\<rparr>))"
    using assms by (auto simp: takeNext_def Let_def 1 2 3 4 split: option.splits)
  then consider
      (fresh) s where "s1 = Some s" "next = Some (s, True)" "k1 = k\<lparr>k_fresh := q1\<rparr>"
    | (retry) s where "s1 = None" "s2 = Some s" "next = Some (s, False)" "k1 = k\<lparr>k_fresh := q1, k_retry := q2\<rparr>"
    | (revisit) s where "s1 = None" "s2 = None" "s3 = Some s" "next = Some (s, False)" "k1 = k\<lparr>k_fresh := q1, k_retry := q2, k_revisit := q3\<rparr>"
    | (silent) "s1 = None" "s2 = None" "s3 = None" "next = map_option (\<lambda>s. (s, False)) s4"
        "k1 = k\<lparr>k_fresh := q1, k_retry := q2, k_revisit := q3, k_revisitSilent := q4\<rparr>"
    by (auto split: if_splits)
  then show ?thesis
  proof cases
    case fresh
    with sp(1) show ?thesis
      by (intro conjI exI [of _ q1] exI [of _ "k_retry k"] exI [of _ "k_revisit k"] exI [of _ "k_revisitSilent k"])
        (auto simp: planned_def takenRefs_def)
  next
    case retry
    with sp(1,2) show ?thesis
      by (intro conjI exI [of _ q1] exI [of _ q2] exI [of _ "k_revisit k"] exI [of _ "k_revisitSilent k"])
        (auto simp: planned_def takenRefs_def)
  next
    case revisit
    with sp(1-3) show ?thesis
      by (intro conjI exI [of _ q1] exI [of _ q2] exI [of _ q3] exI [of _ "k_revisitSilent k"])
        (auto simp: planned_def takenRefs_def)
  next
    case silent
    have q: "\<forall>r \<in> set (k_fresh k). isCurrent r ?c \<longrightarrow> r \<in> set q1" "\<forall>r \<in> set (k_retry k). isCurrent r ?c \<longrightarrow> r \<in> set q2"
      "\<forall>r \<in> set (k_revisit k). isCurrent r ?c \<longrightarrow> r \<in> set q3"
      "\<forall>r \<in> set (k_revisitSilent k). isCurrent r ?c \<longrightarrow> r \<in> set q4 \<or> (\<exists>s. s4 = Some s \<and> r = refTo s ?c)"
      using sp silent(1-3) by simp_all
    have k1: "planned k1 = set q1 \<union> set q2 \<union> set q3 \<union> set q4 \<union> fst ` set (k_deferred k) \<union> calling (k_calls k)"
      unfolding silent(5) by (simp add: planned_def)
    have t: "r \<in> takenRefs ?c next" if "s4 = Some s" "r = refTo s ?c" for r s
      using that silent(4) by (simp add: takenRefs_def)
    have "r \<in> planned k1 \<union> takenRefs ?c next" if r: "r \<in> planned k" "isCurrent r ?c" for r
    proof -
      from r(1) have "r \<in> set (k_fresh k) \<or> r \<in> set (k_retry k) \<or> r \<in> set (k_revisit k) \<or> r \<in> set (k_revisitSilent k) \<or>
        r \<in> fst ` set (k_deferred k) \<union> calling (k_calls k)" by (simp add: planned_def)
      with q r(2) have "r \<in> set q1 \<or> r \<in> set q2 \<or> r \<in> set q3 \<or> r \<in> set q4 \<or> (\<exists>s. s4 = Some s \<and> r = refTo s ?c) \<or>
        r \<in> fst ` set (k_deferred k) \<union> calling (k_calls k)" by metis
      with k1 t show ?thesis by (elim disjE exE conjE) simp_all
    qed
    then show ?thesis using silent(5) by blast
  qed
qed

text \<open>A query brings the node asked back into the plan, a check its reference back among the checks.\<close>

lemma sendProbe_frame [simp]:
  "k_catalog (sendProbe X s meth args call k) = k_catalog k" "nodeFor fam (sendProbe X s meth args call k) = None \<longleftrightarrow> nodeFor fam k = None"
  by (auto simp: sendProbe_def Let_def newCall_def nodeFor_def withNode_def split: prod.splits)

lemma sendProbe_planned [simp]:
  "planned (sendProbe X s meth args (ScanCall r) k) = insert r (planned k)" "inCheck (sendProbe X s meth args (ScanCall r) k) = inCheck k"
  "planned (sendProbe X s meth args (FeatureCall r f) k) = planned k" "inCheck (sendProbe X s meth args (FeatureCall r f) k) = insert r (inCheck k)"
  by (auto simp: sendProbe_def Let_def newCall_def split: prod.splits) (auto simp: planned_def inCheck_def)

lemma crawlRef_upd [simp]: "plainEdit f \<Longrightarrow> refTo t (k_catalog (updEntry s f k)) = refTo t (k_catalog k)"
  by (cases "s < length (nc_entries (k_catalog k))") (auto simp: updEntry_def refTo_def plainEdit_def nth_list_update entryOf_def list_update_beyond)

lemma crawlAsk_regains:
  "unplanned (crawlAsk X s b k) \<subseteq> unplanned k - {crawlRef s k} \<and> notChecked (crawlAsk X s b k) \<subseteq> notChecked k"
proof -
  have cat: "k_catalog (crawlAsk X s b k) = k_catalog (updEntry s (\<lambda>e. e\<lparr>ce_lastQueried := stamp (x_now X) (k_catalog k)\<rparr>) k)"
    by (simp add: crawlAsk_def Let_def drawId_def)
  have kept: "refsKept {} {} (k_catalog k) (k_catalog (crawlAsk X s b k))"
    unfolding cat by (rule updEntry_kept) simp
  have pl: "planned (crawlAsk X s b k) = insert (crawlRef s k) (planned k)" "inCheck (crawlAsk X s b k) = inCheck k"
    by (simp_all add: crawlAsk_def Let_def drawId_def crawlRef_def)
  have nodes: "nodeFor fam (crawlAsk X s b k) = None \<longleftrightarrow> nodeFor fam k = None" for fam
    by (simp add: crawlAsk_def Let_def drawId_def) (simp add: nodeFor_def)
  show ?thesis using unplanned_kept [OF kept nodes, of "{}"] notChecked_kept [OF kept, of "{}"] by (auto simp: pl)
qed

lemma due_iff: "refTo s (k_catalog k) \<in> due k \<longleftrightarrow> s \<in> dueSlots k"
  by (auto simp: due_def refSet_def)

lemma queues_due [simp]:
  "due (k\<lparr>k_fresh := q\<rparr>) = due k"
  "due (k\<lparr>k_retry := q\<rparr>) = due k"
  "due (k\<lparr>k_revisit := q\<rparr>) = due k"
  "due (k\<lparr>k_revisitSilent := q\<rparr>) = due k"
  "due (k\<lparr>k_deferred := ds\<rparr>) = due k"
  "due (k\<lparr>k_features := q\<rparr>) = due k"
  "due (k\<lparr>k_calls := cs\<rparr>) = due k"
  "due (k\<lparr>k_outstanding := z\<rparr>) = due k"
  "due (k\<lparr>k_timeouts := z\<rparr>) = due k"
  "due (k\<lparr>k_answers := z\<rparr>) = due k"
  "due (k\<lparr>k_errors := z\<rparr>) = due k"
  "due (k\<lparr>k_notSent := z\<rparr>) = due k"
  "flagged (k\<lparr>k_fresh := q\<rparr>) = flagged k"
  "flagged (k\<lparr>k_retry := q\<rparr>) = flagged k"
  "flagged (k\<lparr>k_revisit := q\<rparr>) = flagged k"
  "flagged (k\<lparr>k_revisitSilent := q\<rparr>) = flagged k"
  "flagged (k\<lparr>k_deferred := ds\<rparr>) = flagged k"
  "flagged (k\<lparr>k_features := q\<rparr>) = flagged k"
  "flagged (k\<lparr>k_calls := cs\<rparr>) = flagged k"
  "flagged (k\<lparr>k_outstanding := z\<rparr>) = flagged k"
  "flagged (k\<lparr>k_timeouts := z\<rparr>) = flagged k"
  "flagged (k\<lparr>k_answers := z\<rparr>) = flagged k"
  "flagged (k\<lparr>k_errors := z\<rparr>) = flagged k"
  "flagged (k\<lparr>k_notSent := z\<rparr>) = flagged k"
  by (simp_all add: due_def dueSlots_def entryOf_def nodeFor_def flagged_def flaggedSlots_def)

lemma dispatchNext_keeps: "keeps k (snd (dispatchNext X k))"
proof -
  obtain nx k1 where n: "takeNext (x_now X) k = (nx, k1)" by fastforce
  then obtain q1 q2 q3 q4 where k1: "k1 = k\<lparr>k_fresh := q1, k_retry := q2, k_revisit := q3, k_revisitSilent := q4\<rparr>"
    and pl: "\<And>r. r \<in> planned k \<Longrightarrow> isCurrent r (k_catalog k) \<Longrightarrow> r \<in> planned k1 \<union> takenRefs (k_catalog k) nx"
    using takeNext_spec [OF n] by blast
  have d: "due k1 = due k" "flagged k1 = flagged k" "inCheck k1 = inCheck k"
    by (simp_all add: k1)
  have u1: "unplanned k1 \<subseteq> unplanned k \<union> takenRefs (k_catalog k) nx"
    using pl due_current by (auto simp: unplanned_def d)
  have c1: "notChecked k1 = notChecked k" by (simp add: notChecked_def d)
  show ?thesis
  proof (cases nx)
    case None
    with u1 c1 show ?thesis by (simp add: dispatchNext_def n keeps_def takenRefs_def)
  next
    case (Some sf)
    obtain s first where sf: "sf = (s, first)" by fastforce
    have t: "takenRefs (k_catalog k) nx = {crawlRef s k1}" by (simp add: Some sf takenRefs_def crawlRef_def k1)
    let ?k2 = "k1\<lparr>k_deferred := k_deferred k1 @ [(crawlRef s k1, first)]\<rparr>"
    have drop: "unplanned k1 \<subseteq> unplanned k" if "ce_state (entryOf s k1) = Unroutable \<or> nodeFor (entryFamily (entryOf s k1)) k1 = None"
    proof -
      have "crawlRef s k1 \<notin> due k1" using that by (auto simp: crawlRef_def due_iff dueSlots_def)
      with u1 t show ?thesis by (auto simp: unplanned_def)
    qed
    have aside: "unplanned ?k2 \<subseteq> unplanned k" "notChecked ?k2 = notChecked k"
    proof -
      have "due ?k2 = due k1" "planned ?k2 = insert (crawlRef s k1) (planned k1)" by (auto simp: planned_def)
      with u1 t show "unplanned ?k2 \<subseteq> unplanned k" by (auto simp: unplanned_def)
    qed (simp add: notChecked_def d)
    show ?thesis
      using drop aside crawlAsk_regains [of X s first k1] u1 t c1
      by (auto simp: dispatchNext_def n Some sf Let_def keeps_def)
  qed
qed

lemma dispatchMany_keeps: "keeps k (snd (dispatchMany X left sent k))"
proof (induction left arbitrary: sent k)
  case (Suc left)
  obtain more k1 where n: "dispatchNext X k = (more, k1)" by fastforce
  with dispatchNext_keeps [of k X] have "keeps k k1" by simp
  with Suc show ?case by (auto simp: n intro: keeps_trans)
qed simp

lemma dispatchDeferred_keeps: "keeps k (snd (dispatchDeferred X budget left sent k))"
proof (induction left arbitrary: sent k)
  case (Suc left)
  show ?case
  proof (cases "sent \<ge> budget \<or> k_deferred k = []")
    case False
    then obtain r first rest where q: "k_deferred k = (r, first) # rest" by (cases "k_deferred k") auto
    let ?k1 = "k\<lparr>k_deferred := rest\<rparr>" let ?s = "the (ref_slot r)"
    have d: "due ?k1 = due k" "flagged ?k1 = flagged k" "planned k = insert r (planned ?k1)" by (auto simp: planned_def q)
    have c: "notChecked ?k1 = notChecked k" by (simp add: notChecked_def d)
    have u: "unplanned ?k1 \<subseteq> unplanned k \<union> {r}" by (auto simp: unplanned_def d)
    have drop: "keeps k ?k1" if "\<not> isCurrent r (k_catalog k)"
      using that u due_current [of r k] c by (auto simp: keeps_def unplanned_def d)
    have again: "keeps k (k\<lparr>k_deferred := rest @ [(r, first)]\<rparr>)"
      by (rule keeps_same) (auto simp: planned_def q nodeFor_def)
    have ask: "keeps k (crawlAsk X ?s first ?k1)" if "isCurrent r (k_catalog k)"
      using crawlAsk_regains [of X ?s first ?k1] u c current_ref [OF that] by (auto simp: keeps_def crawlRef_def)
    have loop: "keeps k k' \<Longrightarrow> keeps k (snd (dispatchDeferred X budget left n k'))" for k' n
      by (rule keeps_trans [OF _ Suc.IH])
    show ?thesis using False by (auto simp: q Let_def intro!: loop drop again ask)
  qed auto
qed simp

section \<open>Feature checks keep everything queued\<close>

lemma askFeature_regains:
  "unplanned (askFeature X s k) \<subseteq> unplanned k \<and> notChecked (askFeature X s k) \<subseteq> notChecked k - {crawlRef s k}"
proof -
  have cat: "k_catalog (askFeature X s k) = k_catalog k" "planned (askFeature X s k) = planned k"
    "inCheck (askFeature X s k) = insert (crawlRef s k) (inCheck k)"
    "nodeFor fam (askFeature X s k) = None \<longleftrightarrow> nodeFor fam k = None" for fam
    by (simp_all add: askFeature_def Let_def drawId_def crawlRef_def) (simp add: nodeFor_def)
  have kept: "refsKept {} {} (k_catalog k) (k_catalog (askFeature X s k))" by (simp add: cat)
  show ?thesis
    using unplanned_kept [OF kept cat(4), of "{}"] notChecked_kept [OF kept, of "{}"] by (auto simp: cat)
qed

lemma unflag_gone: "refTo s (k_catalog k) \<notin> flagged (updEntry s (setFlag FeatureQueued False) k)"
  by (auto simp: flagged_def refSet_def flaggedSlots_def updEntry_def entryOf_def usedSlots_def)

lemma unflag_regains:
  "unplanned (updEntry s (setFlag FeatureQueued False) k) \<subseteq> unplanned k \<and>
   notChecked (updEntry s (setFlag FeatureQueued False) k) \<subseteq> notChecked k - {crawlRef s k}"
  using updEntry_keeps [of "setFlag FeatureQueued False" k s] unflag_gone [of s k] by (auto simp: keeps_def crawlRef_def notChecked_def)

lemma dispatchFeatures_keeps: "keeps k (snd (dispatchFeatures X budget left sent k))"
proof (induction left arbitrary: sent k)
  case (Suc left)
  show ?case
  proof (cases "sent \<ge> budget \<or> k_features k = []")
    case False
    then obtain r rest where q: "k_features k = r # rest" by (cases "k_features k") auto
    let ?k1 = "k\<lparr>k_features := rest\<rparr>" let ?s = "the (ref_slot r)"
    have d: "due ?k1 = due k" "flagged ?k1 = flagged k" "inCheck k = insert r (inCheck ?k1)" by (auto simp: inCheck_def q)
    have u: "unplanned ?k1 = unplanned k" by (simp add: unplanned_def d)
    have c: "notChecked ?k1 \<subseteq> notChecked k \<union> {r}" by (auto simp: notChecked_def d)
    have drop: "keeps k ?k1" if "\<not> isCurrent r (k_catalog k)"
      using that u flagged_current [of r k] c by (auto simp: keeps_def notChecked_def d)
    have again: "keeps k (k\<lparr>k_features := rest @ [r]\<rparr>)"
      by (rule keeps_same) (auto simp: inCheck_def q nodeFor_def)
    have ref: "crawlRef ?s ?k1 = r" if "isCurrent r (k_catalog k)" using current_ref [OF that] by (simp add: crawlRef_def)
    have ask: "keeps k (askFeature X ?s ?k1)" if "isCurrent r (k_catalog k)"
      using askFeature_regains [of X ?s ?k1] u c ref [OF that] by (auto simp: keeps_def)
    have unflag: "keeps k (updEntry ?s (setFlag FeatureQueued False) ?k1)" if "isCurrent r (k_catalog k)"
      using unflag_regains [of ?s ?k1] u c ref [OF that] by (auto simp: keeps_def)
    have loop: "keeps k k' \<Longrightarrow> keeps k (snd (dispatchFeatures X budget left n k'))" for k' n
      by (rule keeps_trans [OF _ Suc.IH])
    show ?thesis using False by (auto simp: q Let_def intro!: loop drop again ask unflag)
  qed auto
qed simp

section \<open>Replies\<close>

lemma push_planned:
  "planned (k\<lparr>k_retry := k_retry k @ [r]\<rparr>) = insert r (planned k)" "planned (k\<lparr>k_revisit := k_revisit k @ [r]\<rparr>) = insert r (planned k)"
  "planned (k\<lparr>k_revisitSilent := k_revisitSilent k @ [r]\<rparr>) = insert r (planned k)"
  by (auto simp: planned_def)

lemma push_nodeFor [simp]:
  "nodeFor fam (k\<lparr>k_retry := q\<rparr>) = nodeFor fam k" "nodeFor fam (k\<lparr>k_revisit := q\<rparr>) = nodeFor fam k" "nodeFor fam (k\<lparr>k_revisitSilent := q\<rparr>) = nodeFor fam k"
  "nodeFor fam (k\<lparr>k_features := q\<rparr>) = nodeFor fam k" "nodeFor fam (k\<lparr>k_outstanding := z\<rparr>) = nodeFor fam k" "nodeFor fam (k\<lparr>k_calls := cs\<rparr>) = nodeFor fam k"
  by (simp_all add: nodeFor_def)

text \<open>A current reference is planned again whatever the reply; the call that carried it is gone before the reply is looked at.\<close>

definition regains :: "catalog_ref set \<Rightarrow> catalog_ref set \<Rightarrow> crawler \<Rightarrow> crawler \<Rightarrow> bool" where
  "regains R C k k' \<longleftrightarrow> unplanned k' \<subseteq> unplanned k - R \<and> notChecked k' \<subseteq> notChecked k - C"

lemma regains_keeps: "regains R C k k1 \<Longrightarrow> keeps k1 k2 \<Longrightarrow> regains R C k k2"
  by (auto simp: regains_def keeps_def)

lemma keeps_regains: "keeps k k1 \<Longrightarrow> regains R C k1 k2 \<Longrightarrow> regains R C k k2"
  by (auto simp: regains_def keeps_def)

lemma regains_rule:
  assumes kept: "refsKept A B (k_catalog k) (k_catalog k')" and nodes: "\<And>fam. nodeFor fam k' = None \<longleftrightarrow> nodeFor fam k = None"
    and pl: "refSet (k_catalog k') A \<inter> due k' \<subseteq> planned k'" "planned k \<union> R \<subseteq> planned k'"
    and ch: "refSet (k_catalog k') B \<inter> flagged k' \<subseteq> inCheck k'" "inCheck k \<union> C \<subseteq> inCheck k'"
  shows "regains R C k k'"
proof -
  have "unplanned k' \<subseteq> unplanned k - planned k'" using unplanned_kept [OF kept nodes pl(1), of "{}"] pl(2) by auto
  moreover have "notChecked k' \<subseteq> notChecked k - inCheck k'" using notChecked_kept [OF kept ch(1), of "{}"] ch(2) by auto
  ultimately show ?thesis using pl(2) ch(2) unfolding regains_def by blast
qed

lemma noteResponse_flag [simp]:
  "has FeatureQueued (noteResponse reply e) = has FeatureQueued e" "ce_inUse (noteResponse reply e) = ce_inUse e"
  "ce_generation (noteResponse reply e) = ce_generation e" "ce_address (noteResponse reply e) = ce_address e" "ce_state (noteResponse reply e) = ce_state e"
  by (simp_all add: noteResponse_def)

lemma plain_fields [simp]:
  "ce_inUse (setVersion v e) = ce_inUse e" "ce_generation (setVersion v e) = ce_generation e" "ce_address (setVersion v e) = ce_address e"
  "ce_state (setVersion v e) = ce_state e" "ce_inUse (setFeatureTries n e) = ce_inUse e" "ce_generation (setFeatureTries n e) = ce_generation e"
  "ce_address (setFeatureTries n e) = ce_address e" "ce_state (setFeatureTries n e) = ce_state e"
  "ce_inUse (setSampleCount n e) = ce_inUse e" "ce_generation (setSampleCount n e) = ce_generation e"
  "ce_address (setSampleCount n e) = ce_address e" "ce_state (setSampleCount n e) = ce_state e"
  by (simp_all add: setVersion_def setFeatureTries_def setSampleCount_def)

lemma plainEdit_answered: "plainEdit (answered Q t reply)"
  by (auto simp: plainEdit_def answered_def Let_def split: option.splits if_splits)

lemma featureFound_fields:
  "ce_inUse (featureFound Q check reply e) = ce_inUse e" "ce_generation (featureFound Q check reply e) = ce_generation e"
  "ce_address (featureFound Q check reply e) = ce_address e" "ce_state (featureFound Q check reply e) = ce_state e"
  "has FeatureQueued (featureFound Q check reply e) = has FeatureQueued e"
  by (simp_all add: featureFound_def Let_def)

text \<open>A change of an entry that may also flag it.\<close>

definition sameRef :: "(catalog_entry \<Rightarrow> catalog_entry) \<Rightarrow> bool" where
  "sameRef f \<longleftrightarrow> (\<forall>e. ce_inUse (f e) = ce_inUse e \<and> ce_generation (f e) = ce_generation e \<and> ce_address (f e) = ce_address e \<and> ce_state (f e) = ce_state e)"

lemma sameRef_simps: "sameRef (featureTimedOut check)" "sameRef (featureAnswered Q check reply)" "sameRef (setFlag f b)"
  by (simp_all add: sameRef_def featureTimedOut_def featureAnswered_def featureFound_fields Let_def)

lemma sameRef_kept: "sameRef f \<Longrightarrow> refsKept A {s} (k_catalog k) (k_catalog (updEntry s f k))"
  by (rule refsKept_upd [OF updEntry_entries]) (simp_all add: sameRef_def entryOf_def)

lemma sameRef_ref: "sameRef f \<Longrightarrow> refTo t (k_catalog (updEntry s f k)) = refTo t (k_catalog k)"
  by (cases "s < length (nc_entries (k_catalog k))") (auto simp: updEntry_def refTo_def sameRef_def nth_list_update entryOf_def list_update_beyond)

lemma queueFeatures_keeps:
  assumes "isCurrent r (k_catalog k)"
  shows "keeps k (queueFeatures r k)"
proof -
  let ?s = "the (ref_slot r)" let ?k1 = "updEntry ?s (setFlag FeatureQueued True) k" let ?k' = "?k1\<lparr>k_features := k_features ?k1 @ [r]\<rparr>"
  have ref: "refTo ?s (k_catalog k) = r" using current_ref [OF assms] by simp
  have "refsKept {} {?s} (k_catalog k) (k_catalog ?k')"
    by (rule refsKept_upd [where s = ?s and e' = "setFlag FeatureQueued True (entryOf ?s k)"]) (simp_all add: entryOf_def updEntry_def)
  moreover have "refTo ?s (k_catalog ?k') = r"
    using ref by (cases "?s < length (nc_entries (k_catalog k))") (auto simp: updEntry_def refTo_def entryOf_def list_update_beyond)
  ultimately have "keeps k ?k'"
    by (intro keeps_rule [of "{}" "{?s}"]) (auto simp: refSet_def inCheck_def nodeFor_def planned_def)
  then show ?thesis by (simp add: queueFeatures_def Let_def)
qed

lemma setState_ref [simp]: "refTo t (setState s st c) = refTo t c"
  by (cases "s < length (nc_entries c)") (auto simp: refTo_def setState_entries nth_list_update list_update_beyond)

lemma scanTimeout_regains:
  assumes "isCurrent r (k_catalog k)"
  shows "regains {r} {} k (scanTimeout r k)"
proof -
  let ?s = "the (ref_slot r)" let ?f = "\<lambda>e. e\<lparr>ce_failures := (if ce_failures e < 255 then ce_failures e + 1 else ce_failures e)\<rparr>"
  let ?k0 = "k\<lparr>k_timeouts := k_timeouts k + 1\<rparr>" let ?k1 = "updEntry ?s ?f ?k0"
  let ?e = "entryOf ?s ?k1" let ?st = "if ce_lastAnswered ?e \<noteq> 0 then Gone else Silent"
  let ?k2 = "?k1\<lparr>k_catalog := setState ?s ?st (k_catalog ?k1)\<rparr>"
  have ref: "refTo ?s (k_catalog k) = r" using current_ref [OF assms] by simp
  have k1: "refsKept A B (k_catalog k) (k_catalog ?k1)" for A B using updEntry_kept [of ?f A B ?k0 ?s] by simp
  have r1: "refTo ?s (k_catalog ?k1) = r" using ref crawlRef_upd [of ?f ?s ?s ?k0] by simp
  show ?thesis
  proof (cases "uint (ce_failures ?e) \<ge> cc_failuresToGiveUp (k_config ?k1)")
    case True
    let ?k' = "?k2\<lparr>k_revisitSilent := k_revisitSilent ?k2 @ [r]\<rparr>"
    have t: "scanTimeout r k = ?k'" unfolding scanTimeout_def Let_def using True by (rule if_P)
    have "refsKept {?s} {} (k_catalog k) (k_catalog ?k')" by (simp add: refsKept_trans [OF k1 setState_kept])
    then show ?thesis unfolding t
      by (intro regains_rule [of "{?s}" "{}"]) (auto simp: refSet_def r1 planned_def nodeFor_def)
  next
    case False
    let ?k' = "?k1\<lparr>k_retry := k_retry ?k1 @ [r]\<rparr>"
    have t: "scanTimeout r k = ?k'" unfolding scanTimeout_def Let_def using False by (rule if_not_P)
    show ?thesis unfolding t
      by (intro regains_rule [of "{}" "{}"]) (use k1 in \<open>auto simp: planned_def nodeFor_def\<close>)
  qed
qed

lemma countReply_simps [simp]:
  "k_catalog (countReply st k) = k_catalog k" "nodeFor fam (countReply st k) = nodeFor fam k" "planned (countReply st k) = planned k"
  "inCheck (countReply st k) = inCheck k"
  by (simp_all add: countReply_def nodeFor_def)

lemma countReply_keeps: "keeps k (countReply st k)"
  by (rule keeps_same) simp_all

lemma scanAnswer_regains:
  assumes "isCurrent r (k_catalog k)"
  shows "regains {r} {} k (scanAnswer X r reply k)"
proof -
  let ?s = "the (ref_slot r)" let ?f = "answered (x_Q X) (stamp (x_now X) (k_catalog k)) reply" let ?k0 = "countReply (rr_status reply) k"
  let ?k1 = "updEntry ?s ?f ?k0" let ?k2 = "?k1\<lparr>k_catalog := setState ?s Responsive (k_catalog ?k1)\<rparr>"
  let ?k3 = "?k2\<lparr>k_revisit := k_revisit ?k2 @ [r]\<rparr>"
  have s: "refTo ?s (k_catalog k) = r" "?s \<in> usedSlots (nc_entries (k_catalog k))" using current_ref [OF assms] by simp_all
  have k1: "refsKept A B (k_catalog k) (k_catalog ?k1)" for A B using updEntry_kept [OF plainEdit_answered, of A B ?k0] by simp
  have r1: "refTo ?s (k_catalog ?k1) = r" by (subst crawlRef_upd [OF plainEdit_answered]) (use s(1) in simp)
  have "refsKept {?s} {} (k_catalog k) (k_catalog ?k3)" by (simp add: refsKept_trans [OF k1 setState_kept])
  moreover have "planned ?k3 = insert r (planned k)" "inCheck ?k3 = inCheck k" "\<And>fam. nodeFor fam ?k3 = nodeFor fam k"
    unfolding push_planned by simp_all
  moreover have "refSet (k_catalog ?k3) {?s} = {r}" by (simp add: refSet_def r1)
  ultimately have "regains {r} {} k ?k3" by (intro regains_rule [of "{?s}" "{}"]) auto
  moreover have "isCurrent r (k_catalog ?k3)"
  proof -
    have u: "?s \<in> usedSlots (nc_entries (k_catalog ?k3))"
      using s(2) plainEdit_answered [of "x_Q X" "stamp (x_now X) (k_catalog k)" reply]
      by (simp add: usedSlots_def setState_entries updEntry_def plainEdit_def entryOf_def)
    have "refTo ?s (k_catalog ?k3) = r" by (simp add: r1)
    with u current_refTo [of ?s "k_catalog ?k3"] show ?thesis by (simp only:)
  qed
  ultimately show ?thesis unfolding scanAnswer_def Let_def by (rule regains_keeps [OF _ queueFeatures_keeps])
qed

lemma crawlReply_regains: "regains {r} {} k (crawlReply X r reply k)"
proof -
  let ?k1 = "k\<lparr>k_outstanding := k_outstanding k - 1\<rparr>"
  have k1: "keeps k ?k1" by (rule keeps_same) (simp_all add: nodeFor_def)
  have gone: "regains {r} {} k k'" if "\<not> isCurrent r (k_catalog k)" "keeps k k'" for k'
    using that due_current [of r k] by (auto simp: regains_def keeps_def unplanned_def)
  show ?thesis
  proof (cases "rr_status reply = Throttled")
    case True
    let ?k2 = "?k1\<lparr>k_notSent := k_notSent k + 1\<rparr>"
    have k2: "keeps k ?k2" by (rule keeps_same) (simp_all add: nodeFor_def)
    have "regains {r} {} k (?k2\<lparr>k_retry := k_retry k @ [r]\<rparr>)"
      by (rule regains_rule [of "{}" "{}"]) (auto simp: planned_def nodeFor_def)
    with True k2 gone show ?thesis by (simp add: crawlReply_def Let_def)
  next
    case False
    have "regains {r} {} k (if \<not> isCurrent r (k_catalog ?k1) then countReply (rr_status reply) ?k1
        else if rr_status reply = Timeout then scanTimeout r ?k1 else scanAnswer X r reply ?k1)" (is "regains _ _ _ ?k2")
      using keeps_regains [OF k1 scanTimeout_regains [of r ?k1]] keeps_regains [OF k1 scanAnswer_regains [of r ?k1]]
        gone [OF _ keeps_trans [OF k1 countReply_keeps]] by simp
    then have "regains {r} {} k (if rr_status reply = ResponseReply then learnFrom X r reply ?k2 else ?k2)"
      by (simp add: regains_keeps [OF _ learnFrom_keeps])
    with False show ?thesis by (simp add: crawlReply_def Let_def)
  qed
qed

lemma unflag_kept: "refsKept A {s} (k_catalog k) (k_catalog (updEntry s (setFlag FeatureQueued False) k))"
  by (rule sameRef_kept) (simp add: sameRef_simps)

text \<open>The last step of a check: the flag goes when there is nothing left to check, and the node is queued again otherwise.\<close>

definition requeue :: "catalog_ref \<Rightarrow> crawler \<Rightarrow> crawler" where
  "requeue r k = (let s = the (ref_slot r) in if featuresDone (entryOf s k) then updEntry s (setFlag FeatureQueued False) k
     else k\<lparr>k_features := k_features k @ [r]\<rparr>)"

lemma requeue_regains:
  assumes kept: "refsKept {} {the (ref_slot r)} (k_catalog k) (k_catalog k1)" and nodes: "\<And>fam. nodeFor fam k1 = nodeFor fam k"
    and pl: "planned k1 = planned k" "inCheck k1 = inCheck k" and ref: "refTo (the (ref_slot r)) (k_catalog k1) = r"
  shows "regains {} {r} k (requeue r k1)"
proof -
  let ?s = "the (ref_slot r)"
  show ?thesis
  proof (cases "featuresDone (entryOf ?s k1)")
    case True
    let ?k2 = "updEntry ?s (setFlag FeatureQueued False) k1"
    have k2: "refsKept {} {?s} (k_catalog k) (k_catalog ?k2)" by (rule refsKept_trans [OF kept unflag_kept])
    have r2: "refTo ?s (k_catalog ?k2) = r" using ref by (subst sameRef_ref) (simp_all add: sameRef_simps)
    have n: "r \<notin> flagged ?k2" using unflag_gone [of ?s k1] ref by simp
    have "notChecked ?k2 \<subseteq> notChecked k - inCheck ?k2"
      using notChecked_kept [OF k2, of "{}"] n r2 pl by (simp add: refSet_def)
    moreover have "unplanned ?k2 \<subseteq> unplanned k"
      using unplanned_kept [OF k2, of "{}"] nodes pl by auto
    ultimately have "regains {} {r} k ?k2" using n by (auto simp: regains_def notChecked_def)
    with True show ?thesis by (simp add: requeue_def Let_def)
  next
    case False
    let ?k2 = "k1\<lparr>k_features := k_features k1 @ [r]\<rparr>"
    have "planned ?k2 = planned k" "inCheck ?k2 = insert r (inCheck k)" using pl by (auto simp: inCheck_def)
    then have "regains {} {r} k ?k2"
      by (intro regains_rule [of "{}" "{?s}"]) (use kept nodes ref in \<open>auto simp: refSet_def\<close>)
    with False show ?thesis by (simp add: requeue_def Let_def)
  qed
qed

lemma onFeatureReply_regains: "regains {} {r} k (onFeatureReply X r check reply k)"
proof -
  let ?k1 = "k\<lparr>k_outstanding := k_outstanding k - 1\<rparr>" let ?s = "the (ref_slot r)"
  have k1: "keeps k ?k1" by (rule keeps_same) (simp_all add: nodeFor_def)
  show ?thesis
  proof (cases "isCurrent r (k_catalog k)")
    case False
    with k1 flagged_current [of r k] show ?thesis by (auto simp: onFeatureReply_def Let_def regains_def keeps_def notChecked_def)
  next
    case True
    define k2 where "k2 = (case rr_status reply of Throttled \<Rightarrow> ?k1 | Timeout \<Rightarrow> updEntry ?s (featureTimedOut check) ?k1
      | _ \<Rightarrow> updEntry ?s (featureAnswered (x_Q X) check reply) ?k1)"
    have "k2 = ?k1 \<or> (\<exists>f. sameRef f \<and> k2 = updEntry ?s f ?k1)"
      unfolding k2_def by (cases "rr_status reply") (simp_all, (metis sameRef_simps(1,2))+)
    then have "refsKept {} {?s} (k_catalog k) (k_catalog k2)" "\<And>fam. nodeFor fam k2 = nodeFor fam k" "planned k2 = planned k"
      "inCheck k2 = inCheck k" "refTo ?s (k_catalog k2) = r"
      using current_ref [OF True] sameRef_kept [of _ "{}" ?s ?k1] by (auto simp: sameRef_ref)
    then have r: "regains {} {r} k (requeue r k2)" by (rule requeue_regains)
    have "onFeatureReply X r check reply k = (if rr_status reply = ResponseReply then learnFrom X r reply (requeue r k2) else requeue r k2)"
      using True by (simp add: onFeatureReply_def Let_def requeue_def k2_def [symmetric])
    with r show ?thesis by (simp add: regains_keeps [OF _ learnFrom_keeps])
  qed
qed

lemma delete_calls:
  assumes "distinct (map fst calls)" "map_of calls d = Some c"
  shows "snd ` set calls = insert c (snd ` set (AList.delete d calls))"
proof -
  have "set calls = insert (d, c) (set (AList.delete d calls))"
    using assms map_of_eq_Some_iff [OF assms(1)] eq_key_imp_eq_value [OF assms(1)] by (auto simp: AList.delete_eq)
  then show ?thesis by (metis image_insert snd_conv)
qed

lemma delete_absent: "calling (AList.delete d calls) \<subseteq> calling calls" "checkCalling (AList.delete d calls) \<subseteq> checkCalling calls"
  by (auto simp: calling_def checkCalling_def AList.delete_eq)

text \<open>A reported call is gone from the list; what it carried is the only thing lost.\<close>

lemma removeCall:
  assumes "distinct (map fst (k_calls k))" "map_of (k_calls k) d = Some c"
  shows "unplanned (k\<lparr>k_calls := AList.delete d (k_calls k)\<rparr>) \<subseteq> unplanned k \<union> {r. c = ScanCall r}"
    "notChecked (k\<lparr>k_calls := AList.delete d (k_calls k)\<rparr>) \<subseteq> notChecked k \<union> {r. \<exists>f. c = FeatureCall r f}"
proof -
  let ?cs = "AList.delete d (k_calls k)"
  have "calling (k_calls k) = calling ?cs \<union> {r. c = ScanCall r}" "checkCalling (k_calls k) = checkCalling ?cs \<union> {r. \<exists>f. c = FeatureCall r f}"
    unfolding calling_def checkCalling_def delete_calls [OF assms] by auto
  then show "unplanned (k\<lparr>k_calls := ?cs\<rparr>) \<subseteq> unplanned k \<union> {r. c = ScanCall r}"
    "notChecked (k\<lparr>k_calls := ?cs\<rparr>) \<subseteq> notChecked k \<union> {r. \<exists>f. c = FeatureCall r f}"
    unfolding unplanned_def notChecked_def queues_due by (auto simp: planned_def inCheck_def)
qed

lemma runCall_keeps:
  assumes "distinct (map fst (k_calls k))"
  shows "keeps k (runCall X rep k)"
proof (cases rep)
  case (ProbeReport d reply)
  let ?k1 = "k\<lparr>k_calls := AList.delete d (k_calls k)\<rparr>"
  show ?thesis
  proof (cases "map_of (k_calls k) d")
    case (Some c)
    note rm = removeCall [OF assms Some]
    show ?thesis
    proof (cases c)
      case (ScanCall r)
      with rm crawlReply_regains [of r ?k1 X reply] ProbeReport Some show ?thesis
        by (auto simp: runCall_def Let_def keeps_def regains_def)
    next
      case (FeatureCall r f)
      with rm onFeatureReply_regains [of r ?k1 X f reply] ProbeReport Some show ?thesis
        by (auto simp: runCall_def Let_def keeps_def regains_def)
    qed (simp_all add: runCall_def ProbeReport Some)
  qed (simp add: runCall_def ProbeReport)
next
  case (LookupReport d result)
  let ?k1 = "k\<lparr>k_calls := AList.delete d (k_calls k)\<rparr>"
  show ?thesis
  proof (cases "map_of (k_calls k) d")
    case (Some c)
    have rm: "keeps k ?k1" if "\<forall>r f. c \<noteq> ScanCall r \<and> c \<noteq> FeatureCall r f"
      using removeCall [OF assms Some] that by (auto simp: keeps_def)
    show ?thesis
    proof (cases c)
      case (WidenCall fam)
      with rm show ?thesis
        by (simp add: runCall_def LookupReport Some Let_def) (rule keeps_trans [OF keeps_trans [OF _ lookupCall_keeps(1)] recordLookup_keeps], simp)
    next
      case (EstimateCall fam)
      with rm show ?thesis
        by (simp add: runCall_def LookupReport Some Let_def) (rule keeps_trans [OF keeps_trans [OF _ lookupCall_keeps(2)] recordLookup_keeps], simp)
    qed (simp_all add: runCall_def LookupReport Some)
  qed (simp add: runCall_def LookupReport)
qed (simp add: runCall_def)

section \<open>The timer\<close>

lemma pace_keeps: "keeps k (pace X k)"
  unfolding pace_def Let_def by (rule keeps_same) (simp_all add: nodeFor_def)

lemma dispatchAll_keeps: "keeps k (dispatchAll X k)"
proof -
  let ?b = "k_batch k" let ?share = "?b - max 1 (?b div FeatureShareDivisor)"
  obtain s1 k1 where 1: "(if backlogged k then (0, k) else dispatchDeferred X ?share (min (length (k_deferred k)) DeferredScanPerTick) 0 k) = (s1, k1)"
    by fastforce
  obtain s2 k2 where 2: "dispatchMany X (nat (?share - s1)) s1 k1 = (s2, k2)" by fastforce
  obtain s3 k3 where 3: "(if backlogged k2 then (0, k2)
      else dispatchFeatures X (?b - s2) (min (length (k_features k2)) DeferredScanPerTick) 0 k2) = (s3, k3)" by fastforce
  obtain s4 k4 where 4: "dispatchMany X (nat (?b - (s2 + s3))) (s2 + s3) k3 = (s4, k4)" by fastforce
  have "keeps k k1" using 1 dispatchDeferred_keeps [of k X ?share "min (length (k_deferred k)) DeferredScanPerTick" 0] by (auto split: if_splits)
  moreover have "keeps k1 k2" using dispatchMany_keeps [of k1 X "nat (?share - s1)" s1] by (simp add: 2)
  moreover have "keeps k2 k3"
    using 3 dispatchFeatures_keeps [of k2 X "?b - s2" "min (length (k_features k2)) DeferredScanPerTick" 0] by (auto split: if_splits)
  moreover have "keeps k3 k4" using dispatchMany_keeps [of k3 X "nat (?b - (s2 + s3))" "s2 + s3"] by (simp add: 4)
  moreover have "dispatchAll X k = k4\<lparr>k_lastTickFull := s4 \<ge> ?b\<rparr>" by (simp add: dispatchAll_def Let_def 1 2 3 4)
  ultimately show ?thesis by (metis aside_keeps(7) keeps_trans)
qed

lemma trim_keeps: "keeps k (k\<lparr>k_catalog := snd (trim H rnds n (k_catalog k))\<rparr>)"
  by (rule keeps_rule [of "{}" "{}"]) (simp_all add: trim_kept)

lemma crawlTick_keeps: "keeps k (crawlTick X k)"
proof -
  let ?k1 = "pace X k" let ?k2 = "?k1\<lparr>k_catalog := snd (trim (x_H X) (x_trim X) TrimPerTick (k_catalog ?k1))\<rparr>"
  let ?k3 = "if k_fresh ?k2 = [] \<and> k_deferred ?k2 = [] \<and> k_outstanding ?k2 = 0 \<and> x_now X - k_lastSeedMs ?k2 \<ge> SeedIntervalMs
    then widen X (crawlSeed X ?k2) else ?k2"
  let ?k4 = "dispatchAll X ?k3"
  have 2: "keeps k ?k2" by (rule keeps_trans [OF pace_keeps trim_keeps])
  have 3: "keeps ?k2 ?k3" using keeps_trans [OF crawlSeed_keeps widen_keeps] by simp
  have "keeps k ?k4" by (rule keeps_trans [OF keeps_trans [OF 2 3] dispatchAll_keeps])
  moreover have "keeps ?k4 (crawlTick X k)"
    unfolding crawlTick_def Let_def by (cases "cc_sizeEstimateIntervalMs (k_config ?k4) > 0 \<and> x_now X \<ge> k_nextEstimateMs ?k4")
      (simp_all only: if_True if_False simp_thms keeps_refl keeps_trans [OF aside_keeps(3) estimateSize_keeps])
  ultimately show ?thesis by (rule keeps_trans)
qed

lemma setMonitoring_keeps: "keeps k (setMonitoring X on k)"
  unfolding setMonitoring_def
  by (auto intro!: keeps_trans [OF _ crawlSeed_keeps] keeps_same simp: nodeFor_def)

section \<open>The numbers kept beside the queues\<close>

fun isQuery :: "crawl_call \<Rightarrow> bool" where
  "isQuery (ScanCall r) = True"
| "isQuery (FeatureCall r f) = True"
| "isQuery (WidenCall fam) = False"
| "isQuery (EstimateCall fam) = False"

definition callCount :: "(crawl_call \<Rightarrow> bool) \<Rightarrow> (nat \<times> crawl_call) list \<Rightarrow> int" where
  "callCount p calls = int (length (filter (\<lambda>(d, c). p c) calls))"

definition books :: "crawler \<Rightarrow> bool" where
  "books k \<longleftrightarrow> distinct (map fst (k_calls k)) \<and> (\<forall>d \<in> fst ` set (k_calls k). d < k_nextCall k) \<and>
     k_outstanding k = callCount isQuery (k_calls k) \<and>
     (\<forall>fam. k_estimating k fam = callCount ((=) (EstimateCall fam)) (k_calls k)) \<and>
     (\<forall>fam. callCount ((=) (EstimateCall fam)) (k_calls k) \<le> MaxEstimates) \<and>
     (\<forall>fam. callCount ((=) (WidenCall fam)) (k_calls k) = (if k_widening k fam then 1 else 0)) \<and>
     MinBatch \<le> k_batch k \<and> k_batch k \<le> MaxBatch"

definition ledger where
  "ledger k = (k_calls k, k_nextCall k, k_outstanding k, k_estimating k, k_widening k, k_batch k)"

lemma books_cong: "ledger k' = ledger k \<Longrightarrow> books k' = books k"
  by (simp add: books_def ledger_def)

lemma callCount_simps [simp]: "callCount p [] = 0" "callCount p ((d, c) # calls) = (if p c then 1 else 0) + callCount p calls"
  by (simp_all add: callCount_def)

lemma callCount_delete:
  assumes "distinct (map fst calls)" "map_of calls d = Some c"
  shows "callCount p (AList.delete d calls) = callCount p calls - (if p c then 1 else 0)"
  using assms
proof (induction calls)
  case (Cons x calls)
  show ?case
  proof (cases "fst x = d")
    case True
    then have "filter (\<lambda>(k', _). d \<noteq> k') calls = calls"
      using Cons.prems(1) unfolding filter_id_conv by (cases x) (auto simp: image_iff)
    with True Cons.prems show ?thesis by (cases x) (auto simp: AList.delete_eq)
  qed (use Cons in \<open>cases x, auto simp: AList.delete_eq\<close>)
qed simp

lemma callCount_pos: "map_of calls d = Some c \<Longrightarrow> p c \<Longrightarrow> 0 < callCount p calls"
  by (auto simp: callCount_def filter_empty_conv dest!: map_of_SomeD)

lemma ledger_fold: "(\<And>x k. ledger (f x k) = ledger k) \<Longrightarrow> ledger (fold f xs k) = ledger k"
  by (induction xs arbitrary: k) auto

lemma ledger_aside [simp]:
  "ledger (updEntry s f k) = ledger k" "ledger (k\<lparr>k_catalog := c\<rparr>) = ledger k" "ledger (k\<lparr>k_fresh := q\<rparr>) = ledger k"
  "ledger (k\<lparr>k_retry := q\<rparr>) = ledger k" "ledger (k\<lparr>k_revisit := q\<rparr>) = ledger k" "ledger (k\<lparr>k_revisitSilent := q\<rparr>) = ledger k"
  "ledger (k\<lparr>k_deferred := ds\<rparr>) = ledger k" "ledger (k\<lparr>k_features := q\<rparr>) = ledger k" "ledger (k\<lparr>k_draws := a\<rparr>) = ledger k"
  "ledger (k\<lparr>k_lastSeedMs := z\<rparr>) = ledger k" "ledger (k\<lparr>k_nextEstimateMs := z\<rparr>) = ledger k" "ledger (k\<lparr>k_queries := z\<rparr>) = ledger k"
  "ledger (k\<lparr>k_featureQueries := z\<rparr>) = ledger k" "ledger (k\<lparr>k_notSent := z\<rparr>) = ledger k" "ledger (k\<lparr>k_timeouts := z\<rparr>) = ledger k"
  "ledger (k\<lparr>k_randomLookups := z\<rparr>) = ledger k" "ledger (k\<lparr>k_lookupsWithInventedPeers := z\<rparr>) = ledger k" "ledger (countReply st k) = ledger k"
  "ledger (k\<lparr>k_lastTickFull := b\<rparr>) = ledger k" "ledger (k\<lparr>k_v4 := n\<rparr>) = ledger k" "ledger (k\<lparr>k_v6 := n\<rparr>) = ledger k"
  "ledger (withNode fam g k) = ledger k" "ledger (k\<lparr>k_lastSendFailures := z\<rparr>) = ledger k" "ledger (k\<lparr>k_monitoring := b\<rparr>) = ledger k"
  by (simp_all add: ledger_def countReply_def withNode_def)

lemma ledger_learnNode [simp]: "ledger (learnNode X cn k) = ledger k"
  by (auto simp: learnNode_def learnNew_def Let_def split: prod.splits option.splits)

lemma ledger_learning [simp]:
  "ledger (seedFrom X fam k) = ledger k" "ledger (crawlSeed X k) = ledger k" "ledger (learnFrom X r reply k) = ledger k"
  "ledger (markInventor X e k) = ledger k" "ledger (queueFeatures r k) = ledger k" "ledger (scanTimeout r k) = ledger k"
  by (auto simp: seedFrom_def crawlSeed_def learnFrom_def markInventor_def queueFeatures_def scanTimeout_def Let_def ledger_fold
      simp del: fold_append split: option.splits)

lemma ledger_more [simp]: "ledger (recordLookup X r k) = ledger k" "ledger (scanAnswer X ref reply k) = ledger k"
proof -
  show "ledger (recordLookup X r k) = ledger k"
    unfolding recordLookup_def Let_def by (subst ledger_fold, simp, subst ledger_fold) auto
qed (simp add: scanAnswer_def Let_def)

lemma books_aside [simp]:
  "books (updEntry s f k) = books k" "books (k\<lparr>k_catalog := c\<rparr>) = books k" "books (k\<lparr>k_deferred := ds\<rparr>) = books k"
  "books (k\<lparr>k_features := q\<rparr>) = books k" "books (k\<lparr>k_draws := a\<rparr>) = books k" "books (k\<lparr>k_queries := z\<rparr>) = books k"
  "books (k\<lparr>k_featureQueries := z\<rparr>) = books k" "books (k\<lparr>k_nextEstimateMs := z\<rparr>) = books k" "books (k\<lparr>k_lastTickFull := b\<rparr>) = books k"
  "books (k\<lparr>k_monitoring := b\<rparr>) = books k" "books (crawlSeed X k) = books k" "books (k\<lparr>k_v4 := n\<rparr>) = books k" "books (k\<lparr>k_v6 := n\<rparr>) = books k"
  by (rule books_cong; simp)+

lemma sendProbe_books:
  assumes "books k" "isQuery call"
  shows "books (sendProbe X s m args call k)"
proof -
  let ?k = "k\<lparr>k_calls := (k_nextCall k, call) # k_calls k, k_nextCall := k_nextCall k + 1, k_outstanding := k_outstanding k + 1\<rparr>"
  have "ledger (sendProbe X s m args call k) = ledger ?k" by (simp add: sendProbe_def newCall_def Let_def) (simp add: ledger_def)
  moreover have "books ?k" using assms by (cases call) (auto simp: books_def)
  ultimately show ?thesis using books_cong by blast
qed

lemma crawlAsk_books: "books k \<Longrightarrow> books (crawlAsk X s b k)"
  unfolding crawlAsk_def Let_def drawId_def case_prod_conv by (rule sendProbe_books) simp_all

lemma askFeature_books: "books k \<Longrightarrow> books (askFeature X s k)"
  unfolding askFeature_def Let_def drawId_def by (auto intro!: sendProbe_books)

lemma dispatchNext_books:
  assumes "books k"
  shows "books (snd (dispatchNext X k))"
proof -
  obtain nx k1 where n: "takeNext (x_now X) k = (nx, k1)" by fastforce
  then have "ledger k1 = ledger k" using takeNext_spec [OF n] by auto
  with assms have "books k1" using books_cong by blast
  then show ?thesis by (auto simp: dispatchNext_def n Let_def crawlAsk_books split: option.splits)
qed

lemma dispatchMany_books: "books k \<Longrightarrow> books (snd (dispatchMany X left sent k))"
proof (induction left arbitrary: sent k)
  case (Suc left)
  obtain more k1 where n: "dispatchNext X k = (more, k1)" by fastforce
  with dispatchNext_books [OF Suc.prems, of X] Suc show ?case by (simp add: n)
qed simp

lemma dispatchDeferred_books: "books k \<Longrightarrow> books (snd (dispatchDeferred X budget left sent k))"
proof (induction left arbitrary: sent k)
  case (Suc left)
  then show ?case by (auto simp: Let_def crawlAsk_books split: list.splits)
qed simp

lemma dispatchFeatures_books: "books k \<Longrightarrow> books (snd (dispatchFeatures X budget left sent k))"
proof (induction left arbitrary: sent k)
  case (Suc left)
  then show ?case by (auto simp: Let_def askFeature_books split: list.splits)
qed simp

lemma widenOne_books: "books k \<Longrightarrow> books (widenOne X fam k)"
proof (cases "nodeFor fam k = None \<or> k_widening k fam")
  case False
  assume b: "books k"
  let ?k = "k\<lparr>k_widening := (k_widening k)(fam := True), k_calls := (k_nextCall k, WidenCall fam) # k_calls k, k_nextCall := k_nextCall k + 1\<rparr>"
  have "ledger (widenOne X fam k) = ledger ?k" using False by (simp add: widenOne_def drawId_def newCall_def Let_def) (simp add: ledger_def)
  moreover have "books ?k" using b False by (auto simp: books_def)
  ultimately show ?thesis using books_cong by blast
qed (simp add: widenOne_def)

lemma estimateOne_books: "books k \<Longrightarrow> books (estimateOne X fam k)"
proof (cases "nodeFor fam k = None \<or> k_estimating k fam \<ge> MaxEstimates")
  case False
  assume b: "books k"
  let ?k = "k\<lparr>k_estimating := (k_estimating k)(fam := k_estimating k fam + 1), k_calls := (k_nextCall k, EstimateCall fam) # k_calls k,
    k_nextCall := k_nextCall k + 1\<rparr>"
  have "ledger (estimateOne X fam k) = ledger ?k" using False by (simp add: estimateOne_def drawId_def newCall_def Let_def) (simp add: ledger_def)
  moreover have "books ?k" using b False by (auto simp: books_def)
  ultimately show ?thesis using books_cong by blast
qed (simp add: estimateOne_def)

lemma crawlReply_ledger: "ledger (crawlReply X r reply k) = ledger (k\<lparr>k_outstanding := k_outstanding k - 1\<rparr>)"
  by (simp add: crawlReply_def Let_def)

lemma onFeatureReply_ledger: "ledger (onFeatureReply X r check reply k) = ledger (k\<lparr>k_outstanding := k_outstanding k - 1\<rparr>)"
  by (simp add: onFeatureReply_def Let_def split: reply_status.splits)

lemma runCall_books:
  assumes b: "books k"
  shows "books (runCall X rep k)"
proof -
  have rm: "\<And>c d. map_of (k_calls k) d = Some c \<Longrightarrow> distinct (map fst (AList.delete d (k_calls k))) \<and>
      (\<forall>d' \<in> fst ` set (AList.delete d (k_calls k)). d' < k_nextCall k)"
    using b by (auto simp: books_def AList.delete_eq intro: distinct_map_filter)
  have d: "distinct (map fst (k_calls k))" using b by (simp add: books_def)
  show ?thesis
  proof (cases rep)
    case (ProbeReport d' reply)
    let ?k1 = "k\<lparr>k_calls := AList.delete d' (k_calls k), k_outstanding := k_outstanding k - 1\<rparr>"
    have q: "books ?k1" if "map_of (k_calls k) d' = Some c" "isQuery c" for c
      using b rm [OF that(1)] that(2) by (cases c) (auto simp: books_def callCount_delete [OF d that(1)])
    have "ledger (runCall X rep k) = ledger k \<or> (\<exists>c. map_of (k_calls k) d' = Some c \<and> isQuery c \<and> ledger (runCall X rep k) = ledger ?k1)"
    proof (cases "map_of (k_calls k) d'")
      case (Some c)
      then show ?thesis by (cases c) (simp_all add: ProbeReport runCall_def Let_def crawlReply_ledger onFeatureReply_ledger)
    qed (simp add: ProbeReport runCall_def)
    with q b show ?thesis using books_cong by blast
  next
    case (LookupReport d' result)
    let ?k1 = "k\<lparr>k_calls := AList.delete d' (k_calls k)\<rparr>"
    have w: "books (?k1\<lparr>k_widening := (k_widening k)(fam := False)\<rparr>)" if "map_of (k_calls k) d' = Some (WidenCall fam)" for fam
      using b rm [OF that] callCount_pos [OF that, of "(=) (WidenCall fam)"] by (auto simp: books_def callCount_delete [OF d that] split: if_splits)
    have e: "books (?k1\<lparr>k_estimating := (k_estimating k)(fam := k_estimating k fam - 1)\<rparr>)" if "map_of (k_calls k) d' = Some (EstimateCall fam)" for fam
    proof -
      have "callCount ((=) (EstimateCall fam)) (k_calls k) \<le> MaxEstimates" using b by (simp add: books_def)
      then have "callCount ((=) (EstimateCall fam)) (k_calls k) - 1 \<le> MaxEstimates" by linarith
      with b rm [OF that] show ?thesis by (auto simp: books_def callCount_delete [OF d that])
    qed
    have "ledger (runCall X rep k) = ledger k \<or>
      (\<exists>fam. map_of (k_calls k) d' = Some (WidenCall fam) \<and> ledger (runCall X rep k) = ledger (?k1\<lparr>k_widening := (k_widening k)(fam := False)\<rparr>)) \<or>
      (\<exists>fam. map_of (k_calls k) d' = Some (EstimateCall fam) \<and>
         ledger (runCall X rep k) = ledger (?k1\<lparr>k_estimating := (k_estimating k)(fam := k_estimating k fam - 1)\<rparr>))"
    proof (cases "map_of (k_calls k) d'")
      case (Some c)
      then show ?thesis by (cases c) (simp_all add: LookupReport runCall_def Let_def)
    qed (simp add: LookupReport runCall_def)
    with w e b show ?thesis using books_cong by blast
  qed (use b in \<open>simp add: runCall_def\<close>)
qed

lemma books_batch: "books k \<Longrightarrow> MinBatch \<le> b \<Longrightarrow> b \<le> MaxBatch \<Longrightarrow> books (k\<lparr>k_batch := b, k_lastSendFailures := z\<rparr>)"
  by (simp add: books_def)

lemma pace_books: "books k \<Longrightarrow> books (pace X k)"
  unfolding pace_def Let_def by (rule books_batch) (auto simp: books_def MinBatch_def MaxBatch_def)

lemma dispatchAll_books: "books k \<Longrightarrow> books (dispatchAll X k)"
proof -
  assume b: "books k"
  let ?b = "k_batch k" let ?share = "?b - max 1 (?b div FeatureShareDivisor)"
  obtain s1 k1 where 1: "(if backlogged k then (0, k) else dispatchDeferred X ?share (min (length (k_deferred k)) DeferredScanPerTick) 0 k) = (s1, k1)"
    by fastforce
  obtain s2 k2 where 2: "dispatchMany X (nat (?share - s1)) s1 k1 = (s2, k2)" by fastforce
  obtain s3 k3 where 3: "(if backlogged k2 then (0, k2)
      else dispatchFeatures X (?b - s2) (min (length (k_features k2)) DeferredScanPerTick) 0 k2) = (s3, k3)" by fastforce
  obtain s4 k4 where 4: "dispatchMany X (nat (?b - (s2 + s3))) (s2 + s3) k3 = (s4, k4)" by fastforce
  have "books k1"
    using 1 dispatchDeferred_books [OF b, of X ?share "min (length (k_deferred k)) DeferredScanPerTick" 0] b by (auto split: if_splits)
  then have b2: "books k2" using dispatchMany_books [of k1 X "nat (?share - s1)" s1] by (simp add: 2)
  then have "books k3"
    using 3 dispatchFeatures_books [OF b2, of X "?b - s2" "min (length (k_features k2)) DeferredScanPerTick" 0] by (auto split: if_splits)
  then have "books k4" using dispatchMany_books [of k3 X "nat (?b - (s2 + s3))" "s2 + s3"] by (simp add: 4)
  then show ?thesis by (simp add: dispatchAll_def Let_def 1 2 3 4)
qed

lemma crawlTick_books: "books k \<Longrightarrow> books (crawlTick X k)"
  unfolding crawlTick_def Let_def estimateSize_def widen_def
  by (simp add: dispatchAll_books pace_books widenOne_books estimateOne_books)

lemma setMonitoring_books: "books k \<Longrightarrow> books (setMonitoring X on k)"
proof -
  assume b: "books k"
  have "books (k\<lparr>k_monitoring := True, k_batch := 16, k_lastSendFailures := z\<rparr>)" for z
    using books_batch [OF b, of 16 z] by (simp add: MinBatch_def MaxBatch_def books_def)
  with b show ?thesis by (simp add: setMonitoring_def)
qed

section \<open>Every state of the scan\<close>

text \<open>Beside the timer, the reports and the switch, the nodes do their own work between the events (any node may take the
  place of one that is there, none comes or goes), and the engine changes the cap.\<close>

inductive crawlReachable :: "crawler \<Rightarrow> bool" where
  created: "nc_entries cat = [] \<Longrightarrow> crawlReachable (newCrawler cat cfg v4 v6)"
| ticked: "crawlReachable k \<Longrightarrow> crawlReachable (crawlTick X k)"
| reported: "crawlReachable k \<Longrightarrow> crawlReachable (runCall X rep k)"
| switched: "crawlReachable k \<Longrightarrow> crawlReachable (setMonitoring X on k)"
| nodesWorked: "crawlReachable k \<Longrightarrow> (v4 = None) = (k_v4 k = None) \<Longrightarrow> (v6 = None) = (k_v6 k = None) \<Longrightarrow>
    crawlReachable (k\<lparr>k_v4 := v4, k_v6 := v6\<rparr>)"
| capChanged: "crawlReachable k \<Longrightarrow> crawlReachable (k\<lparr>k_catalog := snd (trim H rnds n (setCap cap (k_catalog k)))\<rparr>)"

lemma crawlReachable_books: "crawlReachable k \<Longrightarrow> books k"
proof (induction rule: crawlReachable.induct)
  case (created cat cfg v4 v6)
  then show ?case by (simp add: newCrawler_def books_def MaxEstimates_def MinBatch_def MaxBatch_def)
qed (simp_all add: crawlTick_books runCall_books setMonitoring_books)

lemma setCap_kept: "refsKept A B c (setCap cap c)"
  by (rule refsKept_same) (simp add: setCap_def)

lemma crawlReachable_nothing_lost: "crawlReachable k \<Longrightarrow> unplanned k = {} \<and> notChecked k = {}"
proof (induction rule: crawlReachable.induct)
  case (created cat cfg v4 v6)
  then show ?case
    by (simp add: newCrawler_def unplanned_def notChecked_def due_def dueSlots_def flagged_def flaggedSlots_def usedSlots_def)
next
  case (ticked k X)
  with crawlTick_keeps [of k X] show ?case by (auto simp: keeps_def)
next
  case (reported k X rep)
  with runCall_keeps [of k X rep] crawlReachable_books [of k] show ?case by (auto simp: keeps_def books_def)
next
  case (switched k X on)
  with setMonitoring_keeps [of k X on] show ?case by (auto simp: keeps_def)
next
  case (nodesWorked k v4 v6)
  then have "keeps k (k\<lparr>k_v4 := v4, k_v6 := v6\<rparr>)" by (intro keeps_same) (auto simp: nodeFor_def)
  with nodesWorked show ?case by (auto simp: keeps_def)
next
  case (capChanged k H rnds n cap)
  have "keeps k (k\<lparr>k_catalog := snd (trim H rnds n (setCap cap (k_catalog k)))\<rparr>)"
    by (rule keeps_rule [of "{}" "{}"]) (simp_all add: refsKept_trans [OF setCap_kept trim_kept])
  with capChanged show ?case by (auto simp: keeps_def)
qed

text \<open>C7: No node is ever forgotten by the scan: in every reachable state each catalogued node that is not unroutable and whose
  address family is running waits in one of the five queues, or a query of the scan to it is under way; and each node marked as
  waiting for feature checks is in their queue, or a check of it is under way, so that none stays marked and is never checked
  again.\<close>

theorem crawl_forgets_no_node:
  assumes "crawlReachable k" "s < length (nc_entries (k_catalog k))" "ce_inUse (entryOf s k)"
  shows "(ce_state (entryOf s k) \<noteq> Unroutable \<and> nodeFor (entryFamily (entryOf s k)) k \<noteq> None \<longrightarrow>
      crawlRef s k \<in> set (k_fresh k) \<union> set (k_retry k) \<union> set (k_revisit k) \<union> set (k_revisitSilent k) \<union> fst ` set (k_deferred k) \<or>
      (\<exists>d. (d, ScanCall (crawlRef s k)) \<in> set (k_calls k))) \<and>
    (has FeatureQueued (entryOf s k) \<longrightarrow>
      crawlRef s k \<in> set (k_features k) \<or> (\<exists>d f. (d, FeatureCall (crawlRef s k) f) \<in> set (k_calls k)))"
proof -
  note lost = crawlReachable_nothing_lost [OF assms(1)]
  have "crawlRef s k \<in> planned k" if "ce_state (entryOf s k) \<noteq> Unroutable \<and> nodeFor (entryFamily (entryOf s k)) k \<noteq> None"
  proof -
    have "crawlRef s k \<in> due k" using that assms(2,3) by (auto simp: due_def refSet_def dueSlots_def usedSlots_def entryOf_def crawlRef_def)
    with lost show ?thesis by (auto simp: unplanned_def)
  qed
  moreover have "crawlRef s k \<in> inCheck k" if "has FeatureQueued (entryOf s k)"
  proof -
    have "crawlRef s k \<in> flagged k" using that assms(2,3) by (auto simp: flagged_def refSet_def flaggedSlots_def usedSlots_def entryOf_def crawlRef_def)
    with lost show ?thesis by (auto simp: notChecked_def)
  qed
  ultimately show ?thesis by (auto simp: planned_def calling_def inCheck_def checkCalling_def)
qed

text \<open>C8: The numbers beside the queues are exact in every reachable state: the outstanding queries are the callbacks of scan and
  check queries still to run, each with a number of its own; the lookups counted as estimating are those under way and at
  most six a family, a family is widening just while its one lookup runs; and the batch stays within its bounds.\<close>

theorem crawl_counts_exact:
  assumes "crawlReachable k"
  shows "distinct (map fst (k_calls k)) \<and>
    k_outstanding k = int (length (filter (\<lambda>(d, c). isQuery c) (k_calls k))) \<and>
    k_estimating k fam = int (length (filter (\<lambda>(d, c). EstimateCall fam = c) (k_calls k))) \<and> k_estimating k fam \<le> 6 \<and>
    int (length (filter (\<lambda>(d, c). WidenCall fam = c) (k_calls k))) = (if k_widening k fam then 1 else 0) \<and>
    4 \<le> k_batch k \<and> k_batch k \<le> 4000"
proof -
  have b: "books k" by (rule crawlReachable_books [OF assms])
  then have "k_estimating k fam = callCount ((=) (EstimateCall fam)) (k_calls k)" "callCount ((=) (EstimateCall fam)) (k_calls k) \<le> 6"
    "callCount ((=) (WidenCall fam)) (k_calls k) = (if k_widening k fam then 1 else 0)"
    by (simp_all add: books_def MaxEstimates_def)
  with b show ?thesis by (simp add: books_def callCount_def MinBatch_def MaxBatch_def)
qed

section \<open>A scan that has learned a node\<close>

definition demoCrawlConfig :: crawl_config where
  "demoCrawlConfig = \<lparr>cc_revisitIntervalMs = 900000, cc_silentRevisitIntervalMs = 3600000, cc_retryDelayMs = 30000, cc_failuresToGiveUp = 3,
     cc_queryTimeoutMs = 5000, cc_sizeEstimateIntervalMs = 0, cc_allowLocal = False\<rparr>"

definition demoCrawlEnv :: crawl_env where
  "demoCrawlEnv = \<lparr>x_now = 10000, x_Q = qt_doc, x_node = (\<lambda>_. demoEnv), x_H = (\<lambda>_. 0), x_evict = (\<lambda>_ _. 0), x_trim = (\<lambda>_ _. 0),
     x_ids = (\<lambda>_. replicate 20 5), x_elapsed = 20\<rparr>"

definition demoCrawl :: crawler where
  "demoCrawl = newCrawler (newCatalog 10 0) demoCrawlConfig (Some demoNode) None"

lemma dispatch_idle:
  assumes "k_fresh k = []" "k_retry k = []" "k_revisit k = []" "k_revisitSilent k = []"
  shows "dispatchMany X n sent k = (sent, k)"
proof -
  have "k\<lparr>k_fresh := [], k_retry := [], k_revisit := [], k_revisitSilent := []\<rparr> = k" using assms by simp
  then have "dispatchNext X k = (False, k)" using assms by (simp add: dispatchNext_def takeNext_def)
  then show ?thesis by (cases n) simp_all
qed

lemma dispatchDeferred_idle: "k_deferred k = [] \<Longrightarrow> dispatchDeferred X b n sent k = (sent, k)"
  by (cases n) simp_all

lemma dispatchFeatures_idle: "k_features k = [] \<Longrightarrow> dispatchFeatures X b n sent k = (sent, k)"
  by (cases n) simp_all

lemma trim_idle: "nc_size c \<le> nc_cap c \<Longrightarrow> snd (trim H rnds n c) = c"
  by (cases "nat n") (simp_all add: trim_def)

lemma closest_new: "closestNodes t k demoNode = []"
  by (simp add: closestNodes_def demoNode_def newNode_def closest_def newTable_def allNodes_def emptyBucket_def sort_by_def)

lemma concat_nothing [simp]: "concat (map (\<lambda>i. []) xs) = []"
  by (induction xs) simp_all

lemma dispatchAll_idle:
  assumes "k_fresh k = []" "k_retry k = []" "k_revisit k = []" "k_revisitSilent k = []" "k_deferred k = []" "k_features k = []"
  shows "\<exists>b. dispatchAll X k = k\<lparr>k_lastTickFull := b\<rparr>"
  using assms by (auto simp: dispatchAll_def Let_def dispatch_idle dispatchDeferred_idle dispatchFeatures_idle)

lemma seed_idle: "k_v4 k = Some demoNode \<Longrightarrow> k_v6 k = None \<Longrightarrow> crawlSeed X k = k\<lparr>k_lastSeedMs := x_now X, k_draws := k_draws k + 8\<rparr>"
  by (simp add: crawlSeed_def seedFrom_def nodeFor_def closest_new)

lemma widen_v4:
  assumes "k_v4 k = Some n" "k_v6 k = None" "\<not> k_widening k IPv4"
  shows "\<exists>n'. widen X k = k\<lparr>k_widening := (k_widening k)(IPv4 := True), k_draws := k_draws k + 1,
    k_calls := (k_nextCall k, WidenCall IPv4) # k_calls k, k_nextCall := k_nextCall k + 1, k_v4 := Some n'\<rparr>"
  using assms by (simp add: widen_def widenOne_def nodeFor_def drawId_def newCall_def withNode_def Let_def) blast

text \<open>The first tick finds nothing in the routing table and starts a lookup; its result brings the first node.\<close>

lemma demo_tick:
  "k_calls (crawlTick demoCrawlEnv demoCrawl) = [(0, WidenCall IPv4)] \<and> k_catalog (crawlTick demoCrawlEnv demoCrawl) = newCatalog 10 0 \<and>
   k_v4 (crawlTick demoCrawlEnv demoCrawl) \<noteq> None \<and> k_v6 (crawlTick demoCrawlEnv demoCrawl) = None \<and>
   k_config (crawlTick demoCrawlEnv demoCrawl) = demoCrawlConfig"
proof -
  let ?X = demoCrawlEnv
  obtain b f where p: "pace ?X demoCrawl = demoCrawl\<lparr>k_batch := b, k_lastSendFailures := f\<rparr>" by (simp add: pace_def Let_def)
  let ?k2 = "demoCrawl\<lparr>k_batch := b, k_lastSendFailures := f\<rparr>"
  have t: "?k2\<lparr>k_catalog := snd (trim (x_H ?X) (x_trim ?X) TrimPerTick (k_catalog ?k2))\<rparr> = ?k2"
    by (simp add: trim_idle demoCrawl_def newCrawler_def newCatalog_def MaxCap_def)
  have s: "crawlSeed ?X ?k2 = ?k2\<lparr>k_lastSeedMs := 10000, k_draws := 8\<rparr>"
    by (simp add: seed_idle demoCrawl_def newCrawler_def demoCrawlEnv_def)
  let ?ks = "?k2\<lparr>k_lastSeedMs := 10000, k_draws := 8\<rparr>"
  obtain n where w: "widen ?X ?ks = ?ks\<lparr>k_widening := (k_widening ?ks)(IPv4 := True), k_draws := k_draws ?ks + 1,
      k_calls := (k_nextCall ?ks, WidenCall IPv4) # k_calls ?ks, k_nextCall := k_nextCall ?ks + 1, k_v4 := Some n\<rparr>"
    using widen_v4 [of ?ks demoNode ?X] by (auto simp: demoCrawl_def newCrawler_def)
  let ?k3 = "?ks\<lparr>k_widening := (k_widening ?ks)(IPv4 := True), k_draws := k_draws ?ks + 1,
      k_calls := (k_nextCall ?ks, WidenCall IPv4) # k_calls ?ks, k_nextCall := k_nextCall ?ks + 1, k_v4 := Some n\<rparr>"
  obtain full where d: "dispatchAll ?X ?k3 = ?k3\<lparr>k_lastTickFull := full\<rparr>"
    using dispatchAll_idle [of ?k3 ?X] by (auto simp: demoCrawl_def newCrawler_def)
  have due: "k_fresh ?k2 = [] \<and> k_deferred ?k2 = [] \<and> k_outstanding ?k2 = 0 \<and> x_now ?X - k_lastSeedMs ?k2 \<ge> SeedIntervalMs"
    by (simp add: demoCrawl_def newCrawler_def demoCrawlEnv_def SeedIntervalMs_def)
  have "crawlTick ?X demoCrawl = ?k3\<lparr>k_lastTickFull := full\<rparr>"
    unfolding crawlTick_def Let_def p t if_P [OF due] s w d by (simp add: demoCrawl_def newCrawler_def demoCrawlConfig_def)
  then show ?thesis by (simp add: demoCrawl_def newCrawler_def)
qed

definition demoFound :: compact_node where
  "demoFound = \<lparr>cn_id = replicate 20 9, cn_endpoint = mkEndpoint qt_doc (V4 0x05060708) 6881\<rparr>"

definition demoReport :: report where
  "demoReport = LookupReport 0 \<lparr>r_kind = FindNode, r_target = replicate 20 5,
     r_closest = [\<lparr>ct_id = cn_id demoFound, ct_endpoint = cn_endpoint demoFound, ct_token = []\<rparr>], r_peers = [], r_sightings = [],
     r_queried = 1, r_responded = 1, r_durationMs = 5, r_hops = 1,
     r_item = \<lparr>i_found = False, i_isMutable = False, i_value = [], i_publicKey = [], i_signature = [], i_sequence = 0\<rparr>\<rparr>"

definition demoLearned :: crawler where
  "demoLearned = runCall demoCrawlEnv demoReport ((crawlTick demoCrawlEnv demoCrawl)\<lparr>k_v4 := Some demoNode, k_v6 := None\<rparr>)"

lemma demoLearned_reachable: "crawlReachable demoLearned"
  unfolding demoLearned_def
proof (intro crawlReachable.reported crawlReachable.nodesWorked crawlReachable.ticked)
  show "crawlReachable demoCrawl" unfolding demoCrawl_def by (rule crawlReachable.created) (simp add: newCatalog_def)
qed (simp_all add: demo_tick)

lemma upsert_first:
  assumes "nc_table c = []" "nc_free c = []" "nc_entries c = []" "nc_size c = 0" "0 < nc_cap c"
  shows "\<exists>c'. upsert Q H rnd e now c = (Some 0, True, c') \<and>
    nc_entries c' = [newEntry (keyOfEndpoint Q e) (port e) (nc_nextGeneration c) (stamp now c)]"
  using assms by (simp add: upsert_def findIndex_def Let_def allocate_def stamp_def growTable_def)

lemma demoFound_address: "cn_endpoint demoFound = \<lparr>address = V4 0x05060708, port = 6881\<rparr>"
  by (simp add: demoFound_def mkEndpoint_def)

lemma demoFound_ok:
  "family qt_doc (cn_endpoint demoFound) = IPv4" "addressProblem qt_doc (cn_endpoint demoFound) False = NoProblem"
  "take 16 (keyOfEndpoint qt_doc (cn_endpoint demoFound)) = mappedPrefix @ [5, 6, 7, 8]"
proof -
  show "family qt_doc (cn_endpoint demoFound) = IPv4" by (simp add: demoFound_address family_def familyOf_def protocol_simps)
  show "take 16 (keyOfEndpoint qt_doc (cn_endpoint demoFound)) = mappedPrefix @ [5, 6, 7, 8]" by code_simp
  show "addressProblem qt_doc (cn_endpoint demoFound) False = NoProblem"
    by (simp add: demoFound_address addressProblem_def protocol_simps qt_doc_def AnyIPv4_def AnyIPv6_def isLocalAddress_def isReserved_def
        reservedSubnets_def localSubnets_def inSubnet_def ip4_def toIPv4Address_def Let_def)
qed

lemma demo_learn:
  fixes k :: crawler
  assumes "k_catalog k = newCatalog 10 0" "k_v4 k = Some demoNode" "k_v6 k = None" "cc_allowLocal (k_config k) = False"
  shows "\<exists>e. nc_entries (k_catalog (learnNode demoCrawlEnv demoFound k)) = [e] \<and> ce_inUse e \<and> ce_state e = NewEntry \<and> isIPv4Entry e \<and>
    k_v4 (learnNode demoCrawlEnv demoFound k) = Some demoNode \<and> k_fresh (learnNode demoCrawlEnv demoFound k) = k_fresh k @ [crawlRef 0 (learnNode demoCrawlEnv demoFound k)]"
proof -
  have ok: "\<not> (nodeFor (family (x_Q demoCrawlEnv) (cn_endpoint demoFound)) k = None \<or> isOwnId (cn_id demoFound) k)"
  proof -
    have "n_id demoNode \<noteq> cn_id demoFound" by (simp add: demoNode_def newNode_def demoFound_def nullId_def id_Size_def)
    with assms(2,3) show ?thesis by (simp add: demoCrawlEnv_def demoFound_ok nodeFor_def isOwnId_def)
  qed
  obtain c' where c': "upsert qt_doc (\<lambda>_. 0) (\<lambda>_. 0) (cn_endpoint demoFound) 10000 (newCatalog 10 0) = (Some 0, True, c')"
    "nc_entries c' = [newEntry (keyOfEndpoint qt_doc (cn_endpoint demoFound)) (port (cn_endpoint demoFound)) 1 (stamp 10000 (newCatalog 10 0))]"
    using upsert_first [of "newCatalog 10 0" qt_doc "\<lambda>_. 0" "\<lambda>_. 0" "cn_endpoint demoFound" 10000] by (auto simp: newCatalog_def MaxCap_def)
  have X: "x_Q demoCrawlEnv = qt_doc" "x_H demoCrawlEnv = (\<lambda>_. 0)" "x_evict demoCrawlEnv n = (\<lambda>_. 0)" "x_now demoCrawlEnv = 10000" for n
    by (simp_all add: demoCrawlEnv_def)
  have l: "learnNode demoCrawlEnv demoFound k = learnNew demoCrawlEnv demoFound 0
      (updEntry 0 (seenListed (stamp 10000 c')) (k\<lparr>k_catalog := c', k_draws := k_draws k + 1\<rparr>))"
    unfolding learnNode_def if_not_P [OF ok] unfolding X assms(1) by (simp add: c' Let_def)
  show ?thesis unfolding l
    by (simp add: learnNew_def X assms demoFound_ok Let_def updEntry_def entryOf_def c'(2) crawlRef_def isIPv4Entry_def newEntry_def seenListed_def emptyEntry_def
        mappedPrefix_def)
qed

lemma demoLearned_state:
  "k_calls demoLearned = [] \<and> length (nc_entries (k_catalog demoLearned)) = 1 \<and> ce_inUse (entryOf 0 demoLearned) \<and>
   ce_state (entryOf 0 demoLearned) = NewEntry \<and> entryFamily (entryOf 0 demoLearned) = IPv4 \<and> nodeFor IPv4 demoLearned \<noteq> None"
proof -
  let ?t = "(crawlTick demoCrawlEnv demoCrawl)\<lparr>k_v4 := Some demoNode, k_v6 := None\<rparr>"
  let ?k = "?t\<lparr>k_calls := [], k_widening := (k_widening ?t)(IPv4 := False)\<rparr>"
  have l: "demoLearned = learnNode demoCrawlEnv demoFound ?k"
    using demo_tick by (simp add: demoLearned_def demoReport_def runCall_def recordLookup_def Let_def demoFound_def)
  have "cc_allowLocal (k_config ?k) = False" using demo_tick by (simp add: demoCrawlConfig_def)
  then have "\<exists>e. nc_entries (k_catalog demoLearned) = [e] \<and> ce_inUse e \<and> ce_state e = NewEntry \<and> isIPv4Entry e \<and> k_v4 demoLearned = Some demoNode"
    unfolding l using demo_learn [of ?k] demo_tick by auto
  moreover have "ledger demoLearned = ledger ?k" unfolding l by (rule ledger_learnNode)
  ultimately show ?thesis by (auto simp: ledger_def entryOf_def entryFamily_def nodeFor_def)
qed

text \<open>The node learned waits to be asked for the first time.\<close>

theorem crawl_forgets_no_node_witness:
  "crawlRef 0 demoLearned \<in> set (k_fresh demoLearned) \<union> set (k_retry demoLearned) \<union> set (k_revisit demoLearned) \<union>
     set (k_revisitSilent demoLearned) \<union> fst ` set (k_deferred demoLearned)"
  using crawl_forgets_no_node [OF demoLearned_reachable, of 0] demoLearned_state by simp

theorem crawl_counts_exact_witness: "k_outstanding demoLearned = 0 \<and> k_estimating demoLearned IPv6 = 0 \<and> k_batch demoLearned \<le> 4000"
  using crawl_counts_exact [OF demoLearned_reachable, of IPv6] demoLearned_state by simp

end
