(* ===== verification/Census.thy ===== *)
theory Census
  imports DhtNode "HOL-Library.FuncSet"
begin

text \<open>
  \<^verbatim>\<open>dhtcore/include/dhtcore/Census.h\<close>, \<^verbatim>\<open>dhtcore/src/Census.cpp\<close>: the precise count, slice by slice. As in the scan, the
  state holds the nodes that queries go through, a callback is an entry of \<open>z_calls\<close> whose number the node reports with the
  reply, and what comes from outside is the record \<open>census_env\<close>. The hash map of the nodes of the slice is an association list
  in an order of its own. Doubles are exact: the probability of inclusion and the estimates are rational numbers. The
  confidence interval of \<open>summariseSlices\<close>, which takes square roots, is over the real numbers.
\<close>

definition SeedLookups :: nat where "SeedLookups = 3"
definition CensusQueuedPerHost :: nat where "CensusQueuedPerHost = 2"
definition MaxSliceBits :: int where "MaxSliceBits = 24"
definition NeighbourhoodExtraBits :: int where "NeighbourhoodExtraBits = 8"

record census_config =
  zc_slices :: int
  zc_sliceBits :: int
  zc_targetPerSlice :: int
  zc_defaultSliceBits :: int
  zc_maxOutstanding :: int
  zc_queryTimeoutMs :: int
  zc_failuresToGiveUp :: int
  zc_quietRoundsToFinish :: int
  zc_maxRounds :: int
  zc_allowLocal :: bool

definition defaultCensusConfig :: census_config where
  "defaultCensusConfig = \<lparr>zc_slices = 8, zc_sliceBits = - 1, zc_targetPerSlice = 2000, zc_defaultSliceBits = 12, zc_maxOutstanding = 256,
     zc_queryTimeoutMs = DefaultTimeoutMs, zc_failuresToGiveUp = 2, zc_quietRoundsToFinish = 2, zc_maxRounds = 10, zc_allowLocal = False\<rparr>"

datatype slice_state = SliceWaiting | SliceAsked | SliceAnswered | SliceSilent

record slice_node =
  sn_listedId :: node_id
  sn_answeredId :: node_id
  sn_state :: slice_state
  sn_failures :: "8 word"
  sn_answeredInSlice :: bool
  sn_askedInRound :: int

definition sliceNode :: "node_id \<Rightarrow> slice_node" where
  "sliceNode i = \<lparr>sn_listedId = i, sn_answeredId = nullId, sn_state = SliceWaiting, sn_failures = 0, sn_answeredInSlice = False, sn_askedInRound = - 1\<rparr>"

record census_slice =
  cs_family :: Family
  cs_bits :: int
  cs_prefix :: node_id
  cs_nodesHeard :: int
  cs_nodesAnswered :: int
  cs_ipsHeard :: int
  cs_ipsAnswered :: int
  cs_heardEstimate :: rat
  cs_connectedEstimate :: rat
  cs_rounds :: int
  cs_queries :: int
  cs_durationMs :: int

datatype census_state = CensusIdle | CensusRunning | CensusDone | CensusCancelled

datatype census_call = SliceCall nat endpoint | SeedCall nat

record census =
  z_config :: census_config
  z_v4 :: "dht_node option"
  z_v6 :: "dht_node option"
  z_state :: census_state
  z_plan :: "Family list"
  z_sizeHint :: "Family \<Rightarrow> rat"
  z_generation :: nat
  z_family :: Family
  z_bits :: int
  z_prefix :: node_id
  z_round :: int
  z_quietRounds :: int
  z_newThisRound :: int
  z_pendingLookups :: int
  z_sliceQueries :: int
  z_nodes :: "(endpoint \<times> slice_node) list"
  z_queue :: "endpoint list"
  z_outstanding :: int
  z_queries :: int
  z_elapsedMs :: int
  z_done :: "census_slice list"
  z_clock :: int
  z_sliceClock :: int
  z_finished :: nat
  z_calls :: "(nat \<times> census_call) list"
  z_nextCall :: nat
  z_draws :: nat

record census_env =
  y_now :: int
  y_Q :: qt_net
  y_node :: "Family \<Rightarrow> env"
  y_catalog :: catalog
  y_ids :: "nat \<Rightarrow> node_id"

definition newCensus :: "census_config \<Rightarrow> dht_node option \<Rightarrow> dht_node option \<Rightarrow> census" where
  "newCensus cfg v4 v6 = \<lparr>z_config = cfg, z_v4 = v4, z_v6 = v6, z_state = CensusIdle, z_plan = [], z_sizeHint = (\<lambda>_. 0), z_generation = 0,
     z_family = IPv4, z_bits = 0, z_prefix = nullId, z_round = 0, z_quietRounds = 0, z_newThisRound = 0, z_pendingLookups = 0,
     z_sliceQueries = 0, z_nodes = [], z_queue = [], z_outstanding = 0, z_queries = 0, z_elapsedMs = 0, z_done = [], z_clock = 0,
     z_sliceClock = 0, z_finished = 0, z_calls = [], z_nextCall = 0, z_draws = 0\<rparr>"

section \<open>Statistics\<close>

definition sliceInclusionProbability :: "int \<Rightarrow> int \<Rightarrow> rat" where
  "sliceInclusionProbability ids bits = (if ids \<le> 0 then 0 else if bits \<le> 0 then 1 else 1 - (1 - 1 / 2 ^ nat bits) ^ nat ids)"

definition tTable :: "real list" where
  "tTable = [12.706, 4.303, 3.182, 2.776, 2.571, 2.447, 2.365, 2.306, 2.262, 2.228,
     2.201, 2.179, 2.160, 2.145, 2.131, 2.120, 2.110, 2.101, 2.093, 2.086,
     2.080, 2.074, 2.069, 2.064, 2.060, 2.056, 2.052, 2.048, 2.045, 2.042]"

definition tValue :: "int \<Rightarrow> real" where
  "tValue df = (if df < 1 then 0 else if df \<le> 30 then tTable ! nat (df - 1) else 1.96)"

definition summariseSlices :: "real list \<Rightarrow> real \<times> real \<times> real" where
  "summariseSlices estimates =
     (let n = length estimates;
          m = (if n > 0 then sum_list estimates / real n else 0);
          squares = sum_list (map (\<lambda>e. (e - m) * (e - m)) estimates);
          half = (if n > 1 then tValue (int n - 1) * sqrt (squares / real (n - 1)) / sqrt (real n) else 0)
      in (m, max 0 (m - half), m + half))"

section \<open>Nodes and callbacks\<close>

definition censusNode :: "Family \<Rightarrow> census \<Rightarrow> dht_node option" where
  "censusNode fam z = (if fam = IPv4 then z_v4 z else z_v6 z)"

definition currentNode :: "census \<Rightarrow> dht_node option" where
  "currentNode z = censusNode (z_family z) z"

definition withCurrent :: "(dht_node \<Rightarrow> dht_node) \<Rightarrow> census \<Rightarrow> census" where
  "withCurrent f z = (if z_family z = IPv4 then z\<lparr>z_v4 := map_option f (z_v4 z)\<rparr> else z\<lparr>z_v6 := map_option f (z_v6 z)\<rparr>)"

definition censusCall :: "census_call \<Rightarrow> census \<Rightarrow> nat \<times> census" where
  "censusCall call z = (z_nextCall z, z\<lparr>z_calls := (z_nextCall z, call) # z_calls z, z_nextCall := z_nextCall z + 1\<rparr>)"

definition censusId :: "census_env \<Rightarrow> census \<Rightarrow> node_id \<times> census" where
  "censusId Y z = (y_ids Y (z_draws z), z\<lparr>z_draws := z_draws z + 1\<rparr>)"

text \<open>A random identifier inside the slice.\<close>

definition sliceTarget :: "census_env \<Rightarrow> census \<Rightarrow> node_id \<times> census" where
  "sliceTarget Y z = (let (rid, z1) = censusId Y z in (randomWithPrefix rid (z_prefix z) (z_bits z) False, z1))"

section \<open>Slices\<close>

definition inSlice :: "node_id \<Rightarrow> census \<Rightarrow> bool" where
  "inSlice i z \<longleftrightarrow> int (commonPrefixLength i (z_prefix z)) \<ge> z_bits z"

definition chooseBits :: "Family \<Rightarrow> census \<Rightarrow> int" where
  "chooseBits fam z =
     (let cfg = z_config z; n = z_sizeHint z fam
      in if zc_sliceBits cfg \<ge> 0 then min (zc_sliceBits cfg) MaxSliceBits
         else if \<not> n > 0 then zc_defaultSliceBits cfg
         else max 0 (min (round (log 2 (real_of_rat (n / of_int (max 1 (zc_targetPerSlice cfg)))))) MaxSliceBits))"

definition censusConsider :: "census_env \<Rightarrow> node_id \<Rightarrow> endpoint \<Rightarrow> census \<Rightarrow> census" where
  "censusConsider Y i e z =
     (if family (y_Q Y) e \<noteq> z_family z \<or> \<not> inSlice i z then z
      else if \<not> isUsableRemote (y_Q Y) e (zc_allowLocal (z_config z)) then z
      else if map_option n_id (currentNode z) = Some i then z
      else if map_of (z_nodes z) e \<noteq> None then z
      else z\<lparr>z_nodes := AList.update e (sliceNode i) (z_nodes z), z_newThisRound := z_newThisRound z + 1, z_queue := z_queue z @ [e]\<rparr>)"

definition beginRound :: "census \<Rightarrow> census" where
  "beginRound z = z\<lparr>z_round := z_round z + 1, z_newThisRound := 0,
     z_queue := z_queue z @ map fst (filter (\<lambda>(e, n). sn_state n = SliceAnswered) (z_nodes z))\<rparr>"

text \<open>What the catalogue knows about the slice.\<close>

definition knownInSlice :: "census_env \<Rightarrow> census \<Rightarrow> (node_id \<times> endpoint) list" where
  "knownInSlice Y z = map (\<lambda>e. (ce_id e, entryEndpoint (y_Q Y) e))
     (filter (\<lambda>e. ce_inUse e \<and> entryFamily e = z_family z \<and> ce_state e \<noteq> Unroutable \<and> inSlice (ce_id e) z) (nc_entries (y_catalog Y)))"

definition seedLookup :: "census_env \<Rightarrow> census \<Rightarrow> census" where
  "seedLookup Y z =
     (let (target, z1) = sliceTarget Y (z\<lparr>z_pendingLookups := z_pendingLookups z + 1\<rparr>);
          (d, z2) = censusCall (SeedCall (z_generation z1)) z1
      in withCurrent (findNode (y_node Y (z_family z2)) target d) z2)"

definition seedSlice :: "census_env \<Rightarrow> census \<Rightarrow> census" where
  "seedSlice Y z =
     (let z1 = fold (\<lambda>(i, e). censusConsider Y i e) (knownInSlice Y z) z;
          (target, z2) = sliceTarget Y z1;
          near = (case currentNode z2 of None \<Rightarrow> [] | Some n \<Rightarrow> closestNodes target 8 n);
          z3 = fold (\<lambda>c. censusConsider Y (cn_id c) (cn_endpoint c)) near z2
      in (seedLookup Y ^^ SeedLookups) z3)"

definition finishAll :: "census_env \<Rightarrow> census_state \<Rightarrow> census \<Rightarrow> census" where
  "finishAll Y st z = z\<lparr>z_state := st, z_plan := [], z_queue := [], z_nodes := [], z_outstanding := 0, z_pendingLookups := 0,
     z_generation := z_generation z + 1, z_elapsedMs := y_now Y - z_clock z, z_finished := z_finished z + 1\<rparr>"

text \<open>The loop of \<open>startSlice\<close>: families without a node are passed over.\<close>

fun takeFamily :: "census \<Rightarrow> Family list \<Rightarrow> bool \<times> census" where
  "takeFamily z [] = (False, z\<lparr>z_plan := []\<rparr>)"
| "takeFamily z (f # plan) =
     (let z1 = z\<lparr>z_family := f, z_plan := plan\<rparr> in if currentNode z1 \<noteq> None then (True, z1) else takeFamily z1 plan)"

definition startSlice :: "census_env \<Rightarrow> census \<Rightarrow> census" where
  "startSlice Y z =
     (let (found, z1) = takeFamily z (z_plan z)
      in if \<not> found then finishAll Y CensusDone z1
         else let (prefix, z2) = censusId Y z1
              in seedSlice Y (beginRound (z2\<lparr>z_generation := z_generation z2 + 1, z_bits := chooseBits (z_family z2) z2, z_prefix := prefix,
                   z_round := 0, z_quietRounds := 0, z_newThisRound := 0, z_pendingLookups := 0, z_sliceQueries := 0, z_outstanding := 0,
                   z_nodes := [], z_queue := [], z_sliceClock := y_now Y\<rparr>)))"

definition isRunning :: "census \<Rightarrow> bool" where
  "isRunning z \<longleftrightarrow> z_state z = CensusRunning"

definition censusStart :: "census_env \<Rightarrow> rat \<Rightarrow> rat \<Rightarrow> census \<Rightarrow> census" where
  "censusStart Y nodesV4 nodesV6 z =
     (if isRunning z then z
      else let slices = nat (zc_slices (z_config z));
               plan = concat (map (\<lambda>fam. if censusNode fam z \<noteq> None then replicate slices fam else []) [IPv4, IPv6])
           in startSlice Y (z\<lparr>z_plan := plan, z_sizeHint := (\<lambda>fam. if fam = IPv4 then nodesV4 else nodesV6), z_done := [], z_queries := 0,
                z_elapsedMs := 0, z_state := CensusRunning, z_clock := y_now Y\<rparr>))"

definition censusCancel :: "census_env \<Rightarrow> census \<Rightarrow> census" where
  "censusCancel Y z = (if isRunning z then finishAll Y CensusCancelled z else z)"

section \<open>Counting\<close>

definition censusKeyOf :: "qt_net \<Rightarrow> host_address \<Rightarrow> bytes" where
  "censusKeyOf Q a = (if isIPv4Protocol a then replicate 10 0 @ [0xff, 0xff] @ be32 (toIPv4Address a) else toIPv6Address Q a)"

record slice_address =
  sa_ids :: "node_id list"
  sa_answered :: bool

definition addSliceId :: "node_id \<Rightarrow> node_id list \<Rightarrow> node_id list" where
  "addSliceId i ids = (if i \<in> set ids then ids else ids @ [i])"

definition lookupAddress :: "bytes \<Rightarrow> (bytes \<times> slice_address) list \<Rightarrow> slice_address" where
  "lookupAddress key m = (case map_of m key of None \<Rightarrow> \<lparr>sa_ids = [], sa_answered = False\<rparr> | Some a \<Rightarrow> a)"

definition counted :: "slice_node \<Rightarrow> bool" where
  "counted n \<longleftrightarrow> sn_state n = SliceAnswered \<and> sn_answeredInSlice n"

definition tallyNode :: "qt_net \<Rightarrow> endpoint \<times> slice_node \<Rightarrow> (bytes \<times> slice_address) list \<Rightarrow> (bytes \<times> slice_address) list" where
  "tallyNode Q en m =
     (case en of (e, n) \<Rightarrow>
        let key = censusKeyOf Q (address e); a = lookupAddress key m;
            a1 = a\<lparr>sa_ids := addSliceId (sn_listedId n) (sa_ids a)\<rparr>;
            a2 = (if counted n then a1\<lparr>sa_answered := True, sa_ids := addSliceId (sn_answeredId n) (sa_ids a1)\<rparr> else a1)
        in AList.update key a2 m)"

definition sliceAddresses :: "census_env \<Rightarrow> census \<Rightarrow> (bytes \<times> slice_address) list" where
  "sliceAddresses Y z = fold (tallyNode (y_Q Y)) (z_nodes z) []"

definition knownIds :: "census_env \<Rightarrow> (bytes \<times> slice_address) list \<Rightarrow> (bytes \<times> node_id list) list" where
  "knownIds Y addresses =
     fold (\<lambda>e m. if ce_inUse e \<and> map_of addresses (ce_address e) \<noteq> None
         then AList.update (ce_address e) (addSliceId (ce_id e) (case map_of m (ce_address e) of None \<Rightarrow> [] | Some ids \<Rightarrow> ids)) m else m)
       (nc_entries (y_catalog Y)) []"

definition sliceWeight :: "int \<Rightarrow> (bytes \<times> node_id list) list \<Rightarrow> bytes \<times> slice_address \<Rightarrow> rat" where
  "sliceWeight bits known ka =
     (case ka of (key, a) \<Rightarrow>
        let ids = max (length (sa_ids a)) (case map_of known key of None \<Rightarrow> 0 | Some is \<Rightarrow> length is)
        in 1 / sliceInclusionProbability (max 1 (int ids)) bits)"

definition countSlice :: "census_env \<Rightarrow> census \<Rightarrow> census_slice" where
  "countSlice Y z =
     (let addresses = sliceAddresses Y z; known = knownIds Y addresses; up = filter (\<lambda>(key, a). sa_answered a) addresses
      in \<lparr>cs_family = z_family z, cs_bits = z_bits z, cs_prefix = z_prefix z,
          cs_nodesHeard = int (length (z_nodes z)), cs_nodesAnswered = int (length (filter (\<lambda>(e, n). counted n) (z_nodes z))),
          cs_ipsHeard = int (length addresses), cs_ipsAnswered = int (length up),
          cs_heardEstimate = sum_list (map (sliceWeight (z_bits z) known) addresses),
          cs_connectedEstimate = sum_list (map (sliceWeight (z_bits z) known) up),
          cs_rounds = z_round z, cs_queries = z_sliceQueries z, cs_durationMs = y_now Y - z_sliceClock z\<rparr>)"

definition finishSlice :: "census_env \<Rightarrow> census \<Rightarrow> census" where
  "finishSlice Y z = z\<lparr>z_done := z_done z @ [countSlice Y z]\<rparr>"

section \<open>Asking\<close>

definition censusAsk :: "census_env \<Rightarrow> endpoint \<Rightarrow> census \<Rightarrow> census" where
  "censusAsk Y e z =
     (case map_of (z_nodes z) e of
        None \<Rightarrow> z
      | Some n \<Rightarrow>
          let firstContact = (sn_state n = SliceWaiting \<and> sn_askedInRound n < 0);
              n1 = n\<lparr>sn_state := (if sn_state n = SliceAnswered then SliceAnswered else SliceAsked), sn_askedInRound := z_round z\<rparr>;
              z1 = z\<lparr>z_nodes := AList.update e n1 (z_nodes z)\<rparr>;
              (rid, z2) = censusId Y z1;
              target = (if firstContact then randomWithPrefix rid (sn_listedId n) (min (z_bits z + NeighbourhoodExtraBits) (int id_Bits)) False
                        else randomWithPrefix rid (z_prefix z) (z_bits z) False);
              z3 = z2\<lparr>z_outstanding := z_outstanding z2 + 1, z_queries := z_queries z2 + 1, z_sliceQueries := z_sliceQueries z2 + 1\<rparr>;
              (d, z4) = censusCall (SliceCall (z_generation z3) e) z3
          in withCurrent (probe (y_node Y (z_family z4)) e (ascii ''find_node'')
               (emplace (ascii ''target'') (mkString (toBytes target)) []) d (zc_queryTimeoutMs (z_config z4))) z4)"

fun censusDispatch :: "census_env \<Rightarrow> nat \<Rightarrow> census \<Rightarrow> census" where
  "censusDispatch Y 0 z = z"
| "censusDispatch Y (Suc left) z =
     (if z_outstanding z \<ge> zc_maxOutstanding (z_config z) then z
      else case z_queue z of
        [] \<Rightarrow> z
      | e # rest \<Rightarrow>
          let z1 = z\<lparr>z_queue := rest\<rparr>
          in if (case currentNode z of None \<Rightarrow> False | Some n \<Rightarrow> queuedFor (address e) (n_rpc n) \<ge> CensusQueuedPerHost)
             then censusDispatch Y left (z1\<lparr>z_queue := rest @ [e]\<rparr>)
             else censusDispatch Y left (censusAsk Y e z1))"

definition roundOver :: "census_env \<Rightarrow> census \<Rightarrow> census" where
  "roundOver Y z =
     (let z1 = z\<lparr>z_quietRounds := (if z_newThisRound z = 0 then z_quietRounds z + 1 else 0)\<rparr>
      in if z_quietRounds z1 \<ge> zc_quietRoundsToFinish (z_config z1) \<or> z_round z1 \<ge> zc_maxRounds (z_config z1)
         then startSlice Y (finishSlice Y z1)
         else beginRound z1)"

definition censusTick :: "census_env \<Rightarrow> census \<Rightarrow> census" where
  "censusTick Y z =
     (if \<not> isRunning z then z
      else if currentNode z = None then finishAll Y CensusCancelled z
      else let z1 = censusDispatch Y (length (z_queue z)) z
           in if z_queue z1 \<noteq> [] \<or> z_outstanding z1 > 0 \<or> z_pendingLookups z1 > 0 then z1 else roundOver Y z1)"

section \<open>Replies\<close>

definition censusTimeout :: "endpoint \<Rightarrow> slice_node \<Rightarrow> census \<Rightarrow> census" where
  "censusTimeout e n z =
     (if sn_state n = SliceAnswered then z
      else let n1 = n\<lparr>sn_failures := sn_failures n + 1\<rparr>
           in if uint (sn_failures n1) \<ge> zc_failuresToGiveUp (z_config z)
              then z\<lparr>z_nodes := AList.update e (n1\<lparr>sn_state := SliceSilent\<rparr>) (z_nodes z)\<rparr>
              else z\<lparr>z_nodes := AList.update e (n1\<lparr>sn_state := SliceWaiting\<rparr>) (z_nodes z), z_queue := z_queue z @ [e]\<rparr>)"

definition censusThrottled :: "endpoint \<Rightarrow> slice_node \<Rightarrow> census \<Rightarrow> census" where
  "censusThrottled e n z = z\<lparr>z_nodes := AList.update e (if sn_state n \<noteq> SliceAnswered then n\<lparr>sn_state := SliceWaiting\<rparr> else n) (z_nodes z),
     z_queue := z_queue z @ [e]\<rparr>"

definition censusAnswered :: "rpc_reply \<Rightarrow> slice_node \<Rightarrow> census \<Rightarrow> slice_node" where
  "censusAnswered reply n z =
     (let n1 = n\<lparr>sn_state := SliceAnswered, sn_failures := 0\<rparr>
      in case senderId (rr_message reply) of
           None \<Rightarrow> n1\<lparr>sn_answeredInSlice := inSlice (sn_listedId n1) z\<rparr>
         | Some i \<Rightarrow> n1\<lparr>sn_answeredId := i, sn_answeredInSlice := inSlice i z\<rparr>)"

definition onCensusReply :: "census_env \<Rightarrow> nat \<Rightarrow> endpoint \<Rightarrow> rpc_reply \<Rightarrow> census \<Rightarrow> census" where
  "onCensusReply Y generation e reply z =
     (if generation \<noteq> z_generation z then z
      else let z1 = z\<lparr>z_outstanding := z_outstanding z - 1\<rparr>
           in case map_of (z_nodes z1) e of
                None \<Rightarrow> z1
              | Some n \<Rightarrow>
                  (case rr_status reply of
                     Throttled \<Rightarrow> censusThrottled e n z1
                   | Timeout \<Rightarrow> censusTimeout e n z1
                   | _ \<Rightarrow>
                     let z2 = z1\<lparr>z_nodes := AList.update e (censusAnswered reply n z1) (z_nodes z1)\<rparr>
                     in if rr_status reply \<noteq> ResponseReply then z2
                        else fold (\<lambda>c. censusConsider Y (cn_id c) (cn_endpoint c))
                               (foundNodes (y_Q Y) (z_family z2) (body (rr_message reply))) z2))"

definition onSeedLookup :: "census_env \<Rightarrow> nat \<Rightarrow> lookup_result \<Rightarrow> census \<Rightarrow> census" where
  "onSeedLookup Y generation result z =
     (if generation \<noteq> z_generation z then z
      else fold (\<lambda>c. censusConsider Y (ct_id c) (ct_endpoint c)) (r_closest result) (z\<lparr>z_pendingLookups := z_pendingLookups z - 1\<rparr>))"

definition censusReport :: "census_env \<Rightarrow> report \<Rightarrow> census \<Rightarrow> census" where
  "censusReport Y rep z =
     (case rep of
        ProbeReport d reply \<Rightarrow>
          (case map_of (z_calls z) d of
             Some (SliceCall g e) \<Rightarrow> onCensusReply Y g e reply (z\<lparr>z_calls := AList.delete d (z_calls z)\<rparr>)
           | _ \<Rightarrow> z)
      | LookupReport d result \<Rightarrow>
          (case map_of (z_calls z) d of
             Some (SeedCall g) \<Rightarrow> onSeedLookup Y g result (z\<lparr>z_calls := AList.delete d (z_calls z)\<rparr>)
           | _ \<Rightarrow> z)
      | WriteReport d accepted attempted \<Rightarrow> z)"

text \<open>What the view shows of the slices; the totals are those of one family.\<close>

definition slicesTotal :: "census \<Rightarrow> int" where
  "slicesTotal z = int (length (z_done z)) + int (length (z_plan z)) + (if isRunning z then 1 else 0)"

definition censusAnsweredCount :: "census \<Rightarrow> int" where
  "censusAnsweredCount z = (if isRunning z then int (length (filter (\<lambda>(e, n). counted n) (z_nodes z))) else 0)"

definition familyTotals :: "Family \<Rightarrow> census \<Rightarrow> int \<times> (real \<times> real \<times> real) \<times> (real \<times> real \<times> real)" where
  "familyTotals fam z =
     (let slices = filter (\<lambda>s. cs_family s = fam) (z_done z)
      in (int (length slices), summariseSlices (map (\<lambda>s. real_of_rat (cs_heardEstimate s)) slices),
          summariseSlices (map (\<lambda>s. real_of_rat (cs_connectedEstimate s)) slices)))"

end
