(* ===== verification/CensusCorrect.thy ===== *)
theory CensusCorrect
  imports Census CrawlerCorrect
begin

text \<open>
  The census: its slices are complete when they are counted, it comes to an end, its counts are counts of addresses, and its
  weights are the inverse of the probability they claim to be.
\<close>

section \<open>The probability of inclusion\<close>

lemma inclusion_bounds:
  assumes "1 \<le> ids"
  shows "1 / 2 ^ nat bits \<le> sliceInclusionProbability ids bits" "0 < sliceInclusionProbability ids bits" "sliceInclusionProbability ids bits \<le> 1"
proof -
  let ?q = "1 / 2 ^ nat bits :: rat"
  have q: "0 < ?q" "?q \<le> 1" by simp_all
  show "?q \<le> sliceInclusionProbability ids bits"
  proof (cases "bits \<le> 0")
    case False
    obtain m where m: "nat ids = Suc m" using assms by (cases "nat ids") auto
    have "(1 - ?q) * (1 - ?q) ^ m \<le> 1 - ?q" by (rule mult_left_le) (use q in \<open>simp_all add: power_le_one\<close>)
    then have "?q \<le> 1 - (1 - ?q) ^ nat ids" unfolding m by simp
    with False assms show ?thesis by (simp add: sliceInclusionProbability_def)
  qed (use assms in \<open>simp add: sliceInclusionProbability_def\<close>)
  with q(1) show "0 < sliceInclusionProbability ids bits" by (rule less_le_trans)
  show "sliceInclusionProbability ids bits \<le> 1" using q by (simp add: sliceInclusionProbability_def)
qed

text \<open>C12: The probability the weights are taken from is exact: of all the ways in which \<open>n\<close> nodes can fall into the \<open>2 ^ b\<close> slices of
  the identifier space, it is the share of those in which at least one of them falls into a given slice.\<close>

theorem slice_probability_exact:
  fixes s b n :: nat
  assumes "s < 2 ^ b"
  shows "of_nat (card {f \<in> {..<n} \<rightarrow>\<^sub>E {..<2 ^ b}. \<exists>i<n. f i = s}) / of_nat (card ({..<n} \<rightarrow>\<^sub>E {..<2 ^ b :: nat})) =
    sliceInclusionProbability (int n) (int b)"
proof -
  let ?all = "{..<n} \<rightarrow>\<^sub>E {..<2 ^ b :: nat}" and ?none = "{..<n} \<rightarrow>\<^sub>E ({..<2 ^ b} - {s})"
  have card: "card ?all = (2 ^ b) ^ n" "card ?none = (2 ^ b - 1) ^ n"
    using assms by (simp_all add: card_PiE)
  have split: "{f \<in> ?all. \<exists>i<n. f i = s} = ?all - ?none" unfolding set_eq_iff mem_Collect_eq Diff_iff PiE_iff by blast
  have "?none \<subseteq> ?all" by (rule PiE_mono) simp
  then have "card {f \<in> ?all. \<exists>i<n. f i = s} = (2 ^ b) ^ n - (2 ^ b - 1) ^ n"
    unfolding split by (subst card_Diff_subset) (simp_all add: card finite_PiE)
  then have "of_nat (card {f \<in> ?all. \<exists>i<n. f i = s}) / of_nat (card ?all) = (((2 ^ b) ^ n - (2 ^ b - 1) ^ n) / (2 ^ b) ^ n :: rat)"
    unfolding card by (simp add: of_nat_diff power_mono)
  also have "\<dots> = 1 - ((2 ^ b - 1) / 2 ^ b) ^ n" by (subst power_divide, subst diff_divide_distrib) simp
  also have "\<dots> = sliceInclusionProbability (int n) (int b)"
    by (cases "n = 0"; cases "b = 0") (simp_all add: sliceInclusionProbability_def diff_divide_distrib power_0_left)
  finally show ?thesis .
qed

theorem slice_probability_exact_witness:
  "of_nat (card {f \<in> {..<2 :: nat} \<rightarrow>\<^sub>E {..<2 ^ 3 :: nat}. \<exists>i<2. f i = 5}) / of_nat (card ({..<2 :: nat} \<rightarrow>\<^sub>E {..<2 ^ 3 :: nat})) = (15 / 64 :: rat)"
proof -
  have "sliceInclusionProbability (int 2) (int 3) = 15 / 64" by (simp add: sliceInclusionProbability_def power2_eq_square)
  with slice_probability_exact [of 5 3 2] show ?thesis by simp
qed

section \<open>The counts\<close>

abbreviation nodeKey :: "qt_net \<Rightarrow> endpoint \<times> slice_node \<Rightarrow> bytes" where
  "nodeKey Q en \<equiv> censusKeyOf Q (address (fst en))"

lemma tallyNode_keys: "fst ` set (tallyNode Q en m) = insert (nodeKey Q en) (fst ` set m)"
  by (cases en) (simp add: tallyNode_def Let_def dom_update)

lemma tally_distinct: "distinct (map fst m) \<Longrightarrow> distinct (map fst (fold (tallyNode Q) ns m))"
  by (induction ns arbitrary: m) (auto simp: tallyNode_def Let_def distinct_update split: prod.split)

lemma tally_keys: "fst ` set (fold (tallyNode Q) ns m) = nodeKey Q ` set ns \<union> fst ` set m"
  by (induction ns arbitrary: m) (auto simp: tallyNode_keys)

text \<open>An address counts as answering when one of its nodes is counted.\<close>

lemma tally_answered:
  assumes "distinct (map fst m)"
  shows "sa_answered (lookupAddress key (fold (tallyNode Q) ns m)) \<longleftrightarrow>
    sa_answered (lookupAddress key m) \<or> (\<exists>en \<in> set ns. nodeKey Q en = key \<and> counted (snd en))"
  using assms
proof (induction ns arbitrary: m)
  case (Cons en ns)
  have d: "distinct (map fst (tallyNode Q en m))" using Cons.prems by (simp add: tallyNode_def Let_def distinct_update split: prod.split)
  have "sa_answered (lookupAddress key (tallyNode Q en m)) \<longleftrightarrow> sa_answered (lookupAddress key m) \<or> nodeKey Q en = key \<and> counted (snd en)"
    by (cases en) (auto simp: tallyNode_def Let_def lookupAddress_def update_conv' split: option.splits)
  with Cons.IH [OF d] show ?case by auto
qed simp

lemma sum_list_bounds:
  fixes f :: "'a \<Rightarrow> rat"
  assumes "\<And>x. x \<in> set xs \<Longrightarrow> l \<le> f x" "\<And>x. x \<in> set xs \<Longrightarrow> f x \<le> u"
  shows "of_nat (length xs) * l \<le> sum_list (map f xs) \<and> sum_list (map f xs) \<le> of_nat (length xs) * u"
  using assms by (induction xs) (fastforce simp: algebra_simps)+

lemma sum_list_filter_le:
  fixes f :: "'a \<Rightarrow> rat"
  assumes "\<And>x. x \<in> set xs \<Longrightarrow> 0 \<le> f x"
  shows "sum_list (map f (filter P xs)) \<le> sum_list (map f xs)"
  using assms by (induction xs) (auto intro: add_increasing)

lemma weight_bounds: "1 \<le> sliceWeight bits known ka \<and> sliceWeight bits known ka \<le> 2 ^ nat bits"
proof -
  obtain key a where ka: "ka = (key, a)" by fastforce
  let ?n = "max 1 (int (max (length (sa_ids a)) (case map_of known key of None \<Rightarrow> 0 | Some is \<Rightarrow> length is)))"
  have "1 \<le> ?n" by simp
  note b = inclusion_bounds [OF this, of bits]
  have "1 \<le> 1 / sliceInclusionProbability ?n bits" using b(2,3) by (simp add: le_divide_eq)
  moreover have "1 / sliceInclusionProbability ?n bits \<le> 2 ^ nat bits"
  proof -
    have "1 / sliceInclusionProbability ?n bits \<le> 1 / (1 / 2 ^ nat bits)" using b(1,2) by (intro divide_left_mono) simp_all
    then show ?thesis by simp
  qed
  ultimately show ?thesis by (simp add: sliceWeight_def ka Let_def)
qed

lemma card_image_list: "card (f ` set xs) \<le> length xs"
  by (rule order_trans [OF card_image_le card_length]) simp

lemma card_keys: "distinct (map fst m) \<Longrightarrow> card (fst ` set m) = length m"
  by (metis card_image distinct_card distinct_map length_map set_map)

text \<open>C11: What a slice reports are counts of addresses: the distinct addresses heard of and those with a node that answered with an
  identifier of the slice, none more than the nodes; and the estimates scale each address up by at least one and at most the
  number of slices.\<close>

theorem slice_counts_addresses:
  "let s = countSlice Y z; key = (\<lambda>en. censusKeyOf (y_Q Y) (address (fst en)))
   in cs_ipsHeard s = int (card (key ` set (z_nodes z))) \<and>
    cs_ipsAnswered s = int (card (key ` {en \<in> set (z_nodes z). counted (snd en)})) \<and>
    cs_ipsAnswered s \<le> cs_ipsHeard s \<and> cs_ipsHeard s \<le> cs_nodesHeard s \<and> cs_ipsAnswered s \<le> cs_nodesAnswered s \<and>
    cs_nodesAnswered s \<le> cs_nodesHeard s \<and>
    of_int (cs_ipsHeard s) \<le> cs_heardEstimate s \<and> cs_heardEstimate s \<le> of_int (cs_ipsHeard s) * 2 ^ nat (z_bits z) \<and>
    of_int (cs_ipsAnswered s) \<le> cs_connectedEstimate s \<and> cs_connectedEstimate s \<le> cs_heardEstimate s"
proof -
  define s where "s = countSlice Y z"
  define key where "key = (\<lambda>en :: endpoint \<times> slice_node. censusKeyOf (y_Q Y) (address (fst en)))"
  let ?m = "sliceAddresses Y z" let ?up = "filter (\<lambda>(key, a). sa_answered a) ?m" let ?w = "sliceWeight (z_bits z) (knownIds Y ?m)"
  let ?counted = "{en \<in> set (z_nodes z). counted (snd en)}"
  have d: "distinct (map fst ?m)" unfolding sliceAddresses_def by (rule tally_distinct) simp
  have heard: "fst ` set ?m = key ` set (z_nodes z)" by (simp add: sliceAddresses_def tally_keys key_def)
  have up: "fst ` set ?up = key ` ?counted"
  proof -
    have "k \<in> fst ` set ?up \<longleftrightarrow> sa_answered (lookupAddress k ?m)" for k
    proof (cases "map_of ?m k")
      case None
      then have "k \<notin> fst ` set ?m" by (simp add: map_of_eq_None_iff)
      then have "k \<notin> fst ` set ?up" by auto
      with None show ?thesis by (simp add: lookupAddress_def)
    next
      case (Some a)
      then have "(k, b) \<in> set ?m \<longleftrightarrow> b = a" for b using d by (metis map_of_eq_Some_iff option.inject)
      then have "k \<in> fst ` set ?up \<longleftrightarrow> sa_answered a" by (force simp: image_iff)
      with Some show ?thesis by (simp add: lookupAddress_def)
    qed
    moreover have "sa_answered (lookupAddress k ?m) \<longleftrightarrow> k \<in> key ` ?counted" for k
      unfolding sliceAddresses_def by (subst tally_answered) (auto simp: key_def lookupAddress_def)
    ultimately show ?thesis by blast
  qed
  have du: "distinct (map fst ?up)" by (rule distinct_map_filter [OF d])
  have n: "cs_ipsHeard s = int (card (key ` set (z_nodes z)))" "cs_ipsAnswered s = int (card (key ` ?counted))"
    using card_keys [OF d] card_keys [OF du] unfolding heard up by (simp_all add: s_def countSlice_def Let_def)
  have "card (key ` ?counted) \<le> card (key ` set (z_nodes z))" by (intro card_mono) auto
  moreover have "card (key ` set (z_nodes z)) \<le> length (z_nodes z)" by (rule card_image_list)
  moreover have "card (key ` ?counted) \<le> length (filter (\<lambda>(e, n). counted n) (z_nodes z))"
  proof -
    have "?counted = set (filter (\<lambda>(e, n). counted n) (z_nodes z))" by auto
    then show ?thesis by (simp only: card_image_list)
  qed
  moreover have "of_nat (length ?m) * 1 \<le> sum_list (map ?w ?m) \<and> sum_list (map ?w ?m) \<le> of_nat (length ?m) * 2 ^ nat (z_bits z)"
    by (rule sum_list_bounds) (simp_all add: weight_bounds)
  moreover have "of_nat (length ?up) * 1 \<le> sum_list (map ?w ?up)"
    by (rule conjunct1 [OF sum_list_bounds [where u = "2 ^ nat (z_bits z)"]]) (simp_all add: weight_bounds)
  moreover have "sum_list (map ?w ?up) \<le> sum_list (map ?w ?m)"
  proof (rule sum_list_filter_le)
    show "0 \<le> ?w x" for x using weight_bounds [of "z_bits z" "knownIds Y ?m" x] by linarith
  qed
  moreover have "cs_heardEstimate s = sum_list (map ?w ?m)" "cs_connectedEstimate s = sum_list (map ?w ?up)"
    "cs_nodesHeard s = int (length (z_nodes z))" "cs_nodesAnswered s = int (length (filter (\<lambda>(e, n). counted n) (z_nodes z)))"
    "cs_ipsHeard s = int (length ?m)" "cs_ipsAnswered s = int (length ?up)"
    by (simp_all only: s_def countSlice_def Let_def census_slice.select_convs)
  ultimately show ?thesis using n unfolding Let_def s_def [symmetric] key_def [symmetric] by simp
qed

text \<open>A node that answers with an error gives no identifier, and the count still adds the one kept for it, which is null: the address
  passes for one with two nodes and is scaled up by half of what it should be, nearly.\<close>

lemma error_answer_counts_null_id:
  assumes "senderId (rr_message reply) = None" "inSlice i z" "i \<noteq> nullId"
  shows "tallyNode Q (e, censusAnswered reply (sliceNode i) z) [] = [(censusKeyOf Q (address e), \<lparr>sa_ids = [i, nullId], sa_answered = True\<rparr>)]"
  using assms by (simp add: tallyNode_def censusAnswered_def sliceNode_def counted_def lookupAddress_def addSliceId_def Let_def)

lemma null_id_weight: "sliceWeight 1 [] (key, \<lparr>sa_ids = [i, nullId], sa_answered = True\<rparr>) = 4 / 3"
  by (simp add: sliceWeight_def sliceInclusionProbability_def Let_def power2_eq_square)

section \<open>The invariant\<close>

text \<open>The callbacks of one generation that are still to run: the endpoints queried, and the number of lookups.\<close>

fun sliceCalls :: "nat \<Rightarrow> (nat \<times> census_call) list \<Rightarrow> endpoint list" where
  "sliceCalls g [] = []"
| "sliceCalls g ((d, SliceCall h e) # calls) = (if h = g then e # sliceCalls g calls else sliceCalls g calls)"
| "sliceCalls g ((d, SeedCall h) # calls) = sliceCalls g calls"

fun seedCalls :: "nat \<Rightarrow> (nat \<times> census_call) list \<Rightarrow> nat" where
  "seedCalls g [] = 0"
| "seedCalls g ((d, SliceCall h e) # calls) = seedCalls g calls"
| "seedCalls g ((d, SeedCall h) # calls) = (if h = g then Suc (seedCalls g calls) else seedCalls g calls)"

fun callGeneration :: "census_call \<Rightarrow> nat" where
  "callGeneration (SliceCall g e) = g"
| "callGeneration (SeedCall g) = g"

text \<open>One node of the slice in progress: it belongs to it; while it waits it is queued, while it is asked a query to it runs, and
  once it has answered it has been asked in this round or is queued to be.\<close>

definition wf_sliceNode :: "qt_net \<Rightarrow> census \<Rightarrow> endpoint \<Rightarrow> slice_node \<Rightarrow> bool" where
  "wf_sliceNode Q z e n \<longleftrightarrow>
     family Q e = z_family z \<and> inSlice (sn_listedId n) z \<and> isUsableRemote Q e (zc_allowLocal (z_config z)) \<and>
     (e \<in> set (sliceCalls (z_generation z) (z_calls z)) \<longrightarrow> sn_askedInRound n = z_round z) \<and>
     (case sn_state n of
        SliceWaiting \<Rightarrow> e \<in> set (z_queue z)
      | SliceAsked \<Rightarrow> e \<in> set (sliceCalls (z_generation z) (z_calls z))
      | SliceAnswered \<Rightarrow> sn_askedInRound n = z_round z \<or> e \<in> set (z_queue z)
      | SliceSilent \<Rightarrow> uint (sn_failures n) \<ge> zc_failuresToGiveUp (z_config z))"

definition wf_calls :: "census \<Rightarrow> bool" where
  "wf_calls z \<longleftrightarrow> distinct (map fst (z_calls z)) \<and> (\<forall>(d, c) \<in> set (z_calls z). d < z_nextCall z \<and> callGeneration c \<le> z_generation z) \<and>
     z_outstanding z = int (length (sliceCalls (z_generation z) (z_calls z))) \<and> z_pendingLookups z = int (seedCalls (z_generation z) (z_calls z))"

definition wf_slice :: "qt_net \<Rightarrow> census \<Rightarrow> bool" where
  "wf_slice Q z \<longleftrightarrow> distinct (map fst (z_nodes z)) \<and> (\<forall>(e, n) \<in> set (z_nodes z). wf_sliceNode Q z e n) \<and>
     set (z_queue z) \<union> set (sliceCalls (z_generation z) (z_calls z)) \<subseteq> fst ` set (z_nodes z)"

definition wf_round :: "census \<Rightarrow> bool" where
  "wf_round z \<longleftrightarrow> (isRunning z \<longrightarrow> 1 \<le> z_round z \<and> z_round z \<le> max 1 (zc_maxRounds (z_config z))) \<and> 
     (\<not> isRunning z \<longrightarrow> z_nodes z = [] \<and> z_queue z = [] \<and> z_pendingLookups z = 0)"

definition wf_census :: "qt_net \<Rightarrow> census \<Rightarrow> bool" where
  "wf_census Q z \<longleftrightarrow> wf_calls z \<and> wf_slice Q z \<and> wf_round z"

lemma sliceNode_mono:
  assumes "wf_sliceNode Q z e n" "z_family z' = z_family z" "z_prefix z' = z_prefix z" "z_bits z' = z_bits z" "z_config z' = z_config z"
    "z_round z' = z_round z" "e \<in> set (z_queue z) \<Longrightarrow> e \<in> set (z_queue z')"
    "e \<in> set (sliceCalls (z_generation z') (z_calls z')) \<longleftrightarrow> e \<in> set (sliceCalls (z_generation z) (z_calls z))"
  shows "wf_sliceNode Q z' e n"
  using assms by (auto simp: wf_sliceNode_def inSlice_def split: slice_state.splits)

lemma nullId_round: "sn_askedInRound (sliceNode i) = - 1" "sn_state (sliceNode i) = SliceWaiting" "sn_listedId (sliceNode i) = i"
  by (simp_all add: sliceNode_def)

lemma consider_slice:
  assumes "y_Q Y = Q" "wf_slice Q z"
  shows "wf_slice Q (censusConsider Y i e z)"
proof (cases "family (y_Q Y) e \<noteq> z_family z \<or> \<not> inSlice i z \<or> \<not> isUsableRemote (y_Q Y) e (zc_allowLocal (z_config z)) \<or>
    map_option n_id (currentNode z) = Some i \<or> map_of (z_nodes z) e \<noteq> None")
  case False
  let ?z = "z\<lparr>z_nodes := AList.update e (sliceNode i) (z_nodes z), z_newThisRound := z_newThisRound z + 1, z_queue := z_queue z @ [e]\<rparr>"
  have c: "censusConsider Y i e z = ?z" using False by (auto simp: censusConsider_def)
  have new: "family Q e = z_family z" "inSlice i z" "isUsableRemote Q e (zc_allowLocal (z_config z))" "map_of (z_nodes z) e = None"
    using False assms(1) by simp_all
  have nodes: "z_nodes ?z = z_nodes z @ [(e, sliceNode i)]" using new(4) by (simp add: map_fst_update_new)
  have "e \<notin> fst ` set (z_nodes z)" using new(4) by (simp add: map_of_eq_None_iff)
  then have "e \<notin> set (sliceCalls (z_generation z) (z_calls z))" using assms(2) by (auto simp: wf_slice_def)
  then have "wf_sliceNode Q ?z e (sliceNode i)" using new by (simp add: wf_sliceNode_def nullId_round inSlice_def)
  moreover have "wf_sliceNode Q ?z x m" if "wf_sliceNode Q z x m" for x m by (rule sliceNode_mono [OF that]) simp_all
  ultimately show ?thesis unfolding c using assms(2) new(4)
    by (auto simp: wf_slice_def nodes map_of_eq_None_iff simp del: update.simps)
qed (use assms in \<open>auto simp: censusConsider_def\<close>)

text \<open>What the considering of nodes leaves alone.\<close>

definition censusFrame where
  "censusFrame z = (z_config z, z_state z, z_plan z, z_generation z, z_family z, z_bits z, z_prefix z, z_round z, z_pendingLookups z,
     z_outstanding z, z_done z, z_calls z, z_nextCall z)"

lemma consider_frame [simp]: "censusFrame (censusConsider Y i e z) = censusFrame z"
  by (auto simp: censusConsider_def censusFrame_def)

lemma frame_fold: "(\<And>x z. censusFrame (f x z) = censusFrame z) \<Longrightarrow> censusFrame (fold f xs z) = censusFrame z"
  by (induction xs arbitrary: z) auto

lemma slice_fold: "(\<And>x z. wf_slice Q z \<Longrightarrow> wf_slice Q (f x z)) \<Longrightarrow> wf_slice Q z \<Longrightarrow> wf_slice Q (fold f xs z)"
  by (induction xs arbitrary: z) auto

lemma wf_calls_frame: "censusFrame z' = censusFrame z \<Longrightarrow> wf_calls z' = wf_calls z"
  by (simp add: wf_calls_def censusFrame_def)

lemma wf_round_frame: "censusFrame z' = censusFrame z \<Longrightarrow> isRunning z \<Longrightarrow> wf_round z' = wf_round z"
  by (simp add: wf_round_def censusFrame_def isRunning_def)

lemma wf_slice_cong:
  assumes "z_nodes z' = z_nodes z" "z_queue z' = z_queue z" "z_family z' = z_family z" "z_prefix z' = z_prefix z" "z_bits z' = z_bits z"
    "z_config z' = z_config z" "z_round z' = z_round z" "z_generation z' = z_generation z" "z_calls z' = z_calls z"
  shows "wf_slice Q z' = wf_slice Q z"
  unfolding wf_slice_def wf_sliceNode_def inSlice_def assms by (rule refl)

lemma wf_slice_aside [simp]:
  "wf_slice Q (z\<lparr>z_draws := a\<rparr>) = wf_slice Q z" "wf_slice Q (z\<lparr>z_outstanding := x\<rparr>) = wf_slice Q z" "wf_slice Q (z\<lparr>z_pendingLookups := x\<rparr>) = wf_slice Q z"
  "wf_slice Q (z\<lparr>z_quietRounds := x\<rparr>) = wf_slice Q z" "wf_slice Q (z\<lparr>z_v4 := v\<rparr>) = wf_slice Q z" "wf_slice Q (z\<lparr>z_v6 := v\<rparr>) = wf_slice Q z"
  "wf_slice Q (withCurrent f z) = wf_slice Q z" "wf_slice Q (z\<lparr>z_done := ds\<rparr>) = wf_slice Q z" "wf_slice Q (z\<lparr>z_newThisRound := x\<rparr>) = wf_slice Q z"
  by (rule wf_slice_cong; simp add: withCurrent_def)+

lemma frame_aside [simp]:
  "censusFrame (z\<lparr>z_draws := a\<rparr>) = censusFrame z" "censusFrame (withCurrent f z) = censusFrame z" "censusFrame (z\<lparr>z_quietRounds := x\<rparr>) = censusFrame z"
  "censusFrame (z\<lparr>z_v4 := v\<rparr>) = censusFrame z" "censusFrame (z\<lparr>z_v6 := v\<rparr>) = censusFrame z" "censusFrame (z\<lparr>z_queue := q\<rparr>) = censusFrame z"
  "censusFrame (z\<lparr>z_nodes := ns\<rparr>) = censusFrame z" "censusFrame (z\<lparr>z_newThisRound := x\<rparr>) = censusFrame z"
  by (simp_all add: censusFrame_def withCurrent_def)

text \<open>More calls do not disturb the nodes of the slice.\<close>

lemma wf_slice_calls:
  assumes "wf_slice Q z" "set (sliceCalls (z_generation z) calls) = set (sliceCalls (z_generation z) (z_calls z))"
  shows "wf_slice Q (z\<lparr>z_calls := calls, z_nextCall := n\<rparr>)"
proof -
  have "wf_sliceNode Q (z\<lparr>z_calls := calls, z_nextCall := n\<rparr>) e m" if "wf_sliceNode Q z e m" for e m
    by (rule sliceNode_mono [OF that]) (use assms(2) in auto)
  with assms show ?thesis by (auto simp: wf_slice_def)
qed

lemma seedLookup_wf:
  assumes "wf_calls z" "wf_slice Q z"
  shows "wf_calls (seedLookup Y z)" "wf_slice Q (seedLookup Y z)"
    "censusFrame (seedLookup Y z) = censusFrame (z\<lparr>z_pendingLookups := z_pendingLookups z + 1, z_calls := (z_nextCall z, SeedCall (z_generation z)) # z_calls z,
       z_nextCall := z_nextCall z + 1\<rparr>)"
proof -
  let ?calls = "(z_nextCall z, SeedCall (z_generation z)) # z_calls z"
  let ?z1 = "(z\<lparr>z_pendingLookups := z_pendingLookups z + 1, z_draws := z_draws z + 1\<rparr>)\<lparr>z_calls := ?calls, z_nextCall := z_nextCall z + 1\<rparr>"
  obtain f where s: "seedLookup Y z = withCurrent f ?z1"
    by (simp add: seedLookup_def sliceTarget_def censusId_def censusCall_def Let_def)
  show "wf_slice Q (seedLookup Y z)" unfolding s using assms(2) by (simp add: wf_slice_calls)
  show fr: "censusFrame (seedLookup Y z) = censusFrame (z\<lparr>z_pendingLookups := z_pendingLookups z + 1, z_calls := ?calls, z_nextCall := z_nextCall z + 1\<rparr>)"
    unfolding s by (simp add: censusFrame_def withCurrent_def)
  have "wf_calls (z\<lparr>z_pendingLookups := z_pendingLookups z + 1, z_calls := ?calls, z_nextCall := z_nextCall z + 1\<rparr>)"
    using assms(1) by (fastforce simp: wf_calls_def)
  with wf_calls_frame [OF fr] show "wf_calls (seedLookup Y z)" by simp
qed

definition wf_open :: "qt_net \<Rightarrow> census \<Rightarrow> bool" where
  "wf_open Q z \<longleftrightarrow> wf_calls z \<and> wf_slice Q z"

lemma wf_open_consider: "y_Q Y = Q \<Longrightarrow> wf_open Q z \<Longrightarrow> wf_open Q (censusConsider Y i e z)"
  using consider_slice wf_calls_frame [OF consider_frame] by (simp add: wf_open_def)

lemma wf_open_fold: "(\<And>x z. wf_open Q z \<Longrightarrow> wf_open Q (f x z)) \<Longrightarrow> wf_open Q z \<Longrightarrow> wf_open Q (fold f xs z)"
  by (induction xs arbitrary: z) auto

lemma wf_open_seed: "wf_open Q z \<Longrightarrow> wf_open Q (seedLookup Y z)"
  unfolding wf_open_def by (blast intro: seedLookup_wf)

lemma wf_open_draws: "wf_open Q z \<Longrightarrow> wf_open Q (z\<lparr>z_draws := a\<rparr>)"
  using wf_calls_frame [OF frame_aside(1)] by (simp add: wf_open_def)

lemma seedSlice_wf: "y_Q Y = Q \<Longrightarrow> wf_open Q z \<Longrightarrow> wf_open Q (seedSlice Y z)"
  by (auto simp: seedSlice_def sliceTarget_def censusId_def Let_def SeedLookups_def numeral_3_eq_3 split: prod.splits
      intro!: wf_open_seed wf_open_fold wf_open_consider wf_open_draws)

text \<open>What the seeding of a slice leaves as it was.\<close>

definition sliceFrame where
  "sliceFrame z = (z_config z, z_state z, z_plan z, z_generation z, z_family z, z_round z, z_done z)"

lemma sliceFrame_cong: "censusFrame z' = censusFrame z \<Longrightarrow> sliceFrame z' = sliceFrame z"
  by (simp add: sliceFrame_def censusFrame_def)

lemma sliceFrame_seed [simp]: "sliceFrame (seedLookup Y z) = sliceFrame z"
  by (simp add: seedLookup_def sliceTarget_def censusId_def censusCall_def Let_def sliceFrame_def withCurrent_def)

lemma sliceFrame_seedSlice: "sliceFrame (seedSlice Y z) = sliceFrame z"
proof -
  have 1: "sliceFrame (fold (\<lambda>(i, e). censusConsider Y i e) xs z) = sliceFrame z" for xs z
    by (rule sliceFrame_cong, rule frame_fold) (simp split: prod.split)
  have 2: "sliceFrame (fold (\<lambda>c. censusConsider Y (cn_id c) (cn_endpoint c)) xs z) = sliceFrame z" for xs z
    by (rule sliceFrame_cong, rule frame_fold) simp
  have 3: "sliceFrame (z\<lparr>z_draws := a\<rparr>) = sliceFrame z" for a z by (simp add: sliceFrame_def)
  show ?thesis by (simp add: seedSlice_def sliceTarget_def censusId_def Let_def SeedLookups_def numeral_3_eq_3 1 2 3)
qed

lemma sliceCalls_stale: "(\<forall>(d, c) \<in> set calls. callGeneration c < g) \<Longrightarrow> sliceCalls g calls = [] \<and> seedCalls g calls = 0"
proof (induction calls)
  case (Cons x calls)
  then show ?case by (cases x; cases "snd x") auto
qed simp

lemma takeFamily_frame:
  "takeFamily z plan = (found, z1) \<Longrightarrow> \<exists>fam plan'. z1 = z\<lparr>z_family := fam, z_plan := plan'\<rparr> \<and> length plan' \<le> length plan \<and>
     (found \<longrightarrow> length plan' < length plan \<and> currentNode z1 \<noteq> None) \<and> (\<not> found \<longrightarrow> plan' = [])"
proof (induction z plan rule: takeFamily.induct)
  case (1 z)
  then show ?case by (auto intro!: exI [of _ "z_family z"])
next
  case (2 z f plan)
  let ?z1 = "z\<lparr>z_family := f, z_plan := plan\<rparr>"
  show ?case
  proof (cases "currentNode ?z1 = None")
    case True
    with 2 show ?thesis by (fastforce simp: Let_def)
  next
    case False
    with 2(2) have "found" "z1 = ?z1" by (auto simp: Let_def)
    with False show ?thesis by (intro exI [of _ f] exI [of _ plan]) simp
  qed
qed

lemma wf_calls_stale: "wf_calls z \<Longrightarrow> sliceCalls (Suc (z_generation z)) (z_calls z) = [] \<and> seedCalls (Suc (z_generation z)) (z_calls z) = 0"
  by (rule sliceCalls_stale) (auto simp: wf_calls_def less_Suc_eq_le)

lemma finishAll_wf: "wf_calls z \<Longrightarrow> st \<noteq> CensusRunning \<Longrightarrow> wf_census Q (finishAll Y st z)"
  using wf_calls_stale [of z]
  by (fastforce simp: wf_census_def finishAll_def wf_slice_def wf_round_def isRunning_def wf_calls_def)

text \<open>The state a slice starts from, whatever was there before.\<close>

definition freshSlice :: "census_env \<Rightarrow> node_id \<Rightarrow> int \<Rightarrow> census \<Rightarrow> census" where
  "freshSlice Y prefix bits z = z\<lparr>z_generation := z_generation z + 1, z_bits := bits, z_prefix := prefix,
     z_round := 0, z_quietRounds := 0, z_newThisRound := 0, z_pendingLookups := 0, z_sliceQueries := 0, z_outstanding := 0,
     z_nodes := [], z_queue := [], z_sliceClock := y_now Y\<rparr>"

lemma startSlice_cases:
  obtains (over) z1 where "startSlice Y z = finishAll Y CensusDone z1" "\<exists>fam. z1 = z\<lparr>z_family := fam, z_plan := []\<rparr>"
  | (slice) fam plan prefix a bits where "length plan < length (z_plan z)"
      "startSlice Y z = seedSlice Y (beginRound (freshSlice Y prefix bits (z\<lparr>z_family := fam, z_plan := plan, z_draws := a\<rparr>)))"
proof -
  obtain found z1 where t: "takeFamily z (z_plan z) = (found, z1)" by fastforce
  note tf = takeFamily_frame [OF t]
  show ?thesis
  proof (cases found)
    case False
    with t tf that(1) show ?thesis by (auto simp: startSlice_def Let_def)
  next
    case True
    with tf obtain fam plan where z1: "z1 = z\<lparr>z_family := fam, z_plan := plan\<rparr>" "length plan < length (z_plan z)" by blast
    with True t that(2) [of plan] show ?thesis by (simp add: startSlice_def Let_def censusId_def freshSlice_def)
  qed
qed

lemma freshSlice_wf: "wf_calls z \<Longrightarrow> wf_open Q (beginRound (freshSlice Y prefix bits z))"
  using wf_calls_stale [of z] by (fastforce simp: wf_open_def wf_calls_def wf_slice_def freshSlice_def beginRound_def)

lemma startSlice_wf:
  assumes "y_Q Y = Q" "wf_calls z" "isRunning z"
  shows "wf_census Q (startSlice Y z)"
proof (cases rule: startSlice_cases [of Y z])
  case (over z1)
  then have "wf_calls z1" using assms(2) by (auto simp: wf_calls_def)
  with over show ?thesis by (simp add: finishAll_wf)
next
  case (slice fam plan prefix a bits)
  let ?z0 = "beginRound (freshSlice Y prefix bits (z\<lparr>z_family := fam, z_plan := plan, z_draws := a\<rparr>))"
  have "wf_calls (z\<lparr>z_family := fam, z_plan := plan, z_draws := a\<rparr>)" using assms(2) by (simp add: wf_calls_def)
  then have "wf_open Q (seedSlice Y ?z0)" by (intro seedSlice_wf assms(1) freshSlice_wf)
  moreover have "wf_round (seedSlice Y ?z0)"
    using sliceFrame_seedSlice [of Y ?z0] assms(3)
    by (simp add: sliceFrame_def wf_round_def isRunning_def freshSlice_def beginRound_def)
  ultimately show ?thesis unfolding slice by (simp add: wf_census_def wf_open_def)
qed

lemma wf_censusD: "wf_census Q z \<Longrightarrow> wf_calls z" "wf_census Q z \<Longrightarrow> wf_slice Q z" "wf_census Q z \<Longrightarrow> wf_round z"
  by (simp_all add: wf_census_def)

lemma censusStart_wf:
  assumes "y_Q Y = Q" "wf_census Q z"
  shows "wf_census Q (censusStart Y n4 n6 z)"
proof (cases "isRunning z")
  case False
  show ?thesis unfolding censusStart_def Let_def if_not_P [OF False]
    by (rule startSlice_wf [OF assms(1)]) (use wf_censusD(1) [OF assms(2)] in \<open>simp_all add: wf_calls_def isRunning_def\<close>)
qed (use assms in \<open>simp add: censusStart_def\<close>)

lemma censusCancel_wf: "wf_census Q z \<Longrightarrow> wf_census Q (censusCancel Y z)"
  by (simp add: censusCancel_def finishAll_wf [OF wf_censusD(1)])

section \<open>Asking and replies\<close>

lemma update_nodes:
  assumes "wf_slice Q z" "map_of (z_nodes z) e = Some n"
    and "\<And>x m. x \<noteq> e \<Longrightarrow> wf_sliceNode Q z x m \<Longrightarrow> wf_sliceNode Q z' x m" "wf_sliceNode Q z' e n'"
    and "z_nodes z' = AList.update e n' (z_nodes z)" "set (z_queue z') \<subseteq> insert e (set (z_queue z))"
    "set (sliceCalls (z_generation z') (z_calls z')) \<subseteq> insert e (set (sliceCalls (z_generation z) (z_calls z)))"
  shows "wf_slice Q z'"
  unfolding wf_slice_def
proof (intro conjI ballI)
  show "distinct (map fst (z_nodes z'))" using assms(1) by (simp add: assms(5) wf_slice_def distinct_update)
  show "case x of (e, n) \<Rightarrow> wf_sliceNode Q z' e n" if "x \<in> set (z_nodes z')" for x
  proof -
    obtain k v where x: "x = (k, v)" by fastforce
    with that have "(k = e \<and> v = n') \<or> (k \<noteq> e \<and> (k, v) \<in> set (z_nodes z))"
      using update_distinct_member [of "z_nodes z" k v e n'] assms(1) by (simp add: assms(5) wf_slice_def)
    with assms(1,3,4) x show ?thesis by (auto simp: wf_slice_def)
  qed
  have "fst ` set (z_nodes z') = insert e (fst ` set (z_nodes z))" by (simp add: assms(5) keys_update)
  with assms(1,6,7) show "set (z_queue z') \<union> set (sliceCalls (z_generation z') (z_calls z')) \<subseteq> fst ` set (z_nodes z')"
    by (auto simp: wf_slice_def)
qed

lemma node_of: "wf_slice Q z \<Longrightarrow> map_of (z_nodes z) e = Some n \<Longrightarrow> wf_sliceNode Q z e n"
  by (auto simp: wf_slice_def dest: map_of_SomeD)

text \<open>The state in which one endpoint is off the queue: all but it are in order, and asking it puts it in order.\<close>

lemma censusAsk_wf:
  assumes open_z: "wf_open Q z" and q: "z_queue z = e # rest"
  shows "wf_open Q (censusAsk Y e (z\<lparr>z_queue := rest\<rparr>)) \<and> z_queue (censusAsk Y e (z\<lparr>z_queue := rest\<rparr>)) = rest \<and>
    sliceFrame (censusAsk Y e (z\<lparr>z_queue := rest\<rparr>)) = sliceFrame z \<and> z_outstanding (censusAsk Y e (z\<lparr>z_queue := rest\<rparr>)) = z_outstanding z + 1"
proof -
  have ws: "wf_slice Q z" and wc: "wf_calls z" using open_z by (simp_all add: wf_open_def)
  have "e \<in> fst ` set (z_nodes z)" using ws q by (auto simp: wf_slice_def)
  then obtain n where n: "map_of (z_nodes z) e = Some n" by (metis map_of_eq_None_iff not_Some_eq)
  let ?n1 = "n\<lparr>sn_state := (if sn_state n = SliceAnswered then SliceAnswered else SliceAsked), sn_askedInRound := z_round z\<rparr>"
  let ?calls = "(z_nextCall z, SliceCall (z_generation z) e) # z_calls z"
  let ?z1 = "z\<lparr>z_queue := rest, z_nodes := AList.update e ?n1 (z_nodes z), z_draws := z_draws z + 1, z_outstanding := z_outstanding z + 1,
    z_queries := z_queries z + 1, z_sliceQueries := z_sliceQueries z + 1, z_calls := ?calls, z_nextCall := z_nextCall z + 1\<rparr>"
  obtain f where a: "censusAsk Y e (z\<lparr>z_queue := rest\<rparr>) = withCurrent f ?z1"
    by (simp add: censusAsk_def n censusId_def censusCall_def Let_def)
  have "wf_slice Q ?z1"
  proof (rule update_nodes [OF ws n])
    show "wf_sliceNode Q ?z1 x m" if "x \<noteq> e" "wf_sliceNode Q z x m" for x m
      by (rule sliceNode_mono [OF that(2)]) (use that(1) q in auto)
    show "wf_sliceNode Q ?z1 e ?n1" using node_of [OF ws n] by (simp add: wf_sliceNode_def inSlice_def)
  qed (use q in auto)
  moreover have "wf_calls ?z1" using wc by (fastforce simp: wf_calls_def)
  ultimately show ?thesis unfolding a
    by (simp add: wf_open_def wf_calls_frame [OF frame_aside(2)]) (simp add: sliceFrame_def withCurrent_def)
qed

lemma censusDispatch_wf:
  "wf_open Q z \<Longrightarrow> wf_open Q (censusDispatch Y left z) \<and> sliceFrame (censusDispatch Y left z) = sliceFrame z \<and>
     (0 < z_outstanding z \<or> z_queue z \<noteq> [] \<longrightarrow> 0 < z_outstanding (censusDispatch Y left z) \<or> z_queue (censusDispatch Y left z) \<noteq> [])"
proof (induction left arbitrary: z)
  case (Suc left)
  show ?case
  proof (cases "z_outstanding z \<ge> zc_maxOutstanding (z_config z) \<or> z_queue z = []")
    case False
    then obtain e rest where q: "z_queue z = e # rest" by (cases "z_queue z") auto
    show ?thesis
    proof (cases "case currentNode z of None \<Rightarrow> False | Some n \<Rightarrow> queuedFor (address e) (n_rpc n) \<ge> CensusQueuedPerHost")
      case True
      let ?z = "z\<lparr>z_queue := rest @ [e]\<rparr>"
      have "wf_slice Q ?z"
      proof -
        have "wf_sliceNode Q ?z x m" if "wf_sliceNode Q z x m" for x m by (rule sliceNode_mono [OF that]) (simp_all add: q)
        then show ?thesis using Suc.prems q by (auto simp: wf_open_def wf_slice_def)
      qed
      then have "wf_open Q ?z" using Suc.prems wf_calls_frame [OF frame_aside(6)] by (simp add: wf_open_def)
      then have "wf_open Q (censusDispatch Y left ?z)" "sliceFrame (censusDispatch Y left ?z) = sliceFrame ?z"
        "0 < z_outstanding (censusDispatch Y left ?z) \<or> z_queue (censusDispatch Y left ?z) \<noteq> []"
        using Suc.IH [of ?z] by simp_all
      with True False q show ?thesis by (simp add: Let_def sliceFrame_def)
    next
      case ask: False
      let ?z = "censusAsk Y e (z\<lparr>z_queue := rest\<rparr>)"
      note a = censusAsk_wf [OF Suc.prems q, of Y]
      have "0 \<le> z_outstanding z" using Suc.prems by (simp add: wf_open_def wf_calls_def)
      then have "wf_open Q (censusDispatch Y left ?z)" "sliceFrame (censusDispatch Y left ?z) = sliceFrame z"
        "0 < z_outstanding (censusDispatch Y left ?z) \<or> z_queue (censusDispatch Y left ?z) \<noteq> []"
        using Suc.IH [of ?z] a by simp_all
      moreover have "censusDispatch Y (Suc left) z = censusDispatch Y left ?z" using ask False q by (auto simp: Let_def)
      ultimately show ?thesis by simp
    qed
  qed (use Suc.prems in auto)
qed simp

lemma sliceCalls_delete:
  assumes "distinct (map fst calls)" "map_of calls d = Some (SliceCall g e)"
  shows "set (sliceCalls g calls) = insert e (set (sliceCalls g (AList.delete d calls)))"
    "length (sliceCalls g calls) = Suc (length (sliceCalls g (AList.delete d calls)))"
    "h \<noteq> g \<Longrightarrow> sliceCalls h (AList.delete d calls) = sliceCalls h calls"
    "seedCalls h (AList.delete d calls) = seedCalls h calls"
proof -
  have absent: "AList.delete d cs = cs" if "d \<notin> fst ` set cs" for cs :: "(nat \<times> census_call) list"
    using that by (simp add: delete_idem)
  have "set (sliceCalls g calls) = insert e (set (sliceCalls g (AList.delete d calls))) \<and>
    length (sliceCalls g calls) = Suc (length (sliceCalls g (AList.delete d calls))) \<and>
    (h \<noteq> g \<longrightarrow> sliceCalls h (AList.delete d calls) = sliceCalls h calls) \<and> seedCalls h (AList.delete d calls) = seedCalls h calls"
    using assms
  proof (induction calls)
    case (Cons x calls)
    obtain d' c where x: "x = (d', c)" by fastforce
    show ?case
    proof (cases "d' = d")
      case True
      with Cons.prems x have "AList.delete d (x # calls) = calls" "c = SliceCall g e" using absent [of calls] by auto
      with x show ?thesis by auto
    next
      case False
      with Cons x show ?thesis by (cases c) auto
    qed
  qed simp
  then show "set (sliceCalls g calls) = insert e (set (sliceCalls g (AList.delete d calls)))"
    "length (sliceCalls g calls) = Suc (length (sliceCalls g (AList.delete d calls)))"
    "h \<noteq> g \<Longrightarrow> sliceCalls h (AList.delete d calls) = sliceCalls h calls"
    "seedCalls h (AList.delete d calls) = seedCalls h calls" by simp_all
qed

lemma seedCalls_delete:
  assumes "distinct (map fst calls)" "map_of calls d = Some (SeedCall g)"
  shows "seedCalls h calls = (if h = g then 1 else 0) + seedCalls h (AList.delete d calls) \<and> sliceCalls h (AList.delete d calls) = sliceCalls h calls"
  using assms
proof (induction calls)
  case (Cons x calls)
  obtain d' c where x: "x = (d', c)" by fastforce
  show ?case
  proof (cases "d' = d")
    case True
    with Cons.prems x have "AList.delete d (x # calls) = calls" "c = SeedCall g" by (auto simp: delete_idem)
    with x show ?thesis by auto
  next
    case False
    with Cons x show ?thesis by (cases c) auto
  qed
qed simp

lemma deleted_calls:
  "distinct (map fst calls) \<Longrightarrow> \<forall>(d, c) \<in> set calls. P d c \<Longrightarrow>
   distinct (map fst (AList.delete d calls)) \<and> (\<forall>(d, c) \<in> set (AList.delete d calls). P d c)"
  by (auto simp: AList.delete_eq intro: distinct_map_filter)

lemma update_same: "map_of m key = Some v \<Longrightarrow> AList.update key v m = m"
  by (induction m) (auto split: if_splits)

lemma sliceFrame_aside [simp]:
  "sliceFrame (z\<lparr>z_nodes := ns\<rparr>) = sliceFrame z" "sliceFrame (z\<lparr>z_queue := q\<rparr>) = sliceFrame z" "sliceFrame (z\<lparr>z_calls := cs\<rparr>) = sliceFrame z"
  "sliceFrame (z\<lparr>z_outstanding := x\<rparr>) = sliceFrame z" "sliceFrame (z\<lparr>z_pendingLookups := x\<rparr>) = sliceFrame z" "sliceFrame (z\<lparr>z_v4 := v\<rparr>) = sliceFrame z"
  "sliceFrame (z\<lparr>z_v6 := v\<rparr>) = sliceFrame z" "sliceFrame (z\<lparr>z_quietRounds := x\<rparr>) = sliceFrame z"
  by (simp_all add: sliceFrame_def)

text \<open>The state after the reply to one endpoint is counted off: all nodes but that one are in order.\<close>

lemma countedOff:
  assumes wf: "wf_open Q z" and c: "map_of (z_calls z) d = Some (SliceCall (z_generation z) e)"
    and z1_def: "z1 = z\<lparr>z_calls := AList.delete d (z_calls z), z_outstanding := z_outstanding z - 1\<rparr>"
  shows "wf_calls z1" "\<And>x m. x \<noteq> e \<Longrightarrow> wf_sliceNode Q z x m \<Longrightarrow> wf_sliceNode Q z1 x m"
    "set (sliceCalls (z_generation z1) (z_calls z1)) \<subseteq> set (sliceCalls (z_generation z) (z_calls z))"
    "e \<in> set (sliceCalls (z_generation z) (z_calls z))"
proof -
  have wc: "wf_calls z" and d: "distinct (map fst (z_calls z))" using wf by (simp_all add: wf_open_def wf_calls_def)
  note del = sliceCalls_delete [OF d c]
  show "wf_calls z1" using wc deleted_calls [OF d, of "\<lambda>d c. d < z_nextCall z \<and> callGeneration c \<le> z_generation z"] del(2,4)
    by (simp add: z1_def wf_calls_def)
  show "wf_sliceNode Q z1 x m" if "x \<noteq> e" "wf_sliceNode Q z x m" for x m
    by (rule sliceNode_mono [OF that(2)]) (use that(1) del(1) in \<open>auto simp: z1_def\<close>)
  show "set (sliceCalls (z_generation z1) (z_calls z1)) \<subseteq> set (sliceCalls (z_generation z) (z_calls z))"
    "e \<in> set (sliceCalls (z_generation z) (z_calls z))"
    using del(1) by (auto simp: z1_def)
qed

lemma repliedNode_wf:
  assumes wf: "wf_open Q z" and c: "map_of (z_calls z) d = Some (SliceCall (z_generation z) e)" and n: "map_of (z_nodes z) e = Some n"
    and z1_def: "z1 = z\<lparr>z_calls := AList.delete d (z_calls z), z_outstanding := z_outstanding z - 1\<rparr>"
    and n': "sn_listedId n' = sn_listedId n" "sn_askedInRound n' = sn_askedInRound n"
      "sn_state n' = SliceWaiting \<Longrightarrow> extra = [e]" "sn_state n' \<noteq> SliceAsked"
      "sn_state n' = SliceSilent \<Longrightarrow> uint (sn_failures n') \<ge> zc_failuresToGiveUp (z_config z)"
    and extra: "extra = [] \<or> extra = [e]"
  shows "wf_open Q (z1\<lparr>z_nodes := AList.update e n' (z_nodes z), z_queue := z_queue z @ extra\<rparr>)"
proof -
  let ?z' = "z1\<lparr>z_nodes := AList.update e n' (z_nodes z), z_queue := z_queue z @ extra\<rparr>"
  note off = countedOff [OF wf c z1_def]
  have ws: "wf_slice Q z" using wf by (simp add: wf_open_def)
  have ne: "wf_sliceNode Q z e n" by (rule node_of [OF ws n])
  have round: "sn_askedInRound n = z_round z" using ne off(4) by (simp add: wf_sliceNode_def)
  have "wf_slice Q ?z'"
  proof (rule update_nodes [OF ws n])
    show "wf_sliceNode Q ?z' x m" if "x \<noteq> e" "wf_sliceNode Q z x m" for x m
      by (rule sliceNode_mono [OF off(2) [OF that]]) (auto simp: z1_def)
    show "wf_sliceNode Q ?z' e n'"
      using ne round n' extra by (auto simp: wf_sliceNode_def inSlice_def z1_def split: slice_state.splits)
  qed (use off(3) extra in \<open>auto simp: z1_def\<close>)
  moreover have "wf_calls ?z'" using off(1) by (simp add: wf_calls_def)
  ultimately show ?thesis by (simp add: wf_open_def)
qed

lemma failures_state [simp]:
  "sn_state (n\<lparr>sn_failures := f\<rparr>) = sn_state n" "sn_listedId (censusAnswered reply n z) = sn_listedId n"
  "sn_askedInRound (censusAnswered reply n z) = sn_askedInRound n" "sn_state (censusAnswered reply n z) = SliceAnswered"
  by (simp_all add: censusAnswered_def Let_def split: option.splits)

lemma staleReply_wf:
  assumes "wf_open Q z" "map_of (z_calls z) d = Some c" "callGeneration c \<noteq> z_generation z"
  shows "wf_open Q (z\<lparr>z_calls := AList.delete d (z_calls z)\<rparr>)"
proof -
  let ?z = "z\<lparr>z_calls := AList.delete d (z_calls z)\<rparr>"
  have wc: "wf_calls z" and d: "distinct (map fst (z_calls z))" and ws: "wf_slice Q z" using assms(1) by (simp_all add: wf_open_def wf_calls_def)
  have same: "sliceCalls (z_generation z) (AList.delete d (z_calls z)) = sliceCalls (z_generation z) (z_calls z)"
    "seedCalls (z_generation z) (AList.delete d (z_calls z)) = seedCalls (z_generation z) (z_calls z)"
    using assms(2,3) sliceCalls_delete(3,4) [OF d] seedCalls_delete [OF d] by (cases c; simp)+
  have "wf_calls ?z" using wc deleted_calls [OF d, of "\<lambda>d c. d < z_nextCall z \<and> callGeneration c \<le> z_generation z"] same
    by (simp add: wf_calls_def)
  moreover have "wf_slice Q ?z"
  proof -
    have "wf_sliceNode Q ?z x m" if "wf_sliceNode Q z x m" for x m by (rule sliceNode_mono [OF that]) (simp_all add: same)
    with ws show ?thesis by (auto simp: wf_slice_def same)
  qed
  ultimately show ?thesis by (simp add: wf_open_def)
qed

lemma onCensusReply_wf:
  assumes Y: "y_Q Y = Q" and wf: "wf_open Q z" and c: "map_of (z_calls z) d = Some (SliceCall g e)"
  shows "wf_open Q (onCensusReply Y g e reply (z\<lparr>z_calls := AList.delete d (z_calls z)\<rparr>)) \<and>
    sliceFrame (onCensusReply Y g e reply (z\<lparr>z_calls := AList.delete d (z_calls z)\<rparr>)) = sliceFrame z"
proof (cases "g = z_generation z")
  case False
  with staleReply_wf [OF wf c] show ?thesis by (simp add: onCensusReply_def)
next
  case True
  note c = c [unfolded True]
  define z1 where "z1 = z\<lparr>z_calls := AList.delete d (z_calls z), z_outstanding := z_outstanding z - 1\<rparr>"
  have ws: "wf_slice Q z" using wf by (simp add: wf_open_def)
  have "e \<in> fst ` set (z_nodes z)" using countedOff(4) [OF wf c refl] ws by (auto simp: wf_slice_def)
  then obtain n where n: "map_of (z_nodes z) e = Some n" by (metis map_of_eq_None_iff not_Some_eq)
  note rn = repliedNode_wf [OF wf c n z1_def]
  have z1: "z_nodes z1 = z_nodes z" "z_queue z1 = z_queue z" "z_config z1 = z_config z" "sliceFrame z1 = sliceFrame z"
    by (simp_all add: z1_def)
  have noq: "z1\<lparr>z_nodes := ns, z_queue := z_queue z\<rparr> = z1\<lparr>z_nodes := ns\<rparr>" for ns by (simp add: z1_def)
  have *: "onCensusReply Y g e reply (z\<lparr>z_calls := AList.delete d (z_calls z)\<rparr>) =
     (case rr_status reply of Throttled \<Rightarrow> censusThrottled e n z1 | Timeout \<Rightarrow> censusTimeout e n z1
      | _ \<Rightarrow> let z2 = z1\<lparr>z_nodes := AList.update e (censusAnswered reply n z1) (z_nodes z1)\<rparr>
           in if rr_status reply \<noteq> ResponseReply then z2
              else fold (\<lambda>c. censusConsider Y (cn_id c) (cn_endpoint c)) (foundNodes (y_Q Y) (z_family z2) (body (rr_message reply))) z2)"
    using True n by (simp add: onCensusReply_def z1_def [symmetric] Let_def z1)
  let ?z2 = "z1\<lparr>z_nodes := AList.update e (censusAnswered reply n z1) (z_nodes z)\<rparr>"
  have z2: "wf_open Q ?z2"
    using rn [of "censusAnswered reply n z1" "[]"] noq by (simp add: z1)
  have fold2: "wf_open Q (fold (\<lambda>c. censusConsider Y (cn_id c) (cn_endpoint c)) xs ?z2)"
    "sliceFrame (fold (\<lambda>c. censusConsider Y (cn_id c) (cn_endpoint c)) xs ?z2) = sliceFrame z" for xs
    using wf_open_fold [OF wf_open_consider [OF Y] z2]
      sliceFrame_cong [OF frame_fold, of "\<lambda>c. censusConsider Y (cn_id c) (cn_endpoint c)" xs ?z2] z1 by simp_all
  have thr: "wf_open Q (censusThrottled e n z1)" "sliceFrame (censusThrottled e n z1) = sliceFrame z"
    using rn [of "if sn_state n \<noteq> SliceAnswered then n\<lparr>sn_state := SliceWaiting\<rparr> else n" "[e]"]
    by (auto simp: censusThrottled_def z1 split: if_splits)
  have tim: "wf_open Q (censusTimeout e n z1) \<and> sliceFrame (censusTimeout e n z1) = sliceFrame z"
  proof (cases "sn_state n = SliceAnswered")
    case True
    have "z1\<lparr>z_nodes := z_nodes z\<rparr> = z1" "z1\<lparr>z_queue := z_queue z\<rparr> = z1" by (simp_all add: z1_def)
    with True rn [of n "[]"] update_same [OF n] noq [of "z_nodes z"] show ?thesis by (simp add: censusTimeout_def z1)
  next
    case False
    let ?n1 = "n\<lparr>sn_failures := sn_failures n + 1\<rparr>"
    show ?thesis
    proof (cases "uint (sn_failures ?n1) \<ge> zc_failuresToGiveUp (z_config z)")
      case True
      with False rn [of "?n1\<lparr>sn_state := SliceSilent\<rparr>" "[]"] noq show ?thesis by (simp add: censusTimeout_def z1 Let_def)
    next
      case nt: False
      with False rn [of "?n1\<lparr>sn_state := SliceWaiting\<rparr>" "[e]"] show ?thesis by (simp add: censusTimeout_def z1 Let_def)
    qed
  qed
  show ?thesis unfolding * by (cases "rr_status reply") (simp_all add: thr tim fold2 z2 z1 Let_def)
qed

lemma onSeedLookup_wf:
  assumes Y: "y_Q Y = Q" and wf: "wf_open Q z" and c: "map_of (z_calls z) d = Some (SeedCall g)"
  shows "wf_open Q (onSeedLookup Y g result (z\<lparr>z_calls := AList.delete d (z_calls z)\<rparr>)) \<and>
    sliceFrame (onSeedLookup Y g result (z\<lparr>z_calls := AList.delete d (z_calls z)\<rparr>)) = sliceFrame z"
proof (cases "g = z_generation z")
  case False
  with staleReply_wf [OF wf c] show ?thesis by (simp add: onSeedLookup_def)
next
  case True
  let ?z1 = "z\<lparr>z_calls := AList.delete d (z_calls z), z_pendingLookups := z_pendingLookups z - 1\<rparr>"
  have wc: "wf_calls z" and d: "distinct (map fst (z_calls z))" and ws: "wf_slice Q z" using wf by (simp_all add: wf_open_def wf_calls_def)
  note del = seedCalls_delete [OF d c, of "z_generation z"]
  have "wf_sliceNode Q ?z1 x m" if "wf_sliceNode Q z x m" for x m by (rule sliceNode_mono [OF that]) (simp_all add: del)
  then have "wf_slice Q ?z1" using ws by (auto simp: wf_slice_def del)
  moreover have "wf_calls ?z1" using wc del True deleted_calls [OF d, of "\<lambda>d c. d < z_nextCall z \<and> callGeneration c \<le> z_generation z"]
    by (simp add: wf_calls_def)
  ultimately have "wf_open Q ?z1" by (simp add: wf_open_def)
  then have "wf_open Q (fold (\<lambda>c. censusConsider Y (ct_id c) (ct_endpoint c)) xs ?z1)" for xs :: "contact list"
    by (intro wf_open_fold wf_open_consider [OF Y])
  moreover have "sliceFrame (fold (\<lambda>c. censusConsider Y (ct_id c) (ct_endpoint c)) xs ?z1) = sliceFrame z" for xs :: "contact list"
    using sliceFrame_cong [OF frame_fold, of "\<lambda>c. censusConsider Y (ct_id c) (ct_endpoint c)" xs ?z1] by simp
  ultimately show ?thesis using True by (simp add: onSeedLookup_def)
qed

lemma censusReport_wf:
  assumes "y_Q Y = Q" "wf_open Q z"
  shows "wf_open Q (censusReport Y rep z) \<and> sliceFrame (censusReport Y rep z) = sliceFrame z"
  using onCensusReply_wf [OF assms] onSeedLookup_wf [OF assms] assms(2)
  by (auto simp: censusReport_def split: report.splits option.splits census_call.splits)

lemma wf_round_cong: "sliceFrame z' = sliceFrame z \<Longrightarrow> isRunning z \<Longrightarrow> wf_round z' = wf_round z"
  by (simp add: wf_round_def sliceFrame_def isRunning_def)

text \<open>When the census does not run, every callback is a stale one.\<close>

lemma idle_report:
  assumes "wf_census Q z" "\<not> isRunning z"
  shows "\<exists>calls. censusReport Y rep z = z\<lparr>z_calls := calls\<rparr>"
proof -
  have n: "z_nodes z = []" "z_pendingLookups z = 0" and wc: "wf_calls z" and ws: "wf_slice Q z" using assms by (simp_all add: wf_census_def wf_round_def)
  have d: "distinct (map fst (z_calls z))" using wc by (simp add: wf_calls_def)
  have 1: "g \<noteq> z_generation z" if "map_of (z_calls z) k = Some (SliceCall g e)" for k g e
    using sliceCalls_delete(1) [OF d that] ws n(1) by (auto simp: wf_slice_def)
  have 2: "g \<noteq> z_generation z" if "map_of (z_calls z) k = Some (SeedCall g)" for k g
    using seedCalls_delete [OF d that, of g] wc n(2) by (auto simp: wf_calls_def)
  have same: "\<exists>calls. z = z\<lparr>z_calls := calls\<rparr>" by (rule exI [of _ "z_calls z"]) simp
  have probes: "\<exists>calls. censusReport Y (ProbeReport k reply) z = z\<lparr>z_calls := calls\<rparr>" for k reply
  proof (cases "map_of (z_calls z) k")
    case (Some c)
    with 1 same show ?thesis by (cases c) (auto simp: censusReport_def onCensusReply_def)
  qed (use same in \<open>simp add: censusReport_def\<close>)
  have lookups: "\<exists>calls. censusReport Y (LookupReport k result) z = z\<lparr>z_calls := calls\<rparr>" for k result
  proof (cases "map_of (z_calls z) k")
    case (Some c)
    with 2 same show ?thesis by (cases c) (auto simp: censusReport_def onSeedLookup_def)
  qed (use same in \<open>simp add: censusReport_def\<close>)
  show ?thesis using probes lookups same by (cases rep) (simp_all add: censusReport_def)
qed

lemma censusReport_census:
  assumes "y_Q Y = Q" "wf_census Q z"
  shows "wf_census Q (censusReport Y rep z)"
proof -
  have o: "wf_open Q z" using assms(2) by (simp add: wf_census_def wf_open_def)
  note r = censusReport_wf [OF assms(1) o, of rep]
  have "wf_round (censusReport Y rep z)"
  proof (cases "isRunning z")
    case True
    with r wf_round_cong [of "censusReport Y rep z" z] assms(2) show ?thesis by (simp add: wf_census_def)
  next
    case False
    with idle_report [OF assms(2) False, of Y rep] assms(2) show ?thesis by (auto simp: wf_census_def wf_round_def isRunning_def)
  qed
  with r show ?thesis by (simp add: wf_census_def wf_open_def)
qed

section \<open>Rounds\<close>

lemma beginRound_wf:
  assumes "wf_open Q z" "z_outstanding z = 0"
  shows "wf_open Q (beginRound z)"
proof -
  let ?z' = "beginRound z"
  have none: "sliceCalls (z_generation z) (z_calls z) = []" and ws: "wf_slice Q z" using assms by (simp_all add: wf_open_def wf_calls_def)
  have "wf_sliceNode Q ?z' e n" if "(e, n) \<in> set (z_nodes z)" for e n
  proof -
    have w: "wf_sliceNode Q z e n" using ws that by (auto simp: wf_slice_def)
    have "sn_state n = SliceAnswered \<Longrightarrow> e \<in> set (z_queue ?z')" using that by (force simp: beginRound_def)
    with w show ?thesis by (auto simp: wf_sliceNode_def inSlice_def beginRound_def none split: slice_state.splits)
  qed
  moreover have "set (z_queue ?z') \<subseteq> fst ` set (z_nodes z)" using ws by (force simp: wf_slice_def beginRound_def)
  ultimately have "wf_slice Q ?z'" using ws by (auto simp: wf_slice_def beginRound_def)
  moreover have "wf_calls ?z'" using assms(1) by (simp add: wf_open_def wf_calls_def beginRound_def)
  ultimately show ?thesis by (simp add: wf_open_def)
qed

lemma roundOver_wf:
  assumes "y_Q Y = Q" "wf_open Q z" "isRunning z" "z_outstanding z = 0" "1 \<le> z_round z"
  shows "wf_census Q (roundOver Y z)"
proof -
  let ?z1 = "z\<lparr>z_quietRounds := (if z_newThisRound z = 0 then z_quietRounds z + 1 else 0)\<rparr>"
  have z1: "wf_open Q ?z1" using assms(2) by (simp add: wf_open_def wf_calls_frame [OF frame_aside(3)])
  show ?thesis
  proof (cases "z_quietRounds ?z1 \<ge> zc_quietRoundsToFinish (z_config ?z1) \<or> z_round ?z1 \<ge> zc_maxRounds (z_config ?z1)")
    case True
    have "wf_census Q (startSlice Y (finishSlice Y ?z1))"
      by (rule startSlice_wf [OF assms(1)]) (use z1 assms(3) in \<open>simp_all add: finishSlice_def wf_open_def wf_calls_def isRunning_def\<close>)
    with True show ?thesis unfolding roundOver_def Let_def by (simp only: if_True)
  next
    case False
    have "wf_open Q (beginRound ?z1)" by (rule beginRound_wf [OF z1]) (use assms(4) in simp)
    moreover have "wf_round (beginRound ?z1)" using False assms(3,5) by (simp add: wf_round_def beginRound_def isRunning_def)
    ultimately have "wf_census Q (beginRound ?z1)" by (simp add: wf_census_def wf_open_def)
    with False show ?thesis unfolding roundOver_def Let_def by (simp only: if_False)
  qed
qed

lemma censusTick_wf:
  assumes "y_Q Y = Q" "wf_census Q z"
  shows "wf_census Q (censusTick Y z)"
proof (cases "isRunning z \<and> currentNode z \<noteq> None")
  case True
  have o: "wf_open Q z" using assms(2) by (simp add: wf_census_def wf_open_def)
  let ?z1 = "censusDispatch Y (length (z_queue z)) z"
  note d = censusDispatch_wf [OF o, of Y "length (z_queue z)"]
  have r1: "wf_round ?z1" "isRunning ?z1" "1 \<le> z_round ?z1"
    using d True assms(2) wf_round_cong [of ?z1 z] by (auto simp: wf_census_def isRunning_def sliceFrame_def wf_round_def)
  show ?thesis
  proof (cases "z_queue ?z1 \<noteq> [] \<or> z_outstanding ?z1 > 0 \<or> z_pendingLookups ?z1 > 0")
    case busy: True
    then have "censusTick Y z = ?z1" using True by (auto simp: censusTick_def Let_def)
    with d r1 show ?thesis by (simp add: wf_census_def wf_open_def)
  next
    case False
    have "z_outstanding ?z1 = 0" using False d by (auto simp: wf_open_def wf_calls_def)
    then have "wf_census Q (roundOver Y ?z1)" using roundOver_wf [OF assms(1) conjunct1 [OF d] r1(2) _ r1(3)] by simp
    moreover have "censusTick Y z = roundOver Y ?z1" using True False by (auto simp: censusTick_def Let_def)
    ultimately show ?thesis by simp
  qed
qed (use assms(2) finishAll_wf [OF wf_censusD(1), of Q z CensusCancelled Q Y] in \<open>auto simp: censusTick_def\<close>)

section \<open>Every state of the census\<close>

inductive censusReachable :: "qt_net \<Rightarrow> census \<Rightarrow> bool" for Q where
  created: "censusReachable Q (newCensus cfg v4 v6)"
| started: "censusReachable Q z \<Longrightarrow> y_Q Y = Q \<Longrightarrow> censusReachable Q (censusStart Y n4 n6 z)"
| cancelled: "censusReachable Q z \<Longrightarrow> censusReachable Q (censusCancel Y z)"
| ticked: "censusReachable Q z \<Longrightarrow> y_Q Y = Q \<Longrightarrow> censusReachable Q (censusTick Y z)"
| reported: "censusReachable Q z \<Longrightarrow> y_Q Y = Q \<Longrightarrow> censusReachable Q (censusReport Y rep z)"
| nodesWorked: "censusReachable Q z \<Longrightarrow> censusReachable Q (z\<lparr>z_v4 := v4, z_v6 := v6\<rparr>)"

lemma censusReachable_wf: "censusReachable Q z \<Longrightarrow> wf_census Q z"
proof (induction rule: censusReachable.induct)
  case (created cfg v4 v6)
  then show ?case by (simp add: newCensus_def wf_census_def wf_calls_def wf_slice_def wf_round_def isRunning_def)
next
  case (nodesWorked z v4 v6)
  have "wf_calls (z\<lparr>z_v4 := a, z_v6 := b\<rparr>) = wf_calls z" "wf_round (z\<lparr>z_v4 := a, z_v6 := b\<rparr>) = wf_round z" for a b
    by (simp_all add: wf_calls_def wf_round_def isRunning_def)
  with nodesWorked show ?case by (simp add: wf_census_def)
qed (simp_all add: censusStart_wf censusCancel_wf censusTick_wf censusReport_census)

text \<open>What a tick does: the census stops for want of a node, or the round goes on, or it is over and nothing was asked.\<close>

lemma censusTick_cases:
  assumes wf: "wf_census Q z" and run: "isRunning z"
  obtains (stopped) "censusTick Y z = finishAll Y CensusCancelled z"
  | (busy) "sliceFrame (censusTick Y z) = sliceFrame z" "z_queue z \<noteq> [] \<or> z_outstanding z \<noteq> 0 \<or> z_pendingLookups z \<noteq> 0"
  | (over) "censusTick Y z = roundOver Y z" "z_queue z = []" "z_outstanding z = 0" "z_pendingLookups z = 0"
proof (cases "currentNode z = None")
  case True
  with run that(1) show ?thesis by (simp add: censusTick_def)
next
  case node: False
  have o: "wf_open Q z" using wf by (simp add: wf_census_def wf_open_def)
  let ?z1 = "censusDispatch Y (length (z_queue z)) z"
  note d = censusDispatch_wf [OF o, of Y "length (z_queue z)"]
  have nonneg: "0 \<le> z_outstanding z" "0 \<le> z_pendingLookups z" using o by (simp_all add: wf_open_def wf_calls_def)
  show ?thesis
  proof (cases "z_queue ?z1 \<noteq> [] \<or> z_outstanding ?z1 > 0 \<or> z_pendingLookups ?z1 > 0")
    case True
    then have "censusTick Y z = ?z1" using node run by (auto simp: censusTick_def Let_def)
    moreover have "z_queue z \<noteq> [] \<or> z_outstanding z \<noteq> 0 \<or> z_pendingLookups z \<noteq> 0" using True by (cases "z_queue z") auto
    ultimately show ?thesis using d that(2) by simp
  next
    case False
    then have idle: "z_queue z = []" "z_outstanding z = 0" using d nonneg by auto
    then have "?z1 = z" by simp
    with False node run nonneg idle that(3) show ?thesis by (auto simp: censusTick_def Let_def)
  qed
qed

lemma startSlice_done: "z_done (startSlice Y z) = z_done z"
proof (cases rule: startSlice_cases [of Y z])
  case (slice fam plan prefix a bits)
  then show ?thesis
    using sliceFrame_seedSlice [of Y "beginRound (freshSlice Y prefix bits (z\<lparr>z_family := fam, z_plan := plan, z_draws := a\<rparr>))"]
    by (simp add: sliceFrame_def beginRound_def freshSlice_def)
qed (auto simp: finishAll_def)

lemma countSlice_quiet: "countSlice Y (z\<lparr>z_quietRounds := q\<rparr>) = countSlice Y z"
  by (simp add: countSlice_def sliceAddresses_def)


text \<open>How many rounds the census has left at most: those of the slice in progress and, with one more for its start, those of each
  slice planned.\<close>

definition roundsLeft :: "census \<Rightarrow> int" where
  "roundsLeft z = (let m = max 1 (zc_maxRounds (z_config z)) in int (length (z_plan z)) * (m + 1) + (m + 1 - z_round z))"

lemma roundsLeft_cong: "sliceFrame z' = sliceFrame z \<Longrightarrow> roundsLeft z' = roundsLeft z"
  by (simp add: roundsLeft_def sliceFrame_def)

lemma startSlice_left:
  assumes "isRunning (startSlice Y z)" "z_round z \<le> max 1 (zc_maxRounds (z_config z))"
  shows "roundsLeft (startSlice Y z) < roundsLeft z"
proof (cases rule: startSlice_cases [of Y z])
  case (slice fam plan prefix a bits)
  let ?m = "max 1 (zc_maxRounds (z_config z))"
  have "roundsLeft (startSlice Y z) = int (length plan) * (?m + 1) + ?m"
    using sliceFrame_seedSlice [of Y "beginRound (freshSlice Y prefix bits (z\<lparr>z_family := fam, z_plan := plan, z_draws := a\<rparr>))"]
    by (simp add: slice(2) roundsLeft_def sliceFrame_def beginRound_def freshSlice_def Let_def)
  moreover have "int (length plan) * (?m + 1) + (?m + 1) \<le> int (length (z_plan z)) * (?m + 1)"
  proof -
    have "(int (length plan) + 1) * (?m + 1) \<le> int (length (z_plan z)) * (?m + 1)" using slice(1) by (intro mult_right_mono) simp_all
    then show ?thesis by (simp add: algebra_simps)
  qed
  ultimately show ?thesis using assms(2) by (simp add: roundsLeft_def Let_def)
qed (use assms(1) in \<open>auto simp: finishAll_def isRunning_def\<close>)


section \<open>A census of one node\<close>

definition demoCensusConfig :: census_config where
  "demoCensusConfig = defaultCensusConfig\<lparr>zc_slices := 1, zc_sliceBits := 0, zc_maxRounds := 1\<rparr>"

definition demoCensusEnv :: census_env where
  "demoCensusEnv = \<lparr>y_now = 0, y_Q = qt_doc, y_node = (\<lambda>_. demoEnv), y_catalog = newCatalog 10 0, y_ids = (\<lambda>_. replicate 20 5)\<rparr>"

definition demoLookup :: "contact list \<Rightarrow> lookup_result" where
  "demoLookup found = \<lparr>r_kind = FindNode, r_target = nullId, r_closest = found, r_peers = [], r_sightings = [], r_queried = 0, r_responded = 0,
     r_durationMs = 0, r_hops = 0,
     r_item = \<lparr>i_found = False, i_isMutable = False, i_value = [], i_publicKey = [], i_signature = [], i_sequence = 0\<rparr>\<rparr>"

definition demoContact :: contact where
  "demoContact = \<lparr>ct_id = cn_id demoFound, ct_endpoint = cn_endpoint demoFound, ct_token = []\<rparr>"

definition censusStarted :: census where
  "censusStarted = (censusStart demoCensusEnv 0 0 (newCensus demoCensusConfig (Some demoNode) None))\<lparr>z_v4 := Some demoNode, z_v6 := None\<rparr>"

lemma seedLookup_v4:
  assumes "z_family z = IPv4" "z_v4 z = Some n"
  shows "\<exists>n'. seedLookup Y z = z\<lparr>z_pendingLookups := z_pendingLookups z + 1, z_draws := z_draws z + 1,
    z_calls := (z_nextCall z, SeedCall (z_generation z)) # z_calls z, z_nextCall := z_nextCall z + 1, z_v4 := Some n'\<rparr>"
  using assms by (simp add: seedLookup_def sliceTarget_def censusId_def censusCall_def withCurrent_def Let_def) blast

lemma seedSlice_empty:
  assumes "z_family z = IPv4" "z_v4 z = Some demoNode" "nc_entries (y_catalog Y) = []"
  shows "\<exists>n draws. seedSlice Y z = z\<lparr>z_pendingLookups := z_pendingLookups z + 3, z_draws := draws,
    z_calls := [(z_nextCall z + 2, SeedCall (z_generation z)), (z_nextCall z + 1, SeedCall (z_generation z)), (z_nextCall z, SeedCall (z_generation z))] @ z_calls z,
    z_nextCall := z_nextCall z + 3, z_v4 := Some n\<rparr>"
proof -
  let ?g = "SeedCall (z_generation z)"
  let ?z1 = "z\<lparr>z_draws := z_draws z + 1\<rparr>"
  have 1: "seedSlice Y z = seedLookup Y (seedLookup Y (seedLookup Y ?z1))"
    using assms by (simp add: seedSlice_def knownInSlice_def sliceTarget_def censusId_def currentNode_def censusNode_def closest_new SeedLookups_def
        numeral_3_eq_3 Let_def)
  obtain a where a: "seedLookup Y ?z1 = ?z1\<lparr>z_pendingLookups := z_pendingLookups z + 1, z_draws := z_draws z + 2,
      z_calls := (z_nextCall z, ?g) # z_calls z, z_nextCall := z_nextCall z + 1, z_v4 := Some a\<rparr>"
    using seedLookup_v4 [of ?z1 demoNode Y] assms by auto
  obtain b where b: "seedLookup Y (seedLookup Y ?z1) = ?z1\<lparr>z_pendingLookups := z_pendingLookups z + 2, z_draws := z_draws z + 3,
      z_calls := (z_nextCall z + 1, ?g) # (z_nextCall z, ?g) # z_calls z, z_nextCall := z_nextCall z + 2, z_v4 := Some b\<rparr>"
    using seedLookup_v4 [of "seedLookup Y ?z1" a Y] assms unfolding a by (auto simp: ac_simps eval_nat_numeral)
  obtain c where c: "seedLookup Y (seedLookup Y (seedLookup Y ?z1)) = ?z1\<lparr>z_pendingLookups := z_pendingLookups z + 3, z_draws := z_draws z + 4,
      z_calls := (z_nextCall z + 2, ?g) # (z_nextCall z + 1, ?g) # (z_nextCall z, ?g) # z_calls z, z_nextCall := z_nextCall z + 3, z_v4 := Some c\<rparr>"
    using seedLookup_v4 [of "seedLookup Y (seedLookup Y ?z1)" b Y] assms unfolding b by (auto simp: ac_simps eval_nat_numeral)
  show ?thesis unfolding 1 c by (rule exI [of _ c], rule exI [of _ "z_draws z + 4"]) simp
qed

definition startedCensus :: "nat \<Rightarrow> census" where
  "startedCensus draws = \<lparr>z_config = demoCensusConfig, z_v4 = Some demoNode, z_v6 = None, z_state = CensusRunning, z_plan = [], z_sizeHint = (\<lambda>_. 0),
     z_generation = 1, z_family = IPv4, z_bits = 0, z_prefix = replicate 20 5, z_round = 1, z_quietRounds = 0, z_newThisRound = 0, z_pendingLookups = 3,
     z_sliceQueries = 0, z_nodes = [], z_queue = [], z_outstanding = 0, z_queries = 0, z_elapsedMs = 0, z_done = [], z_clock = 0,
     z_sliceClock = 0, z_finished = 0, z_calls = [(2, SeedCall 1), (1, SeedCall 1), (0, SeedCall 1)], z_nextCall = 3, z_draws = draws\<rparr>"

lemma censusStarted_state: "\<exists>draws. censusStarted = startedCensus draws"
proof -
  let ?Y = demoCensusEnv
  let ?z0 = "(newCensus demoCensusConfig (Some demoNode) None)\<lparr>z_plan := [IPv4], z_sizeHint := (\<lambda>_. 0), z_done := [], z_queries := 0, z_elapsedMs := 0,
    z_state := CensusRunning, z_clock := 0\<rparr>"
  let ?z1 = "beginRound (freshSlice ?Y (replicate 20 5) 0 (?z0\<lparr>z_family := IPv4, z_plan := [], z_draws := 1\<rparr>))"
  have cfg: "nat (zc_slices demoCensusConfig) = 1" "zc_sliceBits demoCensusConfig = 0" by (simp_all add: demoCensusConfig_def)
  have Y: "y_now ?Y = 0" "y_ids ?Y = (\<lambda>_. replicate 20 5)" "nc_entries (y_catalog ?Y) = []" by (simp_all add: demoCensusEnv_def newCatalog_def)
  have 0: "censusStart ?Y 0 0 (newCensus demoCensusConfig (Some demoNode) None) = startSlice ?Y ?z0"
    by (simp add: censusStart_def newCensus_def isRunning_def censusNode_def cfg Y)
  have 1: "startSlice ?Y ?z0 = seedSlice ?Y ?z1"
    by (simp add: startSlice_def Let_def currentNode_def censusNode_def newCensus_def censusId_def chooseBits_def cfg Y MaxSliceBits_def freshSlice_def)
  obtain n draws where 2: "seedSlice ?Y ?z1 = ?z1\<lparr>z_pendingLookups := z_pendingLookups ?z1 + 3, z_draws := draws,
      z_calls := [(z_nextCall ?z1 + 2, SeedCall (z_generation ?z1)), (z_nextCall ?z1 + 1, SeedCall (z_generation ?z1)), (z_nextCall ?z1, SeedCall (z_generation ?z1))] @ z_calls ?z1,
      z_nextCall := z_nextCall ?z1 + 3, z_v4 := Some n\<rparr>"
    using seedSlice_empty [of ?z1 ?Y] Y(3) by (auto simp: newCensus_def freshSlice_def beginRound_def)
  show ?thesis unfolding censusStarted_def 0 1 2
    by (rule exI [of _ draws]) (simp add: startedCensus_def newCensus_def freshSlice_def beginRound_def Y(1))
qed

lemma demo_consider:
  assumes "z_family z = IPv4" "z_bits z = 0" "z_v4 z = Some demoNode" "z_nodes z = []" "z_config z = demoCensusConfig" "z_queue z = []"
  shows "censusConsider demoCensusEnv (cn_id demoFound) (cn_endpoint demoFound) z = z\<lparr>z_nodes := [(cn_endpoint demoFound, sliceNode (cn_id demoFound))],
    z_newThisRound := z_newThisRound z + 1, z_queue := [cn_endpoint demoFound]\<rparr>"
proof -
  have "n_id demoNode \<noteq> cn_id demoFound" by (simp add: demoNode_def newNode_def demoFound_def nullId_def id_Size_def)
  moreover have "isUsableRemote qt_doc (cn_endpoint demoFound) False" by (simp add: isUsableRemote_def demoFound_ok)
  moreover have "y_Q demoCensusEnv = qt_doc" "zc_allowLocal demoCensusConfig = False"
    by (simp_all add: demoCensusEnv_def demoCensusConfig_def defaultCensusConfig_def)
  ultimately show ?thesis
    using assms by (simp add: censusConsider_def demoFound_ok inSlice_def currentNode_def censusNode_def)
qed

text \<open>The first lookup finds a node, the others nothing.\<close>

definition censusSeeded :: census where
  "censusSeeded = censusReport demoCensusEnv (LookupReport 2 (demoLookup [])) (censusReport demoCensusEnv (LookupReport 1 (demoLookup []))
     (censusReport demoCensusEnv (LookupReport 0 (demoLookup [demoContact])) censusStarted))"

lemma seeded_state:
  "\<exists>draws. censusSeeded = (startedCensus draws)\<lparr>z_nodes := [(cn_endpoint demoFound, sliceNode (cn_id demoFound))], z_newThisRound := 1,
     z_queue := [cn_endpoint demoFound], z_pendingLookups := 0, z_calls := []\<rparr>"
proof -
  let ?Y = demoCensusEnv let ?es = "cn_endpoint demoFound"
  obtain draws where s: "censusStarted = startedCensus draws" using censusStarted_state ..
  let ?z0 = "(startedCensus draws)\<lparr>z_calls := [(2, SeedCall 1), (1, SeedCall 1)], z_pendingLookups := 2\<rparr>"
  let ?z1 = "?z0\<lparr>z_nodes := [(?es, sliceNode (cn_id demoFound))], z_newThisRound := 1, z_queue := [?es]\<rparr>"
  have 0: "censusReport ?Y (LookupReport 0 (demoLookup [demoContact])) censusStarted = censusConsider ?Y (cn_id demoFound) ?es ?z0"
    by (simp add: s censusReport_def startedCensus_def onSeedLookup_def demoLookup_def demoContact_def)
  have 1: "censusConsider ?Y (cn_id demoFound) ?es ?z0 = ?z1"
    by (subst demo_consider) (simp_all add: startedCensus_def)
  show ?thesis unfolding censusSeeded_def 0 1
    by (rule exI [of _ draws]) (simp add: censusReport_def startedCensus_def onSeedLookup_def demoLookup_def)
qed

definition censusAsked :: census where
  "censusAsked = (censusTick demoCensusEnv censusSeeded)\<lparr>z_v4 := Some demoNode, z_v6 := None\<rparr>"

definition askedNode :: slice_node where
  "askedNode = (sliceNode (cn_id demoFound))\<lparr>sn_state := SliceAsked, sn_askedInRound := 1\<rparr>"

lemma asked_state:
  "\<exists>draws. censusAsked = (startedCensus draws)\<lparr>z_nodes := [(cn_endpoint demoFound, askedNode)], z_newThisRound := 1,
     z_queue := [], z_pendingLookups := 0, z_outstanding := 1, z_queries := 1, z_sliceQueries := 1, z_calls := [(3, SliceCall 1 (cn_endpoint demoFound))], z_nextCall := 4\<rparr>"
proof -
  let ?Y = demoCensusEnv let ?es = "cn_endpoint demoFound"
  obtain draws where s: "censusSeeded = (startedCensus draws)\<lparr>z_nodes := [(?es, sliceNode (cn_id demoFound))], z_newThisRound := 1,
     z_queue := [?es], z_pendingLookups := 0, z_calls := []\<rparr>" using seeded_state ..
  let ?z2 = "(startedCensus draws)\<lparr>z_nodes := [(?es, askedNode)], z_newThisRound := 1, z_queue := [], z_pendingLookups := 0, z_outstanding := 1,
     z_queries := 1, z_sliceQueries := 1, z_calls := [(3, SliceCall 1 ?es)], z_nextCall := 4, z_draws := draws + 1\<rparr>"
  have run: "isRunning censusSeeded" "currentNode censusSeeded = Some demoNode"
    by (simp_all add: s startedCensus_def isRunning_def currentNode_def censusNode_def)
  have free: "queuedFor a (n_rpc demoNode) = 0" for a by (simp add: queuedFor_def demoNode_def newNode_def newRpcManager_def setBudget_def setHostLimit_def setReadOnly_def)
  obtain f where a: "censusAsk ?Y ?es (censusSeeded\<lparr>z_queue := []\<rparr>) = withCurrent f ?z2"
    by (simp add: s startedCensus_def censusAsk_def sliceNode_def askedNode_def censusId_def censusCall_def Let_def)
  have "censusDispatch ?Y (length (z_queue censusSeeded)) censusSeeded = censusAsk ?Y ?es (censusSeeded\<lparr>z_queue := []\<rparr>)"
    by (simp add: s free) (simp add: startedCensus_def currentNode_def censusNode_def free demoCensusConfig_def defaultCensusConfig_def CensusQueuedPerHost_def)
  then have "censusTick ?Y censusSeeded = withCurrent f ?z2"
    using run by (simp add: censusTick_def a Let_def withCurrent_def)
  then show ?thesis unfolding censusAsked_def by (intro exI [of _ "draws + 1"]) (simp add: withCurrent_def startedCensus_def)
qed

definition censusHeard :: census where
  "censusHeard = censusReport demoCensusEnv (ProbeReport 3 (emptyReply\<lparr>rr_status := ErrorReply\<rparr>)) censusAsked"

lemma heard_state:
  "\<exists>draws. censusHeard = (startedCensus draws)\<lparr>z_nodes := [(cn_endpoint demoFound, askedNode\<lparr>sn_state := SliceAnswered, sn_answeredInSlice := True\<rparr>)],
     z_newThisRound := 1, z_queue := [], z_pendingLookups := 0, z_outstanding := 0, z_queries := 1, z_sliceQueries := 1, z_calls := [], z_nextCall := 4\<rparr>"
proof -
  obtain draws where s: "censusAsked = (startedCensus draws)\<lparr>z_nodes := [(cn_endpoint demoFound, askedNode)], z_newThisRound := 1,
     z_queue := [], z_pendingLookups := 0, z_outstanding := 1, z_queries := 1, z_sliceQueries := 1, z_calls := [(3, SliceCall 1 (cn_endpoint demoFound))], z_nextCall := 4\<rparr>"
    using asked_state ..
  have "senderId emptyMessage = None" by code_simp
  then show ?thesis
    by (intro exI [of _ draws]) (simp add: censusHeard_def s startedCensus_def censusReport_def onCensusReply_def emptyReply_def censusAnswered_def
        askedNode_def sliceNode_def inSlice_def Let_def)
qed

lemma demoCensus_reachable: "censusReachable qt_doc censusStarted" "censusReachable qt_doc censusHeard"
proof -
  have Q: "y_Q demoCensusEnv = qt_doc" by (simp add: demoCensusEnv_def)
  show 1: "censusReachable qt_doc censusStarted"
    unfolding censusStarted_def by (intro censusReachable.nodesWorked censusReachable.started censusReachable.created Q)
  show "censusReachable qt_doc censusHeard"
    unfolding censusHeard_def censusAsked_def censusSeeded_def
    by (intro censusReachable.reported censusReachable.nodesWorked censusReachable.ticked 1 Q)
qed

text \<open>The node answered in the one round allowed: the tick counts the slice.\<close>

lemma heard_counted: "length (z_done (censusTick demoCensusEnv censusHeard)) = 1"
proof -
  let ?Y = demoCensusEnv
  obtain draws where s: "censusHeard = (startedCensus draws)\<lparr>z_nodes := [(cn_endpoint demoFound, askedNode\<lparr>sn_state := SliceAnswered, sn_answeredInSlice := True\<rparr>)],
     z_newThisRound := 1, z_queue := [], z_pendingLookups := 0, z_outstanding := 0, z_queries := 1, z_sliceQueries := 1, z_calls := [], z_nextCall := 4\<rparr>"
    using heard_state ..
  let ?z1 = "censusHeard\<lparr>z_quietRounds := 0\<rparr>"
  have m: "zc_maxRounds demoCensusConfig = 1" by (simp add: demoCensusConfig_def)
  have run: "isRunning censusHeard" "currentNode censusHeard \<noteq> None" "z_queue censusHeard = []" "z_outstanding censusHeard = 0"
      "z_pendingLookups censusHeard = 0" "z_done censusHeard = []"
    by (simp_all add: s startedCensus_def isRunning_def currentNode_def censusNode_def)
  have over: "roundOver ?Y censusHeard = startSlice ?Y (finishSlice ?Y ?z1)"
    by (simp add: roundOver_def s startedCensus_def Let_def m)
  then have "censusTick ?Y censusHeard = startSlice ?Y (finishSlice ?Y ?z1)"
    using run by (auto simp: censusTick_def Let_def)
  then show ?thesis by (simp add: startSlice_done finishSlice_def run(6))
qed



end
