(* ===== verification/Grouping.thy ===== *)
theory Grouping
  imports NodeId
begin

text \<open>
  Walks over sorted vectors in runs: \<open>end = begin + 1; while (end < size && same (v[end], v[begin])) ++end\<close>, as the passes over
  the catalogue do. A run of a vector sorted by a key holds exactly the elements with its key. Identifiers that share a prefix
  are neighbours in the order of identifiers, which is that of 160-bit numbers.
\<close>

function runs :: "('a \<Rightarrow> 'a \<Rightarrow> bool) \<Rightarrow> 'a list \<Rightarrow> 'a list list" where
  "runs same [] = []"
| "runs same (x # xs) = (x # takeWhile (\<lambda>y. same y x) xs) # runs same (dropWhile (\<lambda>y. same y x) xs)"
  by pat_completeness auto
termination by (relation "measure (\<lambda>(same, xs). length xs)") (auto simp: less_Suc_eq_le length_dropWhile_le)

lemma concat_runs [simp]: "concat (runs same xs) = xs"
  by (induction same xs rule: runs.induct) auto

lemma runs_nonempty: "g \<in> set (runs same xs) \<Longrightarrow> g \<noteq> []"
  by (induction same xs rule: runs.induct) auto

lemma set_concat_runs: "(\<exists>g \<in> set (runs same xs). x \<in> set g) \<longleftrightarrow> x \<in> set xs"
  by (metis UN_iff concat_runs set_concat)

lemma sorted_split:
  fixes f :: "'a \<Rightarrow> 'k :: linorder"
  assumes "sorted (map f (x # xs))"
  shows "takeWhile (\<lambda>y. f y = f x) xs = filter (\<lambda>y. f y = f x) xs" "dropWhile (\<lambda>y. f y = f x) xs = filter (\<lambda>y. f y \<noteq> f x) xs"
proof -
  have none: "f y \<noteq> f x" if "sorted (map f (z # zs))" "f z \<noteq> f x" "f x \<le> f z" "y \<in> set (z # zs)" for y z and zs :: "'a list"
    using that by fastforce
  show "takeWhile (\<lambda>y. f y = f x) xs = filter (\<lambda>y. f y = f x) xs"
    using assms
  proof (induction xs)
    case (Cons z zs)
    with none [of z zs] show ?case by (cases "f z = f x") (auto intro!: filter_False [symmetric])
  qed simp
  show "dropWhile (\<lambda>y. f y = f x) xs = filter (\<lambda>y. f y \<noteq> f x) xs"
    using assms
  proof (induction xs)
    case (Cons z zs)
    with none [of z zs] show ?case by (cases "f z = f x") (auto intro!: filter_True [symmetric])
  qed simp
qed

text \<open>The run of each key, in the order of the keys.\<close>

lemma runs_sorted:
  fixes f :: "'a \<Rightarrow> 'k :: linorder"
  assumes "sorted (map f xs)" "\<And>x y. x \<in> set xs \<Longrightarrow> y \<in> set xs \<Longrightarrow> same y x \<longleftrightarrow> f y = f x" "g \<in> set (runs same xs)"
  shows "g \<noteq> []" "g = filter (\<lambda>y. f y = f (hd g)) xs"
proof -
  show "g \<noteq> []" using assms(3) by (rule runs_nonempty)
  show "g = filter (\<lambda>y. f y = f (hd g)) xs"
    using assms
  proof (induction same xs rule: runs.induct)
    case (2 same x xs)
    have t: "takeWhile (\<lambda>y. same y x) xs = filter (\<lambda>y. f y = f x) xs" "dropWhile (\<lambda>y. same y x) xs = filter (\<lambda>y. f y \<noteq> f x) xs"
      using sorted_split [OF 2(2)] 2(3) [of x] by (auto cong: takeWhile_cong dropWhile_cong)
    have s: "sorted (map f (filter (\<lambda>y. f y \<noteq> f x) xs))" using 2(2) by (simp add: sorted_filter)
    show ?case
    proof (cases "g = x # takeWhile (\<lambda>y. same y x) xs")
      case True
      with t show ?thesis by simp
    next
      case False
      with 2(4) have g: "g \<in> set (runs same (filter (\<lambda>y. f y \<noteq> f x) xs))" by (simp add: t)
      have IH: "g = filter (\<lambda>y. f y = f (hd g)) (filter (\<lambda>y. f y \<noteq> f x) xs)"
        using 2(1) [unfolded t, OF s _ g] 2(3) by auto
      have "hd g \<in> set g" using runs_nonempty [OF g] by simp
      then have "f (hd g) \<noteq> f x" by (subst (asm) IH) simp
      moreover have "filter (\<lambda>y. f y = f (hd g)) (filter (\<lambda>y. f y \<noteq> f x) xs) = filter (\<lambda>y. f y = f (hd g)) xs"
        using \<open>f (hd g) \<noteq> f x\<close> by (induction xs) auto
      ultimately show ?thesis using IH by auto
    qed
  qed simp
qed

lemma run_of:
  fixes f :: "'a \<Rightarrow> 'k :: linorder"
  assumes "sorted (map f xs)" "\<And>x y. x \<in> set xs \<Longrightarrow> y \<in> set xs \<Longrightarrow> same y x \<longleftrightarrow> f y = f x" "x \<in> set xs"
  shows "filter (\<lambda>y. f y = f x) xs \<in> set (runs same xs)"
proof -
  obtain g where g: "g \<in> set (runs same xs)" "x \<in> set g" using assms(3) set_concat_runs by metis
  note r = runs_sorted [OF assms(1,2) g(1)]
  from g(2) have "f x = f (hd g)" by (subst (asm) r(2)) auto
  with r(2) g(1) show ?thesis by simp
qed

lemma exists_run:
  fixes f :: "'a \<Rightarrow> 'k :: linorder"
  assumes "sorted (map f xs)" "\<And>x y. x \<in> set xs \<Longrightarrow> y \<in> set xs \<Longrightarrow> same y x \<longleftrightarrow> f y = f x"
  shows "(\<exists>g \<in> set (runs same xs). P g) \<longleftrightarrow> (\<exists>x \<in> set xs. P (filter (\<lambda>y. f y = f x) xs))"
proof
  assume "\<exists>g \<in> set (runs same xs). P g"
  then obtain g where g: "g \<in> set (runs same xs)" "P g" ..
  note r = runs_sorted [OF assms g(1)]
  have "hd g \<in> set xs" using r(1) g(1) set_concat_runs hd_in_set by metis
  with g(2) r(2) show "\<exists>x \<in> set xs. P (filter (\<lambda>y. f y = f x) xs)" by metis
qed (use run_of [OF assms] in blast)

text \<open>The keys of the runs are those of the vector, each once.\<close>

lemma heads_sorted:
  fixes f :: "'a \<Rightarrow> 'k :: linorder"
  assumes "sorted (map f xs)" "\<And>x y. x \<in> set xs \<Longrightarrow> y \<in> set xs \<Longrightarrow> same y x \<longleftrightarrow> f y = f x"
  shows "sorted_wrt (<) (map (\<lambda>g. f (hd g)) (runs same xs))" "(\<lambda>g. f (hd g)) ` set (runs same xs) = f ` set xs"
proof -
  show "(\<lambda>g. f (hd g)) ` set (runs same xs) = f ` set xs"
  proof
    show "f ` set xs \<subseteq> (\<lambda>g. f (hd g)) ` set (runs same xs)"
    proof (rule image_subsetI)
      fix x assume x: "x \<in> set xs"
      note m = run_of [OF assms x]
      have "hd (filter (\<lambda>y. f y = f x) xs) \<in> set (filter (\<lambda>y. f y = f x) xs)" using runs_nonempty [OF m] by (rule hd_in_set)
      with m show "f x \<in> (\<lambda>g. f (hd g)) ` set (runs same xs)" by (intro image_eqI [of _ _ "filter (\<lambda>y. f y = f x) xs"]) auto
    qed
    show "(\<lambda>g. f (hd g)) ` set (runs same xs) \<subseteq> f ` set xs"
      using runs_nonempty set_concat_runs hd_in_set by (metis (no_types, lifting) image_subsetI imageI)
  qed
  show "sorted_wrt (<) (map (\<lambda>g. f (hd g)) (runs same xs))"
    using assms
  proof (induction same xs rule: runs.induct)
    case (2 same x xs)
    have t: "dropWhile (\<lambda>y. same y x) xs = filter (\<lambda>y. f y \<noteq> f x) xs"
      using sorted_split [OF 2(2)] 2(3) [of x] by (auto cong: dropWhile_cong)
    have s: "sorted (map f (filter (\<lambda>y. f y \<noteq> f x) xs))" using 2(2) by (simp add: sorted_filter)
    have "f x < f (hd g)" if "g \<in> set (runs same (filter (\<lambda>y. f y \<noteq> f x) xs))" for g
    proof -
      have "hd g \<in> set (filter (\<lambda>y. f y \<noteq> f x) xs)" using that runs_nonempty set_concat_runs hd_in_set by metis
      with 2(2) show ?thesis by (auto simp: order.strict_iff_order)
    qed
    moreover have "sorted_wrt (<) (map (\<lambda>g. f (hd g)) (runs same (filter (\<lambda>y. f y \<noteq> f x) xs)))"
      using 2(1) [unfolded t, OF s] 2(3) by auto
    ultimately show ?case by (simp add: t)
  qed simp
qed

section \<open>Sorting\<close>

lemma insert_sorted_key:
  fixes f :: "'a \<Rightarrow> 'k :: linorder"
  assumes "\<And>x y. lt y x \<Longrightarrow> f y \<le> f x" "\<And>x y. \<not> lt y x \<Longrightarrow> f x \<le> f y" "sorted (map f xs)"
  shows "sorted (map f (insert_sorted lt x xs))"
  using assms(3)
proof (induction xs)
  case (Cons y ys)
  with assms(1) [of y x] assms(2) [of y x] show ?case by (auto dest: order_trans)
qed simp

lemma sort_by_key:
  fixes f :: "'a \<Rightarrow> 'k :: linorder"
  assumes "\<And>x y. lt y x \<Longrightarrow> f y \<le> f x" "\<And>x y. \<not> lt y x \<Longrightarrow> f x \<le> f y"
  shows "sorted (map f (sort_by lt xs))"
  by (induction xs) (simp_all add: sort_by_def insert_sorted_key [of lt f] assms)

lemma sorted_adj_card: "sorted xs \<Longrightarrow> length (remdups_adj xs) = card (set xs)"
proof (induction xs rule: remdups_adj.induct)
  case (3 x y xs)
  then have "x \<notin> insert y (set xs)" if "x \<noteq> y" using that by auto
  with 3 show ?case by (cases "x = y") auto
qed simp_all

section \<open>Prefixes and the order\<close>

lemma take_mono: "xs \<le> ys \<Longrightarrow> take n xs \<le> take n (ys :: 'a :: linorder list)"
proof (induction n arbitrary: xs ys)
  case (Suc n)
  then show ?case by (cases xs; cases ys) auto
qed simp

lemma bit_byte: "bit (unat (b :: byte)) m \<longleftrightarrow> m < 8 \<and> bit b m"
  using bit_imp_le_length [of b m] by (auto simp: bit_unsigned_iff)

lemma idBit_shift: "idBit (b # x) (8 + m) = idBit x m"
  by (simp add: idBit_Cons)

lemma bit_idVal: "bit (idVal x) n \<longleftrightarrow> n < 8 * length x \<and> idBit x (8 * length x - 1 - n)"
proof (induction x)
  case Nil
  then show ?case by (simp add: idVal_def)
next
  case (Cons b x)
  let ?v = "idVal (b # x)" let ?L = "8 * length x"
  have v: "?v = unat b * 2 ^ ?L + idVal x" "idVal x < 2 ^ ?L"
    using idVal_bound [of x] by (simp_all add: idVal_Cons power_mult)
  have d: "drop_bit ?L ?v = unat b" "take_bit ?L ?v = idVal x" using v(2) by (simp_all add: v(1) drop_bit_eq_div take_bit_eq_mod)
  show ?case
  proof (cases "n < ?L")
    case True
    then have "bit ?v n = bit (take_bit ?L ?v) n" by (simp add: bit_take_bit_iff)
    then have "bit ?v n = idBit x (?L - 1 - n)" using Cons True unfolding d(2) by simp
    moreover have "idBit (b # x) (8 * length (b # x) - 1 - n) = idBit x (?L - 1 - n)"
    proof -
      have e: "8 * length (b # x) - 1 - n = 8 + (?L - 1 - n)" using True by simp
      show ?thesis unfolding e by (rule idBit_shift)
    qed
    ultimately show ?thesis using True by simp
  next
    case False
    then have "bit ?v n = bit (drop_bit ?L ?v) (n - ?L)" by (simp add: bit_drop_bit_eq)
    then have "bit ?v n = bit (unat b) (n - ?L)" by (simp only: d)
    then have v: "bit ?v n \<longleftrightarrow> n - ?L < 8 \<and> bit b (n - ?L)" by (simp only: bit_byte)
    show ?thesis
    proof (cases "n - ?L < 8")
      case True
      have e: "8 * length (b # x) - 1 - n < 8" "7 - (8 * length (b # x) - 1 - n) = n - ?L" "n < 8 * length (b # x)" using True False by auto
      show ?thesis unfolding v idBit_Cons if_P [OF e(1)] e(2) using e(3) True by blast
    next
      case big: False
      then have "\<not> n < 8 * length (b # x)" using False by simp
      with v big show ?thesis by blast
    qed
  qed
qed

text \<open>Two identifiers share \<open>d\<close> bits exactly when their highest \<open>d\<close> bits are the same number.\<close>

definition prefixVal :: "nat \<Rightarrow> node_id \<Rightarrow> nat" where
  "prefixVal d i = drop_bit (id_Bits - d) (idVal i)"

lemma prefixVal_mono: "length a = length b \<Longrightarrow> a \<le> b \<Longrightarrow> prefixVal d a \<le> prefixVal d b"
proof -
  assume l: "length a = length b" and "a \<le> b"
  then have "idVal a \<le> idVal b" using idVal_less_iff [OF l] by (cases "a = b") auto
  then show ?thesis by (simp add: prefixVal_def drop_bit_eq_div div_le_mono)
qed

lemma prefixVal_eq:
  assumes "wf_id a" "wf_id b" "d \<le> id_Bits"
  shows "d \<le> commonPrefixLength a b \<longleftrightarrow> prefixVal d a = prefixVal d b"
proof -
  have l: "length a = 20" "length b = 20" "id_Bits = 160" using assms(1,2) by (simp_all add: wf_id_def id_Size_def id_Bits_def)
  have "prefixVal d a = prefixVal d b \<longleftrightarrow> (\<forall>n. bit (idVal a) (id_Bits - d + n) = bit (idVal b) (id_Bits - d + n))"
    by (simp add: prefixVal_def bit_eq_iff bit_drop_bit_eq)
  also have "\<dots> \<longleftrightarrow> (\<forall>j < d. idBit a j = idBit b j)"
  proof
    assume all: "\<forall>n. bit (idVal a) (id_Bits - d + n) = bit (idVal b) (id_Bits - d + n)"
    show "\<forall>j < d. idBit a j = idBit b j"
    proof (intro allI impI)
      fix j assume "j < d"
      then have "id_Bits - d + (d - 1 - j) < 160" "160 - 1 - (id_Bits - d + (d - 1 - j)) = j" using assms(3) l(3) by auto
      with all [rule_format, of "d - 1 - j"] l show "idBit a j = idBit b j" by (simp add: bit_idVal)
    qed
  next
    assume "\<forall>j < d. idBit a j = idBit b j"
    with assms(3) l show "\<forall>n. bit (idVal a) (id_Bits - d + n) = bit (idVal b) (id_Bits - d + n)" by (auto simp: bit_idVal)
  qed
  finally show ?thesis using commonPrefixLength_ge_iff [OF assms] by simp
qed

end
