(* ===== verification/Sybil.thy ===== *)
theory Sybil
  imports Crawler Grouping "HOL-Library.Log_Nat"
begin

text \<open>
  \<^verbatim>\<open>dhtcore/include/dhtcore/Sybil.h\<close>, \<^verbatim>\<open>dhtcore/src/Sybil.cpp\<close>: the signs that many nodes are run by one party, from one pass over
  the answering entries of the catalogue. The maps over addresses are association lists; a pass hands on the map of signals,
  which is a word of flags for every suspicious address, and adds to the report. The Poisson tail is over the real numbers,
  with \<open>ln (fact k)\<close> for \<open>lgamma (k + 1)\<close>.
\<close>

datatype sybil_signal = ManyNodes | DenseSubnet | SharedId | DenseIds | PointsToSelf | MadeUpPeers

fun signalBit :: "sybil_signal \<Rightarrow> 8 word" where
  "signalBit ManyNodes = 1"
| "signalBit DenseSubnet = 2"
| "signalBit SharedId = 4"
| "signalBit DenseIds = 8"
| "signalBit PointsToSelf = 16"
| "signalBit MadeUpPeers = 32"

definition SeveralSignals :: "8 word" where "SeveralSignals = 128"
definition ManyNodesAt :: nat where "ManyNodesAt = 5"
definition DenseSubnetAt :: nat where "DenseSubnetAt = 8"
definition PointsToSelfAt :: "8 word" where "PointsToSelfAt = 50"
definition DenseWindowChance :: real where "DenseWindowChance = 1 / 1000"
definition MaxListed :: nat where "MaxListed = 50"

definition popcount :: "8 word \<Rightarrow> nat" where
  "popcount b = length (filter (bit b) [0..<8])"

record suspect_address =
  su_address :: host_address
  su_nodes :: int
  su_compliant :: int
  su_prefixes :: int
  su_signals :: "8 word"

record suspect_subnet =
  ss_base :: host_address
  ss_bits :: nat
  ss_addresses :: int
  ss_nodes :: int

record shared_id_group =
  sg_id :: node_id
  sg_addresses :: int
  sg_sample :: "host_address list"

record dense_window =
  dw_prefix :: node_id
  dw_bits :: int
  dw_nodes :: int
  dw_expected :: real
  dw_chance :: real
  dw_addresses :: int

record self_pointer =
  sp_address :: host_address
  sp_port :: "16 word"
  sp_share :: int

record sybil_report =
  sr_answering :: int
  sr_manyNodes :: "suspect_address list"
  sr_denseSubnets :: "suspect_subnet list"
  sr_sharedIds :: "shared_id_group list"
  sr_denseWindows :: "dense_window list"
  sr_selfPointers :: "self_pointer list"
  sr_peerInventors :: "(host_address \<times> 16 word) list"
  sr_flagged :: "suspect_address list"
  sr_flaggedCount :: int
  sr_manyNodesCount :: int
  sr_denseSubnetCount :: int
  sr_sharedIdCount :: int
  sr_selfPointerCount :: int
  sr_peerInventorCount :: int
  sr_denseWindowCount :: int
  sr_signals :: "(bytes \<times> 8 word) list"

definition emptyReport :: sybil_report where
  "emptyReport = \<lparr>sr_answering = 0, sr_manyNodes = [], sr_denseSubnets = [], sr_sharedIds = [], sr_denseWindows = [], sr_selfPointers = [],
     sr_peerInventors = [], sr_flagged = [], sr_flaggedCount = 0, sr_manyNodesCount = 0, sr_denseSubnetCount = 0, sr_sharedIdCount = 0,
     sr_selfPointerCount = 0, sr_peerInventorCount = 0, sr_denseWindowCount = 0, sr_signals = []\<rparr>"

record sybil_item =
  it_address :: bytes
  it_id :: node_id
  it_port :: "16 word"
  it_selfShare :: "8 word"
  it_compliant :: bool
  it_madeUp :: bool

record address_info =
  ai_address :: bytes
  ai_nodes :: int
  ai_compliant :: int
  ai_prefixes :: int

section \<open>Addresses and identifiers\<close>

definition isMappedV4 :: "bytes \<Rightarrow> bool" where
  "isMappedV4 key \<longleftrightarrow> take 12 key = mappedPrefix"

definition addressOf :: "bytes \<Rightarrow> host_address" where
  "addressOf key = (if isMappedV4 key then V4 (from32 (take 4 (drop 12 key))) else V6 key [])"

definition sameSubnet :: "bytes \<Rightarrow> bytes \<Rightarrow> bool" where
  "sameSubnet a b = (let n = (if isMappedV4 a then 15 else 6) in isMappedV4 a = isMappedV4 b \<and> take n a = take n b)"

definition maskedTo :: "node_id \<Rightarrow> int \<Rightarrow> node_id" where
  "maskedTo i bits = map (\<lambda>k. let start = int k * 8
     in if bits \<ge> start + 8 then i ! k else if bits > start then i ! k AND of_int (push_bit (nat (8 - (bits - start))) 0xff) else 0) [0..<id_Size]"

definition prefix21 :: "node_id \<Rightarrow> 32 word" where
  "prefix21 i = drop_bit 3 (push_bit 16 (ucast (i ! 0)) OR push_bit 8 (ucast (i ! 1)) OR ucast (i ! 2))"

section \<open>Signals\<close>

definition flagAddress :: "sybil_signal \<Rightarrow> bytes \<Rightarrow> (bytes \<times> 8 word) list \<Rightarrow> (bytes \<times> 8 word) list" where
  "flagAddress sig key s = AList.update key ((case map_of s key of None \<Rightarrow> 0 | Some b \<Rightarrow> b) OR signalBit sig) s"

text \<open>\<open>AddressSignals::at\<close>: a binary search in the sorted vector.\<close>

definition signalsAt :: "(bytes \<times> 8 word) list \<Rightarrow> bytes \<Rightarrow> 8 word" where
  "signalsAt items key = (case dropWhile (\<lambda>item. fst item < key) items of [] \<Rightarrow> 0 | item # _ \<Rightarrow> if fst item = key then snd item else 0)"

definition matchesSignals :: "catalog_entry \<Rightarrow> 8 word \<Rightarrow> (bytes \<times> 8 word) list option \<Rightarrow> bool" where
  "matchesSignals e wanted suspicion =
     (if wanted = 0 then True
      else if wanted AND signalBit PointsToSelf \<noteq> 0 \<and> ce_state e = Responsive \<and> ce_selfListShare e \<noteq> NoShare \<and> ce_selfListShare e \<ge> PointsToSelfAt
        then True
      else if wanted AND signalBit MadeUpPeers \<noteq> 0 \<and> has InventsPeers e then True
      else let bits = (case suspicion of None \<Rightarrow> 0 | Some s \<Rightarrow> signalsAt s (ce_address e))
           in wanted AND SeveralSignals \<noteq> 0 \<and> popcount bits \<ge> 2 \<or>
              bits AND wanted AND NOT (signalBit PointsToSelf OR signalBit MadeUpPeers OR SeveralSignals) \<noteq> 0)"

section \<open>Chance\<close>

text \<open>The sum of the terms from \<open>k\<close> upwards; the first argument counts the rounds left.\<close>

fun poissonUp :: "nat \<Rightarrow> real \<Rightarrow> nat \<Rightarrow> real \<Rightarrow> real \<Rightarrow> real" where
  "poissonUp 0 l j t s = s"
| "poissonUp (Suc left) l j t s =
     (let t1 = t * (l / real j); s1 = s + t1 in if t1 < s1 / 10 ^ 16 then s1 else poissonUp left l (j + 1) t1 s1)"

definition poissonTail :: "real \<Rightarrow> int \<Rightarrow> real" where
  "poissonTail l k =
     (if k \<le> 0 then 1
      else if \<not> l > 0 then 0
      else if l < of_int k then
        (let t = exp (- l + of_int k * ln l - ln (fact (nat k))) in min 1 (poissonUp 9999 l (nat k + 1) t t))
      else
        (let (t, below) = fold (\<lambda>j (t, below). let t1 = t * (l / real j) in (t1, below + t1)) [1..<nat k] (exp (- l), exp (- l))
         in max 0 (min (1 - below) 1)))"

section \<open>The passes\<close>

definition sybilItem :: "catalog_entry \<Rightarrow> sybil_item" where
  "sybilItem e = \<lparr>it_address = ce_address e, it_id = ce_id e, it_port = ce_port e, it_selfShare = ce_selfListShare e,
     it_compliant = (ce_bep42 e = bep42Code Compliant), it_madeUp = has InventsPeers e\<rparr>"

definition answeringEntries :: "catalog \<Rightarrow> catalog_entry list" where
  "answeringEntries c = filter (\<lambda>e. ce_inUse e \<and> ce_state e = Responsive) (nc_entries c)"

definition sybilItems :: "catalog \<Rightarrow> sybil_item list" where
  "sybilItems c = map sybilItem (answeringEntries c)"

definition pointsToSelf :: "sybil_item \<Rightarrow> bool" where
  "pointsToSelf i \<longleftrightarrow> it_selfShare i \<noteq> NoShare \<and> it_selfShare i \<ge> PointsToSelfAt"

type_synonym walk = "(bytes \<times> 8 word) list \<times> sybil_report"

text \<open>One node of an address.\<close>

definition itemPass :: "bytes \<Rightarrow> sybil_item \<Rightarrow> walk \<Rightarrow> walk" where
  "itemPass key i = (\<lambda>(s, rep).
     let (s1, rep1) = (if pointsToSelf i
           then (flagAddress PointsToSelf key s,
                 rep\<lparr>sr_selfPointers := sr_selfPointers rep @ [\<lparr>sp_address = addressOf (it_address i), sp_port = it_port i, sp_share = uint (it_selfShare i)\<rparr>]\<rparr>)
           else (s, rep))
     in if it_madeUp i
        then (flagAddress MadeUpPeers key s1, rep1\<lparr>sr_peerInventors := sr_peerInventors rep1 @ [(addressOf (it_address i), it_port i)]\<rparr>)
        else (s1, rep1))"

definition addressInfo :: "sybil_item list \<Rightarrow> address_info" where
  "addressInfo run = \<lparr>ai_address = it_address (hd run), ai_nodes = int (length run),
     ai_compliant = int (length (filter it_compliant run)),
     ai_prefixes = int (length (remdups_adj (sort (map (\<lambda>i. prefix21 (it_id i)) run))))\<rparr>"

definition addressPass :: "sybil_item list \<Rightarrow> walk \<times> address_info list \<Rightarrow> walk \<times> address_info list" where
  "addressPass run = (\<lambda>(w, infos).
     let info = addressInfo run;
         (s, rep) = fold (itemPass (ai_address info)) run w;
         s1 = (if ai_nodes info \<ge> int ManyNodesAt then flagAddress ManyNodes (ai_address info) s else s)
     in ((s1, rep), infos @ [info]))"

definition subnetPass :: "qt_net \<Rightarrow> address_info list \<Rightarrow> walk \<Rightarrow> walk" where
  "subnetPass Q run = (\<lambda>(s, rep).
     if length run \<ge> DenseSubnetAt then
       (let (base, bits) = subnetOf Q (addressOf (ai_address (hd run)))
        in (fold (\<lambda>i. flagAddress DenseSubnet (ai_address i)) run s,
            rep\<lparr>sr_denseSubnets := sr_denseSubnets rep @ [\<lparr>ss_base = base, ss_bits = bits, ss_addresses = int (length run),
              ss_nodes = sum_list (map ai_nodes run)\<rparr>]\<rparr>))
     else (s, rep))"

definition idPass :: "sybil_item list \<Rightarrow> walk \<times> node_id list \<Rightarrow> walk \<times> node_id list" where
  "idPass run = (\<lambda>((s, rep), ids).
     let i = it_id (hd run); distinctAddresses = remdups_adj (map it_address run)
     in (if length distinctAddresses \<ge> 2 then
           (fold (\<lambda>x. flagAddress SharedId (it_address x)) run s,
            rep\<lparr>sr_sharedIds := sr_sharedIds rep @ [\<lparr>sg_id = i, sg_addresses = int (length distinctAddresses),
              sg_sample = map addressOf (take 5 distinctAddresses)\<rparr>]\<rparr>)
         else (s, rep), ids @ [i]))"

definition windowDepths :: "nat \<Rightarrow> nat list" where
  "windowDepths n = (let base = floorlog 2 n - 1 in takeWhile (\<lambda>d. d \<le> id_Bits) [base, base + 4, base + 8, base + 12])"

definition windowChance :: "nat \<Rightarrow> nat \<Rightarrow> nat \<Rightarrow> real" where
  "windowChance n depth held = min 1 (poissonTail (real n / 2 ^ depth) (int held) * 2 ^ depth)"

definition windowItems :: "sybil_item list \<Rightarrow> node_id \<Rightarrow> nat \<Rightarrow> sybil_item list" where
  "windowItems byId i depth = takeWhile (\<lambda>x. commonPrefixLength (it_id x) i \<ge> depth) (dropWhile (\<lambda>x. it_id x < i) byId)"

definition windowPass :: "sybil_item list \<Rightarrow> nat \<Rightarrow> nat \<Rightarrow> node_id list \<Rightarrow> walk \<Rightarrow> walk" where
  "windowPass byId n depth run = (\<lambda>(s, rep).
     let held = length run; chance = windowChance n depth held
     in if held \<ge> 3 \<and> chance < DenseWindowChance then
          (let xs = windowItems byId (hd run) depth
           in (fold (\<lambda>x. flagAddress DenseIds (it_address x)) xs s,
               rep\<lparr>sr_denseWindows := sr_denseWindows rep @ [\<lparr>dw_prefix = maskedTo (hd run) (int depth), dw_bits = int depth, dw_nodes = int held,
                 dw_expected = real n / 2 ^ depth, dw_chance = chance,
                 dw_addresses = int (length (remdups_adj (sort (map it_address xs))))\<rparr>]\<rparr>))
        else (s, rep))"

definition depthPass :: "sybil_item list \<Rightarrow> node_id list \<Rightarrow> nat \<Rightarrow> walk \<Rightarrow> walk" where
  "depthPass byId ids depth = fold (windowPass byId (length ids) depth) (runs (\<lambda>a b. commonPrefixLength a b \<ge> depth) ids)"

definition keepTightest :: "dense_window list \<Rightarrow> dense_window list" where
  "keepTightest ws = fold (\<lambda>w kept.
     if list_ex (\<lambda>inner. int (commonPrefixLength (dw_prefix inner) (dw_prefix w)) \<ge> dw_bits w \<and> dw_nodes w * 10 \<le> dw_nodes inner * 11) kept
     then kept else kept @ [w]) (sort_by (\<lambda>a b. dw_bits a > dw_bits b) ws) []"

section \<open>The report\<close>

definition infoFor :: "address_info list \<Rightarrow> bytes \<Rightarrow> address_info option" where
  "infoFor infos key = (case dropWhile (\<lambda>a. ai_address a < key) infos of [] \<Rightarrow> None | a # _ \<Rightarrow> if ai_address a = key then Some a else None)"

definition suspectOf :: "address_info list \<Rightarrow> bytes \<times> 8 word \<Rightarrow> suspect_address list" where
  "suspectOf infos kb = (case infoFor infos (fst kb) of None \<Rightarrow> []
     | Some info \<Rightarrow> [\<lparr>su_address = addressOf (fst kb), su_nodes = ai_nodes info, su_compliant = ai_compliant info, su_prefixes = ai_prefixes info,
         su_signals = snd kb\<rparr>])"

definition bySuspectNodes :: "(host_address \<Rightarrow> bytes) \<Rightarrow> suspect_address \<Rightarrow> suspect_address \<Rightarrow> bool" where
  "bySuspectNodes shown a b \<longleftrightarrow> (if su_nodes a \<noteq> su_nodes b then su_nodes a > su_nodes b else shown (su_address a) < shown (su_address b))"

definition listed :: "('a \<Rightarrow> 'a \<Rightarrow> bool) \<Rightarrow> 'a list \<Rightarrow> 'a list" where
  "listed lt xs = take MaxListed (sort_by lt xs)"

text \<open>What the walks find: the signals, the report so far and the addresses.\<close>

definition sybilWalks :: "qt_net \<Rightarrow> sybil_item list \<Rightarrow> walk \<times> address_info list" where
  "sybilWalks Q items =
     (let byAddress = sort_by (\<lambda>a b. it_address a < it_address b) items;
          (w1, infos) = fold addressPass (runs (\<lambda>a b. it_address a = it_address b) byAddress) (([], emptyReport), []);
          w2 = fold (subnetPass Q) (runs (\<lambda>a b. sameSubnet (ai_address a) (ai_address b)) infos) w1;
          byId = sort_by (\<lambda>a b. if it_id a \<noteq> it_id b then it_id a < it_id b else it_address a < it_address b) byAddress;
          (w3, ids) = fold idPass (runs (\<lambda>a b. it_id a = it_id b) byId) (w2, []);
          w4 = (if length ids \<ge> 16 then fold (depthPass byId ids) (windowDepths (length ids)) w3 else w3)
      in (w4, infos))"

definition computeSybilReport :: "qt_net \<Rightarrow> (host_address \<Rightarrow> bytes) \<Rightarrow> catalog \<Rightarrow> sybil_report" where
  "computeSybilReport Q shown c =
     (let items = sybilItems c
      in if items = [] then emptyReport
         else let ((s, rep), infos) = sybilWalks Q items;
                  windows = keepTightest (sr_denseWindows rep);
                  many = concat (map (suspectOf infos) (filter (\<lambda>kb. snd kb AND signalBit ManyNodes \<noteq> 0) s));
                  flagged = concat (map (suspectOf infos) (filter (\<lambda>kb. popcount (snd kb) \<ge> 2) s))
              in rep\<lparr>sr_answering := int (length items),
                   sr_manyNodes := listed (bySuspectNodes shown) many,
                   sr_denseSubnets := listed (\<lambda>a b. if ss_addresses a \<noteq> ss_addresses b then ss_addresses a > ss_addresses b else ss_nodes a > ss_nodes b) (sr_denseSubnets rep),
                   sr_sharedIds := listed (\<lambda>a b. sg_addresses a > sg_addresses b) (sr_sharedIds rep),
                   sr_denseWindows := listed (\<lambda>a b. dw_chance a < dw_chance b) windows,
                   sr_selfPointers := listed (\<lambda>a b. sp_share a > sp_share b) (sr_selfPointers rep),
                   sr_peerInventors := take MaxListed (sr_peerInventors rep),
                   sr_flagged := listed (\<lambda>a b. if popcount (su_signals a) \<noteq> popcount (su_signals b) then popcount (su_signals a) > popcount (su_signals b)
                     else bySuspectNodes shown a b) flagged,
                   sr_flaggedCount := int (length flagged), sr_manyNodesCount := int (length many),
                   sr_denseSubnetCount := int (length (sr_denseSubnets rep)), sr_sharedIdCount := int (length (sr_sharedIds rep)),
                   sr_selfPointerCount := int (length (sr_selfPointers rep)), sr_peerInventorCount := int (length (sr_peerInventors rep)),
                   sr_denseWindowCount := int (length windows),
                   sr_signals := sort_by (\<lambda>a b. fst a < fst b \<or> fst a = fst b \<and> snd a < snd b) s\<rparr>)"

end
