(* ===== verification/ClientVersion.thy ===== *)
theory ClientVersion
  imports NodeCatalog Krpc
begin

text \<open>
  \<^verbatim>\<open>dhtcore/include/dhtcore/ClientVersion.h\<close>, \<^verbatim>\<open>dhtcore/src/ClientVersion.cpp\<close>: what the version field of a message says about
  the software of a node. Texts are byte lists in UTF-8. The statistics keep a version field as the 64-bit key of the catalogue;
  the key is enough to name the client.
\<close>

datatype client_kind = Absent | Known | UnknownCode | Nonstandard

record client_info =
  cv_kind :: client_kind
  cv_raw :: bytes
  cv_code :: bytes
  cv_name :: bytes
  cv_note :: bytes
  cv_version :: bytes

definition microSign :: bytes where "microSign = [0xc2, 0xb5]"

definition knownClients :: "(bytes \<times> bytes \<times> bytes) list" where
  "knownClients =
     [(ascii ''LT'', ascii ''libtorrent (Rasterbar)'', ascii ''the engine behind qBittorrent, Deluge and many others''),
      (ascii ''lt'', ascii ''libTorrent (Rakshasa)'', ascii ''the engine behind rtorrent''),
      (ascii ''UT'', microSign @ ascii ''Torrent'', ascii ''version layout unpublished''),
      (ascii ''UM'', microSign @ ascii ''Torrent for Mac'', ascii ''version layout unpublished''),
      (ascii ''BT'', ascii ''BitTorrent (mainline)'', ascii ''version layout unpublished''),
      (ascii ''TR'', ascii ''Transmission'', []),
      (ascii ''AZ'', ascii ''Vuze (Azureus)'', []),
      (ascii ''BI'', ascii ''BiglyBT'', []),
      (ascii ''BC'', ascii ''BitComet'', []),
      (ascii ''KT'', ascii ''KTorrent'', []),
      (ascii ''qB'', ascii ''qBittorrent'', []),
      (ascii ''DE'', ascii ''Deluge'', []),
      (ascii ''FW'', ascii ''FrostWire'', []),
      (ascii ''XL'', ascii ''Xunlei (Thunder)'', []),
      (ascii ''SD'', ascii ''Xunlei (Thunder)'', []),
      (ascii ''QD'', ascii ''QQDownload'', []),
      (ascii ''TT'', ascii ''TuoTu'', []),
      (ascii ''MO'', ascii ''MonoTorrent'', []),
      (ascii ''ML'', ascii ''MLDonkey'', []),
      (ascii ''WW'', ascii ''WebTorrent'', []),
      (ascii ''WD'', ascii ''WebTorrent Desktop'', []),
      (ascii ''FD'', ascii ''Free Download Manager'', []),
      (ascii ''HL'', ascii ''Halite'', []),
      (ascii ''BF'', ascii ''Bitflu'', []),
      (ascii ''LW'', ascii ''LimeWire'', []),
      (ascii ''SZ'', ascii ''Shareaza'', []),
      (ascii ''DI'', ascii ''DHT Inspector'', ascii ''this tool'')]"

definition printable :: "byte \<Rightarrow> bool" where
  "printable c \<longleftrightarrow> 0x21 \<le> c \<and> c \<le> 0x7e"

definition decodeVersion :: "bytes \<Rightarrow> byte \<Rightarrow> byte \<Rightarrow> bytes" where
  "decodeVersion code a b =
     (if code = ascii ''LT'' then
        (if a \<ge> 2 \<or> (a = 1 \<and> b \<ge> 0x10)
         then number10 (uint a) @ ascii ''.'' @ number10 (uint (drop_bit 4 b)) @ ascii ''.'' @ number10 (uint (b AND 0x0f))
         else number10 (uint a) @ ascii ''.'' @ number10 (uint b))
      else if code = ascii ''lt'' then
        ascii ''0.'' @ number10 (uint a) @ ascii ''.'' @ number10 (uint (if a \<le> 13 then drop_bit 4 b else b))
      else if code = ascii ''DI'' then number10 (uint a) @ ascii ''.'' @ number10 (uint b)
      else [])"

definition clientName :: "bytes \<Rightarrow> bytes" where
  "clientName code = (case map_of knownClients code of None \<Rightarrow> [] | Some (name, note) \<Rightarrow> name)"

fun clientKindName :: "client_kind \<Rightarrow> bytes" where
  "clientKindName Absent = ascii ''absent''"
| "clientKindName Known = ascii ''known''"
| "clientKindName UnknownCode = ascii ''unknown''"
| "clientKindName Nonstandard = ascii ''nonstandard''"

definition clientCode :: "bytes \<Rightarrow> bytes" where
  "clientCode v = (if length v \<ge> 2 \<and> printable (v ! 0) \<and> printable (v ! 1) then take 2 v else [])"

definition decodeClientVersion :: "bytes \<Rightarrow> client_info" where
  "decodeClientVersion v =
     (let info = \<lparr>cv_kind = Absent, cv_raw = v, cv_code = [], cv_name = [], cv_note = [], cv_version = []\<rparr>
      in if v = [] then info
         else let info1 = info\<lparr>cv_code := clientCode v\<rparr>
         in if length v \<noteq> 4 \<or> cv_code info1 = [] then info1\<lparr>cv_kind := Nonstandard, cv_name := clientName (cv_code info1)\<rparr>
            else case map_of knownClients (cv_code info1) of
              None \<Rightarrow> info1\<lparr>cv_kind := UnknownCode\<rparr>
            | Some (name, note) \<Rightarrow> info1\<lparr>cv_kind := Known, cv_name := name, cv_note := note,
                cv_version := decodeVersion (cv_code info1) (v ! 2) (v ! 3)\<rparr>)"

definition hexDigit :: "byte \<Rightarrow> byte" where
  "hexDigit n = (if n < 10 then n + 48 else n + 87)"

definition hexByte :: "byte \<Rightarrow> bytes" where
  "hexByte b = [hexDigit (drop_bit 4 b), hexDigit (b AND 0x0f)]"

text \<open>\<open>QByteArray::toHex (' ')\<close>.\<close>

fun toHexSpaced :: "bytes \<Rightarrow> bytes" where
  "toHexSpaced [] = []"
| "toHexSpaced [b] = hexByte b"
| "toHexSpaced (b # bs) = hexByte b @ ascii '' '' @ toHexSpaced bs"

text \<open>\<open>krpc::escapeBytes\<close>.\<close>

definition escapeBytes :: "bytes \<Rightarrow> bytes" where
  "escapeBytes bs = concat (map (\<lambda>c. if 0x20 \<le> c \<and> c < 0x7f then [c] else ascii [CHR 0x5c, CHR ''x''] @ hexByte c) bs)"

fun displayClient :: "client_kind \<Rightarrow> client_info \<Rightarrow> bytes" where
  "displayClient Absent info = ascii ''no version sent''"
| "displayClient Known info = (if cv_version info = [] then cv_name info else cv_name info @ ascii '' '' @ cv_version info)"
| "displayClient UnknownCode info = ascii ''unknown client '' @ cv_code info"
| "displayClient Nonstandard info =
     (if cv_name info \<noteq> [] then cv_name info @ ascii '', nonstandard '' @ number10 (int (length (cv_raw info))) @ ascii ''-byte field''
      else ascii ''nonstandard '' @ number10 (int (length (cv_raw info))) @ ascii ''-byte field'')"

definition display :: "client_info \<Rightarrow> bytes" where
  "display info = displayClient (cv_kind info) info"

definition rawText :: "client_info \<Rightarrow> bytes" where
  "rawText info = (if cv_raw info = [] then []
     else ascii [CHR 0x22] @ escapeBytes (cv_raw info) @ ascii [CHR 0x22, CHR 0x20, CHR 0x20, CHR 0x28] @ toHexSpaced (cv_raw info) @ ascii '')'')"

definition clientLabel :: "client_info \<Rightarrow> bytes" where
  "clientLabel info = (if cv_kind info = Known then cv_name info else display info)"

definition versionLabel :: "client_info \<Rightarrow> bytes" where
  "versionLabel info =
     (if cv_kind info \<noteq> Known then []
      else if cv_version info \<noteq> [] then cv_version info
      else ascii ''bytes '' @ toHexSpaced (drop 2 (cv_raw info)))"

text \<open>\<open>ClientLabelCache::labels\<close>: the cache only saves work.\<close>

record client_labels =
  cl_info :: client_info
  cl_client :: bytes
  cl_version :: bytes
  cl_kind :: bytes

definition labelsFor :: "64 word \<Rightarrow> client_labels" where
  "labelsFor key = (let info = decodeClientVersion (versionBytesForKey key)
     in \<lparr>cl_info = info, cl_client = clientLabel info, cl_version = versionLabel info, cl_kind = clientKindName (cv_kind info)\<rparr>)"

section \<open>The key is enough\<close>

definition packKey :: "8 word \<Rightarrow> 8 word \<Rightarrow> 8 word \<Rightarrow> 8 word \<Rightarrow> 8 word \<Rightarrow> 64 word" where
  "packKey n a b c d = push_bit 32 (ucast n) OR push_bit 24 (ucast a) OR push_bit 16 (ucast b) OR push_bit 8 (ucast c) OR ucast d"

lemma byte_of_key: "(ucast (drop_bit k (key :: 64 word) AND 0xff) :: 8 word) = x" if "\<And>i. i < 8 \<Longrightarrow> bit key (k + i) = bit x i"
proof (rule bit_word_eqI)
  have m: "(0xff :: 64 word) = mask 8" by (simp add: mask_eq_exp_minus_1)
  show "bit (ucast (drop_bit k key AND 0xff) :: 8 word) i = bit x i" if "i < LENGTH(8)" for i
    unfolding m using that \<open>\<And>i. i < 8 \<Longrightarrow> bit key (k + i) = bit x i\<close> [of i] by (auto simp: bit_simps)
qed

lemma byte_bits: "8 \<le> i \<Longrightarrow> \<not> bit (x :: 8 word) i"
  using bit_imp_le_length [of x i] by auto

lemma byte_bitD: "bit (x :: 8 word) i \<Longrightarrow> i < 8"
  using byte_bits [of i x] by (meson not_less)

lemma packKey_bits:
  "drop_bit 32 (packKey n a b c d) = ucast n"
  "(ucast (drop_bit 24 (packKey n a b c d) AND 0xff) :: 8 word) = a" "(ucast (drop_bit 16 (packKey n a b c d) AND 0xff) :: 8 word) = b"
  "(ucast (drop_bit 8 (packKey n a b c d) AND 0xff) :: 8 word) = c" "(ucast (drop_bit 0 (packKey n a b c d) AND 0xff) :: 8 word) = d"
proof -
  note bits = packKey_def bit_simps byte_bits
  show "drop_bit 32 (packKey n a b c d) = ucast n" by (rule bit_word_eqI) (auto simp: bits dest: byte_bitD)
  show "(ucast (drop_bit 24 (packKey n a b c d) AND 0xff) :: 8 word) = a" by (rule byte_of_key) (auto simp: bits)
  show "(ucast (drop_bit 16 (packKey n a b c d) AND 0xff) :: 8 word) = b" by (rule byte_of_key) (auto simp: bits)
  show "(ucast (drop_bit 8 (packKey n a b c d) AND 0xff) :: 8 word) = c" by (rule byte_of_key) (auto simp: bits)
  show "(ucast (drop_bit 0 (packKey n a b c d) AND 0xff) :: 8 word) = d" by (rule byte_of_key) (auto simp: bits)
qed

lemma packKey_length: "nat (sint (ucast (drop_bit 32 (packKey n a b c d)) :: 32 word)) = unat n"
proof -
  have "(ucast (ucast n :: 64 word) :: 32 word) = ucast n" by (rule bit_word_eqI) (auto simp: bit_simps byte_bits)
  moreover have "sint (ucast n :: 32 word) = uint n"
  proof -
    have lt: "uint n < 256" using uint_lt2p [of n] by simp
    have u: "uint (ucast n :: 32 word) = uint n" using lt by (simp add: unsigned_ucast_eq take_bit_int_eq_self)
    have "signed_take_bit 31 (uint n) = uint n"
    proof (rule signed_take_bit_int_eq_self)
      show "- (2 ^ 31) \<le> uint n" by (rule order_trans [OF _ uint_ge_0]) simp
    qed (use lt in simp)
    then show ?thesis unfolding sint_uint u by simp
  qed
  moreover have "nat (uint n) = unat n" by simp
  ultimately show ?thesis unfolding packKey_bits(1) by (simp only:)
qed

lemma versionBytes_packKey: "versionBytesForKey (packKey n a b c d) = take (unat n) [a, b, c, d] @ replicate (unat n - 4) 0"
proof -
  let ?f = "\<lambda>i. if i < 4 then ucast (drop_bit (24 - 8 * i) (packKey n a b c d) AND 0xff) else (0 :: 8 word)"
  have "?f 0 = a" "?f 1 = b" "?f 2 = c" "?f 3 = d" by (simp_all add: packKey_bits packKey_bits(5) [simplified])
  then have f: "?f i = [a, b, c, d] ! i" if "i < 4" for i
    using that by (auto simp: less_Suc_eq numeral_eq_Suc)
  then have g: "ucast (drop_bit (24 - 8 * i) (packKey n a b c d) AND 0xff) = [a, b, c, d] ! i" if "i < 4" for i
    using that by fastforce
  show ?thesis
    unfolding versionBytesForKey_def packKey_length Let_def
    by (rule nth_equalityI) (auto simp: g nth_append)
qed

lemma four_bytes: "length xs = 4 \<Longrightarrow> xs = [xs ! 0, xs ! 1, xs ! 2, xs ! 3]"
  by (rule nth_equalityI) (auto simp: less_Suc_eq numeral_eq_Suc)

lemma versionBytesForKey_for:
  assumes "length v \<le> 254"
  shows "versionBytesForKey (versionKeyFor v) = take 4 v @ replicate (length v - 4) 0"
proof -
  let ?p = "take 4 v @ replicate (4 - min (length v) 4) 0"
  have "length ?p = 4" by simp
  then obtain a b c d where p: "?p = [a, b, c, d]" using four_bytes by blast
  have n: "unat (of_nat (min (length v) 254) :: 8 word) = length v" using assms by (simp add: unat_of_nat take_bit_nat_eq_self)
  have "versionKeyFor v = packKey (of_nat (min (length v) 254)) a b c d"
    unfolding versionKeyFor_def versionKey_def setVersion_def packKey_def by (simp add: p)
  then have "versionBytesForKey (versionKeyFor v) = take (length v) ?p @ replicate (length v - 4) 0"
    by (simp only: versionBytes_packKey n p)
  moreover have "take (length v) ?p = take 4 v" by (cases "length v \<le> 4") simp_all
  ultimately show ?thesis by (simp only:)
qed

text \<open>C16: The statistics keep only a 64-bit key of the version field of a node, and that is enough: the client and version they name from
  the key are the ones named from the field itself, for every field of at most 254 bytes.\<close>

theorem labels_from_key:
  assumes "length v \<le> 254"
  shows "cl_client (labelsFor (versionKeyFor v)) = clientLabel (decodeClientVersion v) \<and>
    cl_version (labelsFor (versionKeyFor v)) = versionLabel (decodeClientVersion v) \<and>
    cl_kind (labelsFor (versionKeyFor v)) = clientKindName (cv_kind (decodeClientVersion v))"
proof (cases "length v \<le> 4")
  case True
  then show ?thesis using versionBytesForKey_for [OF assms] by (simp add: labelsFor_def Let_def)
next
  case False
  let ?w = "take 4 v @ replicate (length v - 4) 0"
  have "length ?w = length v" "?w \<noteq> []" "v \<noteq> []" using False by auto
  moreover have "clientCode ?w = clientCode v" using False by (simp add: clientCode_def nth_append)
  ultimately show ?thesis
    using False versionBytesForKey_for [OF assms]
    by (simp add: labelsFor_def decodeClientVersion_def clientLabel_def versionLabel_def display_def Let_def)
qed

theorem labels_from_key_witness: "cl_client (labelsFor (versionKeyFor (ascii ''LT'' @ [2, 0x0b]))) = ascii ''libtorrent (Rasterbar)''"
proof -
  have "clientLabel (decodeClientVersion (ascii ''LT'' @ [2, 0x0b])) = ascii ''libtorrent (Rasterbar)''" by code_simp
  then show ?thesis using labels_from_key [of "ascii ''LT'' @ [2, 0x0b]"] by simp
qed

end
