(* ===== verification/NetworkStats.thy ===== *)
theory NetworkStats
  imports Sybil ClientVersion
begin

text \<open>
  \<^verbatim>\<open>dhtcore/include/dhtcore/NetworkStats.h\<close>, \<^verbatim>\<open>dhtcore/src/NetworkStats.cpp\<close>: the statistics of one pass over the catalogue, by address,
  and the estimates of the size of the network. Weights and averages are exact rationals where the code has doubles; only the standard
  error and the ranks of the confidence interval, which take square roots, are over the real numbers. The histograms of round trips and ports
  are functions of the index.
\<close>

definition DefaultPort :: "16 word" where "DefaultPort = 6881"
definition MaxRttMs :: nat where "MaxRttMs = 3000"
definition ChurnWindowMs :: int where "ChurnWindowMs = 60 * 60 * 1000"

definition SurvivalMs :: "int list" where
  "SurvivalMs = [60 * 60 * 1000, 6 * 60 * 60 * 1000, 24 * 60 * 60 * 1000]"

definition BinEndsMs :: "int list" where
  "BinEndsMs = [10 * 60 * 1000, 30 * 60 * 1000, 60 * 60 * 1000, 3 * 60 * 60 * 1000, 6 * 60 * 60 * 1000, 12 * 60 * 60 * 1000,
     24 * 60 * 60 * 1000, 2 ^ 63 - 1]"

record feature_tally =
  ft_tested :: rat
  ft_yes :: rat

record churn_stats =
  ch_departed :: int
  ch_returned :: int
  ch_arrived :: int
  ch_survivalBase :: "nat \<Rightarrow> int"
  ch_survivalKept :: "nat \<Rightarrow> int"
  ch_uptimeBins :: "nat \<Rightarrow> int"
  ch_sessionBins :: "nat \<Rightarrow> int"
  ch_medianUptimeMs :: int
  ch_medianSessionMs :: int

record accumulator =
  ac_heardIps :: int
  ac_connectedIps :: int
  ac_answeringIps :: int
  ac_unroutableIps :: int
  ac_multiNodeIps :: int
  ac_maxNodesPerIp :: int
  ac_answeringNodes :: int
  ac_versions :: "(64 word \<times> rat) list"
  ac_bep42 :: "nat \<Rightarrow> rat"
  ac_rtt :: "nat \<Rightarrow> rat"
  ac_rttWeight :: rat
  ac_rttSumMs :: rat
  ac_ports :: "nat \<Rightarrow> rat"
  ac_features :: "nat \<Rightarrow> feature_tally"
  ac_unknownOther :: rat
  ac_unknownOtherError :: rat
  ac_samples :: "(32 word \<times> rat) list"
  ac_problems :: "nat \<Rightarrow> int"
  ac_churn :: churn_stats
  ac_uptimes :: "int list"
  ac_sessions :: "int list"

definition noChurn :: churn_stats where
  "noChurn = \<lparr>ch_departed = 0, ch_returned = 0, ch_arrived = 0, ch_survivalBase = (\<lambda>_. 0), ch_survivalKept = (\<lambda>_. 0),
     ch_uptimeBins = (\<lambda>_. 0), ch_sessionBins = (\<lambda>_. 0), ch_medianUptimeMs = - 1, ch_medianSessionMs = - 1\<rparr>"

definition emptyAccumulator :: accumulator where
  "emptyAccumulator = \<lparr>ac_heardIps = 0, ac_connectedIps = 0, ac_answeringIps = 0, ac_unroutableIps = 0, ac_multiNodeIps = 0, ac_maxNodesPerIp = 0,
     ac_answeringNodes = 0, ac_versions = [], ac_bep42 = (\<lambda>_. 0), ac_rtt = (\<lambda>_. 0), ac_rttWeight = 0, ac_rttSumMs = 0, ac_ports = (\<lambda>_. 0),
     ac_features = (\<lambda>_. \<lparr>ft_tested = 0, ft_yes = 0\<rparr>), ac_unknownOther = 0, ac_unknownOtherError = 0, ac_samples = [],
     ac_problems = (\<lambda>_. 0), ac_churn = noChurn, ac_uptimes = [], ac_sessions = []\<rparr>"

definition addTo :: "'k \<Rightarrow> rat \<Rightarrow> ('k \<times> rat) list \<Rightarrow> ('k \<times> rat) list" where
  "addTo key w m = AList.update key ((case map_of m key of None \<Rightarrow> 0 | Some x \<Rightarrow> x) + w) m"

definition addChurn :: "churn_stats \<Rightarrow> churn_stats \<Rightarrow> churn_stats" where
  "addChurn b c = c\<lparr>ch_departed := ch_departed c + ch_departed b, ch_returned := ch_returned c + ch_returned b, ch_arrived := ch_arrived c + ch_arrived b,
     ch_survivalBase := (\<lambda>i. ch_survivalBase c i + ch_survivalBase b i), ch_survivalKept := (\<lambda>i. ch_survivalKept c i + ch_survivalKept b i),
     ch_uptimeBins := (\<lambda>i. ch_uptimeBins c i + ch_uptimeBins b i), ch_sessionBins := (\<lambda>i. ch_sessionBins c i + ch_sessionBins b i)\<rparr>"

definition addAccumulator :: "accumulator \<Rightarrow> accumulator \<Rightarrow> accumulator" where
  "addAccumulator b a = a\<lparr>ac_heardIps := ac_heardIps a + ac_heardIps b, ac_connectedIps := ac_connectedIps a + ac_connectedIps b,
     ac_answeringIps := ac_answeringIps a + ac_answeringIps b, ac_unroutableIps := ac_unroutableIps a + ac_unroutableIps b,
     ac_multiNodeIps := ac_multiNodeIps a + ac_multiNodeIps b, ac_maxNodesPerIp := max (ac_maxNodesPerIp a) (ac_maxNodesPerIp b),
     ac_answeringNodes := ac_answeringNodes a + ac_answeringNodes b,
     ac_versions := fold (\<lambda>(key, w). addTo key w) (ac_versions b) (ac_versions a),
     ac_bep42 := (\<lambda>i. ac_bep42 a i + ac_bep42 b i), ac_rtt := (\<lambda>i. ac_rtt a i + ac_rtt b i),
     ac_rttWeight := ac_rttWeight a + ac_rttWeight b, ac_rttSumMs := ac_rttSumMs a + ac_rttSumMs b,
     ac_ports := (\<lambda>i. ac_ports a i + ac_ports b i),
     ac_features := (\<lambda>i. \<lparr>ft_tested = ft_tested (ac_features a i) + ft_tested (ac_features b i), ft_yes = ft_yes (ac_features a i) + ft_yes (ac_features b i)\<rparr>),
     ac_unknownOther := ac_unknownOther a + ac_unknownOther b, ac_unknownOtherError := ac_unknownOtherError a + ac_unknownOtherError b,
     ac_samples := ac_samples a @ ac_samples b, ac_problems := (\<lambda>i. ac_problems a i + ac_problems b i),
     ac_churn := addChurn (ac_churn b) (ac_churn a),
     ac_uptimes := ac_uptimes a @ ac_uptimes b, ac_sessions := ac_sessions a @ ac_sessions b\<rparr>"

section \<open>One address\<close>

text \<open>What the walk over the entries of an address gathers for its comings and goings.\<close>

record address_walk =
  aw_connected :: bool
  aw_answering :: int
  aw_upSince :: "32 word"
  aw_firstSeen :: "32 word"
  aw_rejoined :: bool
  aw_anyGone :: bool
  aw_lastAnswered :: "32 word"
  aw_lastSpellStart :: "32 word"

definition startWalk :: address_walk where
  "startWalk = \<lparr>aw_connected = False, aw_answering = 0, aw_upSince = 0, aw_firstSeen = 0, aw_rejoined = False, aw_anyGone = False,
     aw_lastAnswered = 0, aw_lastSpellStart = 0\<rparr>"

definition walkEntry :: "catalog_entry \<Rightarrow> address_walk \<Rightarrow> address_walk" where
  "walkEntry e w =
     (let w1 = w\<lparr>aw_connected := aw_connected w \<or> ce_lastAnswered e > 0\<rparr>;
          w2 = (if ce_firstSeen e \<noteq> 0 \<and> (aw_firstSeen w1 = 0 \<or> ce_firstSeen e < aw_firstSeen w1) then w1\<lparr>aw_firstSeen := ce_firstSeen e\<rparr> else w1)
      in if ce_state e = Responsive then
           (let w3 = w2\<lparr>aw_answering := aw_answering w2 + 1\<rparr>
            in if ce_answeringSince e \<noteq> 0 \<and> (aw_upSince w3 = 0 \<or> ce_answeringSince e < aw_upSince w3)
               then w3\<lparr>aw_upSince := ce_answeringSince e, aw_rejoined := has Rejoined e\<rparr> else w3)
         else if ce_state e = Gone then
           (let w3 = w2\<lparr>aw_anyGone := True\<rparr>
            in if ce_lastAnswered e > aw_lastAnswered w3
               then w3\<lparr>aw_lastAnswered := ce_lastAnswered e, aw_lastSpellStart := ce_answeringSince e\<rparr> else w3)
         else w2)"

definition binOf :: "int \<Rightarrow> nat" where
  "binOf ms = length (takeWhile (\<lambda>end. ms \<ge> end) (butlast BinEndsMs))"

definition bump :: "nat \<Rightarrow> (nat \<Rightarrow> int) \<Rightarrow> nat \<Rightarrow> int" where
  "bump i f = f(i := f i + 1)"

definition survived :: "int \<Rightarrow> churn_stats \<Rightarrow> churn_stats" where
  "survived up ch = fold (\<lambda>w ch. if up \<ge> SurvivalMs ! w
     then ch\<lparr>ch_survivalBase := bump w (ch_survivalBase ch), ch_survivalKept := bump w (ch_survivalKept ch)\<rparr> else ch) [0..<length SurvivalMs] ch"

definition lost :: "int \<Rightarrow> int \<Rightarrow> churn_stats \<Rightarrow> churn_stats" where
  "lost started since ch = fold (\<lambda>w ch. if started \<ge> SurvivalMs ! w \<and> since < SurvivalMs ! w
     then ch\<lparr>ch_survivalBase := bump w (ch_survivalBase ch)\<rparr> else ch) [0..<length SurvivalMs] ch"

definition countUp :: "catalog \<Rightarrow> int \<Rightarrow> address_walk \<Rightarrow> accumulator \<Rightarrow> accumulator" where
  "countUp c now w a =
     (let up = ageMs (aw_upSince w) now c; ch = ac_churn a;
          ch1 = ch\<lparr>ch_uptimeBins := bump (binOf up) (ch_uptimeBins ch)\<rparr>;
          ch2 = (if up \<le> ChurnWindowMs then
                   (if aw_rejoined w then ch1\<lparr>ch_returned := ch_returned ch1 + 1\<rparr>
                    else if aw_firstSeen w \<noteq> 0 \<and> ageMs (aw_firstSeen w) now c \<le> ChurnWindowMs then ch1\<lparr>ch_arrived := ch_arrived ch1 + 1\<rparr>
                    else ch1)
                 else ch1)
      in a\<lparr>ac_churn := survived up ch2, ac_uptimes := ac_uptimes a @ [up]\<rparr>)"

definition countGone :: "catalog \<Rightarrow> int \<Rightarrow> address_walk \<Rightarrow> accumulator \<Rightarrow> accumulator" where
  "countGone c now w a =
     (let since = ageMs (aw_lastAnswered w) now c; started = ageMs (aw_lastSpellStart w) now c; session = max 0 (started - since); ch = ac_churn a;
          ch1 = ch\<lparr>ch_sessionBins := bump (binOf session) (ch_sessionBins ch)\<rparr>;
          ch2 = (if since \<le> ChurnWindowMs then ch1\<lparr>ch_departed := ch_departed ch1 + 1\<rparr> else ch1)
      in a\<lparr>ac_churn := lost started since ch2, ac_sessions := ac_sessions a @ [session]\<rparr>)"

definition churnAddress :: "catalog \<Rightarrow> int \<Rightarrow> address_walk \<Rightarrow> accumulator \<Rightarrow> accumulator" where
  "churnAddress c now w a =
     (if aw_answering w > 0 \<and> aw_upSince w \<noteq> 0 then countUp c now w a
      else if aw_answering w = 0 \<and> aw_anyGone w \<and> aw_lastAnswered w \<noteq> 0 \<and> aw_lastSpellStart w \<noteq> 0 then countGone c now w a
      else a)"

definition tallyFeature :: "nat \<Rightarrow> bool \<Rightarrow> bool \<Rightarrow> rat \<Rightarrow> accumulator \<Rightarrow> accumulator" where
  "tallyFeature i tested yes weight a =
     (if tested then a\<lparr>ac_features := (ac_features a)(i := \<lparr>ft_tested = ft_tested (ac_features a i) + weight,
        ft_yes = ft_yes (ac_features a i) + (if yes then weight else 0)\<rparr>)\<rparr> else a)"

definition weighRtt :: "rat \<Rightarrow> catalog_entry \<Rightarrow> accumulator \<Rightarrow> accumulator" where
  "weighRtt weight e a =
     (if ce_rttMs e \<noteq> NoRtt
      then let i = min (unat (ce_rttMs e)) MaxRttMs
           in a\<lparr>ac_rtt := (ac_rtt a)(i := ac_rtt a i + weight), ac_rttWeight := ac_rttWeight a + weight,
                ac_rttSumMs := ac_rttSumMs a + weight * of_nat (unat (ce_rttMs e))\<rparr>
      else a)"

definition weighFeatures :: "rat \<Rightarrow> catalog_entry \<Rightarrow> accumulator \<Rightarrow> accumulator" where
  "weighFeatures weight e a =
     (let a1 = tallyFeature 0 (has Tested51 e) (has Has51 e) weight a;
          a2 = tallyFeature 1 (has Tested44 e) (has Has44 e) weight a1;
          a3 = tallyFeature 2 (has Tested32 e) (has Has32 e) weight a2;
          a4 = tallyFeature 3 (has TestedIp e) (has SendsIp e) weight a3;
          a5 = tallyFeature 4 (has TestedUnknown e) (has Answers204 e) weight a4;
          a6 = tallyFeature 6 (has TestedPeers e) (has InventsPeers e) weight a5;
          a7 = (if has TestedUnknown e \<and> has AnswersOther e
                then a6\<lparr>ac_unknownOther := ac_unknownOther a6 + weight,
                  ac_unknownOtherError := ac_unknownOtherError a6 + (if has AnswersError e then weight else 0)\<rparr> else a6);
          a8 = tallyFeature 5 (ce_selfListShare e \<noteq> NoShare) (has ListsBogons e) weight a7
      in if has Has51 e then a8\<lparr>ac_samples := ac_samples a8 @ [(sampleCount e, weight)]\<rparr> else a8)"

definition weighEntry :: "rat \<Rightarrow> catalog_entry \<Rightarrow> accumulator \<Rightarrow> accumulator" where
  "weighEntry weight e a =
     (let i = min (unat (ce_bep42 e)) 3; p = unat (ce_port e);
          a1 = a\<lparr>ac_versions := addTo (versionKey e) weight (ac_versions a), ac_bep42 := (ac_bep42 a)(i := ac_bep42 a i + weight)\<rparr>;
          a2 = weighRtt weight e a1;
          a3 = a2\<lparr>ac_ports := (ac_ports a2)(p := ac_ports a2 p + weight)\<rparr>
      in weighFeatures weight e a3)"

text \<open>An address that answers, with all its nodes.\<close>

definition weighAddress :: "catalog_entry list \<Rightarrow> int \<Rightarrow> accumulator \<Rightarrow> accumulator" where
  "weighAddress run answering a =
     (if answering > 0 then
        (let a1 = a\<lparr>ac_answeringIps := ac_answeringIps a + 1, ac_answeringNodes := ac_answeringNodes a + answering,
               ac_multiNodeIps := ac_multiNodeIps a + (if answering > 1 then 1 else 0), ac_maxNodesPerIp := max (ac_maxNodesPerIp a) answering\<rparr>
         in fold (weighEntry (1 / of_int answering)) (filter (\<lambda>e. ce_state e = Responsive) run) a1)
      else a)"

definition zeroPortEntry :: "catalog_entry \<Rightarrow> bool" where
  "zeroPortEntry e \<longleftrightarrow> ce_state e = Unroutable \<and> ce_failures e = problemCode ZeroPort"

definition addressStats :: "catalog \<Rightarrow> int \<Rightarrow> catalog_entry list \<Rightarrow> accumulator \<Rightarrow> accumulator" where
  "addressStats c now run a =
     (if \<not> list_ex (\<lambda>e. ce_state e \<noteq> Unroutable) run then
        a\<lparr>ac_unroutableIps := ac_unroutableIps a + 1, ac_problems := bump (min (unat (ce_failures (hd run))) 5) (ac_problems a)\<rparr>
      else let a1 = (if list_ex zeroPortEntry run then a\<lparr>ac_problems := bump 1 (ac_problems a)\<rparr> else a);
               a2 = a1\<lparr>ac_heardIps := ac_heardIps a1 + 1\<rparr>;
               w = fold walkEntry run startWalk;
               a3 = (if aw_connected w then a2\<lparr>ac_connectedIps := ac_connectedIps a2 + 1\<rparr> else a2)
           in weighAddress run (aw_answering w) (churnAddress c now w a3))"

definition familyStats :: "catalog \<Rightarrow> int \<Rightarrow> catalog_entry list \<Rightarrow> accumulator \<times> accumulator \<Rightarrow> accumulator \<times> accumulator" where
  "familyStats c now run = (\<lambda>(v4, v6). if isIPv4Entry (hd run) then (addressStats c now run v4, v6) else (v4, addressStats c now run v6))"

section \<open>Summaries\<close>

record client_tally =
  ct_name :: bytes
  ct_version :: bytes
  ct_kind :: bytes
  ct_count :: rat

record network_stats =
  ns_heardIps :: int
  ns_connectedIps :: int
  ns_answeringIps :: int
  ns_unroutableIps :: int
  ns_multiNodeIps :: int
  ns_maxNodesPerIp :: int
  ns_answeringNodes :: int
  ns_clients :: "client_tally list"
  ns_versions :: "client_tally list"
  ns_bep42 :: "nat \<Rightarrow> rat"
  ns_rttHistogram :: "rat list"
  ns_rttWeight :: rat
  ns_rttMeanMs :: rat
  ns_rttMedianMs :: int
  ns_rttP90Ms :: int
  ns_rttP99Ms :: int
  ns_topPorts :: "(nat \<times> rat) list"
  ns_distinctPorts :: int
  ns_defaultPortCount :: rat
  ns_features :: "nat \<Rightarrow> feature_tally"
  ns_unknownOther :: rat
  ns_unknownOtherError :: rat
  ns_samplesMedian :: rat
  ns_samplesMean :: rat
  ns_samplesMeanError :: real
  ns_problems :: "nat \<Rightarrow> int"
  ns_churn :: churn_stats

text \<open>\<open>histogramQuantile\<close>, with its slack.\<close>

definition slack :: rat where "slack = 1 / 10 ^ 9"

fun quantileFrom :: "nat \<Rightarrow> rat \<Rightarrow> rat \<Rightarrow> rat list \<Rightarrow> nat option" where
  "quantileFrom i seen wanted [] = None"
| "quantileFrom i seen wanted (h # hs) = (let seen1 = seen + h in if h > 0 \<and> seen1 \<ge> wanted then Some i else quantileFrom (i + 1) seen1 wanted hs)"

definition histogramQuantile :: "rat list \<Rightarrow> rat \<Rightarrow> rat \<Rightarrow> int" where
  "histogramQuantile histogram whole quantile =
     (if \<not> whole > 0 then - 1
      else case quantileFrom 0 0 (max (quantile * whole) slack - slack) histogram of
        Some i \<Rightarrow> int i
      | None \<Rightarrow> int (length histogram) - 1)"

text \<open>The element that \<open>std::nth_element\<close> puts in the middle.\<close>

definition lowerMedian :: "int list \<Rightarrow> int" where
  "lowerMedian v = (if v = [] then - 1 else sort v ! ((length v - 1) div 2))"

fun samplesMedian :: "rat \<Rightarrow> rat \<Rightarrow> (32 word \<times> rat) list \<Rightarrow> rat" where
  "samplesMedian whole seen [] = - 1"
| "samplesMedian whole seen (p # ps) =
     (let seen1 = seen + snd p in if seen1 \<ge> whole / 2 - slack then of_nat (unat (fst p)) else samplesMedian whole seen1 ps)"

definition sampleBefore :: "32 word \<times> rat \<Rightarrow> 32 word \<times> rat \<Rightarrow> bool" where
  "sampleBefore p q \<longleftrightarrow> fst p < fst q \<or> fst p = fst q \<and> snd p < snd q"

definition samplesMean :: "(32 word \<times> rat) list \<Rightarrow> rat" where
  "samplesMean ps = sum_list (map (\<lambda>p. snd p * of_nat (unat (fst p))) ps) / sum_list (map snd ps)"

definition samplesMeanError :: "(32 word \<times> rat) list \<Rightarrow> real" where
  "samplesMeanError ps =
     (let whole = sum_list (map snd ps); m = samplesMean ps;
          variance = sum_list (map (\<lambda>p. snd p * (of_nat (unat (fst p)) - m) * (of_nat (unat (fst p)) - m)) ps) / whole;
          effective = whole * whole / sum_list (map (\<lambda>p. snd p * snd p) ps)
      in if effective > 1 then sqrt (real_of_rat (variance / (effective - 1))) else 0)"

definition tallyBefore :: "client_tally \<Rightarrow> client_tally \<Rightarrow> bool" where
  "tallyBefore a b \<longleftrightarrow>
     (if ct_count a \<noteq> ct_count b then ct_count a > ct_count b
      else if ct_name a \<noteq> ct_name b then ct_name a < ct_name b
      else ct_version a < ct_version b)"

definition byName :: "(64 word \<times> rat) list \<Rightarrow> (bytes \<times> rat) list" where
  "byName versions = fold (\<lambda>(key, w). addTo (cl_client (labelsFor key)) w) versions []"

definition byVersion :: "(64 word \<times> rat) list \<Rightarrow> ((bytes \<times> bytes) \<times> rat) list" where
  "byVersion versions = fold (\<lambda>(key, w). addTo (cl_client (labelsFor key), cl_version (labelsFor key)) w) versions []"

definition kindByName :: "(64 word \<times> rat) list \<Rightarrow> (bytes \<times> bytes) list" where
  "kindByName versions = fold (\<lambda>(key, w). AList.update (cl_client (labelsFor key)) (cl_kind (labelsFor key))) versions []"

definition kindByVersion :: "(64 word \<times> rat) list \<Rightarrow> ((bytes \<times> bytes) \<times> bytes) list" where
  "kindByVersion versions = fold (\<lambda>(key, w). AList.update (cl_client (labelsFor key), cl_version (labelsFor key)) (cl_kind (labelsFor key))) versions []"

definition clientTallies :: "(64 word \<times> rat) list \<Rightarrow> client_tally list" where
  "clientTallies versions = sort_by tallyBefore (map (\<lambda>(name, n).
     \<lparr>ct_name = name, ct_version = [], ct_kind = (case map_of (kindByName versions) name of None \<Rightarrow> [] | Some k \<Rightarrow> k), ct_count = n\<rparr>) (byName versions))"

definition versionTallies :: "(64 word \<times> rat) list \<Rightarrow> client_tally list" where
  "versionTallies versions = sort_by tallyBefore (map (\<lambda>((name, version), n).
     \<lparr>ct_name = name, ct_version = version, ct_kind = (case map_of (kindByVersion versions) (name, version) of None \<Rightarrow> [] | Some k \<Rightarrow> k),
       ct_count = n\<rparr>) (byVersion versions))"

definition usedPorts :: "accumulator \<Rightarrow> (nat \<times> rat) list" where
  "usedPorts a = map (\<lambda>p. (p, ac_ports a p)) (filter (\<lambda>p. ac_ports a p > 0) [0..<65536])"

definition topPorts :: "int \<Rightarrow> accumulator \<Rightarrow> (nat \<times> rat) list" where
  "topPorts keep a = take (nat (max 0 keep)) (sort_by (\<lambda>x y. if snd x \<noteq> snd y then snd x > snd y else fst x < fst y) (usedPorts a))"

definition summarise :: "int \<Rightarrow> accumulator \<Rightarrow> network_stats" where
  "summarise keep a =
     (let histogram = map (ac_rtt a) [0..<MaxRttMs + 1]; W = ac_rttWeight a; samples = sort_by sampleBefore (ac_samples a);
          whole = sum_list (map snd samples)
      in \<lparr>ns_heardIps = ac_heardIps a, ns_connectedIps = ac_connectedIps a, ns_answeringIps = ac_answeringIps a,
          ns_unroutableIps = ac_unroutableIps a, ns_multiNodeIps = ac_multiNodeIps a, ns_maxNodesPerIp = ac_maxNodesPerIp a,
          ns_answeringNodes = ac_answeringNodes a, ns_clients = clientTallies (ac_versions a), ns_versions = versionTallies (ac_versions a),
          ns_bep42 = ac_bep42 a, ns_rttHistogram = histogram, ns_rttWeight = W,
          ns_rttMeanMs = (if W > 0 then ac_rttSumMs a / W else 0),
          ns_rttMedianMs = (if W > 0 then histogramQuantile histogram W (1 / 2) else - 1),
          ns_rttP90Ms = (if W > 0 then histogramQuantile histogram W (9 / 10) else - 1),
          ns_rttP99Ms = (if W > 0 then histogramQuantile histogram W (99 / 100) else - 1),
          ns_topPorts = topPorts keep a, ns_distinctPorts = int (length (usedPorts a)), ns_defaultPortCount = ac_ports a (unat DefaultPort),
          ns_features = ac_features a, ns_unknownOther = ac_unknownOther a, ns_unknownOtherError = ac_unknownOtherError a,
          ns_samplesMedian = (if samples = [] then - 1 else samplesMedian whole 0 samples),
          ns_samplesMean = (if samples = [] then - 1 else samplesMean samples),
          ns_samplesMeanError = (if samples = [] then 0 else samplesMeanError samples),
          ns_problems = ac_problems a,
          ns_churn = (ac_churn a)\<lparr>ch_medianUptimeMs := lowerMedian (ac_uptimes a), ch_medianSessionMs := lowerMedian (ac_sessions a)\<rparr>\<rparr>)"

definition nodesPerIp :: "network_stats \<Rightarrow> rat" where
  "nodesPerIp s = (if ns_answeringIps s > 0 then of_int (ns_answeringNodes s) / of_int (ns_answeringIps s) else 1)"

record network_stats_set =
  nt_ipv4 :: network_stats
  nt_ipv6 :: network_stats
  nt_all :: network_stats
  nt_computedAtMs :: int

definition gatherStats :: "catalog \<Rightarrow> int \<Rightarrow> accumulator \<times> accumulator" where
  "gatherStats c now =
     (let entries = sort_by (\<lambda>a b. ce_address a < ce_address b) (filter ce_inUse (nc_entries c))
      in fold (familyStats c now) (runs (\<lambda>a b. ce_address a = ce_address b) entries) (emptyAccumulator, emptyAccumulator))"

definition computeNetworkStats :: "catalog \<Rightarrow> int \<Rightarrow> int \<Rightarrow> network_stats_set" where
  "computeNetworkStats c now keep =
     (let (v4, v6) = gatherStats c now; both = addAccumulator v6 (addAccumulator v4 emptyAccumulator)
      in \<lparr>nt_ipv4 = summarise keep v4, nt_ipv6 = summarise keep v6, nt_all = summarise keep both, nt_computedAtMs = now\<rparr>)"

section \<open>Estimates\<close>

record infohash_estimate =
  ie_valid :: bool
  ie_low :: real
  ie_high :: real
  ie_lowBound :: real
  ie_highBound :: real

definition Replicas :: real where "Replicas = 8"

definition estimateStoredInfohashes :: "network_stats \<Rightarrow> real \<Rightarrow> real \<Rightarrow> real \<Rightarrow> infohash_estimate" where
  "estimateStoredInfohashes stats n nodesLow nodesHigh =
     (let f = ns_features stats 0
      in if \<not> n > 0 \<or> ns_samplesMean stats < 0 \<or> \<not> ft_tested f > 0
         then \<lparr>ie_valid = False, ie_low = 0, ie_high = 0, ie_lowBound = 0, ie_highBound = 0\<rparr>
         else let share = real_of_rat (ft_yes f / ft_tested f); m = real_of_rat (ns_samplesMean stats); margin = 1.96 * ns_samplesMeanError stats
              in \<lparr>ie_valid = True, ie_low = n * share * m / Replicas, ie_high = n * m / Replicas,
                   ie_lowBound = max 0 (min nodesLow n * share * (m - margin) / Replicas),
                   ie_highBound = max nodesHigh n * (m + margin) / Replicas\<rparr>)"

text \<open>The distance of an identifier from the target, as a share of the identifier space: its highest 64 bits.\<close>

definition idDistance :: "node_id \<Rightarrow> node_id \<Rightarrow> rat" where
  "idDistance target i = of_nat (idVal (take 8 (xorId i target))) / 2 ^ 64"

definition estimateNetworkSize :: "node_id \<Rightarrow> node_id list \<Rightarrow> rat" where
  "estimateNetworkSize target ids =
     (if length ids < 4 then 0
      else let distances = sort (map (idDistance target) ids); k = length distances;
               ranks = map (\<lambda>i. of_nat (i + 1) :: rat) [0..<k];
               sumSquares = sum_list (map (\<lambda>r. r * r) ranks);
               sumWeighted = sum_list (map2 (*) ranks distances);
               weight = (\<lambda>j. of_nat (k * (k + 1) - (j - 1) * j) / 2);
               variance = sum_list (map (\<lambda>j. weight j * weight j) [1..<k + 1]);
               shape = sumSquares * sumSquares / variance
           in if \<not> sumWeighted > 0 then 0 else sumSquares / sumWeighted * (1 - 1 / (3 * shape)))"

text \<open>\<open>SizeEstimator\<close>: the latest estimates, oldest first.\<close>

definition MaxSizeSamples :: nat where "MaxSizeSamples = 400"

definition addSize :: "rat \<Rightarrow> rat list \<Rightarrow> rat list" where
  "addSize estimate samples = (if \<not> estimate > 0 then samples else drop (length samples + 1 - MaxSizeSamples) (samples @ [estimate]))"

record size_estimate =
  se_samples :: int
  se_median :: rat
  se_low :: rat
  se_high :: rat

definition sizeSummary :: "rat list \<Rightarrow> size_estimate" where
  "sizeSummary samples =
     (let n = length samples; ordered = sort samples; spread = 0.98 * sqrt (real n);
          lowRank = max 1 (min \<lfloor>real n / 2 - spread\<rfloor> (int n)); highRank = max 1 (min (\<lceil>real n / 2 + spread\<rceil> + 1) (int n))
      in if n = 0 then \<lparr>se_samples = 0, se_median = 0, se_low = 0, se_high = 0\<rparr>
         else \<lparr>se_samples = int n, se_median = (if n mod 2 = 1 then ordered ! (n div 2) else (ordered ! (n div 2 - 1) + ordered ! (n div 2)) / 2),
               se_low = ordered ! nat (lowRank - 1), se_high = ordered ! nat (highRank - 1)\<rparr>)"

end
