(* ===== verification/SybilCorrect.thy ===== *)
theory SybilCorrect
  imports Sybil
begin

text \<open>
  What the report on suspicious addresses means: each signal stands for a count over the answering entries of the catalogue, whatever
  the order of the entries, the sorting and the walks in runs; and the tail of the Poisson distribution it judges windows by.
\<close>

section \<open>Flags\<close>

definition flaggedIn :: "(bytes \<times> 8 word) list \<Rightarrow> bytes \<Rightarrow> sybil_signal \<Rightarrow> bool" where
  "flaggedIn s key sig = (case map_of s key of None \<Rightarrow> False | Some b \<Rightarrow> b AND signalBit sig \<noteq> 0)"

lemma signalBit_and: "signalBit a AND signalBit b = (if a = b then signalBit a else 0)" "signalBit a \<noteq> 0"
  by (cases a; cases b; simp)+

lemma or_and_zero: "(b OR m) AND m' \<noteq> 0 \<longleftrightarrow> b AND m' \<noteq> 0 \<or> m AND m' \<noteq> (0 :: 8 word)"
  by (auto simp: bit_eq_iff bit_simps)

lemma flaggedIn_flag [simp]: "flaggedIn (flagAddress sig key s) key' sig' \<longleftrightarrow> key' = key \<and> sig' = sig \<or> flaggedIn s key' sig'"
  by (auto simp: flaggedIn_def flagAddress_def update_conv' or_and_zero signalBit_and split: option.splits)

lemma flag_distinct [simp]: "distinct (map fst (flagAddress sig key s)) = distinct (map fst s)"
proof -
  have "distinct (map fst (AList.update key v s)) \<Longrightarrow> distinct (map fst s)" for v
    by (induction s) (auto split: if_splits simp: keys_update)
  then show ?thesis by (auto simp: flagAddress_def distinct_update)
qed

lemma fold_or:
  assumes "\<And>x w. x \<in> set xs \<Longrightarrow> fl (f x w) \<longleftrightarrow> fl w \<or> P x"
  shows "fl (fold f xs w) \<longleftrightarrow> fl w \<or> (\<exists>x \<in> set xs. P x)"
  using assms by (induction xs arbitrary: w) auto

lemma fold_keeps: "(\<And>x w. Q w \<Longrightarrow> Q (f x w)) \<Longrightarrow> Q w \<Longrightarrow> Q (fold f xs w)"
  by (induction xs arbitrary: w) auto

lemma flag_all:
  "flaggedIn (fold (\<lambda>x. flagAddress sig (f x)) xs s) key sig' \<longleftrightarrow> flaggedIn s key sig' \<or> sig' = sig \<and> key \<in> f ` set xs"
  by (induction xs arbitrary: s) auto

lemma flag_all_distinct: "distinct (map fst s) \<Longrightarrow> distinct (map fst (fold (\<lambda>x. flagAddress sig (f x)) xs s))"
  by (induction xs arbitrary: s) auto

section \<open>The passes\<close>

lemma itemPass_flags: "flaggedIn (fst (itemPass key i w)) k sig \<longleftrightarrow> flaggedIn (fst w) k sig \<or>
   k = key \<and> (sig = PointsToSelf \<and> pointsToSelf i \<or> sig = MadeUpPeers \<and> it_madeUp i)"
  by (cases w) (auto simp: itemPass_def)

lemma itemPass_distinct: "distinct (map fst (fst w)) \<Longrightarrow> distinct (map fst (fst (itemPass key i w)))"
  by (cases w) (simp add: itemPass_def)

text \<open>What one address adds.\<close>

definition addressSigns :: "sybil_item list \<Rightarrow> sybil_signal \<Rightarrow> bool" where
  "addressSigns run sig \<longleftrightarrow> sig = PointsToSelf \<and> list_ex pointsToSelf run \<or> sig = MadeUpPeers \<and> list_ex it_madeUp run \<or>
     sig = ManyNodes \<and> length run \<ge> ManyNodesAt"

lemma addressPass_flags: "flaggedIn (fst (fst (addressPass run w))) k sig \<longleftrightarrow> flaggedIn (fst (fst w)) k sig \<or>
   k = it_address (hd run) \<and> addressSigns run sig"
proof -
  obtain w0 infos where w: "w = (w0, infos)" by fastforce
  let ?key = "it_address (hd run)"
  obtain s rep where f: "fold (itemPass ?key) run w0 = (s, rep)" by fastforce
  have "flaggedIn (fst (fold (itemPass ?key) run w0)) k sig \<longleftrightarrow> flaggedIn (fst w0) k sig \<or>
     (\<exists>i \<in> set run. k = ?key \<and> (sig = PointsToSelf \<and> pointsToSelf i \<or> sig = MadeUpPeers \<and> it_madeUp i))"
    by (rule fold_or) (rule itemPass_flags)
  then show ?thesis by (auto simp: addressPass_def w addressInfo_def f addressSigns_def list_ex_iff Let_def)
qed

lemma addressPass_rest: "snd (addressPass run w) = snd w @ [addressInfo run]"
  "distinct (map fst (fst (fst w))) \<Longrightarrow> distinct (map fst (fst (fst (addressPass run w))))"
proof -
  obtain w0 infos where w: "w = (w0, infos)" by fastforce
  let ?key = "it_address (hd run)"
  obtain s rep where f: "fold (itemPass ?key) run w0 = (s, rep)" by fastforce
  show "snd (addressPass run w) = snd w @ [addressInfo run]" by (simp add: addressPass_def w addressInfo_def f Let_def)
  assume "distinct (map fst (fst (fst w)))"
  then have "distinct (map fst (fst (fold (itemPass ?key) run w0)))"
    unfolding w by (intro fold_keeps [where Q = "\<lambda>w. distinct (map fst (fst w))"] itemPass_distinct) simp_all
  then show "distinct (map fst (fst (fst (addressPass run w))))" by (simp add: addressPass_def w addressInfo_def f Let_def)
qed

lemma addressPasses_infos: "snd (fold addressPass rs w) = snd w @ map addressInfo rs"
  by (induction rs arbitrary: w) (simp_all add: addressPass_rest)

lemma subnetPass_flags: "flaggedIn (fst (subnetPass Q run w)) k sig \<longleftrightarrow> flaggedIn (fst w) k sig \<or>
   sig = DenseSubnet \<and> length run \<ge> DenseSubnetAt \<and> k \<in> ai_address ` set run"
  by (cases w) (auto simp: subnetPass_def flag_all split: prod.split)

lemma subnetPass_distinct: "distinct (map fst (fst w)) \<Longrightarrow> distinct (map fst (fst (subnetPass Q run w)))"
  by (cases w) (simp add: subnetPass_def flag_all_distinct split: prod.split)

lemma idPass_flags: "flaggedIn (fst (fst (idPass run w))) k sig \<longleftrightarrow> flaggedIn (fst (fst w)) k sig \<or>
   sig = SharedId \<and> length (remdups_adj (map it_address run)) \<ge> 2 \<and> k \<in> it_address ` set run"
  by (cases w) (auto simp: idPass_def flag_all Let_def split: prod.split)

lemma idPass_rest: "snd (idPass run w) = snd w @ [it_id (hd run)]"
  "distinct (map fst (fst (fst w))) \<Longrightarrow> distinct (map fst (fst (fst (idPass run w))))"
proof -
  obtain s rep ids where w: "w = ((s, rep), ids)" by (metis surj_pair)
  show "snd (idPass run w) = snd w @ [it_id (hd run)]" by (simp add: w idPass_def Let_def)
  show "distinct (map fst (fst (fst w))) \<Longrightarrow> distinct (map fst (fst (fst (idPass run w))))"
    by (simp add: w idPass_def Let_def flag_all_distinct)
qed

lemma idPasses_ids: "snd (fold idPass rs w) = snd w @ map (\<lambda>run. it_id (hd run)) rs"
  by (induction rs arbitrary: w) (simp_all add: idPass_rest)

lemma windowPass_flags: "flaggedIn (fst (windowPass byId n depth run w)) k sig \<longleftrightarrow> flaggedIn (fst w) k sig \<or>
   sig = DenseIds \<and> length run \<ge> 3 \<and> windowChance n depth (length run) < DenseWindowChance \<and> k \<in> it_address ` set (windowItems byId (hd run) depth)"
  by (cases w) (auto simp: windowPass_def flag_all Let_def)

lemma windowPass_distinct: "distinct (map fst (fst w)) \<Longrightarrow> distinct (map fst (fst (windowPass byId n depth run w)))"
  by (cases w) (simp add: windowPass_def flag_all_distinct Let_def)

section \<open>The walks\<close>

text \<open>By address.\<close>

lemma byAddress_sorted: "sorted (map it_address (sort_by (\<lambda>a b. it_address a < it_address b) items))"
  by (rule sort_by_key) auto

text \<open>The addresses of the items, each with what is at it.\<close>

definition atAddress :: "bytes \<Rightarrow> sybil_item list \<Rightarrow> sybil_item list" where
  "atAddress k items = filter (\<lambda>i. it_address i = k) items"

lemma addressSigns_perm: "mset xs = mset ys \<Longrightarrow> addressSigns xs sig \<longleftrightarrow> addressSigns ys sig"
  using mset_eq_setD [of xs ys] mset_eq_length [of xs ys] by (auto simp: addressSigns_def list_ex_iff)

lemma filter_perm: "mset xs = mset ys \<Longrightarrow> mset (filter P xs) = mset (filter P ys)"
  by simp

lemma addressSigns_none [simp]: "\<not> addressSigns [] sig"
  by (simp add: addressSigns_def ManyNodesAt_def)

lemma addressWalk:
  fixes items :: "sybil_item list"
  defines "ordered \<equiv> sort_by (\<lambda>a b. it_address a < it_address b) items"
  defines "rs \<equiv> runs (\<lambda>a b. it_address a = it_address b) ordered"
  shows "flaggedIn (fst (fst (fold addressPass rs (([], emptyReport), [])))) k sig \<longleftrightarrow> addressSigns (atAddress k items) sig"
    "distinct (map fst (fst (fst (fold addressPass rs (([], emptyReport), [])))))"
proof -
  note r = byAddress_sorted [of items, folded ordered_def]
  have "flaggedIn (fst (fst (fold addressPass rs (([], emptyReport), [])))) k sig \<longleftrightarrow>
      flaggedIn [] k sig \<or> (\<exists>run \<in> set rs. k = it_address (hd run) \<and> addressSigns run sig)"
    using fold_or [of rs "\<lambda>w. flaggedIn (fst (fst w)) k sig", OF addressPass_flags] by simp
  also have "\<dots> \<longleftrightarrow> (\<exists>x \<in> set ordered. k = it_address (hd (filter (\<lambda>y. it_address y = it_address x) ordered)) \<and>
      addressSigns (filter (\<lambda>y. it_address y = it_address x) ordered) sig)"
    unfolding rs_def by (subst exists_run [OF r]) (simp_all add: flaggedIn_def)
  also have "\<dots> \<longleftrightarrow> (\<exists>x \<in> set ordered. k = it_address x \<and> addressSigns (filter (\<lambda>y. it_address y = k) ordered) sig)"
  proof -
    have "it_address (hd (filter (\<lambda>y. it_address y = it_address x) ordered)) = it_address x" if "x \<in> set ordered" for x
    proof -
      have "filter (\<lambda>y. it_address y = it_address x) ordered \<noteq> []" using that by (auto simp: filter_empty_conv)
      then have "hd (filter (\<lambda>y. it_address y = it_address x) ordered) \<in> set (filter (\<lambda>y. it_address y = it_address x) ordered)" by (rule hd_in_set)
      then show ?thesis by simp
    qed
    then show ?thesis by auto
  qed
  also have "\<dots> \<longleftrightarrow> addressSigns (filter (\<lambda>y. it_address y = k) ordered) sig"
  proof -
    have "addressSigns (filter (\<lambda>y. it_address y = k) ordered) sig \<Longrightarrow> filter (\<lambda>y. it_address y = k) ordered \<noteq> []" by auto
    then show ?thesis by (auto simp: filter_empty_conv)
  qed
  also have "\<dots> \<longleftrightarrow> addressSigns (atAddress k items) sig"
    by (rule addressSigns_perm) (simp add: ordered_def atAddress_def)
  finally show "flaggedIn (fst (fst (fold addressPass rs (([], emptyReport), [])))) k sig \<longleftrightarrow> addressSigns (atAddress k items) sig" .
  show "distinct (map fst (fst (fst (fold addressPass rs (([], emptyReport), [])))))"
    by (rule fold_keeps [where Q = "\<lambda>w. distinct (map fst (fst (fst w)))"]) (simp_all add: addressPass_rest)
qed

lemma infos_sorted:
  fixes items :: "sybil_item list"
  defines "ordered \<equiv> sort_by (\<lambda>a b. it_address a < it_address b) items"
  defines "infos \<equiv> map addressInfo (runs (\<lambda>a b. it_address a = it_address b) ordered)"
  shows "sorted_wrt (<) (map ai_address infos)" "ai_address ` set infos = it_address ` set items"
proof -
  note h = heads_sorted [OF byAddress_sorted [of items, folded ordered_def], of "\<lambda>a b. it_address a = it_address b"]
  show "sorted_wrt (<) (map ai_address infos)" using h(1) by (simp add: infos_def addressInfo_def comp_def)
  show "ai_address ` set infos = it_address ` set items" using h(2) by (simp add: infos_def addressInfo_def image_comp comp_def ordered_def)
qed

text \<open>By subnet. An IPv6 address in \<open>::/48\<close> that is no mapped IPv4 address would break up the order; none is routable.\<close>

definition clearOfMapped :: "bytes \<Rightarrow> bool" where
  "clearOfMapped a \<longleftrightarrow> isMappedV4 a \<or> take 6 a \<noteq> replicate 6 0"

definition subnetKey :: "bytes \<Rightarrow> bytes" where
  "subnetKey a = (if isMappedV4 a then take 15 a else take 6 a)"

lemma sameSubnet_key: "sameSubnet a b \<longleftrightarrow> subnetKey a = subnetKey b"
proof -
  have long: "length a \<ge> 12" if "isMappedV4 a" for a
  proof -
    have "length (take 12 a) = 12" using that by (simp add: isMappedV4_def mappedPrefix_def)
    then show ?thesis by simp
  qed
  have "take 15 a \<noteq> take 6 b" if "isMappedV4 a" for a b :: bytes
  proof
    assume "take 15 a = take 6 b"
    from arg_cong [OF this, of length] long [OF that] show False by simp
  qed
  then have "take 15 a \<noteq> take 6 b" "take 6 b \<noteq> take 15 a" if "isMappedV4 a" for a b :: bytes using that by metis+
  then show ?thesis by (auto simp: sameSubnet_def subnetKey_def Let_def)
qed

lemma mapped_zero: "isMappedV4 a \<Longrightarrow> take 6 a = replicate 6 0"
proof -
  assume "isMappedV4 a"
  then have "take 6 (take 12 a) = take 6 mappedPrefix" by (simp add: isMappedV4_def)
  then show ?thesis by (simp add: mappedPrefix_def)
qed

lemma zero_least: "replicate n 0 \<le> (xs :: bytes) \<or> length xs < n"
proof (induction n arbitrary: xs)
  case (Suc n)
  then show ?case by (cases xs) (auto simp: less_le)
qed simp

lemma less_extend: "(xs :: bytes) < ys \<Longrightarrow> length xs = length ys \<Longrightarrow> xs @ zs < ys"
proof (induction xs arbitrary: ys)
  case (Cons x xs)
  then show ?case by (cases ys) auto
qed simp

lemma subnetKey_mono:
  assumes "clearOfMapped a" "clearOfMapped b" "a \<le> b" "length a = 16" "length b = 16"
  shows "subnetKey a \<le> subnetKey b"
proof -
  note t = take_mono [OF assms(3), of 6] take_mono [OF assms(3), of 15]
  have z: "replicate 6 0 \<le> take 6 x" if "length x = 16" for x :: bytes using zero_least [of 6 "take 6 x"] that by simp
  show ?thesis
  proof (cases "isMappedV4 a"; cases "isMappedV4 b")
    assume ab: "isMappedV4 a" "\<not> isMappedV4 b"
    have "take 6 a \<noteq> take 6 b" using ab assms(2) mapped_zero by (auto simp: clearOfMapped_def)
    with t(1) have "take 6 a < take 6 b" by simp
    then have "take 6 a @ take 9 (drop 6 a) < take 6 b" using assms(4,5) by (intro less_extend) simp_all
    moreover have "take 15 a = take 6 a @ take 9 (drop 6 a)" by (metis add.commute numeral_plus_numeral take_add semiring_norm(2-9))
    ultimately show ?thesis using ab by (simp add: subnetKey_def)
  next
    assume ab: "\<not> isMappedV4 a" "isMappedV4 b"
    have "take 6 a \<noteq> replicate 6 0" using ab assms(1) by (simp add: clearOfMapped_def)
    with z [OF assms(4)] t(1) mapped_zero [OF ab(2)] show ?thesis by simp
  qed (use t in \<open>simp_all add: subnetKey_def\<close>)
qed

definition plainAddress :: "bytes \<Rightarrow> bool" where
  "plainAddress a \<longleftrightarrow> length a = 16 \<and> clearOfMapped a"

lemma sorted_by_mono:
  fixes f :: "'a \<Rightarrow> 'k :: linorder" and g :: "'a \<Rightarrow> 'l :: linorder"
  assumes "sorted (map f xs)" "\<And>x y. x \<in> set xs \<Longrightarrow> y \<in> set xs \<Longrightarrow> f x \<le> f y \<Longrightarrow> g x \<le> g y"
  shows "sorted (map g xs)"
  using assms by (induction xs) auto

lemma strict_distinct: "sorted_wrt (<) xs \<Longrightarrow> distinct xs \<and> sorted (xs :: 'a :: linorder list)"
  by (simp add: strict_sorted_iff)

lemma length_filter_card:
  assumes "distinct (map f xs)"
  shows "length (filter (\<lambda>x. P (f x)) xs) = card {y \<in> f ` set xs. P y}"
proof -
  have "distinct (map f (filter (\<lambda>x. P (f x)) xs))" using assms by (rule distinct_map_filter)
  then have "card (f ` set (filter (\<lambda>x. P (f x)) xs)) = length (filter (\<lambda>x. P (f x)) xs)" by (metis distinct_card length_map set_map)
  moreover have "f ` set (filter (\<lambda>x. P (f x)) xs) = {y \<in> f ` set xs. P y}" by auto
  ultimately show ?thesis by simp
qed

lemma subnetWalk:
  assumes "sorted_wrt (<) (map ai_address infos)" "\<And>i. i \<in> set infos \<Longrightarrow> plainAddress (ai_address i)"
  defines "rs \<equiv> runs (\<lambda>a b. sameSubnet (ai_address a) (ai_address b)) infos"
  shows "flaggedIn (fst (fold (subnetPass Q) rs w)) k sig \<longleftrightarrow> flaggedIn (fst w) k sig \<or>
    sig = DenseSubnet \<and> k \<in> ai_address ` set infos \<and> card {a \<in> ai_address ` set infos. sameSubnet a k} \<ge> DenseSubnetAt"
proof -
  let ?f = "\<lambda>i. subnetKey (ai_address i)" let ?A = "ai_address ` set infos"
  note d = strict_distinct [OF assms(1)]
  have r: "sorted (map ?f infos)"
    by (rule sorted_by_mono [where f = ai_address]) (use d assms(2) in \<open>auto simp: plainAddress_def subnetKey_mono\<close>)
  have "flaggedIn (fst (fold (subnetPass Q) rs w)) k sig \<longleftrightarrow> flaggedIn (fst w) k sig \<or>
      (\<exists>run \<in> set rs. sig = DenseSubnet \<and> length run \<ge> DenseSubnetAt \<and> k \<in> ai_address ` set run)"
    by (rule fold_or) (rule subnetPass_flags)
  also have "(\<exists>run \<in> set rs. sig = DenseSubnet \<and> length run \<ge> DenseSubnetAt \<and> k \<in> ai_address ` set run) \<longleftrightarrow>
      (\<exists>x \<in> set infos. sig = DenseSubnet \<and> length (filter (\<lambda>y. ?f y = ?f x) infos) \<ge> DenseSubnetAt \<and> k \<in> ai_address ` set (filter (\<lambda>y. ?f y = ?f x) infos))"
    unfolding rs_def by (rule exists_run [OF r]) (simp add: sameSubnet_key)
  also have "\<dots> \<longleftrightarrow> (\<exists>x \<in> set infos. sig = DenseSubnet \<and> card {a \<in> ?A. sameSubnet a (ai_address x)} \<ge> DenseSubnetAt \<and> k \<in> ?A \<and> sameSubnet k (ai_address x))"
  proof -
    have 1: "length (filter (\<lambda>y. ?f y = ?f x) infos) = card {a \<in> ?A. sameSubnet a (ai_address x)}" for x
      using length_filter_card [OF conjunct1 [OF d], of "\<lambda>a. subnetKey a = ?f x"] by (simp add: sameSubnet_key)
    have 2: "k \<in> ai_address ` set (filter (\<lambda>y. ?f y = ?f x) infos) \<longleftrightarrow> k \<in> ?A \<and> sameSubnet k (ai_address x)" for x
      by (auto simp: sameSubnet_key)
    show ?thesis unfolding 1 2 ..
  qed
  also have "\<dots> \<longleftrightarrow> sig = DenseSubnet \<and> k \<in> ?A \<and> card {a \<in> ?A. sameSubnet a k} \<ge> DenseSubnetAt"
    unfolding sameSubnet_key by (fastforce simp: image_iff)
  finally show ?thesis .
qed

lemma subnetWalk_distinct: "distinct (map fst (fst w)) \<Longrightarrow> distinct (map fst (fst (fold (subnetPass Q) rs w)))"
  by (rule fold_keeps [where Q = "\<lambda>w. distinct (map fst (fst w))"]) (simp_all add: subnetPass_distinct)

text \<open>By identifier.\<close>

definition idBefore :: "sybil_item \<Rightarrow> sybil_item \<Rightarrow> bool" where
  "idBefore a b \<longleftrightarrow> (if it_id a \<noteq> it_id b then it_id a < it_id b else it_address a < it_address b)"

interpretation by_id: strict_weak_order "\<lambda>_. True" idBefore
  by unfold_locales (auto simp: idBefore_def split: if_splits)

lemma byId_sorted: "sorted (map it_id (sort_by idBefore items))"
  by (rule sort_by_key) (auto simp: idBefore_def split: if_splits)

lemma run_addresses:
  "length (remdups_adj (map it_address (filter (\<lambda>y. it_id y = i) (sort_by idBefore items)))) = card (it_address ` {x \<in> set items. it_id x = i})"
proof -
  let ?run = "filter (\<lambda>y. it_id y = i) (sort_by idBefore items)"
  have "sorted_wrt (\<lambda>a b. \<not> idBefore b a) ?run" using by_id.sorted_sort [of items] by (simp add: sorted_wrt_filter)
  then have "sorted_wrt (\<lambda>a b. it_address a \<le> it_address b) ?run"
    by (rule sorted_wrt_mono_rel [rotated]) (auto simp: idBefore_def)
  then have "sorted (map it_address ?run)" by (simp add: sorted_wrt_map)
  then have "length (remdups_adj (map it_address ?run)) = card (set (map it_address ?run))" by (rule sorted_adj_card)
  moreover have "set (map it_address ?run) = it_address ` {x \<in> set items. it_id x = i}" by auto
  ultimately show ?thesis by simp
qed

lemma idWalk:
  defines "rs items \<equiv> runs (\<lambda>a b. it_id a = it_id b) (sort_by idBefore items)"
  shows "flaggedIn (fst (fst (fold idPass (rs items) (w, [])))) k sig \<longleftrightarrow> flaggedIn (fst w) k sig \<or>
      sig = SharedId \<and> (\<exists>x \<in> set items. it_address x = k \<and> card (it_address ` {y \<in> set items. it_id y = it_id x}) \<ge> 2)"
    "sorted_wrt (<) (snd (fold idPass (rs items) (w, [])))" "set (snd (fold idPass (rs items) (w, []))) = it_id ` set items"
    "distinct (map fst (fst w)) \<Longrightarrow> distinct (map fst (fst (fst (fold idPass (rs items) (w, [])))))"
proof -
  let ?ordered = "sort_by idBefore items"
  note r = byId_sorted [of items]
  have "flaggedIn (fst (fst (fold idPass (rs items) (w, [])))) k sig \<longleftrightarrow> flaggedIn (fst w) k sig \<or>
      (\<exists>run \<in> set (rs items). sig = SharedId \<and> length (remdups_adj (map it_address run)) \<ge> 2 \<and> k \<in> it_address ` set run)"
    using fold_or [of "rs items" "\<lambda>w. flaggedIn (fst (fst w)) k sig", OF idPass_flags] by simp
  also have "(\<exists>run \<in> set (rs items). sig = SharedId \<and> length (remdups_adj (map it_address run)) \<ge> 2 \<and> k \<in> it_address ` set run) \<longleftrightarrow>
      (\<exists>x \<in> set ?ordered. sig = SharedId \<and> length (remdups_adj (map it_address (filter (\<lambda>y. it_id y = it_id x) ?ordered))) \<ge> 2 \<and>
         k \<in> it_address ` set (filter (\<lambda>y. it_id y = it_id x) ?ordered))"
    unfolding rs_def by (rule exists_run [OF r]) simp
  also have "\<dots> \<longleftrightarrow> sig = SharedId \<and> (\<exists>x \<in> set items. it_address x = k \<and> card (it_address ` {y \<in> set items. it_id y = it_id x}) \<ge> 2)"
    unfolding run_addresses by auto
  finally show "flaggedIn (fst (fst (fold idPass (rs items) (w, [])))) k sig \<longleftrightarrow> flaggedIn (fst w) k sig \<or>
      sig = SharedId \<and> (\<exists>x \<in> set items. it_address x = k \<and> card (it_address ` {y \<in> set items. it_id y = it_id x}) \<ge> 2)" .
  note h = heads_sorted [OF r, of "\<lambda>a b. it_id a = it_id b"]
  show "sorted_wrt (<) (snd (fold idPass (rs items) (w, [])))" using h(1) by (simp add: idPasses_ids rs_def)
  show "set (snd (fold idPass (rs items) (w, []))) = it_id ` set items" using h(2) by (simp add: idPasses_ids rs_def)
  show "distinct (map fst (fst w)) \<Longrightarrow> distinct (map fst (fst (fst (fold idPass (rs items) (w, [])))))"
    by (rule fold_keeps [where Q = "\<lambda>w. distinct (map fst (fst (fst w)))"]) (simp_all add: idPass_rest)
qed

text \<open>By windows of the identifiers.\<close>

lemma prefix_sorted: "(\<And>i. i \<in> set ids \<Longrightarrow> wf_id i) \<Longrightarrow> sorted ids \<Longrightarrow> sorted (map (prefixVal d) ids)"
  using sorted_by_mono [of "\<lambda>i. i" ids "prefixVal d"] prefixVal_mono by (simp add: wf_id_def)

lemma drop_take_run:
  fixes f :: "'a \<Rightarrow> 'k :: linorder" and g :: "'a \<Rightarrow> 'l :: linorder"
  assumes "sorted (map f xs)" "sorted (map g xs)" "\<And>x. x \<in> set xs \<Longrightarrow> g x = v \<Longrightarrow> \<not> f x < u" "\<And>x. x \<in> set xs \<Longrightarrow> g x < v \<Longrightarrow> f x < u"
  shows "takeWhile (\<lambda>x. g x = v) (dropWhile (\<lambda>x. f x < u) xs) = filter (\<lambda>x. g x = v) xs"
  using assms
proof (induction xs)
  case (Cons x xs)
  show ?case
  proof (cases "f x < u")
    case True
    with Cons.prems(3) have "g x \<noteq> v" by auto
    with True Cons show ?thesis by simp
  next
    case False
    show ?thesis
    proof (cases "g x = v")
      case True
      with False sorted_split(1) [of g x xs] Cons.prems(2) show ?thesis by simp
    next
      case ne: False
      with False Cons.prems(4) have "v < g x" by (metis list.set_intros(1) linorder_neqE)
      with Cons.prems(2) have "filter (\<lambda>x. g x = v) (x # xs) = []" by (auto simp: filter_empty_conv)
      with False ne show ?thesis by simp
    qed
  qed
qed simp

lemma windowItems_exact:
  assumes "\<And>x. x \<in> set items \<Longrightarrow> wf_id (it_id x)" "wf_id i" "d \<le> id_Bits"
    "\<And>x. x \<in> set items \<Longrightarrow> prefixVal d (it_id x) = prefixVal d i \<Longrightarrow> i \<le> it_id x"
  shows "set (windowItems (sort_by idBefore items) i d) = {x \<in> set items. commonPrefixLength (it_id x) i \<ge> d}"
proof -
  let ?xs = "sort_by idBefore items" let ?g = "\<lambda>x. prefixVal d (it_id x)"
  have g: "commonPrefixLength (it_id x) i \<ge> d \<longleftrightarrow> ?g x = prefixVal d i" if "x \<in> set items" for x
    using prefixVal_eq [OF assms(1) [OF that] assms(2,3)] .
  have s: "sorted (map ?g ?xs)"
    by (rule sorted_by_mono [OF byId_sorted]) (use assms(1) in \<open>auto simp: wf_id_def intro: prefixVal_mono\<close>)
  have "windowItems ?xs i d = takeWhile (\<lambda>x. ?g x = prefixVal d i) (dropWhile (\<lambda>x. it_id x < i) ?xs)"
    unfolding windowItems_def by (rule takeWhile_cong) (use g set_dropWhileD in fastforce)+
  also have "\<dots> = filter (\<lambda>x. ?g x = prefixVal d i) ?xs"
  proof (rule drop_take_run [OF byId_sorted s])
    show "\<not> it_id x < i" if "x \<in> set ?xs" "?g x = prefixVal d i" for x using assms(4) [of x] that by simp
    show "it_id x < i" if "x \<in> set ?xs" "?g x < prefixVal d i" for x
    proof (rule ccontr)
      assume "\<not> it_id x < i"
      then have "prefixVal d i \<le> ?g x" using assms(1,2) that(1) by (intro prefixVal_mono) (simp_all add: wf_id_def)
      with that(2) show False by simp
    qed
  qed
  finally show ?thesis using g by auto
qed

text \<open>How crowded the window of an identifier is: the distinct identifiers that share its first bits.\<close>

definition crowd :: "node_id set \<Rightarrow> nat \<Rightarrow> node_id \<Rightarrow> nat" where
  "crowd ids d i = card {j \<in> ids. commonPrefixLength j i \<ge> d}"

definition denseAt :: "node_id set \<Rightarrow> node_id \<Rightarrow> nat \<Rightarrow> bool" where
  "denseAt ids i d \<longleftrightarrow> crowd ids d i \<ge> 3 \<and> windowChance (card ids) d (crowd ids d i) < DenseWindowChance"

lemma depthPass_flags:
  assumes "sorted_wrt (<) ids" "set ids = it_id ` set items" "\<And>x. x \<in> set items \<Longrightarrow> wf_id (it_id x)" "d \<le> id_Bits"
  shows "flaggedIn (fst (depthPass (sort_by idBefore items) ids d w)) k sig \<longleftrightarrow> flaggedIn (fst w) k sig \<or>
    sig = DenseIds \<and> (\<exists>x \<in> set items. it_address x = k \<and> denseAt (it_id ` set items) (it_id x) d)"
proof -
  let ?f = "prefixVal d" let ?byId = "sort_by idBefore items" let ?I = "it_id ` set items"
  have wf: "wf_id i" if "i \<in> set ids" for i using that assms(2,3) by auto
  note d = strict_distinct [OF assms(1)]
  have n: "length ids = card ?I" using distinct_card [of ids] d assms(2) by simp
  have r: "sorted (map ?f ids)" by (rule prefix_sorted) (use wf d in auto)
  have same: "commonPrefixLength y x \<ge> d \<longleftrightarrow> ?f y = ?f x" if "x \<in> set ids" "y \<in> set ids" for x y
    using prefixVal_eq [OF wf [OF that(2)] wf [OF that(1)] assms(4)] .
  let ?win = "\<lambda>i. filter (\<lambda>y. ?f y = ?f i) ids"
  have len: "length (?win i) = crowd ?I d i" if "i \<in> set ids" for i
  proof -
    have "length (?win i) = card (set (?win i))" using distinct_card [of "?win i"] d by simp
    also have "set (?win i) = {j \<in> ?I. commonPrefixLength j i \<ge> d}" using same [OF that] assms(2) by auto
    finally show ?thesis by (simp add: crowd_def)
  qed
  have items: "set (windowItems ?byId (hd (?win i)) d) = {x \<in> set items. commonPrefixLength (it_id x) i \<ge> d}" if i: "i \<in> set ids" for i
  proof -
    let ?h = "hd (?win i)"
    have ne: "?win i \<noteq> []" using i by (auto simp: filter_empty_conv)
    then have h: "?h \<in> set (?win i)" by (rule hd_in_set)
    have "sorted (?win i)" using d sorted_filter [of "\<lambda>j. j" ids] by simp
    then have least: "?h \<le> j" if "j \<in> set (?win i)" for j using that ne by (cases "?win i") auto
    have "set (windowItems ?byId ?h d) = {x \<in> set items. commonPrefixLength (it_id x) ?h \<ge> d}"
    proof (rule windowItems_exact)
      show "?h \<le> it_id x" if "x \<in> set items" "?f (it_id x) = ?f ?h" for x
      proof -
        have "it_id x \<in> set ids" using that(1) assms(2) by simp
        with that(2) h have "it_id x \<in> set (?win i)" by simp
        then show ?thesis by (rule least)
      qed
    qed (use assms(3,4) wf h in auto)
    moreover have "commonPrefixLength (it_id x) ?h \<ge> d \<longleftrightarrow> commonPrefixLength (it_id x) i \<ge> d" if "x \<in> set items" for x
    proof -
      have "it_id x \<in> set ids" using that assms(2) by simp
      with h i show ?thesis using same by simp
    qed
    ultimately show ?thesis by auto
  qed
  have "flaggedIn (fst (depthPass ?byId ids d w)) k sig \<longleftrightarrow> flaggedIn (fst w) k sig \<or>
      (\<exists>run \<in> set (runs (\<lambda>a b. commonPrefixLength a b \<ge> d) ids). sig = DenseIds \<and> length run \<ge> 3 \<and>
         windowChance (length ids) d (length run) < DenseWindowChance \<and> k \<in> it_address ` set (windowItems ?byId (hd run) d))"
    unfolding depthPass_def by (rule fold_or) (rule windowPass_flags)
  also have "(\<exists>run \<in> set (runs (\<lambda>a b. commonPrefixLength a b \<ge> d) ids). sig = DenseIds \<and> length run \<ge> 3 \<and>
         windowChance (length ids) d (length run) < DenseWindowChance \<and> k \<in> it_address ` set (windowItems ?byId (hd run) d)) \<longleftrightarrow>
      (\<exists>i \<in> set ids. sig = DenseIds \<and> length (?win i) \<ge> 3 \<and> windowChance (length ids) d (length (?win i)) < DenseWindowChance \<and>
         k \<in> it_address ` set (windowItems ?byId (hd (?win i)) d))"
    by (rule exists_run [OF r]) (use same in auto)
  also have "\<dots> \<longleftrightarrow> (\<exists>i \<in> set ids. sig = DenseIds \<and> denseAt ?I i d \<and> k \<in> it_address ` {x \<in> set items. commonPrefixLength (it_id x) i \<ge> d})"
    using len items by (auto simp: denseAt_def n)
  also have "\<dots> \<longleftrightarrow> sig = DenseIds \<and> (\<exists>x \<in> set items. it_address x = k \<and> denseAt ?I (it_id x) d)"
  proof -
    have "denseAt ?I i d \<longleftrightarrow> denseAt ?I j d" if "i \<in> set ids" "j \<in> set ids" "commonPrefixLength j i \<ge> d" for i j
    proof -
      have "?f i = ?f j" using same [OF that(1,2)] that(3) by simp
      then have "length (?win i) = length (?win j)" by simp
      with len that show ?thesis by (simp add: denseAt_def)
    qed
    moreover have "commonPrefixLength (it_id x) (it_id x) \<ge> d" if "x \<in> set items" for x
      using same [of "it_id x" "it_id x"] that assms(2) by simp
    ultimately show ?thesis using assms(2) by (auto simp: image_iff) metis
  qed
  finally show ?thesis .
qed

section \<open>The signals\<close>

lemma signalsAt_sorted:
  assumes "sorted (map fst m)" "distinct (map fst m)"
  shows "signalsAt m key = (case map_of m key of None \<Rightarrow> 0 | Some b \<Rightarrow> b)"
  using assms
proof (induction m)
  case (Cons x m)
  have *: "signalsAt (x # m) key = (if fst x < key then signalsAt m key else if fst x = key then snd x else 0)"
    by (simp add: signalsAt_def)
  have "map_of m key = None" if "\<not> fst x < key"
  proof -
    have "key < fst y" if "y \<in> set m" for y
    proof -
      have "fst x \<le> fst y" "fst x \<noteq> fst y" using Cons.prems that by (auto simp: image_iff)
      with \<open>\<not> fst x < key\<close> show ?thesis by auto
    qed
    then show ?thesis by (fastforce simp: map_of_eq_None_iff)
  qed
  with Cons show ?case unfolding * by (cases x) auto
qed (simp add: signalsAt_def)

lemma map_of_perm:
  assumes "mset xs = mset ys" "distinct (map fst xs)"
  shows "map_of xs = map_of ys"
proof -
  have "distinct (map fst ys)" using assms by (metis mset_eq_imp_distinct_iff mset_map)
  with assms show ?thesis by (metis map_of_inject_set mset_eq_setD)
qed

definition signalOrder :: "bytes \<times> 8 word \<Rightarrow> bytes \<times> 8 word \<Rightarrow> bool" where
  "signalOrder a b \<longleftrightarrow> fst a < fst b \<or> fst a = fst b \<and> snd a < snd b"

lemma signalsAt_flags:
  assumes "distinct (map fst s)"
  shows "signalsAt (sort_by signalOrder s) key AND signalBit sig \<noteq> 0 \<longleftrightarrow> flaggedIn s key sig"
proof -
  have "sorted (map fst (sort_by signalOrder s))" by (rule sort_by_key) (auto simp: signalOrder_def)
  moreover have "distinct (map fst (sort_by signalOrder s))" using assms by (metis mset_eq_imp_distinct_iff mset_map mset_sort_by)
  ultimately have "signalsAt (sort_by signalOrder s) key = (case map_of s key of None \<Rightarrow> 0 | Some b \<Rightarrow> b)"
    by (simp add: signalsAt_sorted map_of_perm [of "sort_by signalOrder s" s])
  then show ?thesis by (simp add: flaggedIn_def split: option.split)
qed

definition hasSignal :: "sybil_report \<Rightarrow> bytes \<Rightarrow> sybil_signal \<Rightarrow> bool" where
  "hasSignal rep key sig \<longleftrightarrow> signalsAt (sr_signals rep) key AND signalBit sig \<noteq> 0"

text \<open>What a signal stands for, on the items.\<close>

fun signalMeans :: "sybil_item set \<Rightarrow> sybil_item list \<Rightarrow> bytes \<Rightarrow> sybil_signal \<Rightarrow> bool" where
  "signalMeans I items k ManyNodes = (length (atAddress k items) \<ge> ManyNodesAt)"
| "signalMeans I items k PointsToSelf = list_ex pointsToSelf (atAddress k items)"
| "signalMeans I items k MadeUpPeers = list_ex it_madeUp (atAddress k items)"
| "signalMeans I items k DenseSubnet = (atAddress k items \<noteq> [] \<and> card {a \<in> it_address ` I. sameSubnet a k} \<ge> DenseSubnetAt)"
| "signalMeans I items k SharedId = list_ex (\<lambda>x. card (it_address ` {y \<in> I. it_id y = it_id x}) \<ge> 2) (atAddress k items)"
| "signalMeans I items k DenseIds = (card (it_id ` I) \<ge> 16 \<and>
     list_ex (\<lambda>x. list_ex (denseAt (it_id ` I) (it_id x)) (windowDepths (card (it_id ` I)))) (atAddress k items))"

lemma sybilWalks_signals:
  assumes "\<And>x. x \<in> set items \<Longrightarrow> wf_id (it_id x) \<and> plainAddress (it_address x)"
  shows "flaggedIn (fst (fst (sybilWalks Q items))) k sig \<longleftrightarrow> signalMeans (set items) items k sig"
    "distinct (map fst (fst (fst (sybilWalks Q items))))"
proof -
  let ?I = "it_id ` set items" let ?A = "it_address ` set items"
  let ?byAddress = "sort_by (\<lambda>a b. it_address a < it_address b) items"
  let ?rs = "runs (\<lambda>a b. it_address a = it_address b) ?byAddress" let ?infos = "map addressInfo ?rs"
  obtain w1 where w1: "fold addressPass ?rs (([], emptyReport), []) = (w1, ?infos)"
    using addressPasses_infos [of ?rs "(([], emptyReport), [])"] by (metis append_Nil prod.collapse snd_conv)
  let ?w2 = "fold (subnetPass Q) (runs (\<lambda>a b. sameSubnet (ai_address a) (ai_address b)) ?infos) w1"
  let ?byId = "sort_by idBefore ?byAddress"
  obtain w3 ids where w3: "fold idPass (runs (\<lambda>a b. it_id a = it_id b) ?byId) (?w2, []) = (w3, ids)" by fastforce
  let ?w4 = "if length ids \<ge> 16 then fold (depthPass ?byId ids) (windowDepths (length ids)) w3 else w3"
  have walks: "fst (sybilWalks Q items) = ?w4"
    by (simp add: sybilWalks_def w1 w3 Let_def idBefore_def [abs_def, symmetric])
  note i = infos_sorted [of items]
  have f1: "flaggedIn (fst w1) k sig \<longleftrightarrow> addressSigns (atAddress k items) sig" and d1: "distinct (map fst (fst w1))"
    using addressWalk [where items = items] by (simp_all add: w1)
  have f2: "flaggedIn (fst ?w2) k sig \<longleftrightarrow> flaggedIn (fst w1) k sig \<or> sig = DenseSubnet \<and> k \<in> ?A \<and> card {a \<in> ?A. sameSubnet a k} \<ge> DenseSubnetAt"
  proof (subst subnetWalk [OF i(1)])
    show "plainAddress (ai_address x)" if "x \<in> set ?infos" for x
    proof -
      have "ai_address x \<in> ?A" using that i(2) by blast
      then show ?thesis using assms by auto
    qed
  qed (simp only: i(2))
  have "distinct (map fst (fst ?w2))" by (rule subnetWalk_distinct [OF d1])
  note j = idWalk(1) [where items = ?byAddress and w = ?w2 and k = k and sig = sig, unfolded w3 fst_conv snd_conv set_sort_by]
    idWalk(2-4) [where items = ?byAddress and w = ?w2, unfolded w3 fst_conv snd_conv set_sort_by]
  have d3: "distinct (map fst (fst w3))" by (rule j(4)) fact
  have n: "length ids = card ?I" using j(2,3) strict_distinct [of ids] distinct_card [of ids] by simp
  have f4: "flaggedIn (fst (fold (depthPass ?byId ids) (windowDepths (length ids)) w3)) k sig \<longleftrightarrow> flaggedIn (fst w3) k sig \<or>
     (\<exists>d \<in> set (windowDepths (length ids)). sig = DenseIds \<and> (\<exists>x \<in> set items. it_address x = k \<and> denseAt ?I (it_id x) d))"
  proof (rule fold_or)
    fix d w assume "d \<in> set (windowDepths (length ids))"
    then have "d \<le> id_Bits" by (auto simp: windowDepths_def Let_def dest: set_takeWhileD)
    with depthPass_flags [of ids ?byAddress d w k sig] j(2,3) assms
    show "flaggedIn (fst (depthPass ?byId ids d w)) k sig \<longleftrightarrow> flaggedIn (fst w) k sig \<or> sig = DenseIds \<and> (\<exists>x \<in> set items. it_address x = k \<and> denseAt ?I (it_id x) d)"
      by simp
  qed
  have "flaggedIn (fst ?w4) k sig \<longleftrightarrow> addressSigns (atAddress k items) sig \<or> sig = DenseSubnet \<and> k \<in> ?A \<and> card {a \<in> ?A. sameSubnet a k} \<ge> DenseSubnetAt \<or>
     sig = SharedId \<and> (\<exists>x \<in> set items. it_address x = k \<and> card (it_address ` {y \<in> set items. it_id y = it_id x}) \<ge> 2) \<or>
     card ?I \<ge> 16 \<and> sig = DenseIds \<and> (\<exists>d \<in> set (windowDepths (card ?I)). \<exists>x \<in> set items. it_address x = k \<and> denseAt ?I (it_id x) d)"
    using f1 f2 f4 j(1) unfolding n by auto
  then show "flaggedIn (fst (fst (sybilWalks Q items))) k sig \<longleftrightarrow> signalMeans (set items) items k sig"
    unfolding walks by (cases sig) (auto simp: addressSigns_def atAddress_def list_ex_iff filter_empty_conv image_iff)
  show "distinct (map fst (fst (fst (sybilWalks Q items))))"
    unfolding walks using d3 fold_keeps [of "\<lambda>w. distinct (map fst (fst w))" "depthPass ?byId ids"]
      fold_keeps [of "\<lambda>w. distinct (map fst (fst w))" "windowPass ?byId (length ids) d" for d] windowPass_distinct
    by (simp add: depthPass_def)
qed

text \<open>C13: The signals of an address are exactly what they are said to mean, counted over the entries that answer: many nodes at the
  address; many answering addresses in its subnet; a node whose identifier answers from another address too; a node that lists
  its own subnet or made peers up; and a node in a window of identifiers so crowded that chance hardly explains it. The order of
  the catalogue, the sorting and the walks in runs leave no trace, for addresses outside \<open>::/48\<close>.\<close>

theorem sybil_signals_exact:
  assumes "list_all (\<lambda>e. wf_id (ce_id e) \<and> plainAddress (ce_address e)) (answeringEntries c)"
  shows "let sign = hasSignal (computeSybilReport Q shown c) key; up = set (answeringEntries c); ids = ce_id ` up;
      here = filter (\<lambda>e. ce_address e = key) (answeringEntries c)
    in (sign ManyNodes \<longleftrightarrow> length here \<ge> 5) \<and>
       (sign DenseSubnet \<longleftrightarrow> here \<noteq> [] \<and> card {a \<in> ce_address ` up. sameSubnet a key} \<ge> 8) \<and>
       (sign SharedId \<longleftrightarrow> list_ex (\<lambda>e. card (ce_address ` {f \<in> up. ce_id f = ce_id e}) \<ge> 2) here) \<and>
       (sign PointsToSelf \<longleftrightarrow> list_ex (\<lambda>e. ce_selfListShare e \<noteq> NoShare \<and> ce_selfListShare e \<ge> 50) here) \<and>
       (sign MadeUpPeers \<longleftrightarrow> list_ex (has InventsPeers) here) \<and>
       (sign DenseIds \<longleftrightarrow> card ids \<ge> 16 \<and> list_ex (\<lambda>e. list_ex (denseAt ids (ce_id e)) (windowDepths (card ids))) here)"
proof -
  let ?items = "sybilItems c"
  have ok: "wf_id (it_id x) \<and> plainAddress (it_address x)" if "x \<in> set ?items" for x
    using assms that by (auto simp: sybilItems_def sybilItem_def list_all_iff)
  obtain s rep infos where w: "sybilWalks Q ?items = ((s, rep), infos)" by (metis surj_pair)
  have f: "flaggedIn s k sig \<longleftrightarrow> signalMeans (set ?items) ?items k sig" "distinct (map fst s)" for k sig
    using sybilWalks_signals [of ?items Q] ok by (simp_all add: w)
  have sign: "hasSignal (computeSybilReport Q shown c) key sig \<longleftrightarrow> signalMeans (set ?items) ?items key sig" for sig
  proof (cases "?items = []")
    case True
    then show ?thesis by (cases sig) (simp_all add: computeSybilReport_def hasSignal_def emptyReport_def signalsAt_def atAddress_def ManyNodesAt_def)
  next
    case False
    have "sr_signals (computeSybilReport Q shown c) = sort_by signalOrder s"
      using False by (simp add: computeSybilReport_def w Let_def signalOrder_def [abs_def])
    then show ?thesis using signalsAt_flags [OF f(2)] f(1) by (simp add: hasSignal_def)
  qed
  have at: "atAddress key ?items = map sybilItem (filter (\<lambda>e. ce_address e = key) (answeringEntries c))"
    by (simp add: atAddress_def sybilItems_def filter_map comp_def) (simp add: sybilItem_def)
  have sets: "it_id ` set ?items = ce_id ` set (answeringEntries c)" "it_address ` set ?items = ce_address ` set (answeringEntries c)"
    by (simp_all add: sybilItems_def image_comp comp_def) (simp_all add: sybilItem_def)
  have shared: "it_address ` {y \<in> set ?items. it_id y = i} = ce_address ` {f \<in> set (answeringEntries c). ce_id f = i}" for i
    by (force simp: sybilItems_def sybilItem_def)
  show ?thesis
    unfolding Let_def sign signalMeans.simps at sets shared
    by (simp add: list_ex_iff ManyNodesAt_def DenseSubnetAt_def pointsToSelf_def PointsToSelfAt_def sybilItem_def)
qed

definition demoTwins :: catalog where
  "demoTwins = (newCatalog 10 0)\<lparr>nc_entries :=
     [emptyEntry\<lparr>ce_inUse := True, ce_state := Responsive, ce_address := mappedPrefix @ [1, 2, 3, 4]\<rparr>,
      emptyEntry\<lparr>ce_inUse := True, ce_state := Responsive, ce_address := mappedPrefix @ [5, 6, 7, 8]\<rparr>]\<rparr>"

text \<open>Two addresses whose nodes go by one identifier.\<close>

theorem sybil_signals_exact_witness:
  "hasSignal (computeSybilReport qt_doc (\<lambda>_. []) demoTwins) (mappedPrefix @ [1, 2, 3, 4]) SharedId \<and>
   \<not> hasSignal (computeSybilReport qt_doc (\<lambda>_. []) demoTwins) (mappedPrefix @ [1, 2, 3, 4]) ManyNodes"
proof -
  let ?k = "mappedPrefix @ [1, 2, 3, 4]" and ?l = "mappedPrefix @ [5, 6, 7, 8]"
  let ?e = "\<lambda>k. emptyEntry\<lparr>ce_inUse := True, ce_state := Responsive, ce_address := k\<rparr>"
  have up: "answeringEntries demoTwins = [?e ?k, ?e ?l]" by (simp add: answeringEntries_def demoTwins_def)
  have "isMappedV4 (mappedPrefix @ xs)" for xs by (simp add: isMappedV4_def mappedPrefix_def)
  then have ok: "list_all (\<lambda>e. wf_id (ce_id e) \<and> plainAddress (ce_address e)) (answeringEntries demoTwins)"
    unfolding up by (simp add: emptyEntry_def plainAddress_def clearOfMapped_def mappedPrefix_def)
  have "{f \<in> set (answeringEntries demoTwins). ce_id f = nullId} = {?e ?k, ?e ?l}" unfolding up by (auto simp: emptyEntry_def)
  then have "ce_address ` {f \<in> set (answeringEntries demoTwins). ce_id f = nullId} = {?k, ?l}" by simp
  then have two: "card (ce_address ` {f \<in> set (answeringEntries demoTwins). ce_id f = nullId}) = 2" by simp
  have here: "filter (\<lambda>e. ce_address e = ?k) (answeringEntries demoTwins) = [?e ?k]" unfolding up by simp
  have i: "ce_id (?e ?k) = nullId" by (simp add: emptyEntry_def)
  show ?thesis
    using sybil_signals_exact [OF ok, of qt_doc "\<lambda>_. []" ?k] unfolding Let_def here by (simp add: i two)
qed

section \<open>The Poisson tail\<close>

definition poissonTerm :: "real \<Rightarrow> nat \<Rightarrow> real" where
  "poissonTerm l j = exp (- l) * l ^ j / fact j"

lemma poissonTerm_Suc: "0 < j \<Longrightarrow> poissonTerm l (j - 1) * (l / real j) = poissonTerm l j"
  by (cases j) (simp_all add: poissonTerm_def fact_Suc ac_simps)

lemma poissonTerm_0: "poissonTerm l 0 = exp (- l)"
  by (simp add: poissonTerm_def)

lemma poissonTerm_pos: "0 < l \<Longrightarrow> 0 < poissonTerm l j"
  by (simp add: poissonTerm_def)

lemma poisson_sum_le: "0 < l \<Longrightarrow> (\<Sum>j<n. poissonTerm l j) \<le> 1"
proof -
  assume l: "0 < l"
  have e: "(\<lambda>j. l ^ j /\<^sub>R fact j) sums exp l" by (rule exp_converges)
  have "(\<Sum>j<n. l ^ j /\<^sub>R fact j) \<le> exp l"
    using sum_le_suminf [OF sums_summable [OF e], of "{..<n}"] sums_unique [OF e] l by simp
  then have "exp (- l) * (\<Sum>j<n. l ^ j /\<^sub>R fact j) \<le> exp (- l) * exp l" by (intro mult_left_mono) simp_all
  moreover have "exp (- l) * (\<Sum>j<n. l ^ j /\<^sub>R fact j) = (\<Sum>j<n. poissonTerm l j)"
    by (simp add: sum_distrib_left poissonTerm_def divide_inverse mult.commute mult.left_commute)
  moreover have "exp (- l) * exp l = 1" by (simp add: exp_minus)
  ultimately show ?thesis by simp
qed

lemma poissonUp_sum:
  assumes "0 < j"
  shows "\<exists>m \<ge> j. poissonUp left l j (poissonTerm l (j - 1)) s = s + (\<Sum>i = j..<m. poissonTerm l i)"
  using assms
proof (induction left arbitrary: j s)
  case (Suc left)
  let ?s1 = "s + poissonTerm l j"
  show ?case
  proof (cases "poissonTerm l j < ?s1 / 10 ^ 16")
    case True
    then show ?thesis using poissonTerm_Suc [OF Suc(2)] by (intro exI [of _ "Suc j"]) (simp add: Let_def)
  next
    case False
    obtain m where m: "m \<ge> Suc j" "poissonUp left l (Suc j) (poissonTerm l j) ?s1 = ?s1 + (\<Sum>i = Suc j..<m. poissonTerm l i)"
      using Suc(1) [of "Suc j" ?s1] by auto
    moreover have "(\<Sum>i = j..<m. poissonTerm l i) = poissonTerm l j + (\<Sum>i = Suc j..<m. poissonTerm l i)"
      using m(1) by (intro sum.atLeast_Suc_lessThan) simp
    ultimately show ?thesis using False poissonTerm_Suc [OF Suc(2)] by (intro exI [of _ m]) (simp add: Let_def)
  qed
next
  case 0
  then show ?case by (intro exI [of _ j]) simp
qed

lemma poissonDown_sum:
  assumes "0 < k"
  shows "fold (\<lambda>j (t, below). let t1 = t * (l / real j) in (t1, below + t1)) [1..<k] (exp (- l), exp (- l)) =
    (poissonTerm l (k - 1), \<Sum>j<k. poissonTerm l j)"
  using assms
proof (induction k)
  case (Suc k)
  show ?case
  proof (cases "k = 0")
    case False
    then show ?thesis using Suc(1) poissonTerm_Suc [of k l] by (simp add: Let_def)
  qed (simp add: poissonTerm_0)
qed simp

text \<open>C15: The tail of the Poisson distribution is never overestimated, so no window is called less likely than it is beyond rounding:
  from the mean up to the mean the tail is exact, and above it the sum stops early but holds at least the first term.\<close>

theorem poisson_tail_bounds:
  assumes "0 < l" "0 < k"
  shows "poissonTail l (int k) \<le> 1 - (\<Sum>j<k. exp (- l) * l ^ j / fact j) \<and> exp (- l) * l ^ k / fact k \<le> poissonTail l (int k) \<and>
    (real k \<le> l \<longrightarrow> poissonTail l (int k) = 1 - (\<Sum>j<k. exp (- l) * l ^ j / fact j))"
proof (cases "l < real k")
  case True
  have t: "exp (- l + of_int (int k) * ln l - ln (fact k)) = poissonTerm l k"
  proof -
    have "exp (real k * ln l) = l ^ k" using assms(1) by (simp add: exp_of_nat_mult)
    then show ?thesis by (simp add: poissonTerm_def exp_add exp_diff exp_minus divide_inverse)
  qed
  obtain m where m: "m \<ge> Suc k" "poissonUp 9999 l (Suc k) (poissonTerm l k) (poissonTerm l k) = poissonTerm l k + (\<Sum>i = Suc k..<m. poissonTerm l i)"
    using poissonUp_sum [of "Suc k" 9999 l "poissonTerm l k"] by auto
  have sum: "poissonTerm l k + (\<Sum>i = Suc k..<m. poissonTerm l i) = (\<Sum>i<m. poissonTerm l i) - (\<Sum>i<k. poissonTerm l i)"
  proof -
    have "poissonTerm l k + (\<Sum>i = Suc k..<m. poissonTerm l i) = (\<Sum>i = k..<m. poissonTerm l i)"
      using m(1) by (intro sum.atLeast_Suc_lessThan [symmetric]) simp
    also have "\<dots> = (\<Sum>i<m. poissonTerm l i) - (\<Sum>i<k. poissonTerm l i)"
      using sum_diff_nat_ivl [of 0 k m "poissonTerm l"] m(1) by (simp add: lessThan_atLeast0)
    finally show ?thesis .
  qed
  have v: "poissonTail l (int k) = min 1 (poissonTerm l k + (\<Sum>i = Suc k..<m. poissonTerm l i))"
  proof -
    have "\<not> int k \<le> 0" "\<not> \<not> l > 0" "l < of_int (int k)" "nat (int k) = k" using True assms by simp_all
    then show ?thesis unfolding poissonTail_def Let_def by (simp only: if_False if_True t m(2) Suc_eq_plus1 [symmetric])
  qed
  have "0 \<le> (\<Sum>i = Suc k..<m. poissonTerm l i)" using poissonTerm_pos [OF assms(1)] by (intro sum_nonneg) (simp add: less_imp_le)
  moreover have "poissonTerm l k \<le> 1"
    using poisson_sum_le [OF assms(1), of "Suc k"] sum_nonneg [of "{..<k}" "poissonTerm l"] poissonTerm_pos [OF assms(1)]
    by (simp add: less_imp_le)
  ultimately have "poissonTerm l k \<le> poissonTail l (int k)" unfolding v by simp
  moreover have "poissonTail l (int k) \<le> 1 - (\<Sum>i<k. poissonTerm l i)"
    unfolding v sum using poisson_sum_le [OF assms(1), of m] by simp
  ultimately show ?thesis using True by (simp add: poissonTerm_def)
next
  case False
  let ?below = "\<Sum>j<k. poissonTerm l j"
  have "0 \<le> ?below" using poissonTerm_pos [OF assms(1)] by (intro sum_nonneg) (simp add: less_imp_le)
  moreover have "?below + poissonTerm l k \<le> 1" using poisson_sum_le [OF assms(1), of "Suc k"] by simp
  moreover have "0 < poissonTerm l k" by (rule poissonTerm_pos [OF assms(1)])
  moreover have "poissonTail l (int k) = max 0 (min (1 - ?below) 1)"
    using False assms poissonDown_sum [OF assms(2), of l] by (simp add: poissonTail_def)
  ultimately have "poissonTail l (int k) = 1 - ?below" "poissonTerm l k \<le> 1 - ?below" by auto
  then show ?thesis by (simp add: poissonTerm_def)
qed

theorem poisson_tail_bounds_witness: "poissonTail 2 1 = 1 - exp (- 2) \<and> exp (- (1 / 2)) * (1 / 2) ^ 3 / 6 \<le> poissonTail (1 / 2) 3"
proof -
  have "poissonTail 2 1 = 1 - exp (- 2)" using poisson_tail_bounds [of 2 1] by simp
  moreover have "exp (- (1 / 2)) * (1 / 2) ^ 3 / 6 \<le> poissonTail (1 / 2) 3"
    using poisson_tail_bounds [of "1 / 2" 3] by (simp add: fact_numeral)
  ultimately show ?thesis ..
qed

end
