(* ===== verification/StatsCorrect.thy ===== *)
theory StatsCorrect
  imports NetworkStats SybilCorrect
begin

text \<open>
  The statistics count addresses: each figure is the number of addresses with a property, and every answering address weighs exactly
  one in each of the distributions, however many nodes it runs. The estimates of the network's size stay within what they are made from.
\<close>

section \<open>Sums\<close>

lemma fold_adds:
  fixes g :: "'a \<Rightarrow> 'n :: comm_monoid_add"
  assumes "\<And>x a. x \<in> set xs \<Longrightarrow> g (f x a) = g a + h x"
  shows "g (fold f xs a) = g a + sum_list (map h xs)"
  using assms by (induction xs arbitrary: a) (simp_all add: add.assoc)

lemma fold_frame: "(\<And>x a. g (f x a) = g a) \<Longrightarrow> g (fold f xs a) = g a"
  by (induction xs arbitrary: a) simp_all

definition weightOf :: "('k \<times> rat) list \<Rightarrow> rat" where
  "weightOf m = sum_list (map snd m)"

lemma weightOf_simps [simp]: "weightOf [] = 0" "weightOf (x # m) = snd x + weightOf m"
  by (simp_all add: weightOf_def)

lemma weightOf_addTo [simp]: "weightOf (addTo key w m) = weightOf m + w"
proof -
  have "weightOf (AList.update key ((case map_of m key of None \<Rightarrow> 0 | Some x \<Rightarrow> x) + w) m) = weightOf m + w"
    by (induction m) (auto simp: add.commute)
  then show ?thesis by (simp add: addTo_def)
qed

lemma weightOf_regroup: "weightOf (fold (\<lambda>(key, w). addTo (f key) w) vs m) = weightOf m + weightOf vs"
  by (induction vs arbitrary: m) (auto simp: add.assoc split: prod.splits)

lemma sum_fun_upd: "finite A \<Longrightarrow> i \<in> A \<Longrightarrow> (\<Sum>j \<in> A. (f(i := f i + w)) j) = (\<Sum>j \<in> A. f j) + (w :: rat)"
  by (simp add: sum.remove [of A i])

lemma sum_count: "sum_list (map (\<lambda>x. if P x then 1 else 0) xs) = int (length (filter P xs))"
  by (induction xs) simp_all

lemma sum_count_rat: "sum_list (map (\<lambda>x. if P x then 1 else 0) xs) = (of_nat (length (filter P xs)) :: rat)"
  by (induction xs) simp_all

lemma sum_sort_by: "sum_list (map f (sort_by lt xs)) = (sum_list (map f xs) :: 'a :: comm_monoid_add)"
  by (metis mset_map mset_sort_by sum_mset_sum_list)

section \<open>One address\<close>

lemma walk_facts:
  "aw_connected (fold walkEntry run w) \<longleftrightarrow> aw_connected w \<or> list_ex (\<lambda>e. ce_lastAnswered e > 0) run"
  "aw_answering (fold walkEntry run w) = aw_answering w + int (length (filter (\<lambda>e. ce_state e = Responsive) run))"
proof -
  have 1: "aw_connected (walkEntry e w) \<longleftrightarrow> aw_connected w \<or> ce_lastAnswered e > 0" for e w by (simp add: walkEntry_def Let_def)
  show "aw_connected (fold walkEntry run w) \<longleftrightarrow> aw_connected w \<or> list_ex (\<lambda>e. ce_lastAnswered e > 0) run"
    by (induction run arbitrary: w) (auto simp: 1)
  have 2: "aw_answering (walkEntry e w) = aw_answering w + (if ce_state e = Responsive then 1 else 0)" for e w by (simp add: walkEntry_def Let_def)
  show "aw_answering (fold walkEntry run w) = aw_answering w + int (length (filter (\<lambda>e. ce_state e = Responsive) run))"
    by (induction run arbitrary: w) (auto simp: 2)
qed

text \<open>The plain counters, and the distributions of the weight of an address.\<close>

definition counters where
  "counters a = (ac_heardIps a, ac_connectedIps a, ac_answeringIps a, ac_unroutableIps a, ac_answeringNodes a)"

definition spread where
  "spread a = (ac_versions a, ac_bep42 a, ac_ports a)"

lemma frame_feature [simp]: "counters (tallyFeature i t y w a) = counters a" "spread (tallyFeature i t y w a) = spread a"
  by (simp_all add: tallyFeature_def counters_def spread_def)

lemma frame_other [simp]:
  "counters (a\<lparr>ac_unknownOther := x, ac_unknownOtherError := y\<rparr>) = counters a" "counters (a\<lparr>ac_samples := ss\<rparr>) = counters a"
  "spread (a\<lparr>ac_unknownOther := x, ac_unknownOtherError := y\<rparr>) = spread a" "spread (a\<lparr>ac_samples := ss\<rparr>) = spread a"
  by (simp_all add: counters_def spread_def)

lemma frame_features [simp]: "counters (weighFeatures w e a) = counters a" "spread (weighFeatures w e a) = spread a"
  by (simp_all add: weighFeatures_def Let_def)

lemma frame_rtt [simp]: "counters (weighRtt w e a) = counters a" "spread (weighRtt w e a) = spread a"
  by (simp_all add: weighRtt_def Let_def counters_def spread_def)

lemma frame_churn [simp]: "counters (churnAddress c now w a) = counters a" "spread (churnAddress c now w a) = spread a"
  by (simp_all add: churnAddress_def countUp_def countGone_def Let_def counters_def spread_def)

lemma weighEntry_counters [simp]: "counters (weighEntry w e a) = counters a"
  unfolding weighEntry_def Let_def frame_features(1) by (simp add: counters_def weighRtt_def Let_def)

lemma weighEntry_spread:
  "spread (weighEntry w e a) = (addTo (versionKey e) w (ac_versions a), (ac_bep42 a)(min (unat (ce_bep42 e)) 3 := ac_bep42 a (min (unat (ce_bep42 e)) 3) + w),
     (ac_ports a)(unat (ce_port e) := ac_ports a (unat (ce_port e)) + w))"
  unfolding weighEntry_def Let_def frame_features(2) by (simp add: spread_def weighRtt_def Let_def)

definition versionWeight :: "accumulator \<Rightarrow> rat" where "versionWeight a = weightOf (ac_versions a)"
definition bep42Weight :: "accumulator \<Rightarrow> rat" where "bep42Weight a = (\<Sum>i<4. ac_bep42 a i)"
definition portWeight :: "accumulator \<Rightarrow> rat" where "portWeight a = (\<Sum>p<65536. ac_ports a p)"

lemmas weight_defs = versionWeight_def bep42Weight_def portWeight_def

lemma weight_frame: "spread a = spread b \<Longrightarrow> versionWeight a = versionWeight b \<and> bep42Weight a = bep42Weight b \<and> portWeight a = portWeight b"
  by (simp add: spread_def weight_defs)

lemma weighEntry_weights:
  "versionWeight (weighEntry w e a) = versionWeight a + w" "bep42Weight (weighEntry w e a) = bep42Weight a + w"
  "portWeight (weighEntry w e a) = portWeight a + w"
proof -
  note s = weighEntry_spread [of w e a, unfolded spread_def, simplified]
  show "versionWeight (weighEntry w e a) = versionWeight a + w" using s by (simp add: weight_defs)
  show "bep42Weight (weighEntry w e a) = bep42Weight a + w" using s by (simp add: weight_defs sum_fun_upd del: fun_upd_apply)
  have "unat (ce_port e) < 65536" using unsigned_less [of "ce_port e"] by simp
  then show "portWeight (weighEntry w e a) = portWeight a + w" using s by (simp add: weight_defs sum_fun_upd del: fun_upd_apply)
qed

text \<open>What an address adds.\<close>

definition routable :: "catalog_entry \<Rightarrow> bool" where "routable e \<longleftrightarrow> ce_state e \<noteq> Unroutable"
definition responsive :: "catalog_entry \<Rightarrow> bool" where "responsive e \<longleftrightarrow> ce_state e = Responsive"
definition everAnswered :: "catalog_entry \<Rightarrow> bool" where "everAnswered e \<longleftrightarrow> ce_lastAnswered e > 0"

lemma responsive_routable: "list_ex responsive run \<Longrightarrow> list_ex routable run"
  by (force simp: list_ex_iff responsive_def routable_def)

lemma weighAddress_counters:
  "counters (weighAddress run n a) = counters (if n > 0 then a\<lparr>ac_answeringIps := ac_answeringIps a + 1, ac_answeringNodes := ac_answeringNodes a + n\<rparr> else a)"
proof (cases "n > 0")
  case True
  have "counters (fold (weighEntry (1 / of_int n)) xs b) = counters b" for xs b by (rule fold_frame) simp
  with True show ?thesis by (simp add: weighAddress_def Let_def) (simp add: counters_def)
qed (simp add: weighAddress_def)

lemma weighAddress_weights:
  fixes f :: "accumulator \<Rightarrow> rat"
  assumes "f \<in> {versionWeight, bep42Weight, portWeight}" "n = int (length (filter responsive run))"
  shows "f (weighAddress run n a) = f a + (if n > 0 then 1 else 0)"
proof (cases "n > 0")
  case True
  let ?b = "a\<lparr>ac_answeringIps := ac_answeringIps a + 1, ac_answeringNodes := ac_answeringNodes a + n,
     ac_multiNodeIps := ac_multiNodeIps a + (if n > 1 then 1 else 0), ac_maxNodesPerIp := max (ac_maxNodesPerIp a) n\<rparr>"
  have fr: "f ?b = f a" using assms(1) weight_frame [of ?b a] by (auto simp: spread_def)
  have "f (fold (weighEntry (1 / of_int n)) (filter responsive run) ?b) = f ?b + sum_list (map (\<lambda>e. 1 / of_int n) (filter responsive run))"
    by (rule fold_adds) (use assms(1) weighEntry_weights in auto)
  also have "sum_list (map (\<lambda>e. 1 / of_int n) (filter responsive run)) = (1 :: rat)"
    using True assms(2) by (simp add: sum_list_triv)
  finally show ?thesis using True fr by (simp add: weighAddress_def Let_def responsive_def [abs_def])
qed (simp add: weighAddress_def)

lemma addressStats_counts:
  fixes a :: accumulator and c :: catalog and now :: int and run :: "catalog_entry list"
  defines "b \<equiv> addressStats c now run a"
  shows "ac_heardIps b = ac_heardIps a + (if list_ex routable run then 1 else 0)"
    "ac_unroutableIps b = ac_unroutableIps a + (if \<not> list_ex routable run then 1 else 0)"
    "ac_connectedIps b = ac_connectedIps a + (if list_ex routable run \<and> list_ex everAnswered run then 1 else 0)"
    "ac_answeringIps b = ac_answeringIps a + (if list_ex responsive run then 1 else 0)"
    "ac_answeringNodes b = ac_answeringNodes a + int (length (filter responsive run))"
    "f \<in> {versionWeight, bep42Weight, portWeight} \<Longrightarrow> f b = f a + (if list_ex responsive run then 1 else 0)"
proof -
  let ?n = "int (length (filter responsive run))"
  have n: "0 < ?n \<longleftrightarrow> list_ex responsive run" by (auto simp: list_ex_iff filter_empty_conv)
  have counts: "counters b = counters (if list_ex routable run
      then a\<lparr>ac_heardIps := ac_heardIps a + 1, ac_connectedIps := ac_connectedIps a + (if list_ex everAnswered run then 1 else 0),
        ac_answeringIps := ac_answeringIps a + (if list_ex responsive run then 1 else 0), ac_answeringNodes := ac_answeringNodes a + ?n\<rparr>
      else a\<lparr>ac_unroutableIps := ac_unroutableIps a + 1\<rparr>)"
    and weights: "f \<in> {versionWeight, bep42Weight, portWeight} \<Longrightarrow> f b = f a + (if list_ex responsive run then 1 else 0)"
  proof -
    let ?w = "fold walkEntry run startWalk"
    define a1 where "a1 = (if list_ex zeroPortEntry run then a\<lparr>ac_problems := bump 1 (ac_problems a)\<rparr> else a)"
    define a3 where "a3 = (if aw_connected ?w then a1\<lparr>ac_heardIps := ac_heardIps a1 + 1, ac_connectedIps := ac_connectedIps a1 + 1\<rparr>
      else a1\<lparr>ac_heardIps := ac_heardIps a1 + 1\<rparr>)"
    have w: "aw_connected ?w \<longleftrightarrow> list_ex everAnswered run" "aw_answering ?w = ?n"
      by (simp_all add: walk_facts startWalk_def everAnswered_def [abs_def] responsive_def [abs_def])
    have b: "b = (if list_ex routable run then weighAddress run ?n (churnAddress c now ?w a3)
        else a\<lparr>ac_unroutableIps := ac_unroutableIps a + 1, ac_problems := bump (min (unat (ce_failures (hd run))) 5) (ac_problems a)\<rparr>)"
      unfolding b_def addressStats_def Let_def w(2) [symmetric] a3_def a1_def by (simp add: routable_def [abs_def])
    have none: "\<not> list_ex routable run \<Longrightarrow> \<not> list_ex responsive run" using responsive_routable by blast
    have three: "ac_heardIps a3 = ac_heardIps a + 1" "ac_connectedIps a3 = ac_connectedIps a + (if list_ex everAnswered run then 1 else 0)"
      "ac_answeringIps a3 = ac_answeringIps a" "ac_answeringNodes a3 = ac_answeringNodes a" "ac_unroutableIps a3 = ac_unroutableIps a" "spread a3 = spread a"
      by (simp_all add: a3_def a1_def w(1) spread_def)
    show "counters b = counters (if list_ex routable run
      then a\<lparr>ac_heardIps := ac_heardIps a + 1, ac_connectedIps := ac_connectedIps a + (if list_ex everAnswered run then 1 else 0),
        ac_answeringIps := ac_answeringIps a + (if list_ex responsive run then 1 else 0), ac_answeringNodes := ac_answeringNodes a + ?n\<rparr>
      else a\<lparr>ac_unroutableIps := ac_unroutableIps a + 1\<rparr>)"
    proof (cases "list_ex routable run")
      case True
      note k = frame_churn(1) [of c now ?w a3, unfolded counters_def, simplified]
      show ?thesis
      proof (cases "0 < ?n")
        case up: True
        then have "list_ex responsive run" using n by blast
        with True up k three show ?thesis unfolding b if_P [OF True] weighAddress_counters if_P [OF up] by (simp add: counters_def)
      next
        case False
        then have "\<not> list_ex responsive run" "?n = 0" using n by auto
        with True k three show ?thesis unfolding b if_P [OF True] weighAddress_counters if_not_P [OF False] by (simp add: counters_def)
      qed
    next
      case False
      show ?thesis unfolding b if_not_P [OF False] by (simp add: counters_def)
    qed
    show "f b = f a + (if list_ex responsive run then 1 else 0)" if f: "f \<in> {versionWeight, bep42Weight, portWeight}"
    proof (cases "list_ex routable run")
      case True
      have "f (churnAddress c now ?w a3) = f a" using f weight_frame [of "churnAddress c now ?w a3" a] three(6) by auto
      then show ?thesis unfolding b if_P [OF True] weighAddress_weights [OF f refl] using n by simp
    next
      case False
      have "f (a\<lparr>ac_unroutableIps := x, ac_problems := y\<rparr>) = f a" for x y using f weight_frame [of "a\<lparr>ac_unroutableIps := x, ac_problems := y\<rparr>" a]
        by (auto simp: spread_def)
      then show ?thesis unfolding b if_not_P [OF False] using none [OF False] by simp
    qed
  qed
  have r: "\<not> list_ex routable run \<Longrightarrow> ?n = 0 \<and> \<not> list_ex responsive run" using responsive_routable [of run] n by auto
  show "ac_heardIps b = ac_heardIps a + (if list_ex routable run then 1 else 0)"
    "ac_unroutableIps b = ac_unroutableIps a + (if \<not> list_ex routable run then 1 else 0)"
    "ac_connectedIps b = ac_connectedIps a + (if list_ex routable run \<and> list_ex everAnswered run then 1 else 0)"
    "ac_answeringIps b = ac_answeringIps a + (if list_ex responsive run then 1 else 0)"
    "ac_answeringNodes b = ac_answeringNodes a + int (length (filter responsive run))"
    using counts r by (simp_all add: counters_def split: if_splits)
  show "f \<in> {versionWeight, bep42Weight, portWeight} \<Longrightarrow> f b = f a + (if list_ex responsive run then 1 else 0)" by (rule weights)
qed

section \<open>A family\<close>

lemma familyStats_split:
  "fst (fold (familyStats c now) rs ab) = fold (addressStats c now) (filter (\<lambda>r. isIPv4Entry (hd r)) rs) (fst ab)"
  "snd (fold (familyStats c now) rs ab) = fold (addressStats c now) (filter (\<lambda>r. \<not> isIPv4Entry (hd r)) rs) (snd ab)"
  by (induction rs arbitrary: ab) (auto simp: familyStats_def split: prod.splits)

definition usedEntries :: "catalog \<Rightarrow> catalog_entry list" where
  "usedEntries c = filter ce_inUse (nc_entries c)"

definition addressRuns :: "catalog \<Rightarrow> catalog_entry list list" where
  "addressRuns c = runs (\<lambda>a b. ce_address a = ce_address b) (sort_by (\<lambda>a b. ce_address a < ce_address b) (usedEntries c))"

definition familyRuns :: "Family \<Rightarrow> catalog \<Rightarrow> catalog_entry list list" where
  "familyRuns F c = filter (\<lambda>r. isIPv4Entry (hd r) = (F = IPv4)) (addressRuns c)"

definition familyAccumulator :: "Family \<Rightarrow> catalog \<Rightarrow> int \<Rightarrow> accumulator" where
  "familyAccumulator F c now = (if F = IPv4 then fst (gatherStats c now) else snd (gatherStats c now))"

lemma familyAccumulator_fold: "familyAccumulator F c now = fold (addressStats c now) (familyRuns F c) emptyAccumulator"
  by (cases F) (simp_all add: familyAccumulator_def gatherStats_def familyStats_split familyRuns_def addressRuns_def usedEntries_def Let_def)

lemma addressRuns_facts:
  assumes "r \<in> set (addressRuns c)"
  shows "r \<noteq> []" "e \<in> set r \<longleftrightarrow> e \<in> set (usedEntries c) \<and> ce_address e = ce_address (hd r)"
proof -
  let ?xs = "sort_by (\<lambda>a b. ce_address a < ce_address b) (usedEntries c)"
  have s: "sorted (map ce_address ?xs)" by (rule sort_by_key) auto
  note r = runs_sorted [OF s, of "\<lambda>a b. ce_address a = ce_address b", OF _ assms [unfolded addressRuns_def], simplified]
  show "r \<noteq> []" using r(1) .
  show "e \<in> set r \<longleftrightarrow> e \<in> set (usedEntries c) \<and> ce_address e = ce_address (hd r)"
    using arg_cong [OF r(2), of set] by auto
qed

lemma addressRuns_heads:
  "distinct (map (\<lambda>r. ce_address (hd r)) (addressRuns c))" "concat (addressRuns c) = sort_by (\<lambda>a b. ce_address a < ce_address b) (usedEntries c)"
proof -
  let ?xs = "sort_by (\<lambda>a b. ce_address a < ce_address b) (usedEntries c)"
  have s: "sorted (map ce_address ?xs)" by (rule sort_by_key) auto
  note h = heads_sorted(1) [OF s, of "\<lambda>a b. ce_address a = ce_address b", OF refl]
  show "distinct (map (\<lambda>r. ce_address (hd r)) (addressRuns c))" unfolding addressRuns_def using strict_distinct [OF h] by simp
qed (simp add: addressRuns_def)

lemma same_family: "ce_address e = ce_address f \<Longrightarrow> isIPv4Entry e = isIPv4Entry f"
  by (simp add: isIPv4Entry_def)

text \<open>The addresses of a family with an entry of a kind.\<close>

definition familyEntries :: "Family \<Rightarrow> catalog \<Rightarrow> catalog_entry set" where
  "familyEntries F c = {e \<in> set (usedEntries c). entryFamily e = F}"

lemma run_addresses_with:
  "(\<lambda>r. ce_address (hd r)) ` set (filter (list_ex P) (familyRuns F c)) = ce_address ` {e \<in> familyEntries F c. P e}"
proof
  show "ce_address ` {e \<in> familyEntries F c. P e} \<subseteq> (\<lambda>r. ce_address (hd r)) ` set (filter (list_ex P) (familyRuns F c))"
  proof (rule image_subsetI)
    fix e assume "e \<in> {e \<in> familyEntries F c. P e}"
    then have e: "e \<in> set (usedEntries c)" "entryFamily e = F" "P e" by (simp_all add: familyEntries_def)
    then have "e \<in> set (concat (addressRuns c))" by (simp add: addressRuns_heads(2))
    then obtain r where r: "r \<in> set (addressRuns c)" "e \<in> set r" by auto
    note a = addressRuns_facts [OF r(1)]
    have "ce_address e = ce_address (hd r)" using r(2) a(2) by blast
    moreover from this have "isIPv4Entry (hd r) = isIPv4Entry e" by (intro same_family) simp
    moreover have "isIPv4Entry e = (F = IPv4)" using e(2) by (cases F) (simp_all add: entryFamily_def split: if_splits)
    ultimately show "ce_address e \<in> (\<lambda>r. ce_address (hd r)) ` set (filter (list_ex P) (familyRuns F c))"
      using r e(3) by (intro image_eqI [of _ _ r]) (auto simp: familyRuns_def list_ex_iff)
  qed
  show "(\<lambda>r. ce_address (hd r)) ` set (filter (list_ex P) (familyRuns F c)) \<subseteq> ce_address ` {e \<in> familyEntries F c. P e}"
  proof (rule image_subsetI)
    fix r assume "r \<in> set (filter (list_ex P) (familyRuns F c))"
    then have r: "r \<in> set (addressRuns c)" "isIPv4Entry (hd r) = (F = IPv4)" and "list_ex P r" by (auto simp: familyRuns_def)
    then obtain e where e: "e \<in> set r" "P e" by (auto simp: list_ex_iff)
    note a = addressRuns_facts(2) [OF r(1), of e]
    have "isIPv4Entry e = isIPv4Entry (hd r)" using a e(1) by (intro same_family) simp
    then have "entryFamily e = F" using r(2) by (cases F) (simp_all add: entryFamily_def)
    with a e show "ce_address (hd r) \<in> ce_address ` {e \<in> familyEntries F c. P e}"
      by (intro image_eqI [of _ _ e]) (auto simp: familyEntries_def)
  qed
qed

lemma count_runs: "int (length (filter Q (familyRuns F c))) = int (card ((\<lambda>r. ce_address (hd r)) ` set (filter Q (familyRuns F c))))"
proof -
  have "distinct (map (\<lambda>r. ce_address (hd r)) (filter Q (familyRuns F c)))"
    unfolding familyRuns_def by (intro distinct_map_filter addressRuns_heads(1))
  then show ?thesis by (metis distinct_card length_map set_map)
qed

definition addressesWith :: "Family \<Rightarrow> catalog \<Rightarrow> (catalog_entry \<Rightarrow> bool) \<Rightarrow> bytes set" where
  "addressesWith F c P = ce_address ` {e \<in> familyEntries F c. P e}"

lemma run_heads_inj: "inj_on (\<lambda>r. ce_address (hd r)) (set (familyRuns F c))"
proof -
  have "distinct (map (\<lambda>r. ce_address (hd r)) (familyRuns F c))" unfolding familyRuns_def by (intro distinct_map_filter addressRuns_heads(1))
  then show ?thesis by (simp add: distinct_map)
qed

lemma count_with: "int (length (filter (list_ex P) (familyRuns F c))) = int (card (addressesWith F c P))"
  unfolding count_runs run_addresses_with addressesWith_def ..

lemma count_with_both: "int (length (filter (\<lambda>r. list_ex P r \<and> list_ex Q r) (familyRuns F c))) = int (card (addressesWith F c P \<inter> addressesWith F c Q))"
proof -
  let ?R = "set (familyRuns F c)" let ?f = "\<lambda>r :: catalog_entry list. ce_address (hd r)"
  have "?f ` set (filter (\<lambda>r. list_ex P r \<and> list_ex Q r) (familyRuns F c)) = ?f ` ({r \<in> ?R. list_ex P r} \<inter> {r \<in> ?R. list_ex Q r})"
    by (rule arg_cong [of _ _ "image ?f"]) auto
  also have "\<dots> = ?f ` {r \<in> ?R. list_ex P r} \<inter> ?f ` {r \<in> ?R. list_ex Q r}"
    by (rule inj_on_image_Int [OF run_heads_inj]) auto
  also have "\<dots> = addressesWith F c P \<inter> addressesWith F c Q"
    using run_addresses_with [of P F c] run_addresses_with [of Q F c] by (simp add: addressesWith_def)
  finally show ?thesis unfolding count_runs by simp
qed

lemma run_lengths: "sum_list (map (\<lambda>r. int (length (filter P r))) (familyRuns F c)) = int (length (filter (\<lambda>e. entryFamily e = F \<and> P e) (usedEntries c)))"
proof -
  have fam: "entryFamily e = F \<longleftrightarrow> isIPv4Entry (hd r) = (F = IPv4)" if "r \<in> set (addressRuns c)" "e \<in> set r" for r e
    using addressRuns_facts(2) [OF that(1), of e] that(2) same_family [of e "hd r"] by (cases F) (auto simp: entryFamily_def)
  have "sum_list (map (\<lambda>r. int (length (filter P r))) (filter (\<lambda>r. isIPv4Entry (hd r) = (F = IPv4)) rs)) =
      int (length (filter (\<lambda>e. entryFamily e = F \<and> P e) (concat rs)))" if "set rs \<subseteq> set (addressRuns c)" for rs
    using that
  proof (induction rs)
    case (Cons r rs)
    then have "filter (\<lambda>e. entryFamily e = F \<and> P e) r = (if isIPv4Entry (hd r) = (F = IPv4) then filter P r else [])"
      using fam [of r] by (auto intro!: filter_cong filter_False)
    with Cons show ?case by simp
  qed simp
  from this [of "addressRuns c"] have "sum_list (map (\<lambda>r. int (length (filter P r))) (familyRuns F c)) =
      int (length (filter (\<lambda>e. entryFamily e = F \<and> P e) (concat (addressRuns c))))" by (simp add: familyRuns_def)
  also have "length (filter (\<lambda>e. entryFamily e = F \<and> P e) (concat (addressRuns c))) = length (filter (\<lambda>e. entryFamily e = F \<and> P e) (usedEntries c))"
  proof -
    have "mset (filter P' (sort_by (\<lambda>a b. ce_address a < ce_address b) (usedEntries c))) = mset (filter P' (usedEntries c))" for P' by simp
    then show ?thesis unfolding addressRuns_heads(2) by (rule mset_eq_length)
  qed
  finally show ?thesis .
qed

lemma family_counts:
  fixes F c now
  defines "a \<equiv> familyAccumulator F c now"
  shows "ac_heardIps a = int (card (addressesWith F c routable))"
    "ac_heardIps a + ac_unroutableIps a = int (card (addressesWith F c (\<lambda>_. True)))"
    "ac_connectedIps a = int (card (addressesWith F c routable \<inter> addressesWith F c everAnswered))"
    "ac_answeringIps a = int (card (addressesWith F c responsive))"
    "ac_answeringNodes a = int (length (filter (\<lambda>e. entryFamily e = F \<and> responsive e) (usedEntries c)))"
    "f \<in> {versionWeight, bep42Weight, portWeight} \<Longrightarrow> f a = of_nat (card (addressesWith F c responsive))"
proof -
  let ?rs = "familyRuns F c"
  have a: "a = fold (addressStats c now) ?rs emptyAccumulator" unfolding a_def by (rule familyAccumulator_fold)
  have ne: "list_ex (\<lambda>_. True) r" if "r \<in> set ?rs" for r
  proof -
    have "r \<in> set (addressRuns c)" using that by (simp add: familyRuns_def)
    then have "r \<noteq> []" by (rule addressRuns_facts(1))
    then show ?thesis by (simp add: list_ex_iff ex_in_conv)
  qed
  have z: "ac_heardIps emptyAccumulator = 0" "ac_unroutableIps emptyAccumulator = 0" "ac_connectedIps emptyAccumulator = 0" "ac_answeringIps emptyAccumulator = 0"
    "ac_answeringNodes emptyAccumulator = 0" by (simp_all add: emptyAccumulator_def)
  have heard: "ac_heardIps a = int (length (filter (list_ex routable) ?rs))"
    unfolding a by (subst fold_adds [of _ ac_heardIps, OF addressStats_counts(1)]) (simp add: z sum_count)
  then show "ac_heardIps a = int (card (addressesWith F c routable))" by (simp add: count_with)
  have "ac_unroutableIps a = int (length (filter (\<lambda>r. \<not> list_ex routable r) ?rs))"
    unfolding a by (subst fold_adds [of _ ac_unroutableIps, OF addressStats_counts(2)]) (simp add: z sum_count)
  then have "ac_heardIps a + ac_unroutableIps a = int (length ?rs)" using heard sum_length_filter_compl [of "list_ex routable" ?rs] by linarith
  also have "?rs = filter (list_ex (\<lambda>_. True)) ?rs" using ne by simp
  finally show "ac_heardIps a + ac_unroutableIps a = int (card (addressesWith F c (\<lambda>_. True)))" using count_with by metis
  have "ac_connectedIps a = int (length (filter (\<lambda>r. list_ex routable r \<and> list_ex everAnswered r) ?rs))"
    unfolding a by (subst fold_adds [of _ ac_connectedIps, OF addressStats_counts(3)]) (simp add: z sum_count)
  then show "ac_connectedIps a = int (card (addressesWith F c routable \<inter> addressesWith F c everAnswered))" by (simp only: count_with_both)
  have "ac_answeringIps a = int (length (filter (list_ex responsive) ?rs))"
    unfolding a by (subst fold_adds [of _ ac_answeringIps, OF addressStats_counts(4)]) (simp add: z sum_count)
  then show "ac_answeringIps a = int (card (addressesWith F c responsive))" by (simp add: count_with)
  show "ac_answeringNodes a = int (length (filter (\<lambda>e. entryFamily e = F \<and> responsive e) (usedEntries c)))"
    unfolding a by (subst fold_adds [of _ ac_answeringNodes, OF addressStats_counts(5)]) (simp add: z run_lengths)
  assume f: "f \<in> {versionWeight, bep42Weight, portWeight}"
  have "f a = f emptyAccumulator + sum_list (map (\<lambda>r. if list_ex responsive r then 1 else 0) ?rs)"
    unfolding a by (rule fold_adds) (rule addressStats_counts(6) [OF f])
  also have "f emptyAccumulator = 0" using f by (auto simp: weight_defs emptyAccumulator_def)
  also have "sum_list (map (\<lambda>r. if list_ex responsive r then 1 else 0) ?rs) = (of_nat (length (filter (list_ex responsive) ?rs)) :: rat)"
    by (rule sum_count_rat)
  finally show "f a = of_nat (card (addressesWith F c responsive))" using count_with [of responsive F c] by simp
qed

section \<open>The figures\<close>

lemma clients_weight: "sum_list (map ct_count (clientTallies vs)) = weightOf vs" "sum_list (map ct_count (versionTallies vs)) = weightOf vs"
proof -
  have "sum_list (map ct_count (clientTallies vs)) = sum_list (map snd (byName vs))"
    unfolding clientTallies_def sum_sort_by by (simp add: case_prod_beta comp_def)
  then show "sum_list (map ct_count (clientTallies vs)) = weightOf vs"
    using weightOf_regroup [of "\<lambda>key. cl_client (labelsFor key)" vs "[]"] by (simp add: byName_def weightOf_def)
  have "sum_list (map ct_count (versionTallies vs)) = sum_list (map snd (byVersion vs))"
    unfolding versionTallies_def sum_sort_by by (simp add: case_prod_beta comp_def)
  then show "sum_list (map ct_count (versionTallies vs)) = weightOf vs"
    using weightOf_regroup [of "\<lambda>key. (cl_client (labelsFor key), cl_version (labelsFor key))" vs "[]"] by (simp add: byVersion_def weightOf_def)
qed

definition statsOf :: "Family \<Rightarrow> network_stats_set \<Rightarrow> network_stats" where
  "statsOf F S = (if F = IPv4 then nt_ipv4 S else nt_ipv6 S)"

lemma statsOf_summary: "statsOf F (computeNetworkStats c now keep) = summarise keep (familyAccumulator F c now)"
  by (cases F) (simp_all add: statsOf_def computeNetworkStats_def familyAccumulator_def case_prod_beta Let_def)


text \<open>The figures over both families are the sums of those of each.\<close>

lemma stats_of_both:
  fixes c now keep
  defines "S \<equiv> computeNetworkStats c now keep"
  shows "ns_heardIps (nt_all S) = ns_heardIps (nt_ipv4 S) + ns_heardIps (nt_ipv6 S)"
    "ns_answeringIps (nt_all S) = ns_answeringIps (nt_ipv4 S) + ns_answeringIps (nt_ipv6 S)"
    "ns_unroutableIps (nt_all S) = ns_unroutableIps (nt_ipv4 S) + ns_unroutableIps (nt_ipv6 S)"
    "sum_list (map ct_count (ns_clients (nt_all S))) = sum_list (map ct_count (ns_clients (nt_ipv4 S))) + sum_list (map ct_count (ns_clients (nt_ipv6 S)))"
    "ns_bep42 (nt_all S) i = ns_bep42 (nt_ipv4 S) i + ns_bep42 (nt_ipv6 S) i"
proof -
  obtain v4 v6 where g: "gatherStats c now = (v4, v6)" by fastforce
  note w = weightOf_regroup [of "\<lambda>key. key"]
  show "ns_heardIps (nt_all S) = ns_heardIps (nt_ipv4 S) + ns_heardIps (nt_ipv6 S)"
    "ns_answeringIps (nt_all S) = ns_answeringIps (nt_ipv4 S) + ns_answeringIps (nt_ipv6 S)"
    "ns_unroutableIps (nt_all S) = ns_unroutableIps (nt_ipv4 S) + ns_unroutableIps (nt_ipv6 S)"
    "ns_bep42 (nt_all S) i = ns_bep42 (nt_ipv4 S) i + ns_bep42 (nt_ipv6 S) i"
    by (simp_all add: S_def computeNetworkStats_def g summarise_def addAccumulator_def emptyAccumulator_def Let_def)
  show "sum_list (map ct_count (ns_clients (nt_all S))) = sum_list (map ct_count (ns_clients (nt_ipv4 S))) + sum_list (map ct_count (ns_clients (nt_ipv6 S)))"
    by (simp add: S_def computeNetworkStats_def g summarise_def clients_weight addAccumulator_def emptyAccumulator_def w Let_def)
qed

section \<open>Estimates\<close>

lemma rank_in_range: "0 < n \<Longrightarrow> nat (max 1 (min x (int n)) - 1) < n"
  by (auto simp: max_def min_def)

lemma high_rank: "0 < n \<Longrightarrow> int ((n + 1) div 2) \<le> y \<Longrightarrow> n div 2 \<le> nat (max 1 (min (y + 1) (int n)) - 1)"
proof -
  assume n: "0 < n" and y: "int ((n + 1) div 2) \<le> y"
  have d: "n div 2 \<le> (n + 1) div 2" "n div 2 + 1 \<le> n" using n by simp_all
  have "int (n div 2) \<le> y" using y d(1) by linarith
  moreover have "int (n div 2) + 1 \<le> int n" using d(2) by linarith
  ultimately have "int (n div 2) + 1 \<le> min (y + 1) (int n)" by simp
  then show ?thesis by linarith
qed

lemma low_rank:
  assumes "0 < n" "x \<le> int (n div 2)"
  shows "nat (max 1 (min x (int n)) - 1) \<le> n div 2" "n mod 2 \<noteq> 1 \<Longrightarrow> nat (max 1 (min x (int n)) - 1) \<le> n div 2 - 1"
proof -
  have "max 1 (min x (int n)) \<le> max 1 (int (n div 2))" using assms(2) by simp
  then show "nat (max 1 (min x (int n)) - 1) \<le> n div 2" "n mod 2 \<noteq> 1 \<Longrightarrow> nat (max 1 (min x (int n)) - 1) \<le> n div 2 - 1"
    using assms(1) by linarith+
qed

text \<open>The size of the network is a median of estimates: the interval given with it consists of two of the estimates and holds the median, however
  few there are.\<close>

theorem size_interval:
  assumes "samples \<noteq> []"
  shows "let s = sizeSummary samples in se_low s \<le> se_median s \<and> se_median s \<le> se_high s \<and> se_low s \<in> set samples \<and> se_high s \<in> set samples"
proof -
  let ?n = "length samples" let ?v = "sort samples" let ?spread = "0.98 * sqrt (real ?n)"
  let ?low = "max 1 (min \<lfloor>real ?n / 2 - ?spread\<rfloor> (int ?n))" let ?high = "max 1 (min (\<lceil>real ?n / 2 + ?spread\<rceil> + 1) (int ?n))"
  have n: "0 < ?n" using assms(1) by simp
  have sp: "0 \<le> ?spread" by simp
  have fl: "\<lfloor>real ?n / 2 - ?spread\<rfloor> \<le> int (?n div 2)"
  proof -
    have "\<lfloor>real ?n / 2 - ?spread\<rfloor> \<le> \<lfloor>real ?n / 2\<rfloor>" using sp by (intro floor_mono) linarith
    also have "\<dots> = int (?n div 2)" using floor_divide_of_nat_eq [of ?n 2] by simp
    finally show ?thesis .
  qed
  have ce: "int ((?n + 1) div 2) \<le> \<lceil>real ?n / 2 + ?spread\<rceil>"
  proof -
    have "real ((?n + 1) div 2) < real ?n / 2 + 1" by linarith
    then show ?thesis using sp by linarith
  qed
  have at: "?v ! i \<le> ?v ! j" if "i \<le> j" "j < ?n" for i j using sorted_nth_mono [of ?v i j] that by simp
  have ranks: "nat (?low - 1) < ?n" "nat (?high - 1) < ?n" using n by (simp_all only: rank_in_range)
  have h: "?n div 2 \<le> nat (?high - 1)" "nat (?low - 1) \<le> ?n div 2" "?n mod 2 \<noteq> 1 \<Longrightarrow> nat (?low - 1) \<le> ?n div 2 - 1"
    using high_rank [OF n ce] low_rank [OF n fl] by simp_all
  define s where "s = sizeSummary samples"
  have s: "se_low s = ?v ! nat (?low - 1)" "se_high s = ?v ! nat (?high - 1)"
    "se_median s = (if ?n mod 2 = 1 then ?v ! (?n div 2) else (?v ! (?n div 2 - 1) + ?v ! (?n div 2)) / 2)"
    using n unfolding s_def sizeSummary_def Let_def by simp_all
  have "se_low s \<le> se_median s \<and> se_median s \<le> se_high s"
  proof (cases "?n mod 2 = 1")
    case True
    have "?n div 2 < ?n" using n by simp
    then show ?thesis unfolding s if_P [OF True] using at [OF h(2)] at [OF h(1) ranks(2)] by blast
  next
    case False
    have lt: "?n div 2 < ?n" using n by simp
    have lt1: "?n div 2 - 1 < ?n" "?n div 2 - 1 \<le> ?n div 2" using lt by linarith+
    have "?v ! nat (?low - 1) \<le> ?v ! (?n div 2 - 1)" by (rule at [OF h(3) [OF False] lt1(1)])
    moreover have "?v ! (?n div 2 - 1) \<le> ?v ! (?n div 2)" by (rule at [OF lt1(2) lt])
    moreover have "?v ! (?n div 2) \<le> ?v ! nat (?high - 1)" by (rule at [OF h(1) ranks(2)])
    moreover have "a \<le> (x + y) / 2 \<and> (x + y) / 2 \<le> b" if "a \<le> x" "x \<le> y" "y \<le> b" for a b x y :: rat using that by simp
    ultimately show ?thesis unfolding s if_not_P [OF False] by blast
  qed
  moreover have "se_low s \<in> set samples" "se_high s \<in> set samples"
    unfolding s using ranks nth_mem [of _ ?v] by (metis length_sort set_sort)+
  ultimately show ?thesis unfolding Let_def s_def [symmetric] by blast
qed

theorem size_interval_witness: "se_low (sizeSummary [5, 1, 3]) \<le> se_median (sizeSummary [5, 1, 3]) \<and> se_median (sizeSummary [5, 1, 3]) = 3"
proof -
  have "se_low (sizeSummary [5, 1, 3]) \<le> se_median (sizeSummary [5, 1, 3])" using size_interval [of "[5, 1, 3]"] unfolding Let_def by simp
  moreover have "se_median (sizeSummary [5, 1, 3]) = 3" by (simp add: sizeSummary_def Let_def)
  ultimately show ?thesis ..
qed

text \<open>The interval for the infohashes the network stores holds the range it is made for: that only the nodes with the extension store anything, and
  that all do.\<close>

lemma infohash_interval:
  fixes n low high :: real
  assumes "0 \<le> ft_yes (ns_features stats 0)" "ft_yes (ns_features stats 0) \<le> ft_tested (ns_features stats 0)" "0 \<le> ns_samplesMeanError stats" "0 \<le> low"
  defines "e \<equiv> estimateStoredInfohashes stats n low high"
  shows "ie_lowBound e \<le> ie_low e" "ie_low e \<le> ie_high e" "ie_high e \<le> ie_highBound e"
proof -
  have "ie_lowBound e \<le> ie_low e \<and> ie_low e \<le> ie_high e \<and> ie_high e \<le> ie_highBound e"
  proof (cases "\<not> n > 0 \<or> ns_samplesMean stats < 0 \<or> \<not> ft_tested (ns_features stats 0) > 0")
    case False
    let ?share = "real_of_rat (ft_yes (ns_features stats 0) / ft_tested (ns_features stats 0))"
    let ?m = "real_of_rat (ns_samplesMean stats)" let ?margin = "1.96 * ns_samplesMeanError stats"
    have share: "0 \<le> ?share" "?share \<le> 1" using assms(1,2) False by (simp_all add: of_rat_divide of_rat_less_eq)
    have m: "0 \<le> ?m" "0 \<le> ?margin" "0 < n" using False assms(3) by simp_all
    have 1: "n * ?share * ?m \<le> n * ?m" using share m by (intro mult_right_mono) (simp_all add: mult_left_le)
    have 2: "max 0 (min low n * ?share * (?m - ?margin)) \<le> n * ?share * ?m"
    proof -
      have "min low n * ?share * (?m - ?margin) \<le> n * ?share * ?m"
      proof (cases "0 \<le> ?m - ?margin")
        case True
        have "min low n * ?share * (?m - ?margin) \<le> n * ?share * (?m - ?margin)" using True share by (intro mult_right_mono) auto
        also have "\<dots> \<le> n * ?share * ?m" using share m by (intro mult_left_mono) auto
        finally show ?thesis .
      next
        case neg: False
        have "min low n * ?share * (?m - ?margin) \<le> 0" using neg share m assms(4) by (intro mult_nonneg_nonpos mult_nonneg_nonneg) auto
        moreover have "0 \<le> n * ?share * ?m" using share m by simp
        ultimately show ?thesis by linarith
      qed
      then show ?thesis using share m by simp
    qed
    have 3: "n * ?m \<le> max high n * (?m + ?margin)" using m by (intro mult_mono) auto
    have e: "ie_low e = n * ?share * ?m / Replicas" "ie_high e = n * ?m / Replicas"
      "ie_lowBound e = max 0 (min low n * ?share * (?m - ?margin) / Replicas)" "ie_highBound e = max high n * (?m + ?margin) / Replicas"
      using False by (simp_all add: e_def estimateStoredInfohashes_def Let_def)
    have 4: "max 0 (x / Replicas) \<le> y / Replicas" if "max 0 x \<le> y" for x y using that by (auto simp: Replicas_def)
    show ?thesis unfolding e using 4 [OF 2] 1 3 by (simp add: Replicas_def)
  qed (simp add: e_def estimateStoredInfohashes_def Let_def)
  then show "ie_lowBound e \<le> ie_low e" "ie_low e \<le> ie_high e" "ie_high e \<le> ie_highBound e" by simp_all
qed

end
