(* ===== verification/Spec2Isabelle.thy ===== *)
theory Spec2Isabelle
  imports NodeCorrect CrawlerCorrect CensusCorrect StatsCorrect
begin

text \<open>
  DHT Inspector is a node of the BitTorrent distributed hash table that also measures the network it is part of. This library is a
  model of its core, the directory \<^verbatim>\<open>src/dhtcore\<close>: the node itself (encodings, routing table, queries and answers, lookups, storage)
  and the measurements (the scan and its catalogue, the precise count, the statistics and the report on suspicious addresses).
  Definitions carry the names of the source; the manifest of the library gives the lines each one models.

  \<^bold>\<open>How the parts interact.\<close> A datagram comes in (\<open>onReadyRead\<close>), is decoded (\<open>bdecode\<close>, \<open>parse\<close>) and handled by the node
  (\<open>handleDatagram\<close>): a query is checked against the rate limiter, counted in the tally of those who query us, and answered from
  the routing table and the stores; a response is matched with its query by the RPC manager (\<open>handleReply\<close>) and handed to whoever
  asked. All queries of ours go through the RPC manager (\<open>query\<close>, \<open>drain\<close>), which holds them to a rate for each host and to a
  budget of new contacts. Lookups, the scan and the precise count send queries and react to reports of what became of them.
  The scan fills the catalogue, which the count starts from and which the statistics and the report read.

  \<^bold>\<open>The theories, from the bottom up.\<close> Each opens with what it holds.
  \<^item> \<open>Dht_Prelude\<close>: bytes, decimal and big-endian numbers, hash tables as association lists, sorting by a comparator
    (locales \<open>strict_weak_order\<close> and \<open>strict_key_order\<close>, interpreted where the code sorts), lemmas on lists.
  \<^item> \<open>NodeId\<close> (\<^verbatim>\<open>NodeId.cpp\<close>): identifiers, the XOR metric, shared prefixes, random identifiers in a prefix.
    \<open>Endpoint\<close> (\<^verbatim>\<open>Endpoint.cpp\<close>): addresses, their classes and the compact encoding.
    \<open>Bep42\<close> (\<^verbatim>\<open>Bep42.cpp\<close>, \<^verbatim>\<open>Crc32c.cpp\<close>): the table-driven checksum and identifiers derived from addresses.
    \<open>Bep44\<close> (\<^verbatim>\<open>Bep44.cpp\<close>): targets, signed bytes, signatures.
  \<^item> \<open>Bencode\<close> (\<^verbatim>\<open>Bencode.cpp\<close>): values, decoder with its warnings and errors, encoder. \<open>Krpc\<close> (\<^verbatim>\<open>Krpc.cpp\<close>): messages.
  \<^item> \<open>RoutingTable\<close> and \<open>TableKeys\<close> (\<^verbatim>\<open>RoutingTable.cpp\<close>): buckets, insertion, splitting, failures, the nearest nodes.
  \<^item> \<open>Storage\<close> and \<open>Throttling\<close> (\<^verbatim>\<open>Support.cpp\<close>): tokens, stored peers and items; the rate limiter, the contact budget and
    the vote on our own address. The locale \<open>token_bucket\<close> states what a store of tokens refilled over time promises.
  \<^item> \<open>RpcManager\<close> (\<^verbatim>\<open>RpcManager.cpp\<close>): pending queries, queues for each host, drain, replies and timeouts.
    \<open>Lookup\<close> (\<^verbatim>\<open>Lookup.cpp\<close>): candidates, queries in flight, results.
  \<^item> \<open>Inbound\<close> (\<^verbatim>\<open>Inbound.cpp\<close>): who queries us. \<open>DhtNode\<close> and \<open>NodeCorrect\<close> (\<^verbatim>\<open>DhtNode.cpp\<close>): the node, composed of all the above.
  \<^item> \<open>Probing\<close> and \<open>NodeCatalog\<close> (\<^verbatim>\<open>NodeCatalog.cpp\<close>): the open-addressing index, and the catalogue over it with stable slots,
    eviction and trimming, which together refine a finite map.
  \<^item> \<open>Crawler\<close> and \<open>CrawlerCorrect\<close> (\<^verbatim>\<open>Crawler.cpp\<close>): the scan. \<open>Census\<close> and \<open>CensusCorrect\<close> (\<^verbatim>\<open>Census.cpp\<close>): the precise count.
  \<^item> \<open>Grouping\<close>: walks over sorted vectors in runs, and why a run is the fibre of a key. \<open>Sybil\<close> and \<open>SybilCorrect\<close>
    (\<^verbatim>\<open>Sybil.cpp\<close>): signals of addresses that may be run by one party. \<open>ClientVersion\<close> (\<^verbatim>\<open>ClientVersion.cpp\<close>): what a version field says.
    \<open>NetworkStats\<close> and \<open>StatsCorrect\<close> (\<^verbatim>\<open>NetworkStats.cpp\<close>): the statistics and the estimates.
\<close>

text \<open>
  \<^bold>\<open>How code became definitions.\<close> An object is a record of its members and a member function is a function from the state, and what
  it reads from outside, to the state. Effects are part of the state: datagrams sent are appended to a list, signals are counted or
  listed. A callback is a token: the query is stored with it, and what becomes of the query is a report with that token, which
  the owner of the callback handles in a later step; that is also the order of events in the program, where replies arrive
  through the event loop. What the program takes from its surroundings is an argument: the time in milliseconds, random bytes and
  numbers (a function of the number of draws made so far), whether the socket takes a datagram, SHA-1 and Ed25519, Qt's hash of a key and
  Qt's predicates on addresses (the record \<open>qt_net\<close>, of which \<open>qt_doc\<close> is an instance that witnesses use). Integers of fixed width
  are words where their width matters; counters that cannot reach their width are integers. Doubles are exact rational numbers, or real
  numbers where the code takes square roots, logarithms or exponentials. Hash tables are association lists in an order of their own. Errors are
  values of option or sum types.

  \<^bold>\<open>What the lemmas show.\<close> For every stateful part there is an invariant, and every operation keeps it; \<open>reachable\<close> predicates close the
  operations under any interleaving with any arguments, and the properties hold in every reachable state. On top of that:
  decoder and encoder invert each other and the decoder accepts silently only what the encoder writes; the routing table holds only nodes
  that answered us, and keeps those that are not bad; no item is stored whose signature does not verify, and none without a token given to the
  sender; the node answers a query at most once and only to its sender; the sends to one host stay within the rate in every span of time;
  a lookup returns the nearest nodes that answered and never waits for nothing; the catalogue refines a finite map; the scan never
  loses track of a node it is to ask and its counters are exact; a slice of the precise count is counted only when nothing in it is left open,
  and the count ends; the signals and the statistics mean what they say, whatever the order of the catalogue.

  \<^bold>\<open>Fuel and termination.\<close> Loops are recursive functions. Where the recursion is not structural there is a measure, or fuel with a
  reason why it suffices: the decoder of bencoded values has as much fuel as there are bytes (and a theorem that it never runs out);
  the search for a free transaction identifier tries each of the 65536; probing takes at most as many steps as the table is long;
  draining the queues turns once for each host in the order; the scan and the count take at most as many entries from a queue in a tick as
  it holds or as the batch allows; the sum of the Poisson tail takes the 9999 terms of the code.

  \<^bold>\<open>Not modelled.\<close>
  \<^item> Sockets, timers and threads: a tick, an expiry or a datagram is an event that may come at any time.
  \<^item> \<open>DhtEngine\<close>, which owns the two nodes and the measurements and passes requests from the user interface to them, and the snapshots it
    takes; \<open>History\<close>, the record of the session over time; the passes of \<open>Crawler\<close> that only compute figures for it.
  \<^item> \<open>NodeList\<close> beyond the labels of clients: filtering, sorting and exporting the list of nodes; the parsing of host names, and
    the readable description of messages.
  \<^item> \<open>PortMapper\<close>, \<open>Upnp\<close> and \<open>Gateway\<close>: the conversation with the home router, which is network input and output, XML and HTTP through Qt.
  \<^item> The user interface (\<^verbatim>\<open>src/src\<close> and \<^verbatim>\<open>src/qml\<close>), the vendored cryptography (\<^verbatim>\<open>src/third_party\<close>), tests, tools and packaging.
  \<^item> Running time, memory, and the rounding of doubles.
\<close>

end
